(* ===== verification/Prelude.thy ===== *)
theory Prelude
  imports Main "HOL-Library.Word" "HOL-Library.Monad_Syntax"
begin

section \<open>Shared vocabulary of the development\<close>

text \<open>
  The program computes with GMP integers, machine words and byte vectors, and it can
  throw, trap or loop.  This theory fixes how the other theories write these down:
  \<^item> an \<open>mpz_t\<close> (and the class \<open>integer\<close> around it) is an \<open>int\<close>; GMP's
    floor division \<open>mpz_fdiv_q\<close>/\<open>mpz_fdiv_r\<close> is \<open>div\<close>/\<open>mod\<close> and
    its truncating division is \<open>tdiv\<close>/\<open>tmod\<close> below;
  \<^item> \<open>'a option\<close> is the result of code that returns (\<open>Some\<close>) or does not
    (\<open>None\<close>: a division by zero trap, a failed assertion or an endless loop);
  \<^item> \<open>'a res\<close> adds the C++ exceptions the code throws.
\<close>

named_theorems ret_iff \<open>when a monadic computation returns a given value\<close>
named_theorems disc_simps \<open>discriminants of the forms the operations build\<close>

subsection \<open>Results\<close>

text \<open>\<open>Stopped\<close> is the early return of a proving loop whose \<open>PerformExtraStep\<close> says to
  stop.\<close>

datatype vdf_error = RuntimeError string | Stopped

type_synonym 'a res = "(vdf_error + 'a) option"

definition ret :: "'a \<Rightarrow> 'a res" where
  "ret x = Some (Inr x)"

definition throw :: "string \<Rightarrow> 'a res" where
  "throw m = Some (Inl (RuntimeError m))"

definition bind_res :: "'a res \<Rightarrow> ('a \<Rightarrow> 'b res) \<Rightarrow> 'b res" where
  "bind_res m k = (case m of None \<Rightarrow> None | Some (Inl e) \<Rightarrow> Some (Inl e) | Some (Inr x) \<Rightarrow> k x)"

definition lift_opt :: "'a option \<Rightarrow> 'a res" where
  "lift_opt m = (case m of None \<Rightarrow> None | Some x \<Rightarrow> Some (Inr x))"

lemma bind_res_simps [simp]:
  "bind_res (ret x) k = k x"
  "bind_res None k = None"
  "bind_res (throw m) k = throw m"
  "bind_res (Some (Inr x)) k = k x"
  "bind_res (Some (Inl e)) k = Some (Inl e)"
  by (simp_all add: bind_res_def ret_def throw_def)

lemma lift_opt_simps [simp]:
  "lift_opt None = None"
  "lift_opt (Some x) = ret x"
  by (simp_all add: lift_opt_def ret_def)

lemma bind_res_ret_iff [ret_iff]:
  "bind_res m k = ret y \<longleftrightarrow> (\<exists>x. m = ret x \<and> k x = ret y)"
  by (auto simp: bind_res_def ret_def split: option.splits sum.splits)

lemma lift_opt_ret_iff [ret_iff]: "lift_opt m = ret y \<longleftrightarrow> m = Some y"
  by (auto simp: lift_opt_def ret_def split: option.splits)

lemma ret_inject [simp]: "ret x = ret y \<longleftrightarrow> x = y"
  by (simp add: ret_def)

lemma throw_not_ret [simp]: "throw m \<noteq> ret x" "ret x \<noteq> throw m"
  by (simp_all add: throw_def ret_def)

lemma none_not_ret [simp]: "None \<noteq> ret x" "ret x \<noteq> None"
  by (simp_all add: ret_def)

lemma none_not_throw [simp]: "None \<noteq> throw m" "throw m \<noteq> None"
  by (simp_all add: throw_def)

lemma bind_Some_iff [ret_iff]: "Option.bind m k = Some y \<longleftrightarrow> (\<exists>x. m = Some x \<and> k x = Some y)"
  by (cases m) auto

subsection \<open>Truncating division\<close>

definition tdiv :: "int \<Rightarrow> int \<Rightarrow> int" where
  "tdiv a b = sgn a * sgn b * (\<bar>a\<bar> div \<bar>b\<bar>)"

definition tmod :: "int \<Rightarrow> int \<Rightarrow> int" where
  "tmod a b = a - b * tdiv a b"

lemma tdiv_nonneg: "0 \<le> a \<Longrightarrow> 0 < b \<Longrightarrow> tdiv a b = a div b"
  by (cases "a = 0") (simp_all add: tdiv_def)

lemma tmod_nonneg: "0 \<le> a \<Longrightarrow> 0 < b \<Longrightarrow> tmod a b = a mod b"
  by (simp add: tmod_def tdiv_nonneg minus_mult_div_eq_mod)

lemma tdiv_uminus: "tdiv (- a) b = - tdiv a b"
  by (simp add: tdiv_def)

subsection \<open>Signed limbs and bit lengths\<close>

text \<open>\<open>s64\<close> is the value a 64-bit two's complement word has after an operation with
  that exact result.\<close>

definition s64 :: "int \<Rightarrow> int" where
  "s64 x = (x + 2 ^ 63) mod 2 ^ 64 - 2 ^ 63"

lemma s64_id: "- (2 ^ 63) \<le> x \<Longrightarrow> x < 2 ^ 63 \<Longrightarrow> s64 x = x"
  by (simp add: s64_def)

lemma s64_range: "- (2 ^ 63) \<le> s64 x" "s64 x < 2 ^ 63"
  by (simp_all add: s64_def)

text \<open>Unsigned products and sums of 32 and 64 bits.  They evaluate over \<open>int\<close>, which is
  binary.\<close>

definition wrap32 :: "nat \<Rightarrow> nat" where
  "wrap32 n = n mod 2 ^ 32"

definition wrap64 :: "nat \<Rightarrow> nat" where
  "wrap64 n = n mod 2 ^ 64"

lemma wrap_code [code]:
  "wrap32 n = (if int n < 4294967296 then n else nat (int n mod 4294967296))"
  "wrap64 n = (if int n < 18446744073709551616 then n else nat (int n mod 18446744073709551616))"
  by (simp_all add: wrap32_def wrap64_def nat_mod_distrib)

lemma wrap_id [simp]: "n < 2 ^ 32 \<Longrightarrow> wrap32 n = n" "n < 2 ^ 64 \<Longrightarrow> wrap64 n = n"
  by (simp_all add: wrap32_def wrap64_def)

lemma wrap32_le: "wrap32 n \<le> n"
  by (simp add: wrap32_def)

text \<open>\<open>mpz_sizeinbase (x, 2)\<close> is the bit length of the absolute value, 1 for zero.\<close>

function bit_length :: "int \<Rightarrow> nat" where
  "bit_length x = (if x \<le> 0 then 0 else Suc (bit_length (x div 2)))"
  by pat_completeness auto
termination
  by (relation "measure nat") auto

declare bit_length.simps [simp del]

definition sizeinbase2 :: "int \<Rightarrow> nat" where
  "sizeinbase2 x = (if x = 0 then 1 else bit_length \<bar>x\<bar>)"

lemma bit_length_bound: "0 \<le> x \<Longrightarrow> x < 2 ^ bit_length x"
proof (induction x rule: bit_length.induct)
  case (1 x)
  show ?case
  proof (cases "x = 0")
    case False
    with 1 have "x div 2 < 2 ^ bit_length (x div 2)" by simp
    then have "x < 2 * 2 ^ bit_length (x div 2)" by linarith
    with False 1(2) show ?thesis by (simp add: bit_length.simps [of x])
  qed (simp add: bit_length.simps)
qed

lemma sizeinbase2_bound: "\<bar>x\<bar> < 2 ^ sizeinbase2 x"
  using bit_length_bound [of "\<bar>x\<bar>"] by (simp add: sizeinbase2_def)

lemma bit_length_lower: "0 < x \<Longrightarrow> 2 ^ (bit_length x - 1) \<le> x"
proof (induction x rule: bit_length.induct)
  case (1 x)
  show ?case
  proof (cases "x = 1")
    case False
    with 1 have pos: "0 < x div 2" by linarith
    then have IH: "2 ^ (bit_length (x div 2) - 1) \<le> x div 2" using 1 by simp
    have "bit_length (x div 2) \<noteq> 0" using pos by (subst bit_length.simps) simp
    then have "(2 :: int) ^ bit_length (x div 2) = 2 * 2 ^ (bit_length (x div 2) - 1)"
      by (cases "bit_length (x div 2)") simp_all
    also have "\<dots> \<le> x" using IH by linarith
    finally show ?thesis using 1(2) by (simp add: bit_length.simps [of x])
  qed (simp add: bit_length.simps)
qed

lemma bit_length_le: "0 \<le> x \<Longrightarrow> bit_length x \<le> k \<longleftrightarrow> x < 2 ^ k"
proof
  assume "0 \<le> x" "bit_length x \<le> k"
  have "x < 2 ^ bit_length x" using \<open>0 \<le> x\<close> by (rule bit_length_bound)
  also have "(2 :: int) ^ bit_length x \<le> 2 ^ k" using \<open>bit_length x \<le> k\<close> by (intro power_increasing) auto
  finally show "x < 2 ^ k" .
next
  assume "0 \<le> x" and lt: "x < 2 ^ k"
  show "bit_length x \<le> k"
  proof (rule ccontr)
    assume k: "\<not> bit_length x \<le> k"
    then have "0 < x" using \<open>0 \<le> x\<close> by (cases "x = 0") (simp_all add: bit_length.simps)
    then have "2 ^ (bit_length x - 1) \<le> x" by (rule bit_length_lower)
    moreover have "(2 :: int) ^ k \<le> 2 ^ (bit_length x - 1)" using k by (intro power_increasing) auto
    ultimately show False using lt by linarith
  qed
qed

subsection \<open>Exact division\<close>

text \<open>\<open>mpz_divexact\<close> is only defined when the division is exact.\<close>

definition divexact :: "int \<Rightarrow> int \<Rightarrow> int option" where
  "divexact a b = (if b \<noteq> 0 \<and> b dvd a then Some (a div b) else None)"

lemma divexact_mult: "b \<noteq> 0 \<Longrightarrow> a = b * q \<Longrightarrow> divexact a b = Some q"
  by (simp add: divexact_def)

lemma divexact_SomeD: "divexact a b = Some q \<Longrightarrow> a = b * q \<and> b \<noteq> 0"
  by (auto simp: divexact_def split: if_splits)

lemma div_eq_if_mult: "b \<noteq> 0 \<Longrightarrow> a = b * q \<Longrightarrow> a div b = (q :: int)"
  by simp

lemma dvd_div_mult: "b dvd a \<Longrightarrow> b * (a div b) = (a :: int)"
  by simp

lemma even_sum_div2: "even (a + b) \<Longrightarrow> 2 * ((a + b) div 2) = (a + b :: int)"
  by simp

lemma even_diff_div2: "even (a + b) \<Longrightarrow> 2 * ((a - b) div 2) = (a - b :: int)"
  by simp

subsection \<open>Bezout coefficients\<close>

text \<open>
  \<open>mpz_gcdext\<close> is GMP code, so it is a parameter of the definitions that call it: a
  function from the two operands to the gcd and the two cofactors.  What the program
  relies on is the equation the GMP manual gives for it.
\<close>

type_synonym gcdext = "int \<Rightarrow> int \<Rightarrow> int \<times> int \<times> int"

definition gcdext_ok :: "gcdext \<Rightarrow> bool" where
  "gcdext_ok G \<longleftrightarrow> (\<forall>a b. case G a b of (g, s, t) \<Rightarrow> g = gcd a b \<and> a * s + b * t = g)"

lemma gcdext_okD:
  assumes "gcdext_ok G" and "G a b = (g, s, t)"
  shows "g = gcd a b" and "a * s + b * t = gcd a b"
  using assms by (simp_all add: gcdext_ok_def) (metis (mono_tags, lifting) case_prod_conv)+

lemma gcdext_ok_gcd [simp]: "gcdext_ok G \<Longrightarrow> fst (G a b) = gcd a b"
  by (cases "G a b") (simp add: gcdext_okD)

lemma gcdext_ok_bezout:
  "gcdext_ok G \<Longrightarrow> a * fst (snd (G a b)) + b * snd (snd (G a b)) = gcd a b"
  by (cases "G a b") (simp add: gcdext_okD)

text \<open>A concrete function with this behaviour, for the witnesses: the extended Euclidean
  algorithm on the absolute values.\<close>

function euclid_ext :: "nat \<Rightarrow> nat \<Rightarrow> int \<times> int" where
  "euclid_ext a b =
     (if b = 0 then (1, 0)
      else (case euclid_ext b (a mod b) of (s, t) \<Rightarrow> (t, s - int (a div b) * t)))"
  by pat_completeness auto
termination
  by (relation "measure snd") auto

declare euclid_ext.simps [simp del]

lemma euclid_ext_bezout:
  "int a * fst (euclid_ext a b) + int b * snd (euclid_ext a b) = gcd (int a) (int b)"
proof (induction a b rule: euclid_ext.induct)
  case (1 a b)
  show ?case
  proof (cases "b = 0")
    case True
    then show ?thesis by (simp add: euclid_ext.simps)
  next
    case False
    obtain s t where st: "euclid_ext b (a mod b) = (s, t)" by fastforce
    have IH: "int b * s + int (a mod b) * t = gcd (int b) (int (a mod b))"
      using "1.IH" [OF False] st by simp
    have "int a * t + int b * (s - int (a div b) * t) = int b * s + (int a - int b * int (a div b)) * t"
      by (simp add: algebra_simps)
    also have "int a - int b * int (a div b) = int (a mod b)"
      by (simp add: of_nat_mod of_nat_div minus_mult_div_eq_mod)
    also have "gcd (int b) (int (a mod b)) = gcd (int a) (int b)"
      by (metis gcd_red_int of_nat_mod)
    with IH have "int b * s + int (a mod b) * t = gcd (int a) (int b)" by simp
    finally show ?thesis using False st by (simp add: euclid_ext.simps [of a b])
  qed
qed

definition gcdext_ref :: gcdext where
  "gcdext_ref a b =
     (case euclid_ext (nat \<bar>a\<bar>) (nat \<bar>b\<bar>) of (s, t) \<Rightarrow> (gcd a b, sgn a * s, sgn b * t))"

lemma gcdext_ref_ok: "gcdext_ok gcdext_ref"
proof -
  have "a * (sgn a * s) + b * (sgn b * t) = gcd a b"
    if "euclid_ext (nat \<bar>a\<bar>) (nat \<bar>b\<bar>) = (s, t)" for a b s t
  proof -
    have "a * (sgn a * s) + b * (sgn b * t) = \<bar>a\<bar> * s + \<bar>b\<bar> * t"
      by (simp add: abs_sgn mult.assoc [symmetric] mult.commute [of "sgn _"])
    then show ?thesis using euclid_ext_bezout [of "nat \<bar>a\<bar>" "nat \<bar>b\<bar>"] that by simp
  qed
  then show ?thesis by (auto simp: gcdext_ok_def gcdext_ref_def split: prod.splits)
qed

lemma div_less_of_less_mult: "x < n * k \<Longrightarrow> 0 < k \<Longrightarrow> x div k < (n::int)"
proof -
  assume x: "x < n * k" and k: "0 < k"
  have "(x div k) * k \<le> x" using k by (simp add: minus_mod_eq_div_mult [symmetric])
  then have "(x div k) * k < n * k" using x by linarith
  with k show ?thesis by simp
qed

end
