(* ===== verification/Forms.thy ===== *)
theory Forms
  imports Prelude
begin

section \<open>Binary quadratic forms and their reduction\<close>

text \<open>
  \<open>struct form\<close> of \<open>vdf_new.h\<close> with its free functions \<open>normalize\<close>,
  \<open>reduce_impl\<close>, \<open>reduce\<close>, and its constructors \<open>from_abd\<close>,
  \<open>from_abc\<close>, \<open>identity\<close>, \<open>generator\<close>.  The three \<open>integer\<close>
  references the free functions overwrite are the form they take and return.  A division
  by zero (a GMP trap) is \<open>None\<close>; the reduction loop is a \<open>partial_function\<close>, so
  that not terminating is \<open>None\<close> as well, and \<open>reduce_total\<close> shows that it returns
  for every positive definite form.
\<close>

record form =
  fa :: int
  fb :: int
  fc :: int

abbreviation mk_form :: "int \<Rightarrow> int \<Rightarrow> int \<Rightarrow> form" where
  "mk_form a b c \<equiv> \<lparr>fa = a, fb = b, fc = c\<rparr>"

definition disc :: "form \<Rightarrow> int" where
  "disc f = fb f * fb f - 4 * fa f * fc f"

text \<open>The well-formedness invariant of every form the program computes with.\<close>

definition posdef :: "int \<Rightarrow> form \<Rightarrow> bool" where
  "posdef D f \<longleftrightarrow> 0 < fa f \<and> disc f = D"

subsection \<open>Reduction\<close>

definition normalize :: "form \<Rightarrow> form option" where
  "normalize f =
     (if fa f = 0 then None
      else let r = (fa f - fb f) div (2 * fa f)
           in Some (mk_form (fa f) (fb f + 2 * (r * fa f))
                     (fa f * r * r + fb f * r + fc f)))"

definition reduce_impl :: "form \<Rightarrow> form option" where
  "reduce_impl f =
     (if fc f = 0 then None
      else let s = (fc f + fb f) div (2 * fc f)
           in Some (mk_form (fc f) (2 * (s * fc f) - fb f)
                     (fc f * s * s - fb f * s + fa f)))"

definition reduce_cond :: "form \<Rightarrow> bool" where
  "reduce_cond f \<longleftrightarrow> fa f > fc f \<or> (fa f = fc f \<and> fb f < 0)"

partial_function (option) reduce_loop :: "form \<Rightarrow> form option" where
  "reduce_loop f = (if reduce_cond f then Option.bind (reduce_impl f) reduce_loop else Some f)"

declare reduce_loop.simps [code]

definition reduce :: "form \<Rightarrow> form option" where
  "reduce f = do { g \<leftarrow> normalize f; h \<leftarrow> reduce_loop g; normalize h }"

definition is_reduced :: "form \<Rightarrow> bool" where
  "is_reduced f \<longleftrightarrow>
     (fa f < fc f \<or> (fa f = fc f \<and> fb f \<ge> 0)) \<and> (\<bar>fa f\<bar> > \<bar>fb f\<bar> \<or> fa f = fb f)"

subsection \<open>Constructors\<close>

definition from_abd :: "int \<Rightarrow> int \<Rightarrow> int \<Rightarrow> form res" where
  "from_abd a b d =
     (if a \<le> 0 then throw ''Invalid form. Positive a''
      else if (b * b - d) mod \<bar>4 * a\<bar> \<noteq> 0 then throw ''Invalid form. Can't find c.''
      else lift_opt (reduce (mk_form a b ((b * b - d) div (4 * a)))))"

definition from_abc :: "int \<Rightarrow> int \<Rightarrow> int \<Rightarrow> form option" where
  "from_abc a b c = reduce (mk_form a b c)"

definition identity :: "int \<Rightarrow> form res" where
  "identity d = from_abd 1 1 d"

definition generator :: "int \<Rightarrow> form res" where
  "generator d = from_abd 2 1 d"

definition form_inverse :: "form \<Rightarrow> form option" where
  "form_inverse f = reduce (f\<lparr>fb := - fb f\<rparr>)"

definition check_valid :: "form \<Rightarrow> int \<Rightarrow> bool" where
  "check_valid f d \<longleftrightarrow> fb f * fb f - 4 * fa f * fc f = d"

definition generator_for_discriminant :: "int \<Rightarrow> form option" where
  "generator_for_discriminant d = reduce (mk_form 2 1 ((1 * 1 - d) div (4 * 2)))"

text \<open>\<open>form::operator<\<close> compares the triples \<open>(a, b, c)\<close>; it is a linear order.\<close>

definition form_less :: "'a::linorder form_scheme \<Rightarrow> 'a form_scheme \<Rightarrow> bool" where
  "form_less f g \<longleftrightarrow>
     fa f < fa g \<or> (fa f = fa g \<and> (fb f < fb g \<or> (fb f = fb g \<and>
       (fc f < fc g \<or> (fc f = fc g \<and> form.more f < form.more g)))))"

instantiation form_ext :: (linorder) linorder
begin

definition less_form_ext :: "'a form_scheme \<Rightarrow> 'a form_scheme \<Rightarrow> bool" where
  "less_form_ext = form_less"

definition less_eq_form_ext :: "'a form_scheme \<Rightarrow> 'a form_scheme \<Rightarrow> bool" where
  "less_eq_form_ext f g \<longleftrightarrow> form_less f g \<or> f = (g :: 'a form_scheme)"

instance
  by standard (auto simp: less_form_ext_def less_eq_form_ext_def form_less_def not_less_iff_gr_or_eq
      intro: form.equality)

end

subsection \<open>Discriminant and positive definiteness\<close>

lemma posdefI: "0 < fa f \<Longrightarrow> disc f = D \<Longrightarrow> posdef D f"
  by (simp add: posdef_def)

lemma posdefD: "posdef D f \<Longrightarrow> 0 < fa f" "posdef D f \<Longrightarrow> disc f = D"
  by (simp_all add: posdef_def)

lemma posdef_mk [simp]:
  "posdef D (mk_form a b c) \<longleftrightarrow> 0 < a \<and> b * b - 4 * a * c = D"
  by (simp add: posdef_def disc_def)

lemma posdef_c_pos:
  assumes "posdef D f" and "D < 0"
  shows "0 < fc f"
proof -
  have "4 * fa f * fc f = fb f * fb f - D" and a: "0 < fa f"
    using assms(1) by (auto simp: posdef_def disc_def)
  then have "0 < 4 * fa f * fc f"
    using assms(2) zero_le_square [of "fb f"] by linarith
  with a show ?thesis by (simp add: zero_less_mult_iff)
qed

lemma normalize_disc [disc_simps]: "normalize f = Some g \<Longrightarrow> disc g = disc f"
  by (auto simp: normalize_def disc_def Let_def algebra_simps split: if_splits)

lemma reduce_impl_disc [disc_simps]: "reduce_impl f = Some g \<Longrightarrow> disc g = disc f"
  by (auto simp: reduce_impl_def disc_def Let_def algebra_simps split: if_splits)

lemma normalize_a: "normalize f = Some g \<Longrightarrow> fa g = fa f"
  by (auto simp: normalize_def Let_def split: if_splits)

lemma normalize_posdef: "posdef D f \<Longrightarrow> normalize f = Some g \<Longrightarrow> posdef D g"
  by (auto simp: posdef_def normalize_disc normalize_a)

lemma reduce_impl_posdef:
  assumes "posdef D f" and "D < 0" and "reduce_impl f = Some g"
  shows "posdef D g"
proof -
  have "0 < fc f" using assms(1,2) by (rule posdef_c_pos)
  moreover have "fa g = fc f"
    using assms(3) by (auto simp: reduce_impl_def Let_def split: if_splits)
  ultimately show ?thesis
    using assms by (simp add: posdef_def reduce_impl_disc)
qed

definition normalized :: "form \<Rightarrow> bool" where
  "normalized f \<longleftrightarrow> - fa f < fb f \<and> fb f \<le> fa f"

lemma centred_residue:
  assumes "0 < (a::int)"
  shows "- a < b + 2 * (((a - b) div (2 * a)) * a)"
    and "b + 2 * (((a - b) div (2 * a)) * a) \<le> a"
proof -
  let ?r = "(a - b) div (2 * a)" and ?m = "(a - b) mod (2 * a)"
  have eq: "2 * a * ?r + ?m = a - b" by (rule mult_div_mod_eq)
  have "0 \<le> ?m" and "?m < 2 * a" using assms by simp_all
  then show "- a < b + 2 * (?r * a)" and "b + 2 * (?r * a) \<le> a"
    using eq by (simp_all add: algebra_simps)
qed

lemma normalize_normalized:
  assumes "0 < fa f" and "normalize f = Some g"
  shows "normalized g"
  using assms centred_residue [of "fa f" "fb f"]
  by (auto simp: normalize_def normalized_def Let_def split: if_splits)

lemma reduce_impl_normalized:
  assumes "0 < fc f" and "reduce_impl f = Some g"
  shows "normalized g"
  using assms centred_residue [of "fc f" "- fb f"]
  by (auto simp: reduce_impl_def normalized_def Let_def algebra_simps split: if_splits)

lemma normalize_idem: "normalized f \<Longrightarrow> normalize f = Some f"
proof -
  assume n: "normalized f"
  then have a: "0 < fa f" by (simp add: normalized_def)
  have "(fa f - fb f) div (2 * fa f) = 0"
    using n a by (intro div_pos_pos_trivial) (auto simp: normalized_def)
  with a show ?thesis by (simp add: normalize_def)
qed

subsection \<open>The reduction loop returns a reduced form\<close>

lemma reduce_impl_measure:
  assumes pos: "0 < fc f" and n: "normalized f" and c: "reduce_cond f"
    and g: "reduce_impl f = Some g"
  shows "fc f < fa f \<or> (fa g = fa f \<and> 0 \<le> fb g \<and> fb f < 0)"
proof (cases "fa f > fc f")
  case False
  with c have eq: "fa f = fc f" and neg: "fb f < 0" by (auto simp: reduce_cond_def)
  have "(fc f + fb f) div (2 * fc f) = 0"
    using n eq neg by (intro div_pos_pos_trivial) (auto simp: normalized_def)
  with g pos eq neg show ?thesis by (auto simp: reduce_impl_def)
qed simp

lemma reduce_loop_total:
  assumes "posdef D f" and "D < 0" and "normalized f"
  shows "\<exists>g. reduce_loop f = Some g \<and> posdef D g \<and> normalized g \<and> \<not> reduce_cond g"
  using assms
proof (induction "nat (2 * fa f + (if fb f < 0 then 1 else 0))" arbitrary: f rule: less_induct)
  case less
  show ?case
  proof (cases "reduce_cond f")
    case False
    then have "reduce_loop f = Some f" by (subst reduce_loop.simps) simp
    with False less.prems show ?thesis by blast
  next
    case True
    have c: "0 < fc f" using less.prems(1,2) by (rule posdef_c_pos)
    then obtain g where g: "reduce_impl f = Some g"
      by (auto simp: reduce_impl_def Let_def)
    have pg: "posdef D g" using less.prems(1,2) g by (rule reduce_impl_posdef)
    have ng: "normalized g" using c g by (rule reduce_impl_normalized)
    have ga: "fa g = fc f" using g c by (auto simp: reduce_impl_def Let_def)
    have "2 * fa g + (if fb g < 0 then 1 else 0) < 2 * fa f + (if fb f < 0 then 1 else 0)"
      using reduce_impl_measure [OF c less.prems(3) True g] ga by auto
    moreover have "0 < fa g" using pg by (rule posdefD)
    ultimately have "nat (2 * fa g + (if fb g < 0 then 1 else 0))
        < nat (2 * fa f + (if fb f < 0 then 1 else 0))"
      using posdefD(1) [OF less.prems(1)] by (auto simp: nat_less_iff nat_mono_iff)
    from less.hyps [OF this pg less.prems(2) ng]
    obtain h where h: "reduce_loop g = Some h" "posdef D h" "normalized h" "\<not> reduce_cond h"
      by blast
    have "reduce_loop f = Some h" using True g h(1) by (subst reduce_loop.simps) simp
    with h show ?thesis by blast
  qed
qed

lemma is_reduced_normalized:
  "0 < fa f \<Longrightarrow> is_reduced f \<longleftrightarrow> normalized f \<and> \<not> reduce_cond f"
  by (auto simp: is_reduced_def normalized_def reduce_cond_def)

lemma reduce_total:
  assumes "posdef D f" and "D < 0"
  shows "\<exists>g. reduce f = Some g \<and> posdef D g \<and> is_reduced g"
proof -
  obtain g where g: "normalize f = Some g"
    using posdefD(1) [OF assms(1)] by (auto simp: normalize_def Let_def)
  have pg: "posdef D g" using assms(1) g by (rule normalize_posdef)
  have ng: "normalized g" using posdefD(1) [OF assms(1)] g by (rule normalize_normalized)
  from reduce_loop_total [OF pg assms(2) ng]
  obtain h where h: "reduce_loop g = Some h" "posdef D h" "normalized h" "\<not> reduce_cond h"
    by blast
  have "reduce f = Some h" using g h by (simp add: reduce_def normalize_idem)
  with h show ?thesis using is_reduced_normalized [OF posdefD(1)] by blast
qed

lemma reduce_loop_id: "\<not> reduce_cond f \<Longrightarrow> reduce_loop f = Some f"
  by (subst reduce_loop.simps) simp

lemma reduce_id: "0 < fa f \<Longrightarrow> is_reduced f \<Longrightarrow> reduce f = Some f"
  by (simp add: reduce_def is_reduced_normalized normalize_idem reduce_loop_id)

end
