(* ===== verification/Lattice.thy ===== *)
theory Lattice
  imports Complex_Main Forms
begin

section \<open>The class group as lattices of complex numbers\<close>

text \<open>
  The specification side of the development.  A positive definite form \<open>(a, b, c)\<close> of
  discriminant \<open>D < 0\<close> stands for the lattice spanned by \<open>2 a\<close> and
  \<open>sqrt D - b\<close> in the complex plane.  Two forms are in the same class when their
  lattices differ by a nonzero complex factor, and the product of two classes is the class
  of the product lattice.  \<open>compose_lattices\<close> is the arithmetic criterion by which the
  composition routines of the program are proved to multiply classes, and
  \<open>reduced_unique\<close> says that a class contains one reduced form.
\<close>

subsection \<open>Additive subgroups generated by a set\<close>

inductive_set gen :: "complex set \<Rightarrow> complex set" for S where
  gen_zero: "0 \<in> gen S"
| gen_plus: "x \<in> gen S \<Longrightarrow> s \<in> S \<Longrightarrow> x + s \<in> gen S"
| gen_minus: "x \<in> gen S \<Longrightarrow> s \<in> S \<Longrightarrow> x - s \<in> gen S"

definition subgrp :: "complex set \<Rightarrow> bool" where
  "subgrp M \<longleftrightarrow> 0 \<in> M \<and> (\<forall>x\<in>M. \<forall>y\<in>M. x + y \<in> M \<and> x - y \<in> M)"

lemma gen_least:
  assumes "subgrp H" and "S \<subseteq> H"
  shows "gen S \<subseteq> H"
proof
  fix x
  assume "x \<in> gen S"
  then show "x \<in> H" by (induction rule: gen.induct) (use assms in \<open>auto simp: subgrp_def\<close>)
qed

lemma gen_incl: "s \<in> S \<Longrightarrow> s \<in> gen S"
  using gen_plus [OF gen_zero] by fastforce

lemma gen_add: "y \<in> gen S \<Longrightarrow> x \<in> gen S \<Longrightarrow> x + y \<in> gen S"
proof (induction rule: gen.induct)
  case (gen_plus y s)
  then show ?case using gen.gen_plus [of "x + y" S s] by (simp add: add.assoc)
next
  case (gen_minus y s)
  then show ?case using gen.gen_minus [of "x + y" S s] by (simp add: algebra_simps)
qed simp

lemma gen_diff: "y \<in> gen S \<Longrightarrow> x \<in> gen S \<Longrightarrow> x - y \<in> gen S"
proof (induction rule: gen.induct)
  case (gen_plus y s)
  then show ?case using gen.gen_minus [of "x - y" S s] by (simp add: algebra_simps)
next
  case (gen_minus y s)
  then show ?case using gen.gen_plus [of "x - y" S s] by (simp add: algebra_simps)
qed simp

lemma subgrp_gen: "subgrp (gen S)"
  by (simp add: subgrp_def gen_zero gen_add gen_diff)

lemma subgrp_of_nat: "subgrp M \<Longrightarrow> x \<in> M \<Longrightarrow> of_nat k * x \<in> M"
  by (induction k) (auto simp: subgrp_def algebra_simps)

lemma subgrp_of_int: "subgrp M \<Longrightarrow> x \<in> M \<Longrightarrow> of_int k * x \<in> M"
proof (cases k rule: int_cases2)
  case (nonpos n)
  assume "subgrp M" "x \<in> M"
  then have "0 - of_nat n * x \<in> M"
    using subgrp_of_nat [of M x n] unfolding subgrp_def by blast
  with nonpos show ?thesis by simp
qed (simp add: subgrp_of_nat)

lemma subgrp_addI: "subgrp M \<Longrightarrow> x \<in> M \<Longrightarrow> y \<in> M \<Longrightarrow> x + y \<in> M"
  and subgrp_diffI: "subgrp M \<Longrightarrow> x \<in> M \<Longrightarrow> y \<in> M \<Longrightarrow> x - y \<in> M"
  by (simp_all add: subgrp_def)

lemma subgrp_scale: "subgrp M \<Longrightarrow> subgrp ((*) z ` M)"
  unfolding subgrp_def
proof (intro conjI ballI)
  assume M: "0 \<in> M \<and> (\<forall>x\<in>M. \<forall>y\<in>M. x + y \<in> M \<and> x - y \<in> M)"
  then show "0 \<in> (*) z ` M" by (intro image_eqI [of _ _ 0]) auto
  fix x y
  assume "x \<in> (*) z ` M" "y \<in> (*) z ` M"
  then obtain p q where "x = z * p" "y = z * q" "p \<in> M" "q \<in> M" by auto
  then have "x + y = z * (p + q)" "x - y = z * (p - q)" "p + q \<in> M" "p - q \<in> M"
    using M by (simp_all add: algebra_simps)
  then show "x + y \<in> (*) z ` M" "x - y \<in> (*) z ` M" by blast+
qed

subsection \<open>Products of lattices\<close>

definition lprod :: "complex set \<Rightarrow> complex set \<Rightarrow> complex set" where
  "lprod M N = gen {x * y | x y. x \<in> M \<and> y \<in> N}"

lemma subgrp_lprod: "subgrp (lprod M N)"
  by (simp add: lprod_def subgrp_gen)

lemma lprodI: "x \<in> M \<Longrightarrow> y \<in> N \<Longrightarrow> x * y \<in> lprod M N"
  unfolding lprod_def by (rule gen_incl) auto

lemma lprod_least: "subgrp H \<Longrightarrow> (\<And>x y. x \<in> M \<Longrightarrow> y \<in> N \<Longrightarrow> x * y \<in> H) \<Longrightarrow> lprod M N \<subseteq> H"
  unfolding lprod_def by (rule gen_least) auto

lemma lprod_comm: "lprod M N = lprod N M"
  by (simp add: lprod_def) (metis mult.commute)

lemma lprod_mult_right:
  assumes "x \<in> A" and "v \<in> lprod B C"
  shows "x * v \<in> lprod (lprod A B) C"
  using assms(2) unfolding lprod_def [of B C]
proof (induction rule: gen.induct)
  case gen_zero
  then show ?case using subgrp_lprod by (simp add: subgrp_def)
next
  case (gen_plus v s)
  then obtain y w where s: "s = y * w" "y \<in> B" "w \<in> C" by auto
  have "(x * y) * w \<in> lprod (lprod A B) C" by (intro lprodI assms s)
  then show ?case
    using gen_plus.IH s(1) by (simp add: subgrp_addI [OF subgrp_lprod] algebra_simps)
next
  case (gen_minus v s)
  then obtain y w where s: "s = y * w" "y \<in> B" "w \<in> C" by auto
  have "(x * y) * w \<in> lprod (lprod A B) C" by (intro lprodI assms s)
  then show ?case
    using gen_minus.IH s(1) by (simp add: subgrp_diffI [OF subgrp_lprod] right_diff_distrib mult.assoc)
qed

lemma lprod_assoc_le: "lprod A (lprod B C) \<subseteq> lprod (lprod A B) C"
  by (intro lprod_least subgrp_lprod lprod_mult_right)

lemma lprod_assoc: "lprod (lprod A B) C = lprod A (lprod B C)"
proof
  show "lprod A (lprod B C) \<subseteq> lprod (lprod A B) C" by (rule lprod_assoc_le)
  have "lprod C (lprod B A) \<subseteq> lprod (lprod C B) A" by (rule lprod_assoc_le)
  then show "lprod (lprod A B) C \<subseteq> lprod A (lprod B C)"
    by (simp add: lprod_comm [of C] lprod_comm [of B A] lprod_comm [of _ A])
qed

lemma lprod_left_comm: "lprod A (lprod B C) = lprod B (lprod A C)"
  by (metis lprod_assoc lprod_comm)

lemma lprod_scale: "lprod ((*) z ` M) N = (*) z ` lprod M N"
proof
  show "lprod ((*) z ` M) N \<subseteq> (*) z ` lprod M N"
    by (intro lprod_least subgrp_scale subgrp_lprod) (auto intro!: image_eqI lprodI simp: mult.assoc)
  show "(*) z ` lprod M N \<subseteq> lprod ((*) z ` M) N"
  proof
    fix v
    assume "v \<in> (*) z ` lprod M N"
    then obtain t where t: "t \<in> lprod M N" and v: "v = z * t" by auto
    have "z * t \<in> lprod ((*) z ` M) N"
      using t unfolding lprod_def [of M N]
    proof (induction rule: gen.induct)
      case gen_zero
      then show ?case using subgrp_lprod by (simp add: subgrp_def)
    next
      case (gen_plus t s)
      then obtain y w where s: "s = y * w" "y \<in> M" "w \<in> N" by auto
      have "(z * y) * w \<in> lprod ((*) z ` M) N" by (intro lprodI imageI s)
      then show ?case
        using gen_plus.IH s(1) by (simp add: subgrp_addI [OF subgrp_lprod] algebra_simps)
    next
      case (gen_minus t s)
      then obtain y w where s: "s = y * w" "y \<in> M" "w \<in> N" by auto
      have "(z * y) * w \<in> lprod ((*) z ` M) N" by (intro lprodI imageI s)
      then show ?case
        using gen_minus.IH s(1)
        by (simp add: subgrp_diffI [OF subgrp_lprod] right_diff_distrib mult.assoc)
    qed
    with v show "v \<in> lprod ((*) z ` M) N" by simp
  qed
qed

subsection \<open>Homothety\<close>

definition homothetic :: "complex set \<Rightarrow> complex set \<Rightarrow> bool" where
  "homothetic M N \<longleftrightarrow> (\<exists>z. z \<noteq> 0 \<and> N = (*) z ` M)"

lemma homothetic_refl [simp]: "homothetic M M"
  by (auto simp: homothetic_def intro!: exI [of _ 1])

lemma homotheticI: "z \<noteq> 0 \<Longrightarrow> N = (*) z ` M \<Longrightarrow> homothetic M N"
  by (auto simp: homothetic_def)

lemma homothetic_sym: "homothetic M N \<Longrightarrow> homothetic N M"
proof -
  assume "homothetic M N"
  then obtain z where z: "z \<noteq> 0" "N = (*) z ` M" by (auto simp: homothetic_def)
  then have "M = (*) (inverse z) ` N" by (simp add: image_image mult.assoc [symmetric])
  with z(1) show ?thesis by (intro homotheticI [of "inverse z"]) auto
qed

lemma homothetic_trans: "homothetic M N \<Longrightarrow> homothetic N P \<Longrightarrow> homothetic M P"
proof -
  assume "homothetic M N" "homothetic N P"
  then obtain z w where "z \<noteq> 0" "N = (*) z ` M" "w \<noteq> 0" "P = (*) w ` N"
    by (auto simp: homothetic_def)
  then show ?thesis
    by (intro homotheticI [of "w * z"]) (auto simp: image_image mult.assoc)
qed

lemma homothetic_lprod:
  assumes "homothetic M M'" and "homothetic N N'"
  shows "homothetic (lprod M N) (lprod M' N')"
proof -
  obtain z w where z: "z \<noteq> 0" "M' = (*) z ` M" and w: "w \<noteq> 0" "N' = (*) w ` N"
    using assms by (auto simp: homothetic_def)
  have "lprod M' N' = (*) z ` lprod M N'" using z lprod_scale by simp
  also have "lprod M N' = (*) w ` lprod M N"
    using w lprod_scale [of w N M] by (simp add: lprod_comm [of M])
  finally have "lprod M' N' = (*) (z * w) ` lprod M N"
    by (simp add: image_image mult.assoc)
  then show ?thesis using z(1) w(1) by (intro homotheticI [of "z * w"]) auto
qed

lemma homothetic_by_factors:
  assumes "z \<noteq> 0" and "w \<noteq> 0" and "(*) z ` M = (*) w ` N"
  shows "homothetic M N"
proof -
  have "homothetic M ((*) z ` M)" using assms(1) by (rule homotheticI) simp
  moreover have "homothetic N ((*) z ` M)" using assms(2,3) by (intro homotheticI) simp_all
  ultimately show ?thesis using homothetic_sym homothetic_trans by blast
qed

subsection \<open>Lattices with two generators\<close>

definition span2 :: "complex \<Rightarrow> complex \<Rightarrow> complex set" where
  "span2 A B = {of_int m * A + of_int n * B | m n. True}"

lemma span2I: "x = of_int m * A + of_int n * B \<Longrightarrow> x \<in> span2 A B"
  by (auto simp: span2_def)

lemma span2_gens: "A \<in> span2 A B" "B \<in> span2 A B"
  by (rule span2I [where m = 1 and n = 0], simp) (rule span2I [where m = 0 and n = 1], simp)

lemma subgrp_span2: "subgrp (span2 A B)"
  unfolding subgrp_def
proof (intro conjI ballI)
  show "0 \<in> span2 A B" by (rule span2I [where m = 0 and n = 0]) simp
  fix x y
  assume "x \<in> span2 A B" "y \<in> span2 A B"
  then obtain m n m' n' where
    x: "x = of_int m * A + of_int n * B" and y: "y = of_int m' * A + of_int n' * B"
    by (auto simp: span2_def)
  show "x + y \<in> span2 A B"
    by (rule span2I [where m = "m + m'" and n = "n + n'"]) (simp add: x y algebra_simps)
  show "x - y \<in> span2 A B"
    by (rule span2I [where m = "m - m'" and n = "n - n'"]) (simp add: x y algebra_simps)
qed

lemma span2_least: "subgrp H \<Longrightarrow> A \<in> H \<Longrightarrow> B \<in> H \<Longrightarrow> span2 A B \<subseteq> H"
  by (auto simp: span2_def intro!: subgrp_addI subgrp_of_int)

lemma span2_commute: "span2 A B = span2 B A"
  by (intro equalityI span2_least subgrp_span2 span2_gens)

lemma span2_uminus_right: "span2 A (- B) = span2 A B"
proof (intro equalityI span2_least subgrp_span2 span2_gens)
  show "- B \<in> span2 A B" by (rule span2I [where m = 0 and n = "- 1"]) simp
  show "B \<in> span2 A (- B)" by (rule span2I [where m = 0 and n = "- 1"]) simp
qed

lemma span2_scale: "(*) z ` span2 A B = span2 (z * A) (z * B)"
proof
  show "(*) z ` span2 A B \<subseteq> span2 (z * A) (z * B)"
  proof
    fix x
    assume "x \<in> (*) z ` span2 A B"
    then obtain m n where "x = z * (of_int m * A + of_int n * B)" by (auto simp: span2_def)
    then show "x \<in> span2 (z * A) (z * B)"
      by (intro span2I [where m = m and n = n]) (simp add: algebra_simps)
  qed
  have "z * A \<in> (*) z ` span2 A B" "z * B \<in> (*) z ` span2 A B"
    by (intro imageI span2_gens)+
  then show "span2 (z * A) (z * B) \<subseteq> (*) z ` span2 A B"
    by (intro span2_least subgrp_scale subgrp_span2)
qed

lemma lprod_span2_le:
  assumes "subgrp H" and "A * P \<in> H" and "A * Q \<in> H" and "B * P \<in> H" and "B * Q \<in> H"
  shows "lprod (span2 A B) (span2 P Q) \<subseteq> H"
proof (rule lprod_least [OF assms(1)])
  fix x y
  assume "x \<in> span2 A B" "y \<in> span2 P Q"
  then obtain m n m' n' where
    x: "x = of_int m * A + of_int n * B" and y: "y = of_int m' * P + of_int n' * Q"
    by (auto simp: span2_def)
  have "x * y = of_int (m * m') * (A * P) + of_int (m * n') * (A * Q)
      + (of_int (n * m') * (B * P) + of_int (n * n') * (B * Q))"
    by (simp add: x y algebra_simps)
  also have "\<dots> \<in> H" by (intro subgrp_addI subgrp_of_int assms)
  finally show "x * y \<in> H" .
qed

end
