(* ===== verification/FormClass.thy ===== *)
theory FormClass
  imports Lattice
begin

section \<open>The lattice of a form\<close>

text \<open>
  \<open>lat D f\<close> is the lattice of a form of negative discriminant \<open>D\<close>;
  \<open>same_class\<close> is equality of classes.  Reduction keeps the class, composition (in the
  form of the congruences of \<open>compose_lattices\<close>) multiplies classes, and a reduced
  form is determined by its class.
\<close>

definition omega :: "int \<Rightarrow> complex" where
  "omega D = Complex 0 (sqrt (real_of_int (- D)))"

lemma omega_sq: "D < 0 \<Longrightarrow> omega D * omega D = of_int D"
  by (simp add: omega_def complex_eq_iff)

definition lat :: "int \<Rightarrow> form \<Rightarrow> complex set" where
  "lat D f = span2 (of_int (2 * fa f)) (omega D - of_int (fb f))"

definition same_class :: "int \<Rightarrow> form \<Rightarrow> form \<Rightarrow> bool" where
  "same_class D f g \<longleftrightarrow> homothetic (lat D f) (lat D g)"

lemma same_class_refl [simp]: "same_class D f f"
  by (simp add: same_class_def)

lemma same_class_sym: "same_class D f g \<Longrightarrow> same_class D g f"
  by (simp add: same_class_def homothetic_sym)

lemma same_class_trans: "same_class D f g \<Longrightarrow> same_class D g h \<Longrightarrow> same_class D f h"
  unfolding same_class_def by (rule homothetic_trans)

lemma subgrp_lat: "subgrp (lat D f)"
  by (simp add: lat_def subgrp_span2)

lemma lat_cong: "fa f = fa g \<Longrightarrow> fb f = fb g \<Longrightarrow> lat D f = lat D g"
  by (simp add: lat_def)

subsection \<open>The moves of the reduction keep the class\<close>

lemma lat_shift_le: "fa g = fa f \<Longrightarrow> fb g = fb f + 2 * (r * fa f) \<Longrightarrow> lat D g \<subseteq> lat D f"
  unfolding lat_def
proof (intro span2_least subgrp_span2)
  assume a: "fa g = fa f" and b: "fb g = fb f + 2 * (r * fa f)"
  then show "of_int (2 * fa g) \<in> span2 (of_int (2 * fa f)) (omega D - of_int (fb f))"
    using span2_gens(1) by simp
  show "omega D - of_int (fb g) \<in> span2 (of_int (2 * fa f)) (omega D - of_int (fb f))"
    by (rule span2I [where m = "- r" and n = 1]) (simp add: b algebra_simps)
qed

lemma lat_shift:
  assumes "fa g = fa f" and "fb g = fb f + 2 * (r * fa f)"
  shows "lat D g = lat D f"
proof
  show "lat D g \<subseteq> lat D f" using assms by (rule lat_shift_le)
  show "lat D f \<subseteq> lat D g"
    by (rule lat_shift_le [where r = "- r"]) (use assms in \<open>simp_all add: algebra_simps\<close>)
qed

lemma omega_disc:
  "D < 0 \<Longrightarrow> disc f = D \<Longrightarrow>
    omega D * omega D = of_int (fb f) * of_int (fb f) - 4 * of_int (fa f) * of_int (fc f)"
  using omega_sq [of D] by (auto simp: disc_def)

lemma lat_swap:
  assumes D: "D < 0" and f: "disc f = D" and a: "fa f \<noteq> 0"
    and g: "fa g = fc f" "fb g = - fb f"
  shows "same_class D f g"
proof -
  define z where "z = - omega D - of_int (fb f)"
  let ?A = "of_int (2 * fa f) :: complex"
  have za: "z * ?A = - (?A * (omega D - of_int (fb g)))"
    by (simp add: z_def g algebra_simps)
  have zb: "z * (omega D - of_int (fb f)) = ?A * of_int (2 * fa g)"
    using omega_disc [OF D f] by (simp add: z_def g algebra_simps)
  have "(*) z ` lat D f = span2 (- (?A * (omega D - of_int (fb g)))) (?A * of_int (2 * fa g))"
    by (simp only: lat_def span2_scale za zb)
  also have "\<dots> = (*) ?A ` lat D g"
    by (simp only: lat_def span2_scale span2_commute [of "- _"] span2_uminus_right)
  finally have "(*) z ` lat D f = (*) ?A ` lat D g" .
  moreover have "z \<noteq> 0" using D by (auto simp: z_def omega_def complex_eq_iff)
  moreover have "?A \<noteq> 0" using a by simp
  ultimately show ?thesis unfolding same_class_def by (intro homothetic_by_factors)
qed

lemma normalize_lat: "normalize f = Some g \<Longrightarrow> lat D g = lat D f"
  by (rule lat_shift [where r = "(fa f - fb f) div (2 * fa f)"])
    (auto simp: normalize_def Let_def split: if_splits)

lemma normalize_class: "normalize f = Some g \<Longrightarrow> same_class D f g"
  by (simp add: same_class_def normalize_lat)

lemma reduce_impl_class:
  assumes "posdef D f" and "D < 0" and "reduce_impl f = Some g"
  shows "same_class D f g"
proof -
  let ?h = "mk_form (fc f) (- fb f) (fa f)"
  have "same_class D f ?h"
    using assms by (intro lat_swap) (auto simp: posdef_def)
  moreover have "lat D g = lat D ?h"
    by (rule lat_shift [where r = "(fc f + fb f) div (2 * fc f)"])
      (use assms(3) in \<open>auto simp: reduce_impl_def Let_def split: if_splits\<close>)
  ultimately show ?thesis by (simp add: same_class_def)
qed

lemma reduce_loop_invariant:
  assumes "reduce_loop f = Some g" and "D < 0"
  shows "posdef D f \<longrightarrow> same_class D f g \<and> posdef D g"
proof (rule reduce_loop.raw_induct [where P = "\<lambda>f g. posdef D f \<longrightarrow> same_class D f g \<and> posdef D g",
      OF _ assms(1)])
  fix loop f g
  assume IH: "\<And>f g. loop f = Some g \<Longrightarrow> posdef D f \<longrightarrow> same_class D f g \<and> posdef D g"
    and eq: "(if reduce_cond f then Option.bind (reduce_impl f) loop else Some f) = Some g"
  show "posdef D f \<longrightarrow> same_class D f g \<and> posdef D g"
  proof
    assume pf: "posdef D f"
    show "same_class D f g \<and> posdef D g"
    proof (cases "reduce_cond f")
      case True
      then obtain h where h: "reduce_impl f = Some h" "loop h = Some g"
        using eq by (auto simp: ret_iff)
      have "same_class D f h" "posdef D h"
        using pf assms(2) h(1) by (rule reduce_impl_class, rule reduce_impl_posdef)
      then show ?thesis using IH [OF h(2)] same_class_trans by blast
    qed (use eq pf in simp)
  qed
qed

lemma reduce_class:
  assumes "posdef D f" and "D < 0" and "reduce f = Some g"
  shows "same_class D f g"
proof -
  obtain h k where h: "normalize f = Some h" "reduce_loop h = Some k" "normalize k = Some g"
    using assms(3) by (auto simp: reduce_def ret_iff)
  have "posdef D h" using assms(1) h(1) by (rule normalize_posdef)
  with h assms(2) show ?thesis
    by (meson normalize_class reduce_loop_invariant same_class_trans)
qed

lemma reduce_returns:
  assumes "posdef D f" and "D < 0"
  obtains g where "reduce f = Some g" "posdef D g" "is_reduced g" "same_class D f g"
  using reduce_total [OF assms] reduce_class [OF assms] by blast

subsection \<open>Composition of forms multiplies lattices\<close>

text \<open>
  The composition routines return a form with \<open>a3 = a1 a2 / s\<^sup>2\<close> and a \<open>b3\<close> that solves
  congruences.  These hypotheses are what each routine establishes about its result:
  \<open>u\<close> is \<open>(b1 + b2) / 2 s\<close>, \<open>x p + y q + z u = 1\<close> says that \<open>s\<close> is the
  greatest common divisor, and the last line says that the first form is primitive.
\<close>

definition composes :: "int \<Rightarrow> form \<Rightarrow> form \<Rightarrow> form \<Rightarrow> bool" where
  "composes D f1 f2 f3 \<longleftrightarrow>
     (\<exists>s p q u k l h x y z. s \<noteq> 0 \<and> fa f1 = s * p \<and> fa f2 = s * q \<and> fa f3 = p * q \<and>
        fb f1 + fb f2 = 2 * s * u \<and> fb f3 = fb f2 + 2 * q * k \<and> fb f3 = fb f1 + 2 * p * l \<and>
        D + fb f1 * fb f2 = 2 * s * (2 * p * q * h + u * fb f3) \<and> x * p + y * q + z * u = 1)"

lemma composesI:
  assumes "s \<noteq> 0" and "fa f1 = s * p" and "fa f2 = s * q" and "fa f3 = p * q"
    and "fb f1 + fb f2 = 2 * s * u" and "fb f3 = fb f2 + 2 * q * k" and "fb f3 = fb f1 + 2 * p * l"
    and "D + fb f1 * fb f2 = 2 * s * (2 * p * q * h + u * fb f3)" and "x * p + y * q + z * u = 1"
  shows "composes D f1 f2 f3"
  using assms unfolding composes_def by blast

definition primitive :: "form \<Rightarrow> bool" where
  "primitive f \<longleftrightarrow> gcd (gcd (fa f) (fb f)) (fc f) = 1"

lemma primitive_bezout:
  assumes "primitive f"
  obtains e0 e1 e2 where "e0 * fa f + e1 * fb f + e2 * fc f = 1"
proof -
  obtain x y where xy: "x * fa f + y * fb f = gcd (fa f) (fb f)"
    using bezout_int by blast
  obtain v w where vw: "v * gcd (fa f) (fb f) + w * fc f = 1"
    using bezout_int [of "gcd (fa f) (fb f)" "fc f"] assms by (auto simp: primitive_def)
  have "(v * x) * fa f + (v * y) * fb f + w * fc f = 1"
    using vw by (simp add: xy [symmetric] algebra_simps)
  then show thesis by (rule that)
qed

lemma compose_products:
  fixes W S P Q U K L H B1 B2 B3 D :: complex
  assumes "W * W = D" and "B1 + B2 = 2 * S * U" and "B3 = B2 + 2 * Q * K" and "B3 = B1 + 2 * P * L"
    and "D + B1 * B2 = 2 * S * (2 * P * Q * H + U * B3)"
  shows "(2 * (S * P)) * (W - B2) = K * (2 * S * (2 * (P * Q))) + P * (2 * S * (W - B3))"
    and "(W - B1) * (2 * (S * Q)) = L * (2 * S * (2 * (P * Q))) + Q * (2 * S * (W - B3))"
    and "(W - B1) * (W - B2) = H * (2 * S * (2 * (P * Q))) - U * (2 * S * (W - B3))"
proof -
  show "(2 * (S * P)) * (W - B2) = K * (2 * S * (2 * (P * Q))) + P * (2 * S * (W - B3))"
    by (simp add: assms(3) algebra_simps)
  show "(W - B1) * (2 * (S * Q)) = L * (2 * S * (2 * (P * Q))) + Q * (2 * S * (W - B3))"
    by (simp add: assms(4) algebra_simps)
  have "(W - B1) * (W - B2) = (D + B1 * B2) - (B1 + B2) * W"
    by (simp add: assms(1) [symmetric] algebra_simps)
  then show "(W - B1) * (W - B2) = H * (2 * S * (2 * (P * Q))) - U * (2 * S * (W - B3))"
    unfolding assms(2,5) by (simp add: algebra_simps)
qed

lemma compose_norm:
  fixes W S P Q U B1 B2 C1 D E0 E1 E2 :: complex
  assumes "W * W = D" and "D = B1 * B1 - 4 * (S * P) * C1" and "B1 + B2 = 2 * S * U"
    and "E0 * (S * P) + E1 * B1 + E2 * C1 = 1"
  shows "2 * S * (2 * (P * Q)) =
    (E0 * P + E1 * U) * ((2 * (S * P)) * (2 * (S * Q)))
      + (E1 * Q) * ((2 * (S * P)) * (W - B2)) - (E1 * P + E2 * U) * ((W - B1) * (2 * (S * Q)))
      - (E2 * Q) * ((W - B1) * (W - B2))"
proof -
  have B2: "B2 = 2 * S * U - B1" using assms(3) by (simp add: algebra_simps)
  have "(E0 * P + E1 * U) * ((2 * (S * P)) * (2 * (S * Q)))
      + (E1 * Q) * ((2 * (S * P)) * (W - B2)) - (E1 * P + E2 * U) * ((W - B1) * (2 * (S * Q)))
      - (E2 * Q) * ((W - B1) * (W - B2))
    = 4 * S * P * Q * (E0 * (S * P) + E1 * B1) - E2 * Q * (W * W - B1 * B1)"
    unfolding B2 by (simp add: algebra_simps)
  also have "W * W - B1 * B1 = - 4 * (S * P) * C1"
    using assms(1,2) by simp
  also have "4 * S * P * Q * (E0 * (S * P) + E1 * B1) - E2 * Q * (- 4 * (S * P) * C1)
      = 4 * S * P * Q * (E0 * (S * P) + E1 * B1 + E2 * C1)"
    by (simp add: algebra_simps)
  finally show ?thesis using assms(4) by simp
qed

lemma of_int_eqs:
  "a = b \<Longrightarrow> (of_int a :: complex) = of_int b"
  by simp

lemma compose_lattices:
  assumes D: "D < 0" and f1: "disc f1 = D" and prim: "primitive f1" and c: "composes D f1 f2 f3"
  shows "homothetic (lprod (lat D f1) (lat D f2)) (lat D f3)"
proof -
  obtain s p q u k l h x y z where s: "s \<noteq> 0"
    and as: "fa f1 = s * p" "fa f2 = s * q" "fa f3 = p * q"
    and b12: "fb f1 + fb f2 = 2 * s * u"
    and b3: "fb f3 = fb f2 + 2 * q * k" "fb f3 = fb f1 + 2 * p * l"
    and Db: "D + fb f1 * fb f2 = 2 * s * (2 * p * q * h + u * fb f3)"
    and bez: "x * p + y * q + z * u = 1"
    using c unfolding composes_def by blast
  obtain e0 e1 e2 where e: "e0 * fa f1 + e1 * fb f1 + e2 * fc f1 = 1"
    using prim by (rule primitive_bezout)
  let ?W = "omega D" and ?A1 = "of_int (2 * fa f1) :: complex" and ?A2 = "of_int (2 * fa f2) :: complex"
  let ?B1 = "omega D - of_int (fb f1)" and ?B2 = "omega D - of_int (fb f2)"
  let ?X = "of_int (2 * s) * of_int (2 * fa f3) :: complex"
  let ?Y = "of_int (2 * s) * (omega D - of_int (fb f3))"
  have W: "?W * ?W = of_int D" using D by (rule omega_sq)
  note cb = of_int_eqs [OF b12] of_int_eqs [OF b3(1)] of_int_eqs [OF b3(2)] of_int_eqs [OF Db]
  note prods = compose_products [OF W, of "of_int (fb f1)" "of_int (fb f2)" "of_int s" "of_int u"
      "of_int (fb f3)" "of_int q" "of_int k" "of_int p" "of_int l" "of_int h"]
  have AB: "?A1 * ?B2 = of_int k * ?X + of_int p * ?Y"
    using prods(1) cb by (simp add: as)
  have BA: "?B1 * ?A2 = of_int l * ?X + of_int q * ?Y"
    using prods(2) cb by (simp add: as)
  have BB: "?B1 * ?B2 = of_int h * ?X + of_int (- u) * ?Y"
    using prods(3) cb by (simp add: as)
  have AA: "?A1 * ?A2 = of_int s * ?X + of_int 0 * ?Y"
    by (simp add: as algebra_simps)
  have le: "lprod (lat D f1) (lat D f2) \<subseteq> span2 ?X ?Y"
    unfolding lat_def
    by (intro lprod_span2_le subgrp_span2) (rule span2I, rule AA AB BA BB)+
  let ?P = "lprod (lat D f1) (lat D f2)"
  have mem: "?A1 * ?A2 \<in> ?P" "?A1 * ?B2 \<in> ?P" "?B1 * ?A2 \<in> ?P" "?B1 * ?B2 \<in> ?P"
    unfolding lat_def by (intro lprodI span2_gens)+
  have Dc: "(of_int D :: complex) =
      of_int (fb f1) * of_int (fb f1) - 4 * (of_int s * of_int p) * of_int (fc f1)"
    using f1 unfolding disc_def as(1) by auto
  have Xeq: "?X = of_int (e0 * p + e1 * u) * (?A1 * ?A2) + of_int (e1 * q) * (?A1 * ?B2)
      - of_int (e1 * p + e2 * u) * (?B1 * ?A2) - of_int (e2 * q) * (?B1 * ?B2)"
    using compose_norm [OF W, of "of_int (fb f1)" "of_int s" "of_int p" "of_int (fc f1)"
        "of_int (fb f2)" "of_int u" "of_int e0" "of_int e1" "of_int e2" "of_int q"]
      Dc of_int_eqs [OF e] of_int_eqs [OF b12]
    by (simp add: as mult_ac)
  have X: "?X \<in> ?P"
    unfolding Xeq by (intro subgrp_addI subgrp_diffI subgrp_lprod subgrp_of_int mem)
  have "of_int x * (?A1 * ?B2) + of_int y * (?B1 * ?A2) - of_int z * (?B1 * ?B2)
      - of_int (x * k + y * l - z * h) * ?X = of_int (x * p + y * q + z * u) * ?Y"
    unfolding AB BA BB by (simp add: algebra_simps)
  then have Yeq: "?Y = of_int x * (?A1 * ?B2) + of_int y * (?B1 * ?A2) - of_int z * (?B1 * ?B2)
      - of_int (x * k + y * l - z * h) * ?X"
    by (simp only: bez of_int_1 mult_1)
  have Y: "?Y \<in> ?P"
    by (subst Yeq) (intro subgrp_addI subgrp_diffI subgrp_lprod subgrp_of_int mem X)
  have "?P = span2 ?X ?Y"
    using le span2_least [OF subgrp_lprod X Y] by (rule equalityI)
  also have "\<dots> = (*) (of_int (2 * s)) ` lat D f3"
    by (simp only: lat_def span2_scale)
  finally show ?thesis
    using s by (intro homothetic_sym [OF homotheticI]) auto
qed

subsection \<open>Unimodular substitutions keep the class\<close>

definition qval :: "form \<Rightarrow> int \<Rightarrow> int \<Rightarrow> int" where
  "qval f m n = fa f * m * m + fb f * m * n + fc f * n * n"

definition subst_b :: "form \<Rightarrow> int \<Rightarrow> int \<Rightarrow> int \<Rightarrow> int \<Rightarrow> int" where
  "subst_b f p q r s = 2 * fa f * p * q + fb f * (p * s + q * r) + 2 * fc f * r * s"

text \<open>The form \<open>f (p x + q y, r x + s y)\<close>.\<close>

definition form_subst :: "form \<Rightarrow> int \<Rightarrow> int \<Rightarrow> int \<Rightarrow> int \<Rightarrow> form" where
  "form_subst f p q r s = mk_form (qval f p r) (subst_b f p q r s) (qval f q s)"

lemma form_subst_disc [disc_simps]:
  "disc (form_subst f p q r s) = (p * s - q * r) * (p * s - q * r) * disc f"
  by (simp add: disc_def form_subst_def qval_def subst_b_def algebra_simps)

lemma subst_products:
  fixes W A B C P Q R S :: complex
  assumes "W * W = B * B - 4 * A * C" and "P * S - Q * R = 1"
  shows "(2 * A * P + (B + W) * R) * (2 * A) =
      S * (2 * A * (2 * (A * P * P + B * P * R + C * R * R)))
        + R * (2 * A * (W - (2 * A * P * Q + B * (P * S + Q * R) + 2 * C * R * S)))"
    and "(2 * A * P + (B + W) * R) * (W - B) =
      Q * (2 * A * (2 * (A * P * P + B * P * R + C * R * R)))
        + P * (2 * A * (W - (2 * A * P * Q + B * (P * S + Q * R) + 2 * C * R * S)))"
    and "2 * A * (2 * (A * P * P + B * P * R + C * R * R)) =
      (2 * A * P + (B + W) * R) * (P * (2 * A) - R * (W - B))"
    and "2 * A * (W - (2 * A * P * Q + B * (P * S + Q * R) + 2 * C * R * S)) =
      (2 * A * P + (B + W) * R) * (S * (W - B) - Q * (2 * A))"
  using assms by algebra+

lemma equiv_class:
  assumes D: "D < 0" and f: "disc f = D" "fa f \<noteq> 0" and g: "fa g = qval f p r" "fb g = subst_b f p q r s"
    and nz: "fa g \<noteq> 0" and det: "p * s - q * r = 1"
  shows "same_class D f g"
proof -
  let ?W = "omega D" and ?A = "of_int (fa f) :: complex" and ?B = "of_int (fb f) :: complex"
    and ?C = "of_int (fc f) :: complex"
  define z where "z = 2 * ?A * of_int p + (?B + ?W) * of_int r"
  let ?X = "2 * ?A * (2 * of_int (fa g)) :: complex" and ?Y = "2 * ?A * (?W - of_int (fb g))"
  have W: "?W * ?W = ?B * ?B - 4 * ?A * ?C" using D f(1) by (rule omega_disc)
  have det': "of_int p * of_int s - of_int q * of_int r = (1 :: complex)"
    using of_int_eqs [OF det] by simp
  note sp = subst_products [OF W det']
  have 1: "z * (2 * ?A) = of_int s * ?X + of_int r * ?Y"
    and 2: "z * (?W - ?B) = of_int q * ?X + of_int p * ?Y"
    and 3: "?X = z * (of_int p * (2 * ?A) - of_int r * (?W - ?B))"
    and 4: "?Y = z * (of_int s * (?W - ?B) - of_int q * (2 * ?A))"
    unfolding z_def g qval_def subst_b_def using sp by simp_all
  let ?L = "span2 (2 * ?A) (?W - ?B)"
  have le: "(*) z ` ?L \<subseteq> span2 ?X ?Y"
    unfolding span2_scale by (intro span2_least subgrp_span2) (rule span2I, rule 1 2)+
  have L: "2 * ?A \<in> ?L" "?W - ?B \<in> ?L" by (rule span2_gens)+
  have "?X \<in> (*) z ` ?L" "?Y \<in> (*) z ` ?L"
    unfolding 3 4 by (intro imageI subgrp_diffI subgrp_of_int subgrp_span2 L)+
  then have "span2 ?X ?Y \<subseteq> (*) z ` ?L"
    by (intro span2_least subgrp_scale subgrp_span2)
  with le have "(*) z ` ?L = span2 ?X ?Y" by (rule equalityI)
  then have eq: "(*) z ` lat D f = (*) (2 * ?A) ` lat D g"
    by (simp add: lat_def span2_scale)
  have "z \<noteq> 0"
  proof
    assume "z = 0"
    then have "?X = 0" unfolding 3 by simp
    then show False using f(2) nz by simp
  qed
  moreover have "2 * ?A \<noteq> 0" using f(2) by simp
  ultimately show ?thesis using eq unfolding same_class_def by (intro homothetic_by_factors)
qed

lemma form_subst_class:
  assumes "posdef D f" and "D < 0" and "p * s - q * r = 1"
  shows "posdef D (form_subst f p q r s)" and "same_class D f (form_subst f p q r s)"
proof -
  have a: "0 < fa f" "disc f = D" using assms(1) by (rule posdefD)+
  have "4 * fa f * qval f p r = (2 * fa f * p + fb f * r) * (2 * fa f * p + fb f * r) - disc f * (r * r)"
    by (simp add: qval_def disc_def algebra_simps)
  moreover have "(2 * fa f * p + fb f * r) * (2 * fa f * p + fb f * r) - disc f * (r * r) > 0"
  proof (cases "r = 0")
    case True
    then have "p \<noteq> 0" using assms(3) by auto
    then have "0 < (2 * fa f * p)\<^sup>2" using a(1) by simp
    then show ?thesis using True by (simp add: power2_eq_square)
  next
    case False
    then have "0 < r * r" by (auto simp: zero_less_mult_iff)
    then have "disc f * (r * r) < 0" using a(2) assms(2) by (simp add: mult_neg_pos)
    then show ?thesis using zero_le_square [of "2 * fa f * p + fb f * r"] by linarith
  qed
  ultimately have "0 < 4 * fa f * qval f p r" by simp
  then have "0 < qval f p r" using a(1) by (simp add: zero_less_mult_iff)
  then show "posdef D (form_subst f p q r s)"
    unfolding posdef_def form_subst_disc assms(3) using a(2) by (simp add: form_subst_def)
  show "same_class D f (form_subst f p q r s)"
    using assms(2) a \<open>0 < qval f p r\<close> assms(3)
    by (intro equiv_class [of D f _ p r q s]) (auto simp: form_subst_def)
qed

subsection \<open>A class contains one reduced form\<close>

definition area :: "complex \<Rightarrow> complex \<Rightarrow> real" where
  "area x y = Re x * Im y - Im x * Re y"

lemma area_scale: "area (z * x) (z * y) = ((Re z)\<^sup>2 + (Im z)\<^sup>2) * area x y"
  by (simp add: area_def power2_eq_square algebra_simps)

lemma area_comb:
  "area (of_int m * x + of_int n * y) (of_int k * x + of_int l * y) = of_int (m * l - n * k) * area x y"
  by (simp add: area_def algebra_simps)

lemma area_lat: "D < 0 \<Longrightarrow> area (of_int (2 * fa f)) (omega D - of_int (fb f)) = 2 * of_int (fa f) * sqrt (- of_int D)"
  by (simp add: area_def omega_def)

definition cnorm :: "complex \<Rightarrow> real" where
  "cnorm z = (Re z)\<^sup>2 + (Im z)\<^sup>2"

lemma cnorm_mult: "cnorm (z * w) = cnorm z * cnorm w"
  by (simp add: cnorm_def power2_eq_square algebra_simps)

lemma cnorm_lat:
  assumes "disc f = D" and "D < 0"
  shows "cnorm (of_int m * of_int (2 * fa f) + of_int n * (omega D - of_int (fb f)))
    = 4 * of_int (fa f) * of_int (qval f m (- n))"
proof -
  let ?a = "real_of_int (fa f)" and ?b = "real_of_int (fb f)" and ?c = "real_of_int (fc f)"
    and ?m = "real_of_int m" and ?n = "real_of_int n"
  have D: "real_of_int D = ?b * ?b - 4 * ?a * ?c"
    using assms(1) by (auto simp: disc_def)
  have "cnorm (of_int m * of_int (2 * fa f) + of_int n * (omega D - of_int (fb f)))
      = (?m * (2 * ?a) - ?n * ?b)\<^sup>2 + ?n\<^sup>2 * (sqrt (- real_of_int D))\<^sup>2"
    by (simp add: cnorm_def omega_def power_mult_distrib)
  also have "(sqrt (- real_of_int D))\<^sup>2 = - real_of_int D"
    using assms(2) by simp
  finally show ?thesis
    by (simp add: D qval_def power2_eq_square algebra_simps)
qed

lemma min_quad: "n \<noteq> 0 \<Longrightarrow> 1 \<le> m * m - \<bar>m * n\<bar> + n * n" for m n :: int
proof -
  assume "n \<noteq> 0"
  then have "0 < n * n" by (auto simp: zero_less_mult_iff)
  moreover have "0 \<le> (\<bar>m\<bar> - \<bar>n\<bar>) * (\<bar>m\<bar> - \<bar>n\<bar>)" by simp
  then have "2 * \<bar>m * n\<bar> \<le> m * m + n * n" by (simp add: algebra_simps abs_mult)
  moreover have "0 \<le> m * m" by simp
  ultimately show ?thesis by linarith
qed

lemma reduced_bounds:
  "0 < fa f \<Longrightarrow> is_reduced f \<Longrightarrow> \<bar>fb f\<bar> \<le> fa f \<and> fa f \<le> fc f"
  by (auto simp: is_reduced_def)

lemma qval_lower:
  assumes a: "0 < fa f" and r: "is_reduced f" and n: "n \<noteq> 0"
  shows "fa f + (fc f - fa f) \<le> qval f m n"
proof -
  have b: "\<bar>fb f\<bar> \<le> fa f" and c: "fa f \<le> fc f" using reduced_bounds [OF a r] by auto
  have "\<bar>fb f * (m * n)\<bar> \<le> fa f * \<bar>m * n\<bar>"
    using b by (simp add: abs_mult mult_right_mono)
  then have "- (fa f * \<bar>m * n\<bar>) \<le> fb f * (m * n)" by linarith
  moreover have "fa f * 1 \<le> fa f * (m * m - \<bar>m * n\<bar> + n * n)"
    using a min_quad [OF n] by (intro mult_left_mono) auto
  moreover have "1 \<le> n * n" using n by (metis int_one_le_iff_zero_less not_square_less_zero mult_eq_0_iff linorder_neqE_linordered_idom)
  then have "(fc f - fa f) * 1 \<le> (fc f - fa f) * (n * n)"
    using c by (intro mult_left_mono) auto
  ultimately show ?thesis by (simp add: qval_def algebra_simps)
qed

lemma qval_min:
  assumes a: "0 < fa f" and r: "is_reduced f" and mn: "m \<noteq> 0 \<or> n \<noteq> 0"
  shows "fa f \<le> qval f m n"
proof (cases "n = 0")
  case True
  with mn have "1 \<le> m * m" by (metis int_one_le_iff_zero_less not_square_less_zero mult_eq_0_iff linorder_neqE_linordered_idom)
  with a True show ?thesis by (simp add: qval_def mult.assoc)
next
  case False
  then show ?thesis using qval_lower [OF a r False, of m] reduced_bounds [OF a r] by linarith
qed

lemma homothety_vector:
  assumes D: "D < 0" and f: "posdef D f" and g: "posdef D g" and eq: "(*) z ` lat D f = lat D g"
    and r: "cnorm z * of_int (fa f) = of_int (fa g)"
  obtains m n where "z * of_int (2 * fa f) = of_int m * of_int (2 * fa g) + of_int n * (omega D - of_int (fb g))"
    and "fa f = qval g m (- n)"
proof -
  have "z * of_int (2 * fa f) \<in> (*) z ` lat D f"
    unfolding lat_def by (intro imageI span2_gens)
  then obtain m n where mn:
    "z * of_int (2 * fa f) = of_int m * of_int (2 * fa g) + of_int n * (omega D - of_int (fb g))"
    unfolding eq unfolding lat_def span2_def by blast
  have "cnorm (z * of_int (2 * fa f)) = 4 * of_int (fa g) * of_int (qval g m (- n))"
    using cnorm_lat [OF posdefD(2) [OF g] D] mn by simp
  moreover have "cnorm (of_int (2 * fa f)) = 4 * real_of_int (fa f) * real_of_int (fa f)"
    by (simp add: cnorm_def power2_eq_square)
  ultimately have "4 * (cnorm z * of_int (fa f)) * real_of_int (fa f) = 4 * of_int (fa g) * of_int (qval g m (- n))"
    by (simp add: cnorm_mult mult_ac)
  then have "real_of_int (fa g) * real_of_int (fa f) = of_int (fa g) * of_int (qval g m (- n))"
    by (simp add: r)
  then have "fa f = qval g m (- n)" using posdefD(1) [OF g] by simp
  with mn show thesis by (rule that)
qed

lemma homothety_area:
  assumes D: "D < 0" and f: "posdef D f" and g: "posdef D g" and eq: "(*) z ` lat D f = lat D g"
  shows "cnorm z * of_int (fa f) = of_int (fa g)"
proof -
  let ?A = "of_int (2 * fa f)" and ?B = "omega D - of_int (fb f)"
  let ?P = "of_int (2 * fa g)" and ?Q = "omega D - of_int (fb g)"
  have sp: "span2 (z * ?A) (z * ?B) = span2 ?P ?Q"
    using eq by (simp only: lat_def span2_scale)
  then have "z * ?A \<in> span2 ?P ?Q" "z * ?B \<in> span2 ?P ?Q"
    and inv: "?P \<in> span2 (z * ?A) (z * ?B)" "?Q \<in> span2 (z * ?A) (z * ?B)"
    using span2_gens by metis+
  then obtain m n k l where v: "z * ?A = of_int m * ?P + of_int n * ?Q"
      "z * ?B = of_int k * ?P + of_int l * ?Q"
    by (auto simp: span2_def)
  obtain m' n' k' l' where w: "?P = of_int m' * (z * ?A) + of_int n' * (z * ?B)"
      "?Q = of_int k' * (z * ?A) + of_int l' * (z * ?B)"
    using inv unfolding span2_def by blast
  let ?d = "m * l - n * k" and ?e = "m' * l' - n' * k'"
  have pos: "0 < area ?A ?B" "0 < area ?P ?Q"
    using posdefD(1) [OF f] posdefD(1) [OF g] D by (simp_all only: area_lat) simp_all
  have 1: "cnorm z * area ?A ?B = of_int ?d * area ?P ?Q"
    unfolding cnorm_def area_scale [symmetric] v by (rule area_comb)
  have 2: "area ?P ?Q = of_int ?e * (cnorm z * area ?A ?B)"
    unfolding cnorm_def area_scale [symmetric]
    using area_comb [of m' "z * ?A" n' "z * ?B" k' l'] w by simp
  have "area ?P ?Q = of_int (?e * ?d) * area ?P ?Q"
    using 2 unfolding 1 by simp
  then have "real_of_int (?e * ?d) = 1" using pos(2) by simp
  then have "?e * ?d = 1" by linarith
  moreover have "0 \<le> cnorm z" by (simp add: cnorm_def)
  then have "0 \<le> real_of_int ?d * area ?P ?Q" using 1 pos(1) by (metis less_imp_le mult_nonneg_nonneg)
  then have "0 \<le> real_of_int ?d" using pos(2) by (metis linorder_not_le mult_neg_pos)
  then have "0 \<le> ?d" by linarith
  ultimately have "?d = 1" by (metis abs_of_nonneg zmult_eq_1_iff abs_one abs_minus_cancel)
  then have "cnorm z * area ?A ?B = area ?P ?Q" using 1 by simp
  then show ?thesis using D by (simp only: area_lat) simp
qed

lemma homothety_real:
  assumes D: "D < 0" and f: "posdef D f" and g: "posdef D g" and eq: "(*) z ` lat D f = lat D g"
    and a: "fa f = fa g" and one: "z = 1 \<or> z = - 1"
  shows "\<exists>k. fb f = fb g + 2 * fa g * k"
proof -
  have "z * (omega D - of_int (fb f)) \<in> (*) z ` lat D f"
    unfolding lat_def by (intro imageI span2_gens)
  then have "z * (omega D - of_int (fb f)) \<in> lat D g" by (simp only: eq)
  then have "of_int (if z = 1 then 1 else - 1) * (z * (omega D - of_int (fb f))) \<in> lat D g"
    by (intro subgrp_of_int subgrp_lat)
  then have "omega D - of_int (fb f) \<in> lat D g"
    using one by auto
  then obtain k l where kl:
    "omega D - of_int (fb f) = of_int k * of_int (2 * fa g) + of_int l * (omega D - of_int (fb g))"
    unfolding lat_def span2_def by blast
  have "Im (omega D) \<noteq> 0" using D by (simp add: omega_def)
  then have l: "l = 1" using arg_cong [OF kl, of Im] by simp
  have "real_of_int (- fb f) = of_int (2 * fa g * k - fb g)"
    using arg_cong [OF kl, of Re] by (simp add: l mult_ac)
  then have "- fb f = 2 * fa g * k - fb g" by (simp only: of_int_eq_iff)
  then have "fb f = fb g + 2 * fa g * (- k)" by simp
  then show ?thesis by blast
qed

lemma normalized_unique:
  assumes "normalized f" and "normalized g" and "fa f = fa g" and "fb f = fb g + 2 * fa g * k"
  shows "fb f = fb g"
proof -
  have a: "0 < fa g" using assms(2) by (simp add: normalized_def)
  have "\<bar>2 * fa g * k\<bar> < 2 * fa g"
    using assms by (auto simp: normalized_def)
  then have "\<bar>k\<bar> < 1" using a by (simp add: abs_mult)
  with assms(4) show ?thesis by simp
qed

lemma form_by_disc:
  assumes "disc f = disc g" and "fa f = fa g" and "fb f = fb g" and "fa g \<noteq> 0"
  shows "f = (g :: form)"
  using assms by (simp add: disc_def)

lemma reduced_unique_aux:
  assumes D: "D < 0" and f: "posdef D f" "is_reduced f" and g: "posdef D g" "is_reduced g"
    and eq: "(*) z ` lat D f = lat D g"
  shows "fa g \<le> fa f" and "Im z \<noteq> 0 \<Longrightarrow> fc g \<le> fa f"
    and "Im z = 0 \<Longrightarrow> fa f = fa g \<Longrightarrow> z = 1 \<or> z = - 1"
proof -
  have r: "cnorm z * of_int (fa f) = of_int (fa g)"
    using D f(1) g(1) eq by (rule homothety_area)
  obtain m n where mn: "z * of_int (2 * fa f) = of_int m * of_int (2 * fa g) + of_int n * (omega D - of_int (fb g))"
    and q: "fa f = qval g m (- n)"
    using D f(1) g(1) eq r by (rule homothety_vector)
  have pos: "0 < fa f" "0 < fa g" using f(1) g(1) by (simp_all add: posdef_def)
  have "m \<noteq> 0 \<or> - n \<noteq> 0" using q pos by (auto simp: qval_def)
  from qval_min [OF pos(2) g(2) this] show "fa g \<le> fa f" by (simp add: q)
  have im: "2 * Im z * of_int (fa f) = of_int n * sqrt (- of_int D)"
    using arg_cong [OF mn, of Im] by (simp add: omega_def)
  {
    assume "Im z \<noteq> 0"
    then have "- n \<noteq> 0" using im pos by auto
    from qval_lower [OF pos(2) g(2) this] show "fc g \<le> fa f" by (simp add: q)
  }
  assume "Im z = 0" "fa f = fa g"
  then have "(Re z)\<^sup>2 = 1" using r pos by (simp add: cnorm_def)
  then have "Re z = 1 \<or> Re z = - 1" by (rule power2_eq_1_iff [THEN iffD1])
  with \<open>Im z = 0\<close> show "z = 1 \<or> z = - 1" by (auto simp: complex_eq_iff)
qed

theorem reduced_unique:
  assumes D: "D < 0" and f: "posdef D f" "is_reduced f" and g: "posdef D g" "is_reduced g"
    and "same_class D f g"
  shows "f = g"
proof -
  obtain z where z: "z \<noteq> 0" and eq: "(*) z ` lat D f = lat D g"
    using assms(6) by (auto simp: same_class_def homothetic_def)
  have eq': "(*) (inverse z) ` lat D g = lat D f"
    using z by (simp add: eq [symmetric] image_image mult.assoc [symmetric])
  note A = reduced_unique_aux [OF D f g eq] and B = reduced_unique_aux [OF D g f eq']
  have pos: "0 < fa f" "0 < fa g" using f(1) g(1) by (simp_all add: posdef_def)
  have a: "fa f = fa g" using A(1) B(1) by simp
  have d: "disc f = disc g" using f(1) g(1) by (simp add: posdef_def)
  show ?thesis
  proof (cases "Im z = 0")
    case True
    obtain k where "fb f = fb g + 2 * fa g * k"
      using homothety_real [OF D f(1) g(1) eq a A(3) [OF True a]] by blast
    then have "fb f = fb g"
      using is_reduced_normalized f(2) g(2) pos a by (intro normalized_unique) auto
    with d a show ?thesis using pos by (intro form_by_disc) auto
  next
    case False
    then have "Im (inverse z) \<noteq> 0" using z by (simp add: complex_eq_iff)
    then have c: "fc g = fa g" "fc f = fa f"
      using False A(2) B(2) a reduced_bounds [OF pos(1) f(2)] reduced_bounds [OF pos(2) g(2)] by auto
    then have "0 \<le> fb f" "0 \<le> fb g" using f(2) g(2) by (auto simp: is_reduced_def)
    moreover have "fb f * fb f = fb g * fb g" using d a c by (simp add: disc_def)
    ultimately have "fb f = fb g" by (metis abs_of_nonneg abs_mult_self_eq power2_eq_iff_nonneg power2_eq_square)
    with d a show ?thesis using pos by (intro form_by_disc) auto
  qed
qed

subsection \<open>Products and powers of classes\<close>

text \<open>\<open>class_mul\<close> and \<open>class_pow\<close> are the abstract specification of the program's
  group operations: the class of the result is the product, or the power, of the classes
  of the arguments.\<close>

definition unit_lat :: "int \<Rightarrow> complex set" where
  "unit_lat D = span2 (of_int 2) (omega D - of_int 1)"

definition class_mul :: "int \<Rightarrow> form \<Rightarrow> form \<Rightarrow> form \<Rightarrow> bool" where
  "class_mul D f g h \<longleftrightarrow> homothetic (lprod (lat D f) (lat D g)) (lat D h)"

primrec lpow :: "int \<Rightarrow> complex set \<Rightarrow> nat \<Rightarrow> complex set" where
  "lpow D M 0 = unit_lat D"
| "lpow D M (Suc n) = lprod M (lpow D M n)"

definition class_pow :: "int \<Rightarrow> form \<Rightarrow> nat \<Rightarrow> form \<Rightarrow> bool" where
  "class_pow D f n h \<longleftrightarrow> homothetic (lpow D (lat D f) n) (lat D h)"

text \<open>A discriminant without square factors: every form of it is primitive.\<close>

definition good_disc :: "int \<Rightarrow> bool" where
  "good_disc D \<longleftrightarrow> D < 0 \<and> (\<forall>g. g * g dvd D \<longrightarrow> \<bar>g\<bar> = 1)"

lemma good_disc_neg [simp]: "good_disc D \<Longrightarrow> D < 0"
  by (simp add: good_disc_def)

lemma good_disc_primitive:
  assumes "good_disc D" and "disc f = D"
  shows "primitive f"
proof -
  let ?g = "gcd (gcd (fa f) (fb f)) (fc f)"
  have "?g dvd fa f" "?g dvd fb f" "?g dvd fc f" by (meson dvd_trans gcd_dvd1 gcd_dvd2)+
  then have "?g * ?g dvd fb f * fb f - 4 * (fa f * fc f)"
    by (meson dvd_diff dvd_mult mult_dvd_mono)
  then have "?g * ?g dvd D" using assms(2) by (auto simp: disc_def mult.assoc)
  then show ?thesis using assms(1) by (auto simp: good_disc_def primitive_def)
qed

lemma composes_mul:
  assumes "good_disc D" and "posdef D f" and "composes D f g h"
  shows "class_mul D f g h"
  unfolding class_mul_def using assms good_disc_primitive
  by (intro compose_lattices) (auto simp: posdef_def)

lemma class_mul_commute: "class_mul D f g h \<longleftrightarrow> class_mul D g f h"
  by (simp add: class_mul_def lprod_comm)

lemma class_mul_cong:
  assumes "class_mul D f g h" and "same_class D f f'" and "same_class D g g'" and "same_class D h h'"
  shows "class_mul D f' g' h'"
  using assms unfolding class_mul_def same_class_def
  by (meson homothetic_lprod homothetic_sym homothetic_trans)

lemma class_mul_same: "class_mul D f g h \<Longrightarrow> same_class D h h' \<Longrightarrow> class_mul D f g h'"
  by (erule class_mul_cong [OF _ same_class_refl same_class_refl])

lemma class_mul_unique: "class_mul D f g h \<Longrightarrow> class_mul D f g h' \<Longrightarrow> same_class D h h'"
  unfolding class_mul_def same_class_def by (meson homothetic_sym homothetic_trans)

lemma class_pow_unique: "class_pow D f n h \<Longrightarrow> class_pow D f n h' \<Longrightarrow> same_class D h h'"
  unfolding class_pow_def same_class_def by (meson homothetic_sym homothetic_trans)

lemma class_pow_same: "class_pow D f n h \<Longrightarrow> same_class D h h' \<Longrightarrow> class_pow D f n h'"
  unfolding class_pow_def same_class_def by (meson homothetic_trans)

lemma composes_unit:
  assumes "disc f = D" and "odd D" and "fa u = 1" and "fb u = 1"
  shows "composes D f u f"
proof -
  have "odd (fb f)"
  proof
    assume "even (fb f)"
    then have "even (fb f * fb f - 4 * fa f * fc f)" by simp
    with assms(1,2) show False by (simp add: disc_def)
  qed
  then obtain k where k: "fb f = 2 * k + 1" by (rule oddE)
  have "D + fb f * fb u = 2 * 1 * (2 * fa f * 1 * (- fc f) + (k + 1) * fb f)"
    using assms(1) k by (simp add: disc_def assms(4) algebra_simps)
  then show ?thesis
    by (intro composesI [where s = 1 and p = "fa f" and q = 1 and u = "k + 1" and k = k and l = 0
        and h = "- fc f" and x = 0 and y = 1 and z = 0]) (use assms(3,4) k in simp_all)
qed

abbreviation unit_form :: "int \<Rightarrow> form" where
  "unit_form D \<equiv> mk_form 1 1 ((1 - D) div 4)"

lemma unit_lat_form: "unit_lat D = lat D (unit_form D)"
  by (simp add: unit_lat_def lat_def)

lemma good_disc_odd_mod4:
  assumes "good_disc D" and "disc f = D"
  shows "odd D" and "D mod 4 = 1"
proof -
  have "odd (fb f)"
  proof
    assume "even (fb f)"
    then obtain k where "fb f = 2 * k" by (rule evenE)
    then have "D = 2 * 2 * (k * k - fa f * fc f)"
      using assms(2) by (auto simp: disc_def algebra_simps)
    then have "2 * 2 dvd D" by (rule dvdI)
    then show False using assms(1) unfolding good_disc_def by fastforce
  qed
  then obtain k where k: "fb f = 2 * k + 1" by (rule oddE)
  then have D: "D = 1 + 4 * (k * k + k - fa f * fc f)"
    using assms(2) by (auto simp: disc_def algebra_simps)
  then show "D mod 4 = 1" by presburger
  then show "odd D" by presburger
qed

lemma unit_form_posdef: "D mod 4 = 1 \<Longrightarrow> posdef D (unit_form D)"
  by simp presburger

lemma class_mul_unit:
  assumes "good_disc D" and "posdef D f"
  shows "homothetic (lprod (lat D f) (unit_lat D)) (lat D f)"
proof -
  have "composes D f (unit_form D) f"
    using assms good_disc_odd_mod4 by (intro composes_unit) (auto simp: posdef_def)
  then show ?thesis
    using composes_mul [OF assms] by (simp add: class_mul_def unit_lat_form)
qed

lemma homothetic_lprod_right: "homothetic M N \<Longrightarrow> homothetic (lprod L M) (lprod L N)"
  by (rule homothetic_lprod) simp_all

lemma lpow_unit:
  assumes "homothetic (lprod (unit_lat D) (unit_lat D)) (unit_lat D)"
  shows "homothetic (lprod (unit_lat D) (lpow D M n)) (lpow D M n)"
  by (induction n) (simp_all add: assms lprod_left_comm [of "unit_lat D"] homothetic_lprod_right)

lemma lpow_add:
  assumes "homothetic (lprod (unit_lat D) (unit_lat D)) (unit_lat D)"
  shows "homothetic (lprod (lpow D M m) (lpow D M n)) (lpow D M (m + n))"
  by (induction m) (simp_all add: lpow_unit [OF assms] lprod_assoc homothetic_lprod_right)

lemma lpow_cong: "homothetic M N \<Longrightarrow> homothetic (lpow D M n) (lpow D N n)"
  by (induction n) (simp_all add: homothetic_lprod)

lemma lpow_mult:
  assumes "homothetic (lprod (unit_lat D) (unit_lat D)) (unit_lat D)"
  shows "homothetic (lpow D (lpow D M m) n) (lpow D M (m * n))"
proof (induction n)
  case (Suc n)
  then have "homothetic (lprod (lpow D M m) (lpow D (lpow D M m) n)) (lprod (lpow D M m) (lpow D M (m * n)))"
    by (rule homothetic_lprod_right)
  with lpow_add [OF assms] show ?case by (simp add: homothetic_trans)
qed simp

text \<open>The laws the power routines, the prover and the verifier rest on.\<close>

lemma good_disc_unit:
  assumes "good_disc D" and "posdef D f"
  shows "homothetic (lprod (unit_lat D) (unit_lat D)) (unit_lat D)"
proof -
  have "posdef D (unit_form D)"
    using assms by (intro unit_form_posdef good_disc_odd_mod4 posdefD)
  from class_mul_unit [OF assms(1) this] show ?thesis by (simp add: unit_lat_form)
qed

lemma class_pow_0: "fa u = 1 \<Longrightarrow> fb u = 1 \<Longrightarrow> class_pow D f 0 u"
  by (simp add: class_pow_def unit_lat_def lat_def)

lemma class_pow_1: "good_disc D \<Longrightarrow> posdef D f \<Longrightarrow> class_pow D f 1 f"
  using class_mul_unit by (simp add: class_pow_def)

lemma class_pow_add:
  assumes "good_disc D" and "posdef D f"
    and "class_pow D f m g" and "class_pow D f n h" and "class_mul D g h k"
  shows "class_pow D f (m + n) k"
proof -
  have "homothetic (lprod (lpow D (lat D f) m) (lpow D (lat D f) n)) (lprod (lat D g) (lat D h))"
    using assms(3,4) unfolding class_pow_def by (rule homothetic_lprod)
  then show ?thesis
    using lpow_add [OF good_disc_unit [OF assms(1,2)]] assms(5) unfolding class_pow_def class_mul_def
    by (meson homothetic_sym homothetic_trans)
qed

lemma class_pow_mult:
  assumes "good_disc D" and "posdef D f" and "class_pow D f m g" and "class_pow D g n h"
  shows "class_pow D f (m * n) h"
proof -
  have "homothetic (lpow D (lpow D (lat D f) m) n) (lpow D (lat D g) n)"
    using assms(3) unfolding class_pow_def by (rule lpow_cong)
  then show ?thesis
    using lpow_mult [OF good_disc_unit [OF assms(1,2)]] assms(4) unfolding class_pow_def
    by (meson homothetic_sym homothetic_trans)
qed

lemma class_pow_Suc:
  assumes "class_pow D f n g" and "class_mul D f g h"
  shows "class_pow D f (Suc n) h"
  using assms homothetic_lprod_right unfolding class_pow_def class_mul_def
  by (metis homothetic_trans lpow.simps(2))

lemma class_pow_reduced_unique:
  assumes "D < 0" and "posdef D g" "is_reduced g" and "posdef D h" "is_reduced h"
    and "class_pow D f n g" and "class_pow D f n h"
  shows "g = h"
  using assms by (intro reduced_unique [of D g h]) (auto intro: class_pow_unique)

lemma class_pow_base: "same_class D f f' \<Longrightarrow> class_pow D f n h \<Longrightarrow> class_pow D f' n h"
  unfolding class_pow_def same_class_def
  by (meson homothetic_sym homothetic_trans lpow_cong)

end
