(* ===== verification/VdfNew.thy ===== *)
theory VdfNew
  imports FormClass
begin

section \<open>The reference group operations: \<open>vdf_new.h\<close>\<close>

text \<open>
  Squaring, multiplication and the linear congruences they solve.  \<open>gcd\<close> is
  \<open>mpz_gcdext\<close>, the parameter \<open>G\<close>.  The property of every operation is that the
  result is a reduced form of the same discriminant in the product class.
\<close>

definition solve_linear_congruence ::
  "gcdext \<Rightarrow> int \<Rightarrow> int \<Rightarrow> int \<Rightarrow> (int \<times> int) option" where
  "solve_linear_congruence G a b m =
     (case G a m of (g, d, _) \<Rightarrow>
        if g = 0 \<or> b mod \<bar>g\<bar> \<noteq> 0 \<or> m = 0 then None
        else let q = b div g in Some ((q * d) mod \<bar>m\<bar>, m div g))"

definition three_gcd :: "gcdext \<Rightarrow> int \<Rightarrow> int \<Rightarrow> int \<Rightarrow> int" where
  "three_gcd G a b c = fst (G (fst (G a b)) c)"

definition multiply :: "gcdext \<Rightarrow> form \<Rightarrow> form \<Rightarrow> form option" where
  "multiply G f1 f2 =
     (let g = (fb f2 + fb f1) div 2;
          h = (fb f2 - fb f1) div 2;
          w = three_gcd G (fa f1) (fa f2) g;
          j = w
      in if w = 0 then None
         else let s = fa f1 div w; t = fa f2 div w; u = g div w in
           do {
             (k_temp, constant_factor) \<leftarrow>
               solve_linear_congruence G (t * u) (h * u + s * fc f1) (s * t);
             (n, constant_factor_2) \<leftarrow>
               solve_linear_congruence G (t * constant_factor) (h - t * k_temp) s;
             let k = k_temp + constant_factor * n;
             let l = (t * k - h) div s;
             let m = (t * u * k - h * u - s * fc f1) div (s * t);
             reduce (mk_form (s * t) (j * u - (k * t + l * s)) (k * l - j * m))
           })"

definition square_impl :: "gcdext \<Rightarrow> form \<Rightarrow> form option" where
  "square_impl G f =
     (case G (fb f) (fa f) of (g, s, _) \<Rightarrow>
        if g = 0 \<or> fa f = 0 then None
        else let u = (fc f div g * s) mod \<bar>fa f\<bar> in
          Some (mk_form (fa f * fa f) (fb f - 2 * (fa f * u))
                 (u * u - (fb f * u - fc f) div fa f)))"

definition square :: "gcdext \<Rightarrow> form \<Rightarrow> form option" where
  "square G f = do { r \<leftarrow> square_impl G f; reduce r }"

text \<open>\<open>operator*\<close> compares the addresses of its operands; \<open>same\<close> says whether they
  are one object.\<close>

definition form_times :: "gcdext \<Rightarrow> bool \<Rightarrow> form \<Rightarrow> form \<Rightarrow> form option" where
  "form_times G same a b = (if same then square G a else multiply G a b)"

text \<open>\<open>test_gcd\<close>: the Euclidean loop on the absolute values with one row of cofactors, the
  sign of the cofactor carried as a parity, and the final assertions against GMP.\<close>

function test_gcd_loop :: "int \<Rightarrow> int \<Rightarrow> int \<Rightarrow> int \<Rightarrow> int \<Rightarrow> int \<times> int \<times> int" where
  "test_gcd_loop a b u0 u1 parity =
     (if b \<le> 0 then (a, u0, parity)
      else test_gcd_loop b (a mod b) u1 (u0 + (a div b) * u1) (- parity))"
  by pat_completeness auto
termination
  by (relation "measure (\<lambda>(a, b, u0, u1, parity). nat b)") auto

declare test_gcd_loop.simps [simp del]

lemma test_gcd_loop_0 [simp]: "test_gcd_loop a 0 u v p = (a, u, p)"
  by (subst test_gcd_loop.simps) simp

definition test_gcd_result :: "int \<Rightarrow> int \<Rightarrow> int \<times> int" where
  "test_gcd_result a_signed b_signed =
     (let a_negative = a_signed < 0; a = \<bar>a_signed\<bar>; b = \<bar>b_signed\<bar>;
          (g, u0, parity) = (if a < b then test_gcd_loop b a 0 1 (- 1)
                             else test_gcd_loop a b 1 0 1)
      in (g, if a_negative \<noteq> (parity = - 1) then - u0 else u0))"

definition test_gcd :: "gcdext \<Rightarrow> int \<Rightarrow> int \<Rightarrow> (int \<times> int) option" where
  "test_gcd G a b =
     (let r = test_gcd_result a b in
      case G a b of (g, s, _) \<Rightarrow> if g = fst r \<and> s = snd r then Some r else None)"

text \<open>\<open>hash\<close> reads the lowest limb of \<open>c\<close>, which has none when \<open>c\<close> is zero.\<close>

definition form_hash :: "form \<Rightarrow> int option" where
  "form_hash f =
     (if fc f = 0 then None
      else Some (((\<bar>fc f\<bar> mod 2 ^ 64) div 2 ^ 4) mod 2 ^ 31))"

text \<open>\<open>generate_discriminant\<close>: \<open>mpz_nextprime\<close> and the random start are GMP's.\<close>

partial_function (option) generate_discriminant_loop :: "(int \<Rightarrow> int) \<Rightarrow> int \<Rightarrow> int option" where
  "generate_discriminant_loop nextprime r =
     (let p = nextprime r in
      if p mod 8 = 7 then Some (- p) else generate_discriminant_loop nextprime p)"

definition generate_discriminant :: "(int \<Rightarrow> int) \<Rightarrow> (nat \<Rightarrow> int) \<Rightarrow> nat \<Rightarrow> int option" where
  "generate_discriminant nextprime rand_integer num_bits =
     generate_discriminant_loop nextprime (rand_integer num_bits)"

subsection \<open>Linear congruences\<close>

lemma solve_linear_congruence_ok:
  assumes G: "gcdext_ok G" and m: "0 < m" and d: "gcd a m dvd b"
  obtains mu where "solve_linear_congruence G a b m = Some (mu, m div gcd a m)"
    and "m dvd a * mu - b"
proof -
  obtain g s t where st: "G a m = (g, s, t)" by (cases "G a m") auto
  note gg = gcdext_okD [OF G st]
  have g: "g \<noteq> 0" "0 < g" using m gg(1) by (auto intro: gcd_pos_int [THEN iffD2])
  define mu where "mu = (b div g * s) mod m"
  have "solve_linear_congruence G a b m = Some (mu, m div gcd a m)"
    using st g m d gg(1) by (simp add: solve_linear_congruence_def mu_def Let_def mod_eq_0_iff_dvd)
  moreover have "m dvd a * mu - b"
  proof -
    have "a * s = g - m * t" using gg by (simp add: algebra_simps)
    then have "a * (b div g * s) = (g - m * t) * (b div g)"
      by (simp add: ac_simps)
    also have "\<dots> = b - m * (t * (b div g))"
      using d gg(1) by (simp add: algebra_simps)
    finally have 1: "a * (b div g * s) - b = m * (- (t * (b div g)))" by simp
    define K where "K = b div g * s div m"
    have mu: "mu = b div g * s - m * K"
      by (simp add: mu_def K_def minus_mult_div_eq_mod)
    have "a * mu - b = (a * (b div g * s) - b) - m * (a * K)"
      unfolding mu by (simp add: algebra_simps)
    also have "\<dots> = m * (- (t * (b div g)) - a * K)"
      unfolding 1 by (simp add: algebra_simps)
    finally show ?thesis by (rule dvdI)
  qed
  ultimately show thesis by (rule that)
qed

lemma three_gcd_eq: "gcdext_ok G \<Longrightarrow> three_gcd G a b c = gcd (gcd a b) c"
  by (simp add: three_gcd_def)

lemma gcd3_bezout:
  obtains x y z where "x * a + y * b + z * c = gcd (gcd a b) (c::int)"
proof -
  obtain x y where xy: "x * a + y * b = gcd a b" using bezout_int by blast
  obtain v z where "v * gcd a b + z * c = gcd (gcd a b) c" using bezout_int by blast
  then have "(v * x) * a + (v * y) * b + z * c = gcd (gcd a b) c"
    by (simp add: xy [symmetric] algebra_simps)
  then show thesis by (rule that)
qed

subsection \<open>Multiplication\<close>

lemma posdef_parity:
  assumes "posdef D f1" and "posdef D f2"
  shows "even (fb f1 + fb f2)"
proof -
  have "fb f1 * fb f1 - fb f2 * fb f2 = 2 * (2 * (fa f1 * fc f1 - fa f2 * fc f2))"
    using assms by (simp add: posdef_def disc_def algebra_simps)
  then have "even (fb f1 * fb f1 - fb f2 * fb f2)" by simp
  then show ?thesis by simp
qed

text \<open>The numbers of \<open>multiply\<close> once the gcd is divided out.\<close>

lemma multiply_setup:
  assumes f1: "posdef D f1" and f2: "posdef D f2"
    and w: "w = gcd (gcd (fa f1) (fa f2)) ((fb f1 + fb f2) div 2)"
  obtains s t u h x y z where "fa f1 = w * s" "fa f2 = w * t" "fb f1 + fb f2 = 2 * w * u"
    and "fb f2 = fb f1 + 2 * h" and "0 < s" "0 < t" "0 < w"
    and "x * s + y * t + z * u = 1" and "h * u + s * fc f1 = t * fc f2"
proof -
  let ?g = "(fb f1 + fb f2) div 2"
  have pos: "0 < fa f1" "0 < fa f2" using f1 f2 by (simp_all add: posdef_def)
  have w0: "0 < w" unfolding w using pos(1)
    by (metis abs_not_less_zero gcd_eq_0_iff gcd_ge_0_int less_le)
  have dvds: "w dvd fa f1" "w dvd fa f2" "w dvd ?g"
    unfolding w by (meson dvd_trans gcd_dvd1 gcd_dvd2)+
  obtain s where s: "fa f1 = w * s" using dvds(1) by (rule dvdE)
  obtain t where t: "fa f2 = w * t" using dvds(2) by (rule dvdE)
  obtain u where u: "?g = w * u" using dvds(3) by (rule dvdE)
  have ev: "even (fb f1 + fb f2)" using f1 f2 by (rule posdef_parity)
  then have sum: "fb f1 + fb f2 = 2 * w * u" using u even_sum_div2 [OF ev] by simp
  define h where "h = (fb f2 - fb f1) div 2"
  have h: "fb f2 = fb f1 + 2 * h" using ev by (simp add: h_def)
  have st: "0 < s" "0 < t" using pos w0 s t by (simp_all add: zero_less_mult_iff)
  obtain x y z where "x * fa f1 + y * fa f2 + z * ?g = w"
    unfolding w by (rule gcd3_bezout)
  then have "w * (x * s + y * t + z * u) = w * 1" unfolding s t u by (simp add: algebra_simps)
  then have bez: "x * s + y * t + z * u = 1" using w0 by simp
  have "fb f1 * fb f1 - 4 * (w * s) * fc f1 = fb f2 * fb f2 - 4 * (w * t) * fc f2"
    using f1 f2 s t by (simp add: posdef_def disc_def)
  then have "4 * w * (t * fc f2 - s * fc f1) = (fb f1 + fb f2) * (fb f2 - fb f1)"
    by (simp add: algebra_simps)
  also have "\<dots> = 4 * w * (h * u)" using h sum by simp
  finally have "t * fc f2 - s * fc f1 = h * u" using w0 by simp
  then show thesis using s t sum h st w0 bez by (intro that) auto
qed

lemma coprime_cofactors:
  assumes "x * s + y * t + z * u = (1::int)"
  shows "coprime (gcd u s) t"
proof (rule coprimeI)
  fix d
  assume "d dvd gcd u s" "d dvd t"
  then have "d dvd x * s + y * t + z * u" by (meson dvd_add dvd_mult dvd_trans gcd_dvd1 gcd_dvd2)
  then show "is_unit d" unfolding assms .
qed

lemma multiply_solvable:
  assumes G: "gcdext_ok G" and st: "0 < s" "0 < t"
    and bez: "x * s + y * t + z * u = 1" and c: "h * u + s * c1 = t * c2"
  obtains k v n v2 where "solve_linear_congruence G (t * u) (h * u + s * c1) (s * t) = Some (k, v)"
    and "solve_linear_congruence G (t * v) (h - t * k) s = Some (n, v2)"
    and "s dvd t * (k + v * n) - h" and "s * t dvd t * u * (k + v * n) - h * u - s * c1"
proof -
  let ?e = "gcd u s"
  have e: "0 < ?e" using st by (auto intro: gcd_pos_int [THEN iffD2])
  have cop: "coprime ?e t" using bez by (rule coprime_cofactors)
  have g1: "gcd (t * u) (s * t) = t * ?e" using st
    by (simp add: gcd_mult_distrib_int [symmetric] mult.commute [of s] abs_mult)
  have "?e dvd h * u + s * c1" by (simp add: dvd_mult dvd_mult2)
  then have "?e dvd c2" unfolding c using cop by (simp add: coprime_dvd_mult_right_iff)
  then have "gcd (t * u) (s * t) dvd h * u + s * c1" unfolding c g1 by simp
  from solve_linear_congruence_ok [OF G _ this] st
  obtain k where k: "solve_linear_congruence G (t * u) (h * u + s * c1) (s * t)
      = Some (k, s * t div (t * ?e))" and kd: "s * t dvd t * u * k - (h * u + s * c1)"
    unfolding g1 by (metis mult_pos_pos)
  define v where "v = s div ?e"
  have se: "s = v * ?e" by (simp add: v_def)
  have v0: "0 < v" using st(1) e se by (metis zero_less_mult_pos2)
  have v: "s * t div (t * ?e) = v" using st by (simp add: v_def mult.commute [of s])
  obtain u' where u: "u = u' * ?e" by (metis dvdE gcd_dvd1 mult.commute)
  have cop2: "coprime v u'"
  proof -
    have "gcd (u' * ?e) (v * ?e) = ?e" using u se by simp
    then have "gcd u' v * ?e = 1 * ?e" using gcd_mult_right [of u' "?e" v] by (simp add: gcd.commute [of v u'])
    then have "gcd u' v = 1" using e by (auto simp only: mult_cancel_right)
    then show ?thesis by (simp add: coprime_iff_gcd_eq_1 gcd.commute)
  qed
  have "s dvd t * u * k - (h * u + s * c1)" using kd by (rule dvd_mult_left)
  then have "s dvd t * u * k - (h * u + s * c1) + s * c1" by (rule dvd_add) simp
  then have "v * ?e dvd (u' * (t * k - h)) * ?e" using se u by (metis (no_types, lifting) add_diff_cancel_right' diff_add_eq diff_diff_eq2 left_diff_distrib mult.assoc mult.commute)
  then have "v dvd u' * (t * k - h)" using e by auto
  then have "v dvd t * k - h" using cop2 by (simp add: coprime_dvd_mult_right_iff)
  then have vd: "v dvd h - t * k" by (metis dvd_diff_commute)
  have g2: "gcd (t * v) s = v"
  proof -
    have "gcd (v * t) (v * ?e) = v * gcd t ?e" using v0 by (simp add: gcd_mult_distrib_int [symmetric])
    also have "gcd t ?e = 1" using cop by (simp add: coprime_iff_gcd_eq_1 gcd.commute)
    finally show ?thesis using se by (simp add: mult.commute)
  qed
  obtain n where n: "solve_linear_congruence G (t * v) (h - t * k) s = Some (n, s div v)"
    and nd: "s dvd t * v * n - (h - t * k)"
    using solve_linear_congruence_ok [OF G st(1), of "t * v" "h - t * k"] vd unfolding g2 by blast
  have 1: "s dvd t * (k + v * n) - h" using nd by (simp add: algebra_simps)
  have "s * t dvd t * u * v * n"
    by (rule dvdI [where k = "u' * n"]) (use se u in \<open>metis mult.assoc mult.commute\<close>)
  then have "s * t dvd (t * u * k - (h * u + s * c1)) + t * u * v * n"
    using kd by (rule dvd_add [rotated])
  then have 2: "s * t dvd t * u * (k + v * n) - h * u - s * c1" by (simp add: algebra_simps)
  show thesis using that [of k v n "s div v"] k n 1 2 by (simp add: v)
qed


text \<open>Any \<open>k\<close> with the two divisibilities gives a form of the right discriminant that
  composes the arguments.\<close>

lemma multiply_composes:
  assumes fs: "posdef D f1" and aa: "fa f1 = w * s" "fa f2 = w * t"
    and bb: "fb f1 + fb f2 = 2 * w * u" "fb f2 = fb f1 + 2 * h"
    and pos: "0 < s" "0 < t" "0 < w" and bez: "x * s + y * t + z * u = 1"
    and l: "s * l = t * k - h" and m: "s * t * m = t * u * k - h * u - s * fc f1"
    and r: "r = mk_form (s * t) (w * u - (k * t + l * s)) (k * l - w * m)"
  shows "posdef D r" and "composes D f1 f2 r"
proof -
  have b1: "fb f1 = w * u - h" using bb by simp
  have D: "D = (w * u - h) * (w * u - h) - 4 * (w * s) * fc f1"
    using fs by (auto simp: posdef_def disc_def aa b1)
  have b3: "fb r = w * u + h - 2 * t * k" using l by (simp add: r algebra_simps)
  have "s * (t * m) = u * (t * k - h) - s * fc f1" using m by (simp add: algebra_simps)
  then have "s * (t * m) = s * (u * l - fc f1)" unfolding l [symmetric] by (simp add: algebra_simps)
  then have tm: "t * m = u * l - fc f1" using pos(1) by simp
  have "fb r * fb r - 4 * fa r * fc r =
      (w * u - (k * t + l * s)) * (w * u - (k * t + l * s)) - 4 * (s * t) * (k * l - w * m)"
    by (simp add: r)
  also have "\<dots> = (w * u - k * t - s * l) * (w * u - k * t - s * l) - 4 * t * k * (s * l) + 4 * w * s * (t * m)"
    by (simp add: algebra_simps)
  also have "\<dots> = (w * u - k * t - s * l) * (w * u - k * t - s * l) - 4 * t * k * (s * l)
      + 4 * w * u * (s * l) - 4 * w * s * fc f1"
    unfolding tm by (simp add: algebra_simps)
  also have "\<dots> = D" unfolding l D by (simp add: algebra_simps)
  finally show "posdef D r" using pos(1,2) by (simp add: posdef_def disc_def r)
  have b2: "fb f2 = w * u + h" using bb by simp
  have "D + fb f1 * fb f2 = 2 * w * (u * (w * u - h) - 2 * s * fc f1)"
    unfolding D b1 b2 by (simp add: algebra_simps)
  also have "u * (w * u - h) - 2 * s * fc f1 = 2 * s * (t * m) + u * (w * u - h - 2 * (s * l))"
    unfolding tm by (simp add: algebra_simps)
  also have "w * u - h - 2 * (s * l) = fb r" unfolding b3 l by simp
  finally have Db: "D + fb f1 * fb f2 = 2 * w * (2 * s * t * m + u * fb r)" by simp
  have ra: "fa r = s * t" by (simp add: r)
  have e1: "fb r = fb f2 + 2 * t * (- k)" unfolding b3 b2 by simp
  have e2: "fb r = fb f1 + 2 * s * (- l)" unfolding b3 b1 using l by (simp add: mult.assoc)
  show "composes D f1 f2 r"
    by (rule composesI [OF _ aa ra bb(1) e1 e2 Db bez]) (use pos(3) in simp)
qed

lemma multiply_raw:
  assumes G: "gcdext_ok G" and f1: "posdef D f1" and f2: "posdef D f2"
  shows "\<exists>r. multiply G f1 f2 = reduce r \<and> posdef D r \<and> composes D f1 f2 r"
proof -
  let ?g = "(fb f2 + fb f1) div 2"
  define w where "w = gcd (gcd (fa f1) (fa f2)) ((fb f1 + fb f2) div 2)"
  obtain s t u h x y z where st: "fa f1 = w * s" "fa f2 = w * t" and bb: "fb f1 + fb f2 = 2 * w * u"
      "fb f2 = fb f1 + 2 * h" and pos: "0 < s" "0 < t" "0 < w"
    and bez: "x * s + y * t + z * u = 1" and c: "h * u + s * fc f1 = t * fc f2"
    using f1 f2 w_def by (rule multiply_setup)
  obtain k v n v2 where S1: "solve_linear_congruence G (t * u) (h * u + s * fc f1) (s * t) = Some (k, v)"
    and S2: "solve_linear_congruence G (t * v) (h - t * k) s = Some (n, v2)"
    and d1: "s dvd t * (k + v * n) - h" and d2: "s * t dvd t * u * (k + v * n) - h * u - s * fc f1"
    using G pos(1,2) bez c by (rule multiply_solvable)
  let ?k = "k + v * n"
  let ?l = "(t * ?k - h) div s" and ?m = "(t * u * ?k - h * u - s * fc f1) div (s * t)"
  let ?r = "mk_form (s * t) (w * u - (?k * t + ?l * s)) (?k * ?l - w * ?m)"
  have g: "?g = w * u" using bb(1) by (simp add: add.commute [of "fb f2"])
  have "three_gcd G (fa f1) (fa f2) ?g = w"
    unfolding w_def by (simp add: three_gcd_eq [OF G] add.commute)
  then have w: "three_gcd G (fa f1) (fa f2) (w * u) = w" by (simp only: g)
  have divs: "fa f1 div w = s" "fa f2 div w = t" "w * u div w = u" "(fb f2 - fb f1) div 2 = h"
    using pos(3) st bb(2) by simp_all
  have "multiply G f1 f2 = reduce ?r"
    unfolding multiply_def g w divs Let_def using pos(3) S1 S2 by simp
  moreover have "posdef D ?r" "composes D f1 f2 ?r"
    using multiply_composes [OF f1 st bb pos bez _ _ refl, of ?l ?k ?m] d1 d2 by simp_all
  ultimately show ?thesis by blast
qed

lemma multiply_correct:
  assumes "good_disc D" and "gcdext_ok G" and "posdef D f1" and "posdef D f2"
  shows "\<exists>r. multiply G f1 f2 = Some r \<and> posdef D r \<and> is_reduced r \<and> class_mul D f1 f2 r"
proof -
  obtain r where r: "multiply G f1 f2 = reduce r" "posdef D r" "composes D f1 f2 r"
    using multiply_raw [OF assms(2-4)] by blast
  obtain g where g: "reduce r = Some g" "posdef D g" "is_reduced g" "same_class D r g"
    using reduce_returns [OF r(2)] assms(1) good_disc_neg by blast
  have "class_mul D f1 f2 r" using assms(1,3) r(3) by (rule composes_mul)
  then have "class_mul D f1 f2 g" using g(4) by (rule class_mul_same)
  with r(1) g show ?thesis by auto
qed

subsection \<open>Squaring\<close>

lemma square_impl_composes:
  assumes G: "gcdext_ok G" and f: "posdef D f" and cop: "coprime (fa f) (fb f)"
  shows "\<exists>r. square_impl G f = Some r \<and> posdef D r \<and> composes D f f r"
proof -
  obtain g s t where st: "G (fb f) (fa f) = (g, s, t)" by (cases "G (fb f) (fa f)") auto
  note gg = gcdext_okD [OF G st]
  have a: "0 < fa f" using f by (rule posdefD)
  have g: "g = 1" using gg(1) cop by (simp add: coprime_iff_gcd_eq_1 gcd.commute)
  define u where "u = (fc f * s) mod fa f"
  have "fb f * s = 1 - fa f * t" using gg g by (simp add: algebra_simps)
  then have "fb f * (fc f * s) = fc f - fa f * (t * fc f)"
    by (metis (no_types, lifting) mult.assoc mult.left_commute mult.right_neutral right_diff_distrib mult.commute)
  then have 1: "fb f * (fc f * s) - fc f = fa f * (- (t * fc f))" by simp
  define K where "K = fc f * s div fa f"
  have u: "u = fc f * s - fa f * K"
    by (simp add: u_def K_def minus_mult_div_eq_mod)
  have "fb f * u - fc f = (fb f * (fc f * s) - fc f) - fa f * (fb f * K)"
    unfolding u by (simp add: algebra_simps)
  also have "\<dots> = fa f * (- (t * fc f) - fb f * K)"
    unfolding 1 by (simp add: algebra_simps)
  finally obtain h where h: "fb f * u - fc f = fa f * h" by blast
  let ?r = "mk_form (fa f * fa f) (fb f - 2 * (fa f * u)) (u * u - h)"
  have "square_impl G f = Some ?r"
    using st g a h by (simp add: square_impl_def Let_def u_def [symmetric])
  moreover have D: "D = fb f * fb f - 4 * fa f * fc f" using f by (auto simp: posdef_def disc_def)
  have c: "fc f = fb f * u - fa f * h" using h by simp
  have "posdef D ?r" using a unfolding posdef_mk D c by (simp add: algebra_simps)
  moreover obtain x y where xy: "x * fa f + y * fb f = 1"
    using bezout_int [of "fa f" "fb f"] cop by (auto simp: coprime_iff_gcd_eq_1)
  have "D + fb f * fb f = 2 * 1 * (2 * fa f * fa f * h + fb f * (fb f - 2 * (fa f * u)))"
    unfolding D c by (simp add: algebra_simps)
  then have "composes D f f ?r"
    by (intro composesI [where s = 1 and p = "fa f" and q = "fa f" and u = "fb f" and k = "- u" and l = "- u"
          and h = h and x = x and y = 0 and z = y]) (use xy in simp_all)
  ultimately show ?thesis by blast
qed

lemma square_correct:
  assumes "good_disc D" and "gcdext_ok G" and "posdef D f" and "coprime (fa f) (fb f)"
  shows "\<exists>r. square G f = Some r \<and> posdef D r \<and> is_reduced r \<and> class_mul D f f r"
proof -
  obtain r where r: "square_impl G f = Some r" "posdef D r" "composes D f f r"
    using square_impl_composes [OF assms(2-4)] by blast
  obtain g where g: "reduce r = Some g" "posdef D g" "is_reduced g" "same_class D r g"
    using reduce_returns [OF r(2)] assms(1) good_disc_neg by blast
  have "class_mul D f f r" using assms(1,3) r(3) by (rule composes_mul)
  then have "class_mul D f f g" using g(4) by (rule class_mul_same)
  with r(1) g show ?thesis by (auto simp: square_def)
qed

subsection \<open>The Euclidean loop of \<open>test_gcd\<close>\<close>

lemma test_gcd_loop_inv:
  assumes "0 \<le> a" and "0 \<le> b" and "test_gcd_loop a b u0 u1 p = (g, u, q)"
    and "m dvd p * u0 * x - a" and "m dvd - p * u1 * x - b" and "p = 1 \<or> p = - 1"
  shows "g = gcd a b \<and> m dvd q * u * x - g \<and> (q = 1 \<or> q = - 1)"
  using assms
proof (induction a b u0 u1 p rule: test_gcd_loop.induct)
  case (1 a b u0 u1 p)
  show ?case
  proof (cases "b \<le> 0")
    case True
    then have "b = 0" using 1(3) by simp
    then have "g = a" "u = u0" "q = p" using 1(4) by simp_all
    with \<open>b = 0\<close> 1(2,5,7) show ?thesis by simp
  next
    case False
    have r: "a mod b = a - (a div b) * b" by (simp add: minus_div_mult_eq_mod)
    have "m dvd (p * u0 * x - a) - (a div b) * (- p * u1 * x - b)"
      by (rule dvd_diff [OF 1(5) dvd_mult [OF 1(6)]])
    also have "(p * u0 * x - a) - (a div b) * (- p * u1 * x - b)
        = - (- p) * (u0 + (a div b) * u1) * x - a mod b"
      unfolding r by (simp add: algebra_simps)
    finally have step: "m dvd - (- p) * (u0 + (a div b) * u1) * x - a mod b" .
    have "test_gcd_loop b (a mod b) u1 (u0 + (a div b) * u1) (- p) = (g, u, q)"
      using 1(4) False by (simp add: test_gcd_loop.simps [of a b])
    from 1(1) [OF False _ _ this _ step] 1(3,6,7) False
    have "g = gcd b (a mod b) \<and> m dvd q * u * x - g \<and> (q = 1 \<or> q = - 1)" by auto
    then show ?thesis using gcd_red_int [of a b] by auto
  qed
qed

lemma test_gcd_result_correct:
  assumes "test_gcd_result a b = (g, s)"
  shows "g = gcd a b" and "b dvd a * s - g"
proof -
  obtain g' u q where L: "(if \<bar>a\<bar> < \<bar>b\<bar> then test_gcd_loop \<bar>b\<bar> \<bar>a\<bar> 0 1 (- 1)
      else test_gcd_loop \<bar>a\<bar> \<bar>b\<bar> 1 0 1) = (g', u, q)"
    by (metis prod_cases3)
  have "g' = gcd \<bar>a\<bar> \<bar>b\<bar> \<and> b dvd q * u * \<bar>a\<bar> - g' \<and> (q = 1 \<or> q = - 1)"
  proof (cases "\<bar>a\<bar> < \<bar>b\<bar>")
    case True
    with L have "test_gcd_loop \<bar>b\<bar> \<bar>a\<bar> 0 1 (- 1) = (g', u, q)" by simp
    from test_gcd_loop_inv [OF _ _ this, of b "\<bar>a\<bar>"] show ?thesis
      by (auto simp: gcd.commute)
  next
    case False
    with L have "test_gcd_loop \<bar>a\<bar> \<bar>b\<bar> 1 0 1 = (g', u, q)" by simp
    from test_gcd_loop_inv [OF _ _ this, of b "\<bar>a\<bar>"] show ?thesis by auto
  qed
  then have r: "g' = gcd \<bar>a\<bar> \<bar>b\<bar>" "b dvd q * u * \<bar>a\<bar> - g'" "q = 1 \<or> q = - 1"
    by blast+
  have gs: "g = g'" "s = (if (a < 0) \<noteq> (q = - 1) then - u else u)"
    using assms L by (auto simp: test_gcd_result_def Let_def split: if_splits)
  show "g = gcd a b" using r(1) gs(1) by simp
  have "a * s = q * u * \<bar>a\<bar>" using r(3) gs(2) by auto
  with r(2) gs(1) show "b dvd a * s - g" by simp
qed

end
