(* ===== verification/Xgcd.thy ===== *)
theory Xgcd
  imports Prelude
begin

section \<open>The partial extended gcd of \<open>xgcd_partial.c\<close>\<close>

text \<open>
  \<open>mpz_xgcd_partial\<close> runs Lehmer's variant of the Euclidean algorithm: an inner loop works
  on the leading 63 bits of the two remainders in signed limbs and collects a matrix, which
  the outer loop then applies to the full remainders and cofactors.  Every limb operation
  is reduced with \<open>s64\<close> (two's complement, of the prelude); the lemmas show that the reductions never
  change a value on the inputs the program passes.  The outer loop is a
  \<open>partial_function\<close> and is proved to return.
\<close>

definition get_ui :: "int \<Rightarrow> int" where
  "get_ui x = \<bar>x\<bar> mod 2 ^ 64"

record lehmer =
  rr2 :: int
  rr1 :: int
  aa2 :: int
  aa1 :: int
  bb2 :: int
  bb1 :: int

text \<open>The new row of one step, and the test that rejects it: \<open>i\<close> is the step count.\<close>

definition lehmer_t1 :: "lehmer \<Rightarrow> int" where
  "lehmer_t1 s = s64 (rr2 s - s64 (tdiv (rr2 s) (rr1 s) * rr1 s))"

definition lehmer_t2 :: "lehmer \<Rightarrow> int" where
  "lehmer_t2 s = s64 (aa2 s - s64 (tdiv (rr2 s) (rr1 s) * aa1 s))"

definition lehmer_t3 :: "lehmer \<Rightarrow> int" where
  "lehmer_t3 s = s64 (bb2 s - s64 (tdiv (rr2 s) (rr1 s) * bb1 s))"

definition lehmer_break :: "nat \<Rightarrow> lehmer \<Rightarrow> bool" where
  "lehmer_break i s =
     (let t1 = lehmer_t1 s; t2 = lehmer_t2 s; t3 = lehmer_t3 s in
      if odd i then t1 < s64 (- t3) \<or> s64 (rr1 s - t1) < s64 (t2 - aa1 s)
      else t1 < s64 (- t2) \<or> s64 (rr1 s - t1) < s64 (t3 - bb1 s))"

definition lehmer_shift :: "lehmer \<Rightarrow> lehmer" where
  "lehmer_shift s =
     \<lparr>rr2 = rr1 s, rr1 = lehmer_t1 s, aa2 = aa1 s, aa1 = lehmer_t2 s,
      bb2 = bb1 s, bb1 = lehmer_t3 s\<rparr>"

partial_function (option) lehmer_loop :: "int \<Rightarrow> nat \<Rightarrow> lehmer \<Rightarrow> (nat \<times> lehmer) option" where
  "lehmer_loop bb i s =
     (if rr1 s \<noteq> 0 \<and> rr1 s > bb \<and> \<not> lehmer_break i s
      then lehmer_loop bb (Suc i) (lehmer_shift s) else Some (i, s))"

definition lehmer_bits :: "int \<Rightarrow> int \<Rightarrow> nat" where
  "lehmer_bits r2 r1 = nat (max 0 (max (int (sizeinbase2 r2)) (int (sizeinbase2 r1)) - 64 + 1))"

definition lehmer_init :: "nat \<Rightarrow> int \<Rightarrow> int \<Rightarrow> lehmer" where
  "lehmer_init bits r2 r1 =
     \<lparr>rr2 = s64 (get_ui (tdiv r2 (2 ^ bits))), rr1 = s64 (get_ui (tdiv r1 (2 ^ bits))),
      aa2 = 0, aa1 = 1, bb2 = 1, bb1 = 0\<rparr>"

record xgcd =
  co2 :: int
  co1 :: int
  xr2 :: int
  xr1 :: int

text \<open>One round of the outer loop: a Euclidean step when the inner loop made no progress,
  otherwise the collected matrix, with \<open>mpz_addmul_ui\<close>/\<open>mpz_submul_ui\<close> by the sign
  of the coefficient and the final sign repairs.\<close>

definition addmul_si :: "int \<Rightarrow> int \<Rightarrow> int \<Rightarrow> int" where
  "addmul_si r x c = (if c \<ge> 0 then r + x * c else r - x * (- c))"

definition xgcd_apply :: "lehmer \<Rightarrow> xgcd \<Rightarrow> xgcd" where
  "xgcd_apply m x =
     (let r2 = addmul_si (xr2 x * bb2 m) (xr1 x) (aa2 m);
          r1 = addmul_si (xr1 x * aa1 m) (xr2 x) (bb1 m);
          c2 = addmul_si (co2 x * bb2 m) (co1 x) (aa2 m);
          c1 = addmul_si (co1 x * aa1 m) (co2 x) (bb1 m)
      in \<lparr>co2 = (if r2 < 0 then - c2 else c2), co1 = (if r1 < 0 then - c1 else c1),
          xr2 = \<bar>r2\<bar>, xr1 = \<bar>r1\<bar>\<rparr>)"

definition xgcd_euclid :: "xgcd \<Rightarrow> xgcd" where
  "xgcd_euclid x =
     (let q = xr2 x div xr1 x in
      \<lparr>co2 = co1 x, co1 = co2 x - co1 x * q, xr2 = xr1 x, xr1 = xr2 x mod xr1 x\<rparr>)"

definition xgcd_round :: "int \<Rightarrow> xgcd \<Rightarrow> xgcd option" where
  "xgcd_round L x =
     (let bits = lehmer_bits (xr2 x) (xr1 x); bb = s64 (get_ui (tdiv L (2 ^ bits))) in
      do {
        (i, m) \<leftarrow> lehmer_loop bb 0 (lehmer_init bits (xr2 x) (xr1 x));
        Some (if i = 0 then xgcd_euclid x else xgcd_apply m x)
      })"

partial_function (option) xgcd_loop :: "int \<Rightarrow> xgcd \<Rightarrow> xgcd option" where
  "xgcd_loop L x =
     (if xr1 x \<noteq> 0 \<and> xr1 x > L then Option.bind (xgcd_round L x) (xgcd_loop L) else Some x)"

definition xgcd_fixup :: "xgcd \<Rightarrow> xgcd" where
  "xgcd_fixup x =
     (if xr2 x < 0 then \<lparr>co2 = - co2 x, co1 = - co1 x, xr2 = - xr2 x, xr1 = xr1 x\<rparr> else x)"

definition mpz_xgcd_partial :: "int \<Rightarrow> int \<Rightarrow> int \<Rightarrow> xgcd option" where
  "mpz_xgcd_partial r2 r1 L =
     map_option xgcd_fixup (xgcd_loop L \<lparr>co2 = 0, co1 = - 1, xr2 = r2, xr1 = r1\<rparr>)"

declare lehmer_loop.simps [code]
declare xgcd_loop.simps [code]

subsection \<open>The inner loop stays within a limb and keeps its rows\<close>

text \<open>
  \<open>sg i\<close> is the sign pattern of step \<open>i\<close>.  \<open>lehmer_inv\<close> collects what is known
  after \<open>i\<close> accepted steps from the leading parts \<open>P\<close> and \<open>Q\<close>: the rows, the
  signs, the determinant, and the two sums that bound every entry by \<open>P\<close>.
\<close>

definition sg :: "nat \<Rightarrow> int" where
  "sg i = (if even i then 1 else - 1)"

lemma sg_simps [simp]: "sg (Suc i) = - sg i" "sg i * sg i = 1" "sg 0 = 1"
  by (simp_all add: sg_def)

lemma sg_cases: "sg i = 1 \<or> sg i = - 1"
  by (simp add: sg_def)

definition lehmer_inv :: "int \<Rightarrow> int \<Rightarrow> nat \<Rightarrow> lehmer \<Rightarrow> bool" where
  "lehmer_inv P Q i s \<longleftrightarrow>
     rr2 s = bb2 s * P + aa2 s * Q \<and> rr1 s = bb1 s * P + aa1 s * Q \<and>
     0 \<le> rr1 s \<and> 0 < rr2 s \<and> rr1 s \<le> rr2 s \<and>
     0 < sg i * aa1 s \<and> sg i * aa2 s \<le> 0 \<and> 0 \<le> sg i * bb2 s \<and> sg i * bb1 s \<le> 0 \<and>
     sg i * bb1 s < sg i * bb2 s \<and> aa1 s * bb2 s - aa2 s * bb1 s = sg i"

lemma lehmer_inv_sums:
  assumes "lehmer_inv P Q i s"
  shows "(sg i * aa1 s) * rr2 s + (- (sg i * aa2 s)) * rr1 s = P"
    and "(- (sg i * bb1 s)) * rr2 s + (sg i * bb2 s) * rr1 s = Q"
proof -
  have det: "aa1 s * bb2 s - aa2 s * bb1 s = sg i"
    and r: "rr2 s = bb2 s * P + aa2 s * Q" "rr1 s = bb1 s * P + aa1 s * Q"
    using assms by (simp_all add: lehmer_inv_def)
  have "(sg i * aa1 s) * rr2 s + (- (sg i * aa2 s)) * rr1 s
      = sg i * (aa1 s * bb2 s - aa2 s * bb1 s) * P"
    unfolding r by (simp add: algebra_simps)
  then show "(sg i * aa1 s) * rr2 s + (- (sg i * aa2 s)) * rr1 s = P"
    by (simp add: det)
  have "(- (sg i * bb1 s)) * rr2 s + (sg i * bb2 s) * rr1 s
      = sg i * (aa1 s * bb2 s - aa2 s * bb1 s) * Q"
    unfolding r by (simp add: algebra_simps)
  then show "(- (sg i * bb1 s)) * rr2 s + (sg i * bb2 s) * rr1 s = Q"
    by (simp add: det)
qed

lemma nonneg_sum_bound:
  assumes "x * r + y * t = (P::int)" and "0 \<le> x" "0 < r" "0 \<le> y" "0 \<le> t"
  shows "x \<le> P"
proof -
  have "0 \<le> y * t" using assms by simp
  moreover have "x * 1 \<le> x * r" using assms by (intro mult_left_mono) auto
  ultimately show ?thesis using assms(1) by simp
qed

lemma nonneg_sum_bound2:
  assumes "x * r + y * t = (P::int)" and "0 \<le> x" "0 < r" "0 \<le> y" "0 < t"
  shows "x + y \<le> P"
proof -
  have "x * 1 \<le> x * r" "y * 1 \<le> y * t" using assms by (intro mult_left_mono; simp)+
  then show ?thesis using assms(1) by simp
qed

text \<open>The exact new row, before any reduction to a limb.\<close>

definition exact_shift :: "lehmer \<Rightarrow> lehmer" where
  "exact_shift s =
     (let q = rr2 s div rr1 s in
      \<lparr>rr2 = rr1 s, rr1 = rr2 s mod rr1 s, aa2 = aa1 s, aa1 = aa2 s - q * aa1 s,
       bb2 = bb1 s, bb1 = bb2 s - q * bb1 s\<rparr>)"

lemma exact_shift_inv:
  assumes inv: "lehmer_inv P Q i s" and nz: "rr1 s \<noteq> 0"
  shows "lehmer_inv P Q (Suc i) (exact_shift s)"
proof -
  define q where "q = rr2 s div rr1 s"
  have pos: "0 < rr1 s" "rr1 s \<le> rr2 s" using inv nz by (simp_all add: lehmer_inv_def)
  then have q: "1 \<le> q" unfolding q_def using zdiv_mono1 [of "rr1 s" "rr2 s" "rr1 s"] by simp
  have md: "rr2 s mod rr1 s = rr2 s - q * rr1 s"
    by (simp add: q_def minus_div_mult_eq_mod)
  have "sg i * aa1 s \<le> q * (sg i * aa1 s)"
    using inv q mult_right_mono [OF q, of "sg i * aa1 s"] by (simp add: lehmer_inv_def)
  moreover have "q * (sg i * bb1 s) \<le> sg i * bb1 s"
    using inv q mult_right_mono_neg [OF q, of "sg i * bb1 s"] by (simp add: lehmer_inv_def)
  moreover have "0 \<le> rr2 s mod rr1 s" "rr2 s mod rr1 s < rr1 s" using pos by simp_all
  ultimately show ?thesis
    using inv pos unfolding lehmer_inv_def exact_shift_def Let_def q_def [symmetric] md
    by (simp add: algebra_simps)
qed

lemma exact_shift_signs:
  assumes inv: "lehmer_inv P Q i s" and nz: "rr1 s \<noteq> 0"
  shows "sg i * aa1 (exact_shift s) \<le> sg i * aa2 s" and "sg i * bb2 s \<le> sg i * bb1 (exact_shift s)"
    and "0 < sg i * bb1 (exact_shift s)"
proof -
  define q where "q = rr2 s div rr1 s"
  have pos: "0 < rr1 s" "rr1 s \<le> rr2 s" using inv nz by (simp_all add: lehmer_inv_def)
  then have q: "1 \<le> q" unfolding q_def using zdiv_mono1 [of "rr1 s" "rr2 s" "rr1 s"] by simp
  have n: "aa1 (exact_shift s) = aa2 s - q * aa1 s" "bb1 (exact_shift s) = bb2 s - q * bb1 s"
    by (simp_all add: exact_shift_def Let_def q_def)
  have sgs: "sg i * bb1 s \<le> 0" "sg i * bb1 s < sg i * bb2 s" using inv by (simp_all add: lehmer_inv_def)
  have "0 \<le> q * (sg i * aa1 s)" using inv q by (simp add: lehmer_inv_def)
  moreover have "q * (sg i * bb1 s) \<le> sg i * bb1 s"
    using inv q mult_right_mono_neg [OF q, of "sg i * bb1 s"] by (simp add: lehmer_inv_def)
  ultimately show "sg i * aa1 (exact_shift s) \<le> sg i * aa2 s" "sg i * bb2 s \<le> sg i * bb1 (exact_shift s)"
    "0 < sg i * bb1 (exact_shift s)"
    using sgs unfolding n by (simp_all add: algebra_simps)
qed

lemma exact_shift_bounds:
  assumes inv: "lehmer_inv P Q i s" and nz: "rr1 s \<noteq> 0"
  defines "n \<equiv> exact_shift s"
  shows "rr2 s \<le> P" "\<bar>aa1 n\<bar> \<le> P" "\<bar>bb1 n\<bar> \<le> Q" "\<bar>aa1 n - aa2 s\<bar> \<le> P" "\<bar>bb1 n - bb2 s\<bar> \<le> Q"
    and "0 < rr1 n \<Longrightarrow> \<bar>aa1 n\<bar> + \<bar>aa1 s\<bar> \<le> P" "0 < rr1 n \<Longrightarrow> \<bar>bb1 n\<bar> + \<bar>bb1 s\<bar> \<le> Q"
proof -
  have inv': "lehmer_inv P Q (Suc i) n" unfolding n_def using inv nz by (rule exact_shift_inv)
  have sel: "rr2 n = rr1 s" "aa2 n = aa1 s" "bb2 n = bb1 s" by (simp_all add: n_def exact_shift_def Let_def)
  note sums = lehmer_inv_sums [OF inv'] and sums0 = lehmer_inv_sums [OF inv]
  have s0: "0 < sg i * aa1 s" "sg i * aa2 s \<le> 0" "0 \<le> sg i * bb2 s" "sg i * bb1 s \<le> 0" "0 < rr2 s" "0 \<le> rr1 s"
    using inv by (simp_all add: lehmer_inv_def)
  have s1: "0 < sg (Suc i) * aa1 n" "sg (Suc i) * aa2 n \<le> 0" "0 \<le> sg (Suc i) * bb2 n" "sg (Suc i) * bb1 n \<le> 0"
     "0 < rr2 n" "0 \<le> rr1 n"
    using inv' by (simp_all add: lehmer_inv_def)
  have "rr2 s * (sg i * aa1 s) + rr1 s * (- (sg i * aa2 s)) = P"
    using sums0(1) by (simp add: mult.commute)
  then show "rr2 s \<le> P" by (rule nonneg_sum_bound) (use s0 in auto)
  have A: "sg (Suc i) * aa1 n \<le> P" using sums(1) by (rule nonneg_sum_bound) (use s1 in auto)
  have B: "- (sg (Suc i) * bb1 n) \<le> Q" using sums(2) by (rule nonneg_sum_bound) (use s1 in auto)
  show "\<bar>aa1 n\<bar> \<le> P" "\<bar>bb1 n\<bar> \<le> Q" using A B s1 sg_cases [of i] by auto
  show "\<bar>aa1 n - aa2 s\<bar> \<le> P" "\<bar>bb1 n - bb2 s\<bar> \<le> Q"
    using A B s1 s0 exact_shift_signs [OF inv nz] sg_cases [of i] by (auto simp: n_def)
  assume p: "0 < rr1 n"
  have A2: "sg (Suc i) * aa1 n + - (sg (Suc i) * aa2 n) \<le> P"
    using sums(1) by (rule nonneg_sum_bound2) (use s1 p in auto)
  have B2: "- (sg (Suc i) * bb1 n) + sg (Suc i) * bb2 n \<le> Q"
    using sums(2) by (rule nonneg_sum_bound2) (use s1 p in auto)
  show "\<bar>aa1 n\<bar> + \<bar>aa1 s\<bar> \<le> P" "\<bar>bb1 n\<bar> + \<bar>bb1 s\<bar> \<le> Q"
    using A2 B2 s1 sel sg_cases [of i] by auto
qed

lemma lehmer_shift_exact:
  assumes inv: "lehmer_inv P Q i s" and nz: "rr1 s \<noteq> 0" and P: "P < 2 ^ 63" and Q: "Q < 2 ^ 63"
  shows "lehmer_shift s = exact_shift s"
proof -
  let ?n = "exact_shift s" and ?q = "rr2 s div rr1 s"
  note b = exact_shift_bounds [OF inv nz]
  have pos: "0 < rr1 s" "0 < rr2 s" using inv nz by (simp_all add: lehmer_inv_def)
  have q: "tdiv (rr2 s) (rr1 s) = ?q" using pos by (simp add: tdiv_nonneg)
  have n: "rr1 ?n = rr2 s - ?q * rr1 s" "aa1 ?n = aa2 s - ?q * aa1 s" "bb1 ?n = bb2 s - ?q * bb1 s"
    by (simp_all add: exact_shift_def Let_def minus_div_mult_eq_mod)
  have r: "0 \<le> rr1 ?n" "rr1 ?n < rr1 s" using pos by (simp_all add: exact_shift_def Let_def)
  have "s64 (?q * rr1 s) = ?q * rr1 s" by (rule s64_id) (use n r b P inv in \<open>auto simp: lehmer_inv_def\<close>)
  moreover have "s64 (?q * aa1 s) = ?q * aa1 s" by (rule s64_id) (use n b P in linarith)+
  moreover have "s64 (?q * bb1 s) = ?q * bb1 s" by (rule s64_id) (use n b Q in linarith)+
  moreover have "s64 (rr1 ?n) = rr1 ?n" by (rule s64_id) (use r b P inv in \<open>auto simp: lehmer_inv_def\<close>)
  moreover have "s64 (aa1 ?n) = aa1 ?n" by (rule s64_id) (use b P in linarith)+
  moreover have "s64 (bb1 ?n) = bb1 ?n" by (rule s64_id) (use b Q in linarith)+
  ultimately have "lehmer_t1 s = rr1 ?n" "lehmer_t2 s = aa1 ?n" "lehmer_t3 s = bb1 ?n"
    by (simp_all add: lehmer_t1_def lehmer_t2_def lehmer_t3_def q n)
  then show ?thesis by (simp add: lehmer_shift_def exact_shift_def Let_def)
qed

text \<open>What an accepted step guarantees; the test compares exact values.\<close>

definition lehmer_good :: "nat \<Rightarrow> lehmer \<Rightarrow> bool" where
  "lehmer_good i s \<longleftrightarrow>
     (if odd i then - aa1 s \<le> rr1 s \<and> bb1 s - bb2 s \<le> rr2 s - rr1 s
      else - bb1 s \<le> rr1 s \<and> aa1 s - aa2 s \<le> rr2 s - rr1 s)"

lemma lehmer_accept:
  assumes inv: "lehmer_inv P Q i s" and nz: "rr1 s \<noteq> 0" and P: "P < 2 ^ 63" and Q: "Q < 2 ^ 63"
    and acc: "\<not> lehmer_break i s"
  shows "lehmer_good (Suc i) (lehmer_shift s)"
proof -
  let ?n = "exact_shift s"
  note b = exact_shift_bounds [OF inv nz]
  have n: "lehmer_t1 s = rr1 ?n" "lehmer_t2 s = aa1 ?n" "lehmer_t3 s = bb1 ?n"
    using arg_cong [OF lehmer_shift_exact [OF inv nz P Q], of rr1]
      arg_cong [OF lehmer_shift_exact [OF inv nz P Q], of aa1]
      arg_cong [OF lehmer_shift_exact [OF inv nz P Q], of bb1]
    by (simp_all add: lehmer_shift_def)
  have sel: "rr2 ?n = rr1 s" "aa2 ?n = aa1 s" "bb2 ?n = bb1 s" by (simp_all add: exact_shift_def Let_def)
  have inv': "lehmer_inv P Q (Suc i) ?n" using inv nz by (rule exact_shift_inv)
  have r: "0 \<le> rr1 ?n" "rr1 ?n < rr1 s" "rr1 s \<le> rr2 s"
    using inv nz by (auto simp: exact_shift_def Let_def lehmer_inv_def)
  have neg: "s64 (- aa1 ?n) = - aa1 ?n" "s64 (- bb1 ?n) = - bb1 ?n"
    by (rule s64_id; use b P Q in linarith)+
  have d: "s64 (rr1 s - rr1 ?n) = rr1 s - rr1 ?n" by (rule s64_id) (use r b P in linarith)+
  have fst_ok: "if odd i then - bb1 ?n \<le> rr1 ?n else - aa1 ?n \<le> rr1 ?n"
    using acc by (auto simp: lehmer_break_def Let_def n neg split: if_splits)
  have "0 < rr1 ?n"
    using fst_ok inv' exact_shift_signs(3) [OF inv nz]
    by (cases "odd i") (auto simp: lehmer_inv_def sg_def)
  then have w: "s64 (aa1 ?n - aa1 s) = aa1 ?n - aa1 s" "s64 (bb1 ?n - bb1 s) = bb1 ?n - bb1 s"
    by (intro s64_id; use b(6,7) P Q in linarith)+
  show ?thesis
    using acc fst_ok unfolding lehmer_shift_exact [OF inv nz P Q] lehmer_good_def
    by (auto simp: lehmer_break_def Let_def n neg d w sel split: if_splits)
qed


subsection \<open>The inner loop returns\<close>

text \<open>The full remainders a matrix produces from \<open>R2\<close> and \<open>R1\<close>.\<close>

definition full2 :: "lehmer \<Rightarrow> int \<Rightarrow> int \<Rightarrow> int" where
  "full2 s R2 R1 = bb2 s * R2 + aa2 s * R1"

definition full1 :: "lehmer \<Rightarrow> int \<Rightarrow> int \<Rightarrow> int" where
  "full1 s R2 R1 = bb1 s * R2 + aa1 s * R1"

lemma scaled_bound:
  assumes "x \<le> (r::int)" and "0 \<le> x" and "0 \<le> e" and "e < b"
  shows "x * e \<le> r * b"
  using assms by (intro mult_mono) auto

lemma scaled_bound_strict:
  assumes "x \<le> (r::int)" and "0 < x" and "0 \<le> e" and "e < b"
  shows "x * e < r * b"
proof -
  have "x * e < x * b" using assms by simp
  also have "\<dots> \<le> r * b" using assms by (intro mult_right_mono) auto
  finally show ?thesis .
qed

lemma lehmer_good_full:
  assumes inv: "lehmer_inv P Q i s" and good: "lehmer_good i s"
    and R: "R2 = P * b + e2" "R1 = Q * b + e1" and e: "0 \<le> e2" "e2 < b" "0 \<le> e1" "e1 < b"
  shows "0 \<le> full1 s R2 R1" and "full1 s R2 R1 < full2 s R2 R1"
proof -
  have rows: "rr2 s = bb2 s * P + aa2 s * Q" "rr1 s = bb1 s * P + aa1 s * Q"
    using inv by (simp_all add: lehmer_inv_def)
  have f1: "full1 s R2 R1 = rr1 s * b + bb1 s * e2 + aa1 s * e1"
    unfolding full1_def R rows by (simp add: algebra_simps)
  have d: "full2 s R2 R1 - full1 s R2 R1 = (rr2 s - rr1 s) * b - (bb1 s - bb2 s) * e2 - (aa1 s - aa2 s) * e1"
    unfolding full1_def full2_def R rows by (simp add: algebra_simps)
  have "0 \<le> full1 s R2 R1 \<and> 0 < full2 s R2 R1 - full1 s R2 R1"
  proof (cases "odd i")
    case True
    then have sgn: "aa1 s < 0" "0 \<le> bb1 s" "bb2 s < bb1 s" "0 \<le> aa2 s"
      using inv by (simp_all add: lehmer_inv_def sg_def)
    have g: "- aa1 s \<le> rr1 s" "bb1 s - bb2 s \<le> rr2 s - rr1 s"
      using good True by (simp_all add: lehmer_good_def)
    have "(- aa1 s) * e1 \<le> rr1 s * b" using g(1) by (rule scaled_bound) (use sgn e in auto)
    moreover have "0 \<le> bb1 s * e2" using sgn e by simp
    moreover have "(bb1 s - bb2 s) * e2 < (rr2 s - rr1 s) * b"
      using g(2) by (rule scaled_bound_strict) (use sgn e in auto)
    moreover have "(aa1 s - aa2 s) * e1 \<le> 0"
      using sgn e by (intro mult_nonpos_nonneg) auto
    ultimately show ?thesis using f1 d by linarith
  next
    case False
    then have sgn: "0 < aa1 s" "bb1 s \<le> 0" "bb1 s < bb2 s" "aa2 s \<le> 0"
      using inv by (simp_all add: lehmer_inv_def sg_def)
    have g: "- bb1 s \<le> rr1 s" "aa1 s - aa2 s \<le> rr2 s - rr1 s"
      using good False by (simp_all add: lehmer_good_def)
    have "(- bb1 s) * e2 \<le> rr1 s * b" using g(1) by (rule scaled_bound) (use sgn e in auto)
    moreover have "0 \<le> aa1 s * e1" using sgn e by simp
    moreover have "(aa1 s - aa2 s) * e1 < (rr2 s - rr1 s) * b"
      using g(2) by (rule scaled_bound_strict) (use sgn e in auto)
    moreover have "(bb1 s - bb2 s) * e2 \<le> 0"
      using sgn e by (intro mult_nonpos_nonneg) auto
    ultimately show ?thesis using f1 d by linarith
  qed
  then show "0 \<le> full1 s R2 R1" and "full1 s R2 R1 < full2 s R2 R1" by simp_all
qed

text \<open>The state after \<open>i\<close> steps: the rows, and a strictly decreasing pair of remainders.\<close>

definition lehmer_ok :: "int \<Rightarrow> int \<Rightarrow> int \<Rightarrow> int \<Rightarrow> nat \<Rightarrow> lehmer \<Rightarrow> bool" where
  "lehmer_ok P Q R2 R1 i s \<longleftrightarrow>
     lehmer_inv P Q i s \<and>
     (i > 0 \<longrightarrow> 0 \<le> full1 s R2 R1 \<and> full1 s R2 R1 < full2 s R2 R1 \<and> full2 s R2 R1 \<le> R1)"

lemma lehmer_ok_step:
  assumes ok: "lehmer_ok P Q R2 R1 i s" and start: "i = 0 \<Longrightarrow> full1 s R2 R1 = R1"
    and nz: "rr1 s \<noteq> 0" and P: "P < 2 ^ 63" and Q: "Q < 2 ^ 63" and acc: "\<not> lehmer_break i s"
    and R: "R2 = P * b + e2" "R1 = Q * b + e1" "0 \<le> e2" "e2 < b" "0 \<le> e1" "e1 < b"
  shows "lehmer_ok P Q R2 R1 (Suc i) (lehmer_shift s)"
proof -
  have inv: "lehmer_inv P Q i s" using ok by (simp add: lehmer_ok_def)
  have eq: "lehmer_shift s = exact_shift s" using inv nz P Q by (rule lehmer_shift_exact)
  have inv': "lehmer_inv P Q (Suc i) (lehmer_shift s)"
    unfolding eq using inv nz by (rule exact_shift_inv)
  have good: "lehmer_good (Suc i) (lehmer_shift s)" using inv nz P Q acc by (rule lehmer_accept)
  have "full2 (lehmer_shift s) R2 R1 = full1 s R2 R1"
    by (simp add: full1_def full2_def lehmer_shift_def)
  moreover have "full1 s R2 R1 \<le> R1"
    using ok start by (cases "i = 0") (auto simp: lehmer_ok_def)
  ultimately show ?thesis
    using lehmer_good_full [OF inv' good R] inv' by (simp add: lehmer_ok_def)
qed

lemma lehmer_loop_returns:
  assumes "lehmer_ok P Q R2 R1 i s" and "i = 0 \<Longrightarrow> full1 s R2 R1 = R1" and "P < 2 ^ 63" and "Q < 2 ^ 63"
    and "R2 = P * b + e2" "R1 = Q * b + e1" "0 \<le> e2" "e2 < b" "0 \<le> e1" "e1 < b"
  shows "\<exists>j m. lehmer_loop bb i s = Some (j, m) \<and> lehmer_ok P Q R2 R1 j m"
  using assms(1,2)
proof (induction "nat (rr1 s)" arbitrary: i s rule: less_induct)
  case less
  show ?case
  proof (cases "rr1 s \<noteq> 0 \<and> rr1 s > bb \<and> \<not> lehmer_break i s")
    case True
    then have nz: "rr1 s \<noteq> 0" and acc: "\<not> lehmer_break i s" by simp_all
    have inv: "lehmer_inv P Q i s" using less.prems(1) by (simp add: lehmer_ok_def)
    have "0 < rr1 s" using inv nz by (simp add: lehmer_inv_def)
    then have "nat (rr1 (lehmer_shift s)) < nat (rr1 s)"
      unfolding lehmer_shift_exact [OF inv nz assms(3,4)] by (simp add: exact_shift_def Let_def)
    moreover have "lehmer_ok P Q R2 R1 (Suc i) (lehmer_shift s)"
      using less.prems nz assms(3,4) acc assms(5-) by (rule lehmer_ok_step)
    ultimately obtain j m where "lehmer_loop bb (Suc i) (lehmer_shift s) = Some (j, m)"
      "lehmer_ok P Q R2 R1 j m"
      using less.hyps by blast
    with True show ?thesis by (subst lehmer_loop.simps) auto
  next
    case False
    then show ?thesis using less.prems(1) by (subst lehmer_loop.simps) auto
  qed
qed

subsection \<open>The leading parts\<close>

lemma leading_bound:
  assumes "0 \<le> x" and "sizeinbase2 x \<le> bits + 63"
  shows "x div 2 ^ bits < 2 ^ 63"
proof -
  have "x < 2 ^ sizeinbase2 x" using sizeinbase2_bound [of x] assms(1) by simp
  also have "(2::int) ^ sizeinbase2 x \<le> 2 ^ (bits + 63)" using assms(2) by (intro power_increasing) auto
  finally have "x < 2 ^ 63 * 2 ^ bits" by (simp add: power_add mult.commute)
  then show ?thesis by (rule div_less_of_less_mult) simp
qed


lemma lehmer_bits_size: "sizeinbase2 r2 \<le> lehmer_bits r2 r1 + 63" "sizeinbase2 r1 \<le> lehmer_bits r2 r1 + 63"
  by (simp_all add: lehmer_bits_def)

lemma get_ui_small: "0 \<le> x \<Longrightarrow> x < 2 ^ 63 \<Longrightarrow> s64 (get_ui x) = x"
  by (simp add: get_ui_def s64_id)

lemma lehmer_init_eq:
  assumes "0 \<le> r1" and "0 \<le> r2" and "bits = lehmer_bits r2 r1"
  shows "lehmer_init bits r2 r1 =
    \<lparr>rr2 = r2 div 2 ^ bits, rr1 = r1 div 2 ^ bits, aa2 = 0, aa1 = 1, bb2 = 1, bb1 = 0\<rparr>"
proof -
  have "s64 (get_ui (tdiv x (2 ^ bits))) = x div 2 ^ bits" if "x = r2 \<or> x = r1" for x
  proof -
    have "x div 2 ^ bits < 2 ^ 63"
      using that assms lehmer_bits_size by (intro leading_bound) auto
    moreover have "0 \<le> x div 2 ^ bits" using that assms by (auto simp: pos_imp_zdiv_nonneg_iff)
    ultimately show ?thesis using that assms by (auto simp: tdiv_nonneg get_ui_small)
  qed
  then show ?thesis by (simp add: lehmer_init_def)
qed

lemma lehmer_run:
  assumes r: "0 < r1" "r1 < r2" and bits: "bits = lehmer_bits r2 r1"
  obtains i m where "lehmer_loop bb 0 (lehmer_init bits r2 r1) = Some (i, m)"
    and "i > 0 \<Longrightarrow> lehmer_ok (r2 div 2 ^ bits) (r1 div 2 ^ bits) r2 r1 i m"
proof -
  let ?b = "2 ^ bits :: int" and ?s = "lehmer_init bits r2 r1"
  let ?P = "r2 div ?b" and ?Q = "r1 div ?b"
  have s: "?s = \<lparr>rr2 = ?P, rr1 = ?Q, aa2 = 0, aa1 = 1, bb2 = 1, bb1 = 0\<rparr>"
    using r bits by (intro lehmer_init_eq) auto
  have P: "?P < 2 ^ 63" and Q: "?Q < 2 ^ 63"
    using r bits lehmer_bits_size by (intro leading_bound; auto)+
  have QP: "0 \<le> ?Q" "?Q \<le> ?P" using r zdiv_mono1 [of r1 r2 ?b] by (simp_all add: pos_imp_zdiv_nonneg_iff)
  show thesis
  proof (cases "?P = 0")
    case True
    then have "lehmer_loop bb 0 ?s = Some (0, ?s)"
      using QP unfolding s by (subst lehmer_loop.simps) simp
    then show thesis by (rule that) simp
  next
    case False
    then have ok: "lehmer_ok ?P ?Q r2 r1 0 ?s"
      using QP unfolding s by (simp add: lehmer_ok_def lehmer_inv_def)
    have "\<exists>j m. lehmer_loop bb 0 ?s = Some (j, m) \<and> lehmer_ok ?P ?Q r2 r1 j m"
      by (rule lehmer_loop_returns [OF ok _ P Q, where b = ?b and ?e2.0 = "r2 mod ?b" and ?e1.0 = "r1 mod ?b"])
        (simp_all only: div_mult_mod_eq, simp_all add: s full1_def)
    then show thesis using that by blast
  qed
qed

subsection \<open>The outer loop: invariant and termination\<close>

text \<open>
  What every caller relies on, for the inputs \<open>a > k \<ge> 0\<close>: both remainders are
  congruent to multiples of \<open>k\<close> by the cofactors, and the determinant of the two rows is
  \<open>a\<close> with the sign of \<open>co1\<close>, which is never zero.
\<close>

definition xgcd_inv :: "int \<Rightarrow> int \<Rightarrow> xgcd \<Rightarrow> bool" where
  "xgcd_inv a k x \<longleftrightarrow>
     0 \<le> xr1 x \<and> xr1 x < xr2 x \<and> co1 x \<noteq> 0 \<and> co2 x * sgn (co1 x) \<le> 0 \<and>
     xr2 x * co1 x - xr1 x * co2 x = sgn (co1 x) * a \<and>
     a dvd xr1 x + co1 x * k \<and> a dvd xr2 x + co2 x * k"

lemma xgcd_inv_init: "0 \<le> k \<Longrightarrow> k < a \<Longrightarrow> xgcd_inv a k \<lparr>co2 = 0, co1 = - 1, xr2 = a, xr1 = k\<rparr>"
  by (simp add: xgcd_inv_def)

text \<open>One integer matrix, with determinant and sign pattern of step \<open>i\<close>.\<close>

lemma xgcd_matrix:
  assumes inv: "xgcd_inv a k x" and sgn: "0 < sg i * q1" "sg i * q2 \<le> 0" "0 \<le> sg i * p2" "sg i * p1 \<le> 0"
    and det: "q1 * p2 - q2 * p1 = sg i"
    and y: "y = \<lparr>co2 = p2 * co2 x + q2 * co1 x, co1 = p1 * co2 x + q1 * co1 x,
                 xr2 = p2 * xr2 x + q2 * xr1 x, xr1 = p1 * xr2 x + q1 * xr1 x\<rparr>"
    and r: "0 \<le> xr1 y" "xr1 y < xr2 y"
  shows "xgcd_inv a k y"
proof -
  let ?s = "sgn (co1 x)"
  have x: "co1 x \<noteq> 0" "co2 x * ?s \<le> 0" "xr2 x * co1 x - xr1 x * co2 x = ?s * a"
    "a dvd xr1 x + co1 x * k" "a dvd xr2 x + co2 x * k"
    using inv by (simp_all add: xgcd_inv_def)
  have s: "?s = 1 \<or> ?s = - 1" "0 < ?s * co1 x" using x(1) by (auto simp: sgn_if)
  have prod: "(sg i * ?s) * co1 y = (sg i * p1) * (co2 x * ?s) + (sg i * q1) * (?s * co1 x)"
    by (simp add: y algebra_simps)
  have "0 \<le> (sg i * p1) * (co2 x * ?s)" using sgn(4) x(2) by (rule mult_nonpos_nonpos)
  moreover have "0 < (sg i * q1) * (?s * co1 x)" using sgn(1) s(2) by simp
  ultimately have pos: "0 < (sg i * ?s) * co1 y" unfolding prod by linarith
  have sy: "sgn (co1 y) = sg i * ?s"
    using pos s(1) sg_cases [of i] by (auto simp: sgn_if split: if_splits)
  have "(sg i * ?s) * co2 y = (sg i * p2) * (co2 x * ?s) + (sg i * q2) * (?s * co1 x)"
    by (simp add: y algebra_simps)
  moreover have "(sg i * p2) * (co2 x * ?s) \<le> 0" using sgn(3) x(2) by (rule mult_nonneg_nonpos)
  moreover have "(sg i * q2) * (?s * co1 x) \<le> 0"
    using sgn(2) less_imp_le [OF s(2)] by (rule mult_nonpos_nonneg)
  ultimately have c2: "(sg i * ?s) * co2 y \<le> 0" by linarith
  have "xr2 y * co1 y - xr1 y * co2 y = (q1 * p2 - q2 * p1) * (xr2 x * co1 x - xr1 x * co2 x)"
    by (simp add: y algebra_simps)
  then have d: "xr2 y * co1 y - xr1 y * co2 y = sgn (co1 y) * a"
    unfolding det x(3) sy by simp
  have "a dvd p1 * (xr2 x + co2 x * k) + q1 * (xr1 x + co1 x * k)"
    by (rule dvd_add [OF dvd_mult [OF x(5)] dvd_mult [OF x(4)]])
  then have d1: "a dvd xr1 y + co1 y * k" by (simp add: y algebra_simps)
  have "a dvd p2 * (xr2 x + co2 x * k) + q2 * (xr1 x + co1 x * k)"
    by (rule dvd_add [OF dvd_mult [OF x(5)] dvd_mult [OF x(4)]])
  then have d2: "a dvd xr2 y + co2 y * k" by (simp add: y algebra_simps)
  show ?thesis
    unfolding xgcd_inv_def using r pos c2 d d1 d2 sy by (auto simp: mult.commute)
qed

lemma xgcd_euclid_inv:
  assumes inv: "xgcd_inv a k x" and nz: "xr1 x \<noteq> 0"
  shows "xgcd_inv a k (xgcd_euclid x)" and "xr1 (xgcd_euclid x) < xr1 x"
proof -
  define q where "q = xr2 x div xr1 x"
  have pos: "0 < xr1 x" "xr1 x < xr2 x" using inv nz by (simp_all add: xgcd_inv_def)
  have q: "0 < q" unfolding q_def using pos by (simp add: pos_imp_zdiv_pos_iff)
  have md: "xr2 x mod xr1 x = xr2 x - q * xr1 x" by (simp add: q_def minus_div_mult_eq_mod)
  have y: "xgcd_euclid x = \<lparr>co2 = 0 * co2 x + 1 * co1 x, co1 = 1 * co2 x + (- q) * co1 x,
      xr2 = 0 * xr2 x + 1 * xr1 x, xr1 = 1 * xr2 x + (- q) * xr1 x\<rparr>"
    by (simp add: xgcd_euclid_def Let_def q_def [symmetric] md)
  have r: "0 \<le> xr1 (xgcd_euclid x)" "xr1 (xgcd_euclid x) < xr2 (xgcd_euclid x)"
    using pos by (simp_all add: xgcd_euclid_def Let_def)
  show "xgcd_inv a k (xgcd_euclid x)"
    by (rule xgcd_matrix [OF inv, where i = 1 and ?q1.0 = "- q" and ?q2.0 = 1 and ?p2.0 = 0 and ?p1.0 = 1])
      (use q r in \<open>simp_all add: sg_def y\<close>)
  show "xr1 (xgcd_euclid x) < xr1 x" using pos by (simp add: xgcd_euclid_def Let_def)
qed

lemma xgcd_apply_inv:
  assumes inv: "xgcd_inv a k x" and ok: "lehmer_ok P Q (xr2 x) (xr1 x) i m" and i: "i > 0"
  shows "xgcd_inv a k (xgcd_apply m x)" and "xr1 (xgcd_apply m x) < xr1 x"
proof -
  have li: "lehmer_inv P Q i m" using ok by (simp add: lehmer_ok_def)
  have f: "0 \<le> full1 m (xr2 x) (xr1 x)" "full1 m (xr2 x) (xr1 x) < full2 m (xr2 x) (xr1 x)"
    "full2 m (xr2 x) (xr1 x) \<le> xr1 x"
    using ok i by (simp_all add: lehmer_ok_def)
  have am: "addmul_si (u * c) v d = c * u + d * v" for u c v d
    by (simp add: addmul_si_def)
  have y: "xgcd_apply m x = \<lparr>co2 = bb2 m * co2 x + aa2 m * co1 x, co1 = bb1 m * co2 x + aa1 m * co1 x,
      xr2 = bb2 m * xr2 x + aa2 m * xr1 x, xr1 = bb1 m * xr2 x + aa1 m * xr1 x\<rparr>"
    using f unfolding xgcd_apply_def am Let_def by (simp add: full1_def full2_def)
  show "xgcd_inv a k (xgcd_apply m x)"
    by (rule xgcd_matrix [OF inv, where i = i and ?q1.0 = "aa1 m" and ?q2.0 = "aa2 m"
          and ?p2.0 = "bb2 m" and ?p1.0 = "bb1 m"])
      (use li f y in \<open>simp_all add: lehmer_inv_def full1_def full2_def\<close>)
  show "xr1 (xgcd_apply m x) < xr1 x" using f unfolding y by (simp add: full1_def full2_def)
qed

lemma xgcd_round_step:
  assumes inv: "xgcd_inv a k x" and nz: "xr1 x \<noteq> 0"
  shows "\<exists>y. xgcd_round L x = Some y \<and> xgcd_inv a k y \<and> xr1 y < xr1 x"
proof -
  have r: "0 < xr1 x" "xr1 x < xr2 x" using inv nz by (simp_all add: xgcd_inv_def)
  define bits where "bits = lehmer_bits (xr2 x) (xr1 x)"
  define bb where "bb = s64 (get_ui (tdiv L (2 ^ bits)))"
  obtain i m where run: "lehmer_loop bb 0 (lehmer_init bits (xr2 x) (xr1 x)) = Some (i, m)"
    and ok: "i > 0 \<Longrightarrow> lehmer_ok (xr2 x div 2 ^ bits) (xr1 x div 2 ^ bits) (xr2 x) (xr1 x) i m"
    using lehmer_run [OF r bits_def] by blast
  have "xgcd_round L x = Some (if i = 0 then xgcd_euclid x else xgcd_apply m x)"
    using run by (simp add: xgcd_round_def Let_def bits_def bb_def)
  then show ?thesis
    using xgcd_euclid_inv [OF inv nz] xgcd_apply_inv [OF inv ok] by (cases "i = 0") auto
qed

lemma xgcd_loop_returns:
  assumes "xgcd_inv a k x"
  shows "\<exists>y. xgcd_loop L x = Some y \<and> xgcd_inv a k y \<and> (xr1 y = 0 \<or> xr1 y \<le> L)"
  using assms
proof (induction "nat (xr1 x)" arbitrary: x rule: less_induct)
  case less
  show ?case
  proof (cases "xr1 x \<noteq> 0 \<and> xr1 x > L")
    case True
    obtain y where y: "xgcd_round L x = Some y" "xgcd_inv a k y" "xr1 y < xr1 x"
      using xgcd_round_step [OF less.prems] True by blast
    then have "nat (xr1 y) < nat (xr1 x)" by (simp add: xgcd_inv_def)
    from less.hyps [OF this y(2)] obtain z where
      "xgcd_loop L y = Some z" "xgcd_inv a k z" "xr1 z = 0 \<or> xr1 z \<le> L" by blast
    then show ?thesis using True y(1) by (subst xgcd_loop.simps) auto
  next
    case False
    then show ?thesis using less.prems by (subst xgcd_loop.simps) auto
  qed
qed

lemma xgcd_partial_returns:
  assumes "0 \<le> k" and "k < a"
  shows "\<exists>x. mpz_xgcd_partial a k L = Some x \<and> xgcd_inv a k x \<and> (xr1 x = 0 \<or> xr1 x \<le> L)"
proof -
  obtain y where y: "xgcd_loop L \<lparr>co2 = 0, co1 = - 1, xr2 = a, xr1 = k\<rparr> = Some y" "xgcd_inv a k y"
    "xr1 y = 0 \<or> xr1 y \<le> L"
    using xgcd_loop_returns [OF xgcd_inv_init [OF assms]] by blast
  then have "xgcd_fixup y = y" by (simp add: xgcd_fixup_def xgcd_inv_def)
  with y show ?thesis by (simp add: mpz_xgcd_partial_def)
qed

end
