(* ===== verification/Nucomp.thy ===== *)
theory Nucomp
  imports VdfNew Xgcd
begin

section \<open>NUCOMP and NUDUPL: \<open>nucomp.h\<close>\<close>

text \<open>
  \<open>qfb_nucomp\<close> composes two forms and \<open>qfb_nudupl\<close> squares one; both stop the
  Euclidean algorithm early with \<open>mpz_xgcd_partial\<close> so that the result is nearly
  reduced.  \<open>nucomp_reduce\<close> is the part that solves the congruence for \<open>k\<close>,
  \<open>nucomp_small\<close> and \<open>nucomp_large\<close> are the two branches on \<open>L\<close>.  An inexact
  \<open>mpz_divexact\<close> is \<open>None\<close>, so the theorems say that every division is exact.
\<close>

definition nucomp_reduce :: "gcdext \<Rightarrow> form \<Rightarrow> form \<Rightarrow> (int \<times> int \<times> int \<times> int) option" where
  "nucomp_reduce G f g =
     (let a1 = fa f; a2 = fa g; c2 = fc g;
          ss = (fb f + fb g) div 2; m = (fb f - fb g) div 2
      in if a1 = 0 then None
         else let t = a2 mod a1;
                  (sp, v1) = (if t = 0 then (a1, 0) else case G t a1 of (d, v, _) \<Rightarrow> (d, v));
                  k = (m * v1) mod a1
              in if sp \<noteq> 1
                 then (case G ss sp of (s, v2, u2) \<Rightarrow>
                   let k = k * u2 - v2 * c2 in
                   if s \<noteq> 1
                   then do {
                     a1 \<leftarrow> divexact a1 s;
                     a2 \<leftarrow> divexact a2 s;
                     if a1 = 0 then None else Some (a1, a2, c2 * s, k mod a1)
                   }
                   else Some (a1, a2, c2, k mod a1))
                 else Some (a1, a2, c2, k))"

definition nucomp_small :: "int \<Rightarrow> int \<Rightarrow> int \<Rightarrow> int \<Rightarrow> int \<Rightarrow> form option" where
  "nucomp_small a1 a2 b2 c2 k =
     (let t = a2 * k in
      do {
        cc \<leftarrow> divexact ((b2 + t) * k + c2) a1;
        Some (mk_form (a2 * a1) (2 * t + b2) cc)
      })"

definition nucomp_large ::
  "int \<Rightarrow> int \<Rightarrow> int \<Rightarrow> int \<Rightarrow> int \<Rightarrow> int \<Rightarrow> int \<Rightarrow> int \<Rightarrow> int \<Rightarrow> form option" where
  "nucomp_large a1 a2 b2 c2 k m ss D L =
     do {
       x \<leftarrow> mpz_xgcd_partial a1 k L;
       let r1 = xr1 x;
       let t = a2 * r1;
       m1 \<leftarrow> divexact (m * co1 x + t) a1;
       m2 \<leftarrow> divexact (ss * r1 - c2 * co1 x) a1;
       let ca = (if co1 x < 0 then r1 * m1 - co1 x * m2 else co1 x * m2 - r1 * m1);
       cb0 \<leftarrow> divexact (2 * (t - ca * co2 x)) (co1 x);
       if ca = 0 then None
       else do {
         let cb = (cb0 - b2) mod (2 * ca);
         cc0 \<leftarrow> divexact (cb * cb - D) ca;
         let cc = cc0 div 4;
         Some (if ca < 0 then mk_form (- ca) cb (- cc) else mk_form ca cb cc)
       }
     }"

definition nucomp_ordered :: "gcdext \<Rightarrow> form \<Rightarrow> form \<Rightarrow> int \<Rightarrow> int \<Rightarrow> form option" where
  "nucomp_ordered G f g D L =
     do {
       (a1, a2, c2, k) \<leftarrow> nucomp_reduce G f g;
       if a1 < L then nucomp_small a1 a2 (fb g) c2 k
       else nucomp_large a1 a2 (fb g) c2 k ((fb f - fb g) div 2) ((fb f + fb g) div 2) D L
     }"

definition qfb_nucomp :: "gcdext \<Rightarrow> form \<Rightarrow> form \<Rightarrow> int \<Rightarrow> int \<Rightarrow> form option" where
  "qfb_nucomp G f g D L =
     (if fa f > fa g then nucomp_ordered G g f D L else nucomp_ordered G f g D L)"

definition nucomp_form :: "gcdext \<Rightarrow> form \<Rightarrow> form \<Rightarrow> int \<Rightarrow> int \<Rightarrow> form option" where
  "nucomp_form G b c D L = qfb_nucomp G b c D L"

definition nudupl_large :: "int \<Rightarrow> int \<Rightarrow> int \<Rightarrow> int \<Rightarrow> int \<Rightarrow> int \<Rightarrow> form option" where
  "nudupl_large a1 b c1 k D L =
     do {
       x \<leftarrow> mpz_xgcd_partial a1 k L;
       let r1 = xr1 x;
       m2 \<leftarrow> divexact (b * r1 - c1 * co1 x) a1;
       let ra0 = r1 * r1 - co1 x * m2;
       let ra = (if co1 x \<ge> 0 then - ra0 else ra0);
       cb0 \<leftarrow> divexact (2 * (- (ra * co2 x - a1 * r1))) (co1 x);
       if ra = 0 then None
       else do {
         let cb = (cb0 - b) mod (2 * ra);
         rc0 \<leftarrow> divexact (cb * cb - D) ra;
         let rc = tdiv rc0 4;
         Some (if ra < 0 then mk_form (- ra) cb (- rc) else mk_form ra cb rc)
       }
     }"

definition qfb_nudupl :: "gcdext \<Rightarrow> form \<Rightarrow> int \<Rightarrow> int \<Rightarrow> form option" where
  "qfb_nudupl G f D L =
     (let (s, v2) = (if fb f < 0 then case G (- fb f) (fa f) of (d, v, _) \<Rightarrow> (d, - v)
                     else case G (fb f) (fa f) of (d, v, _) \<Rightarrow> (d, v));
          k = - (v2 * fc f)
      in if s = 0 then None
         else let a1 = (if s \<noteq> 1 then fa f div s else fa f);
                  c1 = (if s \<noteq> 1 then fc f * s else fc f)
              in if a1 = 0 then None
                 else let k = k mod a1 in
                   if a1 < L
                   then let t = a1 * k in
                     Some (mk_form (a1 * a1) (2 * t + fb f) (((fb f + t) * k + c1) div a1))
                   else nudupl_large a1 (fb f) c1 k D L)"

definition nudupl_form :: "gcdext \<Rightarrow> form \<Rightarrow> int \<Rightarrow> int \<Rightarrow> form option" where
  "nudupl_form G b D L = qfb_nudupl G b D L"

subsection \<open>The branch that stops the Euclidean algorithm early\<close>

text \<open>The composed form before the partial reduction.\<close>

definition composed :: "int \<Rightarrow> int \<Rightarrow> int \<Rightarrow> int \<Rightarrow> int \<Rightarrow> form" where
  "composed p q b2 k C = mk_form (p * q) (b2 + 2 * q * k) C"

lemma composed_posdef:
  assumes "0 < p" "0 < q" and "D = b2 * b2 - 4 * q * c2" and "p * C = (b2 + q * k) * k + c2"
  shows "posdef D (composed p q b2 k C)"
proof -
  have "(b2 + 2 * q * k) * (b2 + 2 * q * k) - 4 * (p * q) * C
      = b2 * b2 + 4 * q * (b2 * k + q * k * k) - 4 * q * (p * C)"
    by (simp add: algebra_simps)
  also have "\<dots> = D" unfolding assms(3,4) by (simp add: algebra_simps)
  finally show ?thesis using assms(1,2) by (simp add: composed_def)
qed

text \<open>What the partial gcd returns, in the coordinates of the composed form.\<close>

lemma xgcd_coordinates:
  assumes inv: "xgcd_inv p k x" and p: "0 < p"
  obtains l1 l2 \<sigma> where "xr1 x = l1 * p - co1 x * k" and "l2 * co1 x - l1 * co2 x = \<sigma>"
    and "\<sigma> = sgn (co1 x)" and "\<sigma> * \<sigma> = 1" and "co1 x \<noteq> 0"
proof -
  have x: "co1 x \<noteq> 0" "xr2 x * co1 x - xr1 x * co2 x = sgn (co1 x) * p"
    "p dvd xr1 x + co1 x * k" "p dvd xr2 x + co2 x * k"
    using inv by (simp_all add: xgcd_inv_def)
  obtain l1 where l1: "xr1 x + co1 x * k = p * l1" using x(3) by (rule dvdE)
  obtain l2 where l2: "xr2 x + co2 x * k = p * l2" using x(4) by (rule dvdE)
  have "p * (l2 * co1 x - l1 * co2 x) = (p * l2) * co1 x - (p * l1) * co2 x"
    by (simp add: algebra_simps)
  also have "\<dots> = xr2 x * co1 x - xr1 x * co2 x"
    unfolding l1 [symmetric] l2 [symmetric] by (simp add: algebra_simps)
  also have "\<dots> = p * sgn (co1 x)" using x(2) by simp
  finally have "l2 * co1 x - l1 * co2 x = sgn (co1 x)" using p by simp
  moreover have "sgn (co1 x) * sgn (co1 x) = 1" using x(1) by (simp add: sgn_if)
  ultimately show thesis using l1 x(1) by (intro that [of l1 l2]) (auto simp: algebra_simps)
qed

text \<open>The substitution of determinant 1 that the large branch applies.\<close>

lemma nucomp_algebra:
  fixes p q k m ss c2 b2 P Q l1 l2 c1 co2 \<sigma> r1 :: int
  assumes m: "m = q * k + p * P" and Q: "ss * k + c2 = p * Q" and b2: "b2 = ss - m"
    and r1: "r1 = l1 * p - c1 * k" and det: "l2 * c1 - l1 * co2 = \<sigma>" and s: "\<sigma> * \<sigma> = 1"
  defines "F \<equiv> composed p q b2 k (Q - k * P)"
  defines "V \<equiv> qval F l1 (- c1)"
  shows "m * c1 + q * r1 = p * (c1 * P + l1 * q)"
    and "ss * r1 - c2 * c1 = p * (l1 * ss - c1 * Q)"
    and "r1 * (c1 * P + l1 * q) - c1 * (l1 * ss - c1 * Q) = V"
    and "2 * (q * r1 - (- \<sigma> * V) * co2) = c1 * (subst_b F l1 (\<sigma> * l2) (- c1) (- \<sigma> * co2) + b2)"
    and "l1 * (- \<sigma> * co2) - (\<sigma> * l2) * (- c1) = 1"
    and "p * (Q - k * P) = (b2 + q * k) * k + c2"
proof -
  show "m * c1 + q * r1 = p * (c1 * P + l1 * q)"
    unfolding m r1 by (simp add: algebra_simps)
  have c2: "c2 = p * Q - ss * k" using Q by simp
  show "ss * r1 - c2 * c1 = p * (l1 * ss - c1 * Q)"
    unfolding r1 c2 by (simp add: algebra_simps)
  show "r1 * (c1 * P + l1 * q) - c1 * (l1 * ss - c1 * Q) = V"
    unfolding V_def F_def qval_def composed_def b2 m r1 by (simp add: algebra_simps)
  have one: "\<sigma> * (l2 * c1 - l1 * co2) = 1" using det s by simp
  have "2 * (q * r1 - (- \<sigma> * V) * co2) - c1 * (subst_b F l1 (\<sigma> * l2) (- c1) (- \<sigma> * co2) + b2)
      = (2 * p * q * l1 - c1 * (b2 + 2 * q * k)) * (1 - \<sigma> * (l2 * c1 - l1 * co2))"
    unfolding V_def F_def qval_def subst_b_def composed_def form.simps r1 by (simp add: algebra_simps)
  then show "2 * (q * r1 - (- \<sigma> * V) * co2) = c1 * (subst_b F l1 (\<sigma> * l2) (- c1) (- \<sigma> * co2) + b2)"
    unfolding one by simp
  have "l1 * (- \<sigma> * co2) - (\<sigma> * l2) * (- c1) = \<sigma> * (l2 * c1 - l1 * co2)"
    by (simp add: algebra_simps)
  then show "l1 * (- \<sigma> * co2) - (\<sigma> * l2) * (- c1) = 1" using det s by simp
  show "p * (Q - k * P) = (b2 + q * k) * k + c2"
    unfolding c2 b2 m by (simp add: algebra_simps)
qed

text \<open>The last lines of both routines: from the outer coefficient and a congruent middle
  one to a form.\<close>

lemma nucomp_finish:
  assumes h: "posdef D h" and V: "ca = fa h \<or> ca = - fa h"
    and cb: "cb = fb h mod (2 * ca)"
  obtains c where "cb * cb - D = ca * (4 * (sgn ca * c))"
    and "posdef D (mk_form \<bar>ca\<bar> cb c)" and "same_class D h (mk_form \<bar>ca\<bar> cb c)"
proof -
  have a: "0 < fa h" "fb h * fb h - 4 * fa h * fc h = D" using h by (simp_all add: posdef_def disc_def)
  define j where "j = - sgn ca * (fb h div (2 * ca))"
  have ca: "\<bar>ca\<bar> = fa h" "ca = sgn ca * fa h" "sgn ca * sgn ca = 1" using V a(1) by (auto simp: sgn_if)
  have "cb = fb h - 2 * ca * (fb h div (2 * ca))"
    unfolding cb by (simp add: minus_mult_div_eq_mod)
  also have "\<dots> = fb h + 2 * (j * fa h)" using ca by (simp add: j_def abs_sgn)
  finally have b: "cb = fb h + 2 * (j * fa h)" .
  define c where "c = fc h + fb h * j + fa h * j * j"
  have D: "cb * cb - D = 4 * fa h * c"
    unfolding b c_def a(2) [symmetric] by (simp add: algebra_simps)
  also have "\<dots> = ca * (4 * (sgn ca * c))"
    using ca(1) abs_sgn [of ca] by (simp add: mult_ac)
  finally have 1: "cb * cb - D = ca * (4 * (sgn ca * c))" .
  have 2: "posdef D (mk_form \<bar>ca\<bar> cb c)" using D a(1) ca(1) by simp
  have "lat D (mk_form \<bar>ca\<bar> cb c) = lat D h"
    by (rule lat_shift [where r = j]) (simp_all add: ca(1) b)
  then have 3: "same_class D h (mk_form \<bar>ca\<bar> cb c)" by (simp add: same_class_def)
  show thesis using 1 2 3 by (rule that)
qed


text \<open>Every intermediate value of the large branch; both routines read off their result
  from it.\<close>

lemma large_branch:
  assumes D: "D < 0" and pq: "0 < p" "0 < q" and k: "0 \<le> k" "k < p" and b2: "b2 = ss - m"
    and disc: "D = b2 * b2 - 4 * q * c2" and P: "p dvd m - q * k" and Q: "p dvd ss * k + c2"
  obtains C x m1 m2 ca e c where "p * C = (b2 + q * k) * k + c2" and "mpz_xgcd_partial p k L = Some x"
    and "divexact (m * co1 x + q * xr1 x) p = Some m1" and "divexact (ss * xr1 x - c2 * co1 x) p = Some m2"
    and "(if co1 x < 0 then xr1 x * m1 - co1 x * m2 else co1 x * m2 - xr1 x * m1) = ca"
    and "divexact (2 * (q * xr1 x - ca * co2 x)) (co1 x) = Some (e + b2)" and "ca \<noteq> 0"
    and "divexact ((e mod (2 * ca)) * (e mod (2 * ca)) - D) ca = Some (4 * (sgn ca * c))"
    and "posdef D (mk_form \<bar>ca\<bar> (e mod (2 * ca)) c)"
    and "same_class D (composed p q b2 k C) (mk_form \<bar>ca\<bar> (e mod (2 * ca)) c)"
proof -
  obtain P where "m - q * k = p * P" using P by (rule dvdE)
  then have m: "m = q * k + p * P" by simp
  obtain Q where Q: "ss * k + c2 = p * Q" using Q by (rule dvdE)
  let ?F = "composed p q b2 k (Q - k * P)"
  obtain x where x: "mpz_xgcd_partial p k L = Some x" and inv: "xgcd_inv p k x"
    using xgcd_partial_returns [OF k] by blast
  obtain l1 l2 s where r1: "xr1 x = l1 * p - co1 x * k" and det: "l2 * co1 x - l1 * co2 x = s"
    and s: "s = sgn (co1 x)" "s * s = 1" and nz: "co1 x \<noteq> 0"
    using inv pq(1) by (rule xgcd_coordinates)
  note alg = nucomp_algebra [OF m Q b2 r1 det s(2)]
  define V where "V = qval ?F l1 (- co1 x)"
  define h where "h = form_subst ?F l1 (s * l2) (- co1 x) (- s * co2 x)"
  have F: "posdef D ?F" using pq disc alg(6) by (rule composed_posdef)
  have h: "posdef D h" "same_class D ?F h"
    unfolding h_def using F D alg(5) by (rule form_subst_class)+
  have fa: "fa h = V" and fb: "fb h = subst_b ?F l1 (s * l2) (- co1 x) (- s * co2 x)"
    by (simp_all add: h_def V_def form_subst_def)
  have V: "0 < V" using h(1) fa by (simp add: posdef_def)
  let ?ca = "- s * V"
  let ?m1 = "co1 x * P + l1 * q" and ?m2 = "l1 * ss - co1 x * Q"
  have d1: "divexact (m * co1 x + q * xr1 x) p = Some ?m1"
    and d2: "divexact (ss * xr1 x - c2 * co1 x) p = Some ?m2"
    using alg(1,2) pq by (intro divexact_mult; simp)+
  have ca: "(if co1 x < 0 then xr1 x * ?m1 - co1 x * ?m2 else co1 x * ?m2 - xr1 x * ?m1) = ?ca"
    using alg(3) nz s(1) by (auto simp: V_def sgn_if)
  have d3: "divexact (2 * (q * xr1 x - ?ca * co2 x)) (co1 x) = Some (fb h + b2)"
    using alg(4) nz unfolding fb V_def by (intro divexact_mult)
  have ca0: "?ca \<noteq> 0" "?ca = fa h \<or> ?ca = - fa h"
    using V s nz fa by (auto simp: sgn_if)
  obtain c where c: "(fb h mod (2 * ?ca)) * (fb h mod (2 * ?ca)) - D = ?ca * (4 * (sgn ?ca * c))"
    and r: "posdef D (mk_form \<bar>?ca\<bar> (fb h mod (2 * ?ca)) c)"
      "same_class D h (mk_form \<bar>?ca\<bar> (fb h mod (2 * ?ca)) c)"
    using h(1) ca0(2) refl by (rule nucomp_finish)
  have d4: "divexact ((fb h mod (2 * ?ca)) * (fb h mod (2 * ?ca)) - D) ?ca = Some (4 * (sgn ?ca * c))"
    using ca0(1) c by (rule divexact_mult)
  show thesis
    by (rule that [OF alg(6) x d1 d2 ca d3 ca0(1) d4 r(1) same_class_trans [OF h(2) r(2)]])
qed

lemma div4: "(4 * y) div 4 = (y :: int)"
  by simp

lemma tdiv4: "tdiv (4 * y) 4 = y"
  by (simp add: tdiv_def abs_mult sgn_mult abs_sgn mult.commute)

lemma sign_repair: "(if ca < 0 then mk_form (- ca) cb (- (sgn ca * c)) else mk_form ca cb (sgn ca * c))
    = mk_form \<bar>ca\<bar> cb (if ca = 0 then 0 else c)"
  by (auto simp: sgn_if)

lemma nucomp_large_ok:
  assumes D: "D < 0" and pq: "0 < p" "0 < q" and k: "0 \<le> k" "k < p" and b2: "b2 = ss - m"
    and disc: "D = b2 * b2 - 4 * q * c2" and P: "p dvd m - q * k" and Q: "p dvd ss * k + c2"
  obtains C r where "p * C = (b2 + q * k) * k + c2" and "nucomp_large p q b2 c2 k m ss D L = Some r"
    and "posdef D r" and "same_class D (composed p q b2 k C) r"
proof -
  obtain C x m1 m2 ca e c where C: "p * C = (b2 + q * k) * k + c2" and x: "mpz_xgcd_partial p k L = Some x"
    and d1: "divexact (m * co1 x + q * xr1 x) p = Some m1" and d2: "divexact (ss * xr1 x - c2 * co1 x) p = Some m2"
    and ca: "(if co1 x < 0 then xr1 x * m1 - co1 x * m2 else co1 x * m2 - xr1 x * m1) = ca"
    and d3: "divexact (2 * (q * xr1 x - ca * co2 x)) (co1 x) = Some (e + b2)" and ca0: "ca \<noteq> 0"
    and d4: "divexact ((e mod (2 * ca)) * (e mod (2 * ca)) - D) ca = Some (4 * (sgn ca * c))"
    and r: "posdef D (mk_form \<bar>ca\<bar> (e mod (2 * ca)) c)"
      "same_class D (composed p q b2 k C) (mk_form \<bar>ca\<bar> (e mod (2 * ca)) c)"
    using assms by (rule large_branch)
  have "nucomp_large p q b2 c2 k m ss D L = Some (mk_form \<bar>ca\<bar> (e mod (2 * ca)) c)"
    unfolding nucomp_large_def
    by (simp only: x d1 d2 ca d3 d4 ca0 Let_def bind.simps add_diff_cancel_right' if_False div4 sign_repair)
  then show thesis using C r by (intro that)
qed

lemma nudupl_large_ok:
  assumes D: "D < 0" and p: "0 < p" and k: "0 \<le> k" "k < p"
    and disc: "D = b * b - 4 * p * c1" and Q: "p dvd b * k + c1"
  obtains C r where "p * C = (b + p * k) * k + c1" and "nudupl_large p b c1 k D L = Some r"
    and "posdef D r" and "same_class D (composed p p b k C) r"
proof -
  have b0: "b = b - 0" and pk: "p dvd 0 - p * k" by simp_all
  obtain C x m1 m2 ca e c where C: "p * C = (b + p * k) * k + c1" and x: "mpz_xgcd_partial p k L = Some x"
    and d1: "divexact (0 * co1 x + p * xr1 x) p = Some m1" and d2: "divexact (b * xr1 x - c1 * co1 x) p = Some m2"
    and ca: "(if co1 x < 0 then xr1 x * m1 - co1 x * m2 else co1 x * m2 - xr1 x * m1) = ca"
    and d3: "divexact (2 * (p * xr1 x - ca * co2 x)) (co1 x) = Some (e + b)" and ca0: "ca \<noteq> 0"
    and d4: "divexact ((e mod (2 * ca)) * (e mod (2 * ca)) - D) ca = Some (4 * (sgn ca * c))"
    and r: "posdef D (mk_form \<bar>ca\<bar> (e mod (2 * ca)) c)"
      "same_class D (composed p p b k C) (mk_form \<bar>ca\<bar> (e mod (2 * ca)) c)"
    using D p p k b0 disc pk Q by (rule large_branch)
  have m1: "m1 = xr1 x" using d1 divexact_mult [of p "p * xr1 x" "xr1 x"] p by simp
  have ra: "(if co1 x \<ge> 0 then - (xr1 x * xr1 x - co1 x * m2) else xr1 x * xr1 x - co1 x * m2) = ca"
    using ca m1 by auto
  have d3': "divexact (2 * (- (ca * co2 x - p * xr1 x))) (co1 x) = Some (e + b)" using d3 by simp
  have "nudupl_large p b c1 k D L = Some (mk_form \<bar>ca\<bar> (e mod (2 * ca)) c)"
    unfolding nudupl_large_def
    by (simp only: x d2 ra d3' d4 ca0 Let_def bind.simps add_diff_cancel_right' if_False tdiv4 sign_repair)
  then show thesis using C r by (intro that)
qed

subsection \<open>The congruence for \<open>k\<close>\<close>

text \<open>What the first part establishes: \<open>s\<close> is the gcd of \<open>a1\<close>, \<open>a2\<close> and
  \<open>(b1 + b2) / 2\<close>, it is divided out, and \<open>k\<close> solves the two congruences that make
  \<open>(a1' a2', b2 + 2 a2' k, _)\<close> the composition.\<close>

definition reduces_to :: "form \<Rightarrow> form \<Rightarrow> int \<Rightarrow> int \<Rightarrow> int \<Rightarrow> int \<Rightarrow> bool" where
  "reduces_to f g p q c2 k \<longleftrightarrow>
     (\<exists>s u x y z. fa f = s * p \<and> fa g = s * q \<and> (fb f + fb g) div 2 = s * u \<and> c2 = s * fc g \<and>
        0 < s \<and> 0 < p \<and> 0 < q \<and> 0 \<le> k \<and> k < p \<and> p dvd (fb f - fb g) div 2 - q * k \<and>
        p dvd u * k + fc g \<and> x * p + y * q + z * u = 1)"

lemma reduces_toI:
  assumes "fa f = s * p" "fa g = s * q" "(fb f + fb g) div 2 = s * u" "c2 = s * fc g"
    and "0 < s" "0 < p" "0 < q" "0 \<le> k" "k < p" and "p dvd (fb f - fb g) div 2 - q * k"
    and "p dvd u * k + fc g" and "x * p + y * q + z * u = 1"
  shows "reduces_to f g p q c2 k"
  using assms unfolding reduces_to_def by blast

lemma first_gcd:
  assumes G: "gcdext_ok G" and a: "0 < a1" "0 < a2"
    and r: "(sp, v1) = (if a2 mod a1 = 0 then (a1, 0) else case G (a2 mod a1) a1 of (d, v, _) \<Rightarrow> (d, v))"
  shows "sp = gcd a1 a2" and "a1 dvd a2 * v1 - sp"
proof -
  obtain d v w where st: "G (a2 mod a1) a1 = (d, v, w)" by (cases "G (a2 mod a1) a1") auto
  note g = gcdext_okD [OF G st]
  have "sp = gcd a1 a2 \<and> a1 dvd a2 * v1 - sp"
  proof (cases "a2 mod a1 = 0")
    case True
    then have "sp = a1" "v1 = 0" "a1 dvd a2" using r by (simp_all add: mod_eq_0_iff_dvd)
    then show ?thesis using a by (simp add: gcd_proj1_iff)
  next
    case False
    have "gcd (a2 mod a1) a1 = gcd a1 a2" by (metis gcd.commute gcd_red_int)
    moreover have "sp = d" "v1 = v" using r st False by simp_all
    moreover have "a2 * v - d = a1 * ((a2 div a1) * v - w)"
    proof -
      define b c where "b = a2 div a1" and "c = a2 mod a1"
      have "a2 = a1 * b + c" by (simp add: b_def c_def)
      moreover have "c * v = d - a1 * w" using g by (simp add: c_def algebra_simps)
      ultimately have "a2 * v - d = a1 * (b * v - w)" by (simp add: algebra_simps)
      then show ?thesis by (simp add: b_def)
    qed
    ultimately show ?thesis using g(1) by simp
  qed
  then show "sp = gcd a1 a2" and "a1 dvd a2 * v1 - sp" by blast+
qed

lemma congruences:
  fixes p q u e v1 v2 u2 m c1 c2 k :: int
  assumes v: "p dvd q * v1 - e" and bez: "u * v2 + e * u2 = 1" and c: "u * m + q * c2 = p * c1"
    and k: "p dvd k - (m * v1 * u2 - v2 * c2)"
  shows "p dvd m - q * k" and "p dvd u * k + c2"
proof -
  obtain w where w: "q * v1 - e = p * w" using v by (rule dvdE)
  obtain j where j: "k - (m * v1 * u2 - v2 * c2) = p * j" using k by (rule dvdE)
  have e: "e = q * v1 - p * w" and kk: "k = m * v1 * u2 - v2 * c2 + p * j" using w j by simp_all
  have "m - q * k = p * (m * w * - u2 + v2 * c1 - q * j)
      + m * (1 - (u * v2 + e * u2)) + v2 * (u * m + q * c2 - p * c1)"
    unfolding kk e by (simp add: algebra_simps)
  then show "p dvd m - q * k" unfolding bez c by (simp del: mult_minus_right)
  have "u * k + c2 = p * (u * j + v1 * u2 * c1 - w * u2 * c2)
      + c2 * (1 - (u * v2 + e * u2)) + v1 * u2 * (u * m + q * c2 - p * c1)"
    unfolding kk e by (simp add: algebra_simps)
  then show "p dvd u * k + c2" unfolding bez c by simp
qed


lemma discs_relation:
  assumes f: "posdef D f" and g: "posdef D g"
  shows "((fb f + fb g) div 2) * ((fb f - fb g) div 2) + fa g * fc g = fa f * fc f"
    and "(fb f + fb g) div 2 - (fb f - fb g) div 2 = fb g"
proof -
  have ev: "even (fb f + fb g)" using f g by (rule posdef_parity)
  then obtain u where u: "fb f + fb g = 2 * u" by (rule evenE)
  define m where "m = (fb f - fb g) div 2"
  have m: "fb f = fb g + 2 * m" using ev by (simp add: m_def)
  have uu: "u = fb g + m" using u m by simp
  have "fb f * fb f - 4 * fa f * fc f = fb g * fb g - 4 * fa g * fc g"
    using f g by (simp add: posdef_def disc_def)
  then have "4 * (u * m + fa g * fc g) = 4 * (fa f * fc f)"
    unfolding m uu by (simp add: algebra_simps)
  then show "((fb f + fb g) div 2) * ((fb f - fb g) div 2) + fa g * fc g = fa f * fc f"
    unfolding u m_def [symmetric] by simp
  show "(fb f + fb g) div 2 - (fb f - fb g) div 2 = fb g"
    unfolding u m_def [symmetric] uu by simp
qed

lemma nucomp_reduce_ok:
  assumes G: "gcdext_ok G" and f: "posdef D f" and g: "posdef D g"
  obtains p q c2 k where "nucomp_reduce G f g = Some (p, q, c2, k)" and "reduces_to f g p q c2 k"
proof -
  let ?ss = "(fb f + fb g) div 2" and ?m = "(fb f - fb g) div 2"
  have a: "0 < fa f" "0 < fa g" using f g by (simp_all add: posdef_def)
  obtain sp v1 where sp: "(if fa g mod fa f = 0 then (fa f, 0)
      else case G (fa g mod fa f) (fa f) of (d, v, _) \<Rightarrow> (d, v)) = (sp, v1)" by fastforce
  note fg = first_gcd [OF G a sp [symmetric]]
  have sp0: "0 < sp" unfolding fg(1) using a by (auto intro: gcd_pos_int [THEN iffD2])
  let ?kf = "(?m * v1) mod fa f"
  have k0: "fa f dvd ?m * v1 - ?kf" by (simp add: minus_mod_eq_mult_div)
  note rel = discs_relation(1) [OF f g]
  show thesis
  proof (cases "sp = 1")
    case True
    have run: "nucomp_reduce G f g = Some (fa f, fa g, fc g, ?kf)"
      unfolding nucomp_reduce_def Let_def sp using True a by simp
    have "fa f dvd fa g * v1 - 1" using fg(2) True by simp
    moreover have "?ss * 0 + 1 * 1 = (1::int)" by simp
    moreover note rel
    moreover have "fa f dvd ?kf - (?m * v1 * 1 - 0 * fc g)"
      using k0 by (simp add: dvd_diff_commute)
    ultimately have "fa f dvd ?m - fa g * ?kf" "fa f dvd ?ss * ?kf + fc g"
      by (rule congruences)+
    moreover obtain x y where "x * fa f + y * fa g = 1"
      using bezout_int [of "fa f" "fa g"] fg(1) True by auto
    ultimately have "reduces_to f g (fa f) (fa g) (fc g) ?kf"
      unfolding reduces_to_def using a
      by (intro exI [of _ 1] exI [of _ ?ss] exI [of _ x] exI [of _ y] exI [of _ 0]) simp
    with run show thesis by (rule that)
  next
    case False
    obtain s v2 u2 where st: "G ?ss sp = (s, v2, u2)" by (cases "G ?ss sp") auto
    note gg = gcdext_okD [OF G st]
    have s0: "0 < s" unfolding gg(1) using sp0 by (auto intro: gcd_pos_int [THEN iffD2])
    have "s dvd sp" "s dvd ?ss" unfolding gg(1) by simp_all
    moreover have "sp dvd fa f" "sp dvd fa g" unfolding fg(1) by simp_all
    ultimately obtain e p q u where d: "sp = s * e" "fa f = s * p" "fa g = s * q" "?ss = s * u"
      by (metis dvd_def dvd_trans)
    have pq: "0 < p" "0 < q" using a s0 d by (simp_all add: zero_less_mult_iff)
    let ?k = "(?kf * u2 - v2 * fc g) mod p"
    have dx: "divexact (fa f) s = Some p" "divexact (fa g) s = Some q"
      using d s0 by (simp_all add: divexact_mult)
    have "nucomp_reduce G f g =
        (if s \<noteq> 1 then Some (p, q, fc g * s, ?k)
         else Some (fa f, fa g, fc g, (?kf * u2 - v2 * fc g) mod fa f))"
      unfolding nucomp_reduce_def Let_def sp using False a pq st dx by simp
    then have run: "nucomp_reduce G f g = Some (p, q, s * fc g, ?k)"
      using d by (auto simp: mult.commute)
    have "s * (u * v2 + e * u2) = s * 1" using gg d by (simp add: algebra_simps)
    then have bez: "u * v2 + e * u2 = 1" using s0 by simp
    have "s * p dvd s * (q * v1 - e)" using fg(2) d by (simp add: algebra_simps)
    then have v: "p dvd q * v1 - e" using s0 by simp
    have "s * (u * ?m + q * fc g) = s * (p * fc f)" using rel d by (simp add: algebra_simps)
    then have c: "u * ?m + q * fc g = p * fc f" using s0 by simp
    have "p dvd ?m * v1 - ?kf" using k0 d(2) dvd_mult_right by metis
    then have "p dvd (?kf * u2 - v2 * fc g) - ?k + ((?m * v1 - ?kf) * u2)"
      by (intro dvd_add dvd_mult2) (simp add: minus_mod_eq_mult_div)
    then have "p dvd (?m * v1 * u2 - v2 * fc g) - ?k" by (simp add: algebra_simps)
    then have kk: "p dvd ?k - (?m * v1 * u2 - v2 * fc g)" by (simp only: dvd_diff_commute)
    note con = congruences [OF v bez c kk]
    obtain x y where "x * fa f + y * fa g = sp"
      unfolding fg(1) using bezout_int by blast
    then have "s * (x * p + y * q) = s * e" using d by (simp add: algebra_simps)
    then have "x * p + y * q = e" using s0 by simp
    then have e: "e = x * p + y * q" by simp
    have uw: "(u2 * x) * p + (u2 * y) * q + v2 * u = 1" using bez unfolding e by (simp add: algebra_simps)
    have "0 \<le> ?k" "?k < p" using pq by simp_all
    then have "reduces_to f g p q (s * fc g) ?k"
      using reduces_toI [OF d(2,3,4) refl s0 pq _ _ con] uw by blast
    with run show thesis by (rule that)
  qed
qed

subsection \<open>NUCOMP composes, NUDUPL squares\<close>

lemma reduces_to_composes:
  assumes f: "posdef D f" and g: "posdef D g" and r: "reduces_to f g p q c2 k"
    and C: "p * C = (fb g + q * k) * k + c2"
  shows "composes D f g (composed p q (fb g) k C)"
proof -
  obtain s u x y z where d: "fa f = s * p" "fa g = s * q" "(fb f + fb g) div 2 = s * u" "c2 = s * fc g"
    and s: "0 < s" "0 < p" and P: "p dvd (fb f - fb g) div 2 - q * k" and Q: "p dvd u * k + fc g"
    and bez: "x * p + y * q + z * u = 1"
    using r unfolding reduces_to_def by blast
  obtain P where P: "(fb f - fb g) div 2 - q * k = p * P" using P by (rule dvdE)
  obtain Q where Q: "u * k + fc g = p * Q" using Q by (rule dvdE)
  have sum: "fb f + fb g = 2 * s * u" using d(3) even_sum_div2 [OF posdef_parity [OF f g]] by simp
  have dif: "fb f = fb g + 2 * (q * k + p * P)"
    using P even_diff_div2 [OF posdef_parity [OF f g]] by simp
  let ?F = "composed p q (fb g) k C"
  have b: "fb ?F = fb g + 2 * q * k" "fb ?F = fb f + 2 * p * (- P)" "fa ?F = p * q"
    unfolding dif by (simp_all add: composed_def algebra_simps)
  have D: "D = fb g * fb g - 4 * (s * q) * fc g" using g d by (auto simp: posdef_def disc_def)
  have "D + fb f * fb g = (fb f + fb g) * fb g - 4 * (s * q) * fc g" unfolding D by (simp add: algebra_simps)
  also have "\<dots> = 2 * s * (u * fb ?F - 2 * q * (u * k + fc g))"
    unfolding sum b(1) by (simp add: algebra_simps)
  finally have "D + fb f * fb g = 2 * s * (2 * p * q * (- Q) + u * fb ?F)"
    unfolding Q by (simp add: algebra_simps)
  then show ?thesis
    using s by (intro composesI [OF _ d(1,2) b(3) sum b(1,2) _ bez]) simp
qed

lemma nucomp_ordered_ok:
  assumes D: "good_disc D" and G: "gcdext_ok G" and f: "posdef D f" and g: "posdef D g"
  shows "\<exists>r. nucomp_ordered G f g D L = Some r \<and> posdef D r \<and> class_mul D f g r"
proof -
  let ?ss = "(fb f + fb g) div 2" and ?m = "(fb f - fb g) div 2"
  obtain p q c2 k where run: "nucomp_reduce G f g = Some (p, q, c2, k)" and r: "reduces_to f g p q c2 k"
    using G f g by (rule nucomp_reduce_ok)
  obtain s u where d: "fa g = s * q" "?ss = s * u" "c2 = s * fc g" and pos: "0 < p" "0 < q" "0 \<le> k" "k < p"
    and P: "p dvd ?m - q * k" and Q: "p dvd u * k + fc g"
    using r unfolding reduces_to_def by blast
  have b2: "fb g = ?ss - ?m" using discs_relation(2) [OF f g] by simp
  have disc: "D = fb g * fb g - 4 * q * c2" using g d by (auto simp: posdef_def disc_def)
  have "p dvd s * (u * k + fc g)" using Q by (rule dvd_mult)
  then have Q': "p dvd ?ss * k + c2" using d by (simp add: algebra_simps)
  obtain C r' where C: "p * C = (fb g + q * k) * k + c2"
    and large: "nucomp_large p q (fb g) c2 k ?m ?ss D L = Some r'"
    and r': "posdef D r'" "same_class D (composed p q (fb g) k C) r'"
    using good_disc_neg [OF D] pos b2 disc P Q' by (rule nucomp_large_ok)
  let ?F = "composed p q (fb g) k C"
  have small: "nucomp_small p q (fb g) c2 k = Some ?F"
    unfolding nucomp_small_def Let_def using pos(1) divexact_mult [of p _ C] C
    by (simp add: composed_def algebra_simps)
  have F: "posdef D ?F" using pos(1,2) disc C by (rule composed_posdef)
  have mul: "class_mul D f g ?F"
    using D f reduces_to_composes [OF f g r C] by (rule composes_mul)
  show ?thesis
    using run small large F mul class_mul_same [OF mul r'(2)] r'(1) by (simp add: nucomp_ordered_def)
qed

lemma qfb_nucomp_ok:
  assumes "good_disc D" and "gcdext_ok G" and "posdef D f" and "posdef D g"
  shows "\<exists>r. qfb_nucomp G f g D L = Some r \<and> posdef D r \<and> class_mul D f g r"
proof (cases "fa g < fa f")
  case True
  then show ?thesis
    using nucomp_ordered_ok [OF assms(1,2,4,3)] class_mul_commute by (auto simp: qfb_nucomp_def)
next
  case False
  then show ?thesis using nucomp_ordered_ok [OF assms] by (simp add: qfb_nucomp_def)
qed


lemma nudupl_gcd:
  assumes G: "gcdext_ok G"
    and r: "(s, v2) = (if b < 0 then case G (- b) a of (d, v, _) \<Rightarrow> (d, - v) else case G b a of (d, v, _) \<Rightarrow> (d, v))"
  obtains w where "s = gcd b a" and "b * v2 + a * w = s"
proof (cases "b < 0")
  case True
  obtain d v w where st: "G (- b) a = (d, v, w)" by (cases "G (- b) a") auto
  from gcdext_okD [OF G st] show thesis using r st True by (intro that [of w]) simp_all
next
  case False
  obtain d v w where st: "G b a = (d, v, w)" by (cases "G b a") auto
  from gcdext_okD [OF G st] show thesis using r st False by (intro that [of w]) simp_all
qed

lemma qfb_nudupl_ok:
  assumes D: "good_disc D" and G: "gcdext_ok G" and f: "posdef D f"
  shows "\<exists>r. qfb_nudupl G f D L = Some r \<and> posdef D r \<and> class_mul D f f r"
proof -
  have a: "0 < fa f" using f by (rule posdefD)
  obtain s v2 where sv: "(if fb f < 0 then case G (- fb f) (fa f) of (d, v, _) \<Rightarrow> (d, - v)
      else case G (fb f) (fa f) of (d, v, _) \<Rightarrow> (d, v)) = (s, v2)" by fastforce
  obtain w where s: "s = gcd (fb f) (fa f)" and vw: "fb f * v2 + fa f * w = s"
    using G sv [symmetric] by (rule nudupl_gcd)
  have s0: "0 < s" unfolding s using a by (auto intro: gcd_pos_int [THEN iffD2])
  obtain p u where pu: "fa f = s * p" "fb f = s * u" unfolding s by (metis dvd_def gcd_dvd1 gcd_dvd2)
  have p: "0 < p" using a s0 pu by (simp add: zero_less_mult_iff)
  let ?k = "(- (v2 * fc f)) mod p"
  let ?c = "s * fc f"
  have "s * (u * v2 + p * w) = s * 1" using vw pu by (simp add: algebra_simps)
  then have "u * v2 + p * w = 1" using s0 by (simp only: mult_cancel_left) simp
  then have bez: "w * p + 0 * p + v2 * u = 1" by (simp add: mult.commute)
  have k: "0 \<le> ?k" "?k < p" using p by simp_all
  define j where "j = - ((- (v2 * fc f)) div p)"
  have kj: "?k = - (v2 * fc f) + p * j" by (simp add: j_def minus_mult_div_eq_mod [symmetric])
  have "u * ?k + fc f = fc f * (1 - u * v2) + p * (u * j)" unfolding kj by (simp add: algebra_simps)
  also have "1 - u * v2 = p * w" using bez by (simp add: algebra_simps)
  finally have Q: "p dvd u * ?k + fc f" by simp
  then have "p dvd s * (u * ?k + fc f)" by (rule dvd_mult)
  then have Q': "p dvd fb f * ?k + ?c" unfolding pu by (simp add: algebra_simps)
  have red: "reduces_to f f p p ?c ?k"
    by (rule reduces_toI [OF pu(1) pu(1) _ refl s0 p p k _ Q bez]) (simp_all add: pu)
  have disc: "D = fb f * fb f - 4 * p * ?c" using f pu by (auto simp: posdef_def disc_def)
  obtain C r where C: "p * C = (fb f + p * ?k) * ?k + ?c"
    and large: "nudupl_large p (fb f) ?c ?k D L = Some r"
    and r: "posdef D r" "same_class D (composed p p (fb f) ?k C) r"
    using good_disc_neg [OF D] p k disc Q' by (rule nudupl_large_ok)
  have F: "posdef D (composed p p (fb f) ?k C)" using p p disc C by (rule composed_posdef)
  have mul: "class_mul D f f (composed p p (fb f) ?k C)"
    using D f reduces_to_composes [OF f f red C] by (rule composes_mul)
  have a1: "(if s \<noteq> 1 then fa f div s else fa f) = p" "(if s \<noteq> 1 then fc f * s else fc f) = ?c"
    using s0 pu by auto
  have small: "mk_form (p * p) (2 * (p * ?k) + fb f) (((fb f + p * ?k) * ?k + ?c) div p)
      = composed p p (fb f) ?k C"
    using p unfolding C [symmetric] by (simp add: composed_def)
  have "qfb_nudupl G f D L = (if p < L then Some (composed p p (fb f) ?k C) else Some r)"
    unfolding qfb_nudupl_def Let_def sv prod.case a1 using s0 p small large by simp
  then show ?thesis using F mul class_mul_same [OF mul r(2)] r(1) by simp
qed

end
