(* ===== verification/Reducer.thy ===== *)
theory Reducer
  imports FormClass Xgcd
begin

unbundle bit_operations_syntax

section \<open>The Pulmark reducer: \<open>Reducer.h\<close>\<close>

text \<open>
  \<open>Reducer::run\<close> reduces the form in its \<open>ClassGroupContext\<close> in place: while the
  form is not reduced it takes 63-bit approximations of the three coefficients, runs the
  reduction on them in 64-bit arithmetic to collect a matrix, and applies the matrix to the
  full coefficients.  Machine arithmetic is \<open>s64\<close> of the integer result; a division by
  zero and \<open>labs\<close> of the least integer are \<open>None\<close>, and so is not terminating.
  The context's temporaries do not survive an iteration and are local here.
\<close>

definition mpz_size :: "int \<Rightarrow> int" where
  "mpz_size x = (int (bit_length \<bar>x\<bar>) + 63) div 64"

definition mpz_getlimbn :: "int \<Rightarrow> int \<Rightarrow> int" where
  "mpz_getlimbn x n = (if n < 0 then 0 else (\<bar>x\<bar> div 2 ^ (64 * nat n)) mod 2 ^ 64)"

text \<open>The leading-zero count of a 64-bit word, the contract of both \<open>lzcnt64\<close> variants.\<close>

definition lzcnt64 :: "int \<Rightarrow> int" where
  "lzcnt64 x = 64 - int (bit_length x)"

definition signed_shift :: "int \<Rightarrow> int \<Rightarrow> int" where
  "signed_shift opnd shift =
     (if shift > 0 then s64 (opnd * 2 ^ nat shift)
      else if shift \<le> - 64 then 0
      else s64 (opnd div 2 ^ nat (- shift)))"

definition mpz_get_si_2exp :: "int \<Rightarrow> int \<times> int" where
  "mpz_get_si_2exp opnd =
     (let size = mpz_size opnd;
          last = mpz_getlimbn opnd (size - 1);
          lg2 = 64 - lzcnt64 last;
          r = signed_shift last (63 - lg2);
          (r, ex) =
            (if size > 1
             then (s64 (r + signed_shift (mpz_getlimbn opnd (size - 2)) (- 1 - lg2)),
                   lg2 + (size - 1) * 64)
             else (r, lg2))
      in (if opnd < 0 then s64 (- r) else r, ex))"

definition isReduced :: "form \<Rightarrow> bool \<times> form" where
  "isReduced f =
     (if \<bar>fa f\<bar> < \<bar>fb f\<bar> \<or> \<bar>fc f\<bar> < \<bar>fb f\<bar> then (False, f)
      else if fa f > fc f then (True, mk_form (fc f) (- fb f) (fa f))
      else if fa f = fc f \<and> fb f < 0 then (True, mk_form (fa f) (- fb f) (fc f))
      else (True, f))"

definition reducer :: "form \<Rightarrow> form option" where
  "reducer f =
     (if fc f = 0 then None
      else let s = (fb f div fc f + 1) div 2; m = fc f * s; r = 2 * m
           in Some (mk_form (fc f) (r - fb f) (fa f + s * (m - fb f))))"

type_synonym mat = "int \<times> int \<times> int \<times> int"

definition labs_opt :: "int \<Rightarrow> int option" where
  "labs_opt x = (if x = - (2 ^ 63) then None else Some \<bar>x\<bar>)"

text \<open>One pass of the \<open>do\<close> body: the new matrix, \<open>a\<close>, \<open>b\<close>, \<open>c\<close> and the threshold
  flag.\<close>

definition calc_body :: "mat \<Rightarrow> int \<Rightarrow> int \<Rightarrow> int \<Rightarrow> (mat \<times> int \<times> int \<times> int \<times> bool) option" where
  "calc_body M a b c =
     (case M of (u, v, w, x) \<Rightarrow>
        let c2 = s64 (2 * c) in
        if c2 = 0 then None
        else do {
          let s = s64 (if b \<ge> 0 then tdiv (s64 (b + c)) c2 else tdiv (s64 (- s64 (s64 (- b) + c))) c2);
          let cs = s64 (c * s);
          let b' = s64 (s64 (- b) + s64 (2 * cs));
          let c' = s64 (a - s64 (s * s64 (b - cs)));
          let v' = s64 (s64 (- u) + s64 (s * v));
          let x' = s64 (s64 (- w) + s64 (s * x));
          lv \<leftarrow> labs_opt v';
          lx \<leftarrow> labs_opt x';
          Some ((v, v', x, x'), c, b', c', (lv OR lx) \<le> 2 ^ 31)
        })"

lemma calc_body_a: "calc_body M a b c = Some (M', a', b', c', below) \<Longrightarrow> a' = c"
  by (auto simp: calc_body_def Let_def ret_iff split: prod.splits if_splits)

function calc_uvwx_loop :: "mat \<Rightarrow> int \<Rightarrow> int \<Rightarrow> int \<Rightarrow> mat option" where
  "calc_uvwx_loop M a b c =
     (case calc_body M a b c of
        None \<Rightarrow> None
      | Some (M', a', b', c', below) \<Rightarrow>
          if below \<and> a' > c' \<and> c' > 0 then calc_uvwx_loop M' a' b' c'
          else Some (if below then M' else M))"
  by pat_completeness auto

termination
  by (relation "measure (\<lambda>(M, a, b, c). nat c)") (auto dest!: calc_body_a)

declare calc_uvwx_loop.simps [simp del]

definition calc_uvwx :: "int \<Rightarrow> int \<Rightarrow> int \<Rightarrow> mat option" where
  "calc_uvwx a b c = calc_uvwx_loop (1, 0, 0, 1) a b c"

definition apply_uvwx :: "mat \<Rightarrow> form \<Rightarrow> form" where
  "apply_uvwx M f =
     (case M of (u, v, w, x) \<Rightarrow>
        let faa = fa f * s64 (u * u); fab = fb f * s64 (u * w); fac = fc f * s64 (w * w);
            fba = fa f * s64 (2 * (u * v)); fbb = fb f * s64 (s64 (u * x) + s64 (v * w));
            fbc = fc f * s64 (2 * (w * x));
            fca = fa f * s64 (v * v); fcb = fb f * s64 (v * x); fcc = fc f * s64 (x * x)
        in mk_form (faa + fab + fac) (fba + fbb + fbc) (fca + fcb + fcc))"

definition run_body :: "form \<Rightarrow> form option" where
  "run_body f =
     (let (a, a_exp) = mpz_get_si_2exp (fa f);
          (b, b_exp) = mpz_get_si_2exp (fb f);
          (c, c_exp) = mpz_get_si_2exp (fc f);
          hi = max a_exp (max b_exp c_exp); lo = min a_exp (min b_exp c_exp)
      in if hi - lo > 31 then reducer f
         else let max_exp = hi + 1 in
           do {
             M \<leftarrow> calc_uvwx (a div 2 ^ nat (max_exp - a_exp)) (b div 2 ^ nat (max_exp - b_exp))
                    (c div 2 ^ nat (max_exp - c_exp));
             Some (apply_uvwx M f)
           })"

partial_function (option) run :: "form \<Rightarrow> form option" where
  "run f =
     (if fst (isReduced f) then Some (snd (isReduced f))
      else Option.bind (run_body (snd (isReduced f))) run)"

declare run.simps [code]

text \<open>\<open>PulmarkReducer::reduce\<close> copies the form into the context, runs and copies back.\<close>

definition pulmark_reduce :: "form \<Rightarrow> form option" where
  "pulmark_reduce f = run f"

subsection \<open>The matrix has determinant 1, wrapped products included\<close>

definition small_mat :: "mat \<Rightarrow> bool" where
  "small_mat M \<longleftrightarrow>
     (case M of (u, v, w, x) \<Rightarrow>
        \<bar>u\<bar> \<le> 2 ^ 31 \<and> \<bar>v\<bar> \<le> 2 ^ 31 \<and> \<bar>w\<bar> \<le> 2 ^ 31 \<and> \<bar>x\<bar> \<le> 2 ^ 31 \<and> u * x - v * w = 1)"

lemma s64_cong: "2 ^ 64 dvd s64 x - x"
proof -
  have "s64 x - x = - (2 ^ 64 * ((x + 2 ^ 63) div 2 ^ 64))"
    by (simp add: s64_def minus_mult_div_eq_mod [symmetric])
  then show ?thesis by simp
qed

lemma s64_neg_mul_cong: "2 ^ 64 dvd s64 (s64 (- u) + s64 (s * v)) - (s * v - u)"
proof -
  have "2 ^ 64 dvd (s64 (s64 (- u) + s64 (s * v)) - (s64 (- u) + s64 (s * v)))
      + ((s64 (- u) - (- u)) + (s64 (s * v) - s * v))"
    by (intro dvd_add s64_cong)
  then show ?thesis by (simp add: algebra_simps)
qed

lemma small_products: "\<bar>x\<bar> \<le> 2 ^ 31 \<Longrightarrow> \<bar>y\<bar> \<le> 2 ^ 31 \<Longrightarrow> \<bar>x * y\<bar> \<le> (2 ^ 62 :: int)"
proof -
  assume "\<bar>x\<bar> \<le> 2 ^ 31" "\<bar>y\<bar> \<le> 2 ^ 31"
  then have "\<bar>x\<bar> * \<bar>y\<bar> \<le> 2 ^ 31 * (2 ^ 31 :: int)" by (intro mult_mono) auto
  then show ?thesis by (simp add: abs_mult)
qed

lemma det_exact:
  assumes "2 ^ 64 dvd d - 1" and "\<bar>d\<bar> \<le> (2 ^ 63 :: int)"
  shows "d = 1"
proof -
  obtain k where k: "d - 1 = 2 ^ 64 * k" using assms(1) by (rule dvdE)
  have "k = 0" using k assms(2) by (simp add: abs_le_iff)
  with k show ?thesis by simp
qed

lemma or_bounds: "0 \<le> a \<Longrightarrow> 0 \<le> b \<Longrightarrow> a OR b \<le> t \<Longrightarrow> a \<le> t \<and> b \<le> (t :: int)"
  using or_greater_eq [of b a] or_greater_eq [of a b] by (simp add: or.commute)

lemma calc_body_small:
  assumes "small_mat M" and "calc_body M a b c = Some (M', a', b', c', True)"
  shows "small_mat M'"
proof -
  obtain u v w x where M: "M = (u, v, w, x)" by (cases M) auto
  obtain s v' x' where v': "v' = s64 (s64 (- u) + s64 (s * v))" and x': "x' = s64 (s64 (- w) + s64 (s * x))"
    and M': "M' = (v, v', x, x')" and le: "\<bar>v'\<bar> OR \<bar>x'\<bar> \<le> 2 ^ 31"
    using assms(2) unfolding M calc_body_def
    by (auto simp: Let_def ret_iff labs_opt_def split: if_splits)
  have s: "\<bar>v\<bar> \<le> 2 ^ 31" "\<bar>x\<bar> \<le> 2 ^ 31" "u * x - v * w = 1"
    using assms(1) M by (simp_all add: small_mat_def)
  have b: "\<bar>v'\<bar> \<le> 2 ^ 31" "\<bar>x'\<bar> \<le> 2 ^ 31"
    using or_bounds [OF abs_ge_zero abs_ge_zero le] by simp_all
  have "2 ^ 64 dvd v * (x' - (s * x - w)) - x * (v' - (s * v - u))"
    unfolding v' x' by (intro dvd_diff dvd_mult s64_neg_mul_cong)
  also have "v * (x' - (s * x - w)) - x * (v' - (s * v - u)) = (v * x' - v' * x) - (u * x - v * w)"
    by (simp add: algebra_simps)
  finally have "2 ^ 64 dvd (v * x' - v' * x) - 1" unfolding s(3) .
  moreover have "\<bar>v * x'\<bar> \<le> 2 ^ 62" "\<bar>v' * x\<bar> \<le> 2 ^ 62"
    using s b by (intro small_products; simp)+
  then have "\<bar>v * x' - v' * x\<bar> \<le> 2 ^ 63" by simp
  ultimately have "v * x' - v' * x = 1" by (rule det_exact)
  then show ?thesis using s b M' by (simp add: small_mat_def)
qed

lemma calc_uvwx_loop_small:
  assumes "small_mat M" and "calc_uvwx_loop M a b c = Some N"
  shows "small_mat N"
  using assms
proof (induction M a b c rule: calc_uvwx_loop.induct)
  case (1 M a b c)
  obtain M' a' b' c' below where body: "calc_body M a b c = Some (M', a', b', c', below)"
    using 1(3) by (subst (asm) calc_uvwx_loop.simps) (auto split: option.splits)
  have small: "small_mat M'" if below using calc_body_small [OF 1(2)] body that by simp
  show ?case
  proof (cases "below \<and> a' > c' \<and> c' > 0")
    case True
    then have "calc_uvwx_loop M' a' b' c' = Some N"
      using 1(3) body by (subst (asm) calc_uvwx_loop.simps) simp
    with 1(1) [OF body refl refl refl refl] True small show ?thesis by auto
  next
    case False
    then have "N = (if below then M' else M)"
      using 1(3) body by (subst (asm) calc_uvwx_loop.simps) auto
    with small 1(2) show ?thesis by simp
  qed
qed


lemma calc_uvwx_small: "calc_uvwx a b c = Some M \<Longrightarrow> small_mat M"
  unfolding calc_uvwx_def by (erule calc_uvwx_loop_small [rotated]) (simp add: small_mat_def)

subsection \<open>Applying the matrix is an exact substitution\<close>

lemma small_product_strict:
  assumes "\<bar>x\<bar> \<le> 2 ^ 31" "\<bar>y\<bar> \<le> 2 ^ 31" and "x * k + y * l = (1 :: int)"
  shows "\<bar>x * y\<bar> < 2 ^ 62"
proof -
  have "\<bar>x\<bar> \<noteq> 2 ^ 31 \<or> \<bar>y\<bar> \<noteq> 2 ^ 31"
  proof (rule ccontr)
    assume "\<not> ?thesis"
    then have "2 ^ 31 dvd x" "2 ^ 31 dvd y" by (metis dvd_abs_iff dvd_refl)+
    then have "(2 :: int) ^ 31 dvd x * k + y * l" by (intro dvd_add dvd_mult2)
    then show False unfolding assms(3) by simp
  qed
  then have "\<bar>x\<bar> \<le> 2 ^ 31 - 1 \<or> \<bar>y\<bar> \<le> 2 ^ 31 - 1" using assms(1,2) by auto
  then have "\<bar>x\<bar> * \<bar>y\<bar> \<le> (2 ^ 31 - 1) * 2 ^ 31"
  proof
    assume "\<bar>x\<bar> \<le> 2 ^ 31 - 1"
    then show ?thesis using assms(2) by (intro mult_mono) auto
  next
    assume "\<bar>y\<bar> \<le> 2 ^ 31 - 1"
    then have "\<bar>y\<bar> * \<bar>x\<bar> \<le> (2 ^ 31 - 1) * 2 ^ 31" using assms(1) by (intro mult_mono) auto
    then show ?thesis by (simp add: mult.commute)
  qed
  also have "\<dots> < (2 :: int) ^ 62" by simp
  finally show ?thesis by (simp add: abs_mult)
qed

lemma s64_small: "\<bar>x\<bar> \<le> 2 ^ 62 \<Longrightarrow> s64 x = x"
  by (rule s64_id) (simp_all add: abs_le_iff)

lemma apply_uvwx_subst:
  assumes "small_mat (u, v, w, x)"
  shows "apply_uvwx (u, v, w, x) f = form_subst f u v w x"
proof -
  have b: "\<bar>u\<bar> \<le> 2 ^ 31" "\<bar>v\<bar> \<le> 2 ^ 31" "\<bar>w\<bar> \<le> 2 ^ 31" "\<bar>x\<bar> \<le> 2 ^ 31" and det: "u * x - v * w = 1"
    using assms by (simp_all add: small_mat_def)
  have p: "s64 (u * u) = u * u" "s64 (u * w) = u * w" "s64 (w * w) = w * w" "s64 (v * v) = v * v"
    "s64 (v * x) = v * x" "s64 (x * x) = x * x" "s64 (u * x) = u * x" "s64 (v * w) = v * w"
    using b by (intro s64_small small_products; simp)+
  have "\<bar>u * v\<bar> < 2 ^ 62" using b(1,2) by (rule small_product_strict [where k = x and l = "- w"]) (use det in simp)
  then have uv: "s64 (2 * (u * v)) = 2 * (u * v)" by (intro s64_id) auto
  have "\<bar>w * x\<bar> < 2 ^ 62"
    using b(3,4) by (rule small_product_strict [where k = "- v" and l = u]) (use det in \<open>simp add: algebra_simps\<close>)
  then have wx: "s64 (2 * (w * x)) = 2 * (w * x)" by (intro s64_id) auto
  have "\<bar>u * x\<bar> \<le> 2 ^ 62" "\<bar>v * w\<bar> \<le> 2 ^ 62" using b by (intro small_products; simp)+
  then have sum: "s64 (u * x + v * w) = u * x + v * w" using det by (intro s64_id) auto
  show ?thesis
    unfolding apply_uvwx_def form_subst_def qval_def subst_b_def Let_def prod.case p uv wx sum
    by (simp add: algebra_simps)
qed

subsection \<open>What a terminating run returns\<close>

text \<open>\<open>isReduced\<close> accepts \<open>b = - a\<close>, so a run ends in a form that is reduced except
  possibly for that boundary case.\<close>

definition weakly_reduced :: "form \<Rightarrow> bool" where
  "weakly_reduced f \<longleftrightarrow> \<bar>fb f\<bar> \<le> fa f \<and> fa f \<le> fc f \<and> (fa f = fc f \<longrightarrow> 0 \<le> fb f)"

lemma reducer_reduce_impl:
  assumes "0 < fc f"
  shows "reducer f = reduce_impl f"
proof -
  have "(fb f div fc f + 1) div 2 = (fc f + fb f) div (2 * fc f)"
    using assms by (simp add: zdiv_zmult2_eq mult.commute [of 2] add.commute)
  then show ?thesis
    using assms by (simp add: reducer_def reduce_impl_def Let_def algebra_simps)
qed

lemma run_body_class:
  assumes "posdef D f" and "D < 0" and "run_body f = Some g"
  shows "posdef D g \<and> same_class D f g"
proof -
  have c: "0 < fc f" using assms(1,2) by (rule posdef_c_pos)
  have "reducer f = Some g \<or> (\<exists>a b c M. calc_uvwx a b c = Some M \<and> g = apply_uvwx M f)"
    using assms(3) unfolding run_body_def
    by (auto simp: Let_def ret_iff split: prod.splits if_splits) blast
  then show ?thesis
  proof
    assume "reducer f = Some g"
    then have "reduce_impl f = Some g" using c by (simp add: reducer_reduce_impl)
    then show ?thesis using reduce_impl_class [OF assms(1,2)] reduce_impl_posdef [OF assms(1,2)] by blast
  next
    assume "\<exists>a b c M. calc_uvwx a b c = Some M \<and> g = apply_uvwx M f"
    then obtain a b c M where M: "calc_uvwx a b c = Some M" "g = apply_uvwx M f" by blast
    obtain u v w x where m: "M = (u, v, w, x)" by (cases M) auto
    have sm: "small_mat (u, v, w, x)" using calc_uvwx_small [OF M(1)] m by simp
    then have "u * x - v * w = 1" by (simp add: small_mat_def)
    then show ?thesis
      using form_subst_class [OF assms(1,2)] M(2) m apply_uvwx_subst [OF sm] by simp
  qed
qed

lemma isReduced_class:
  assumes "posdef D f" and "D < 0" and "isReduced f = (r, g)"
  shows "posdef D g \<and> same_class D f g \<and> (r \<longrightarrow> weakly_reduced g)"
proof -
  have c: "0 < fc f" using assms(1,2) by (rule posdef_c_pos)
  have a: "0 < fa f" "disc f = D" using assms(1) by (simp_all add: posdef_def)
  consider "g = f" "r \<longrightarrow> weakly_reduced f" | "g = mk_form (fc f) (- fb f) (fa f)" "weakly_reduced g"
  proof (cases "\<bar>fa f\<bar> < \<bar>fb f\<bar> \<or> \<bar>fc f\<bar> < \<bar>fb f\<bar>")
    case True
    then have "g = f" "\<not> r" using assms(3) by (auto simp: isReduced_def)
    then show thesis using that(1) by simp
  next
    case False
    then have le: "\<bar>fb f\<bar> \<le> fa f" "\<bar>fb f\<bar> \<le> fc f" using a c by linarith+
    consider "fc f < fa f" | "fa f = fc f" "fb f < 0" | "fa f < fc f \<or> fa f = fc f \<and> 0 \<le> fb f" by linarith
    then show thesis
    proof cases
      case 1
      then have "g = mk_form (fc f) (- fb f) (fa f)" using False assms(3) by (simp add: isReduced_def)
      then show thesis using that(2) 1 le by (simp add: weakly_reduced_def)
    next
      case 2
      then have "g = mk_form (fc f) (- fb f) (fa f)" using False assms(3) by (simp add: isReduced_def)
      then show thesis using that(2) 2 le by (simp add: weakly_reduced_def)
    next
      case 3
      then have "g = f" using False assms(3) by (auto simp: isReduced_def)
      then show thesis using that(1) 3 le by (auto simp: weakly_reduced_def)
    qed
  qed
  then show ?thesis
  proof cases
    case 1
    then show ?thesis using assms(1) by simp
  next
    case 2
    have "same_class D f g" using assms(2) a by (intro lat_swap) (auto simp: 2)
    moreover have "posdef D g" using a c unfolding 2(1) posdef_mk by (simp add: disc_def mult_ac)
    ultimately show ?thesis using 2(2) by simp
  qed
qed

lemma run_correct:
  assumes "run f = Some g" and "D < 0"
  shows "posdef D f \<longrightarrow> posdef D g \<and> same_class D f g \<and> weakly_reduced g"
proof (rule run.raw_induct [where P = "\<lambda>f g. posdef D f \<longrightarrow> posdef D g \<and> same_class D f g \<and> weakly_reduced g",
      OF _ assms(1)])
  fix loop f g
  assume IH: "\<And>f g. loop f = Some g \<Longrightarrow> posdef D f \<longrightarrow> posdef D g \<and> same_class D f g \<and> weakly_reduced g"
    and eq: "(if fst (isReduced f) then Some (snd (isReduced f))
        else Option.bind (run_body (snd (isReduced f))) loop) = Some g"
  show "posdef D f \<longrightarrow> posdef D g \<and> same_class D f g \<and> weakly_reduced g"
  proof
    assume pf: "posdef D f"
    obtain r h where rh: "isReduced f = (r, h)" by fastforce
    have h: "posdef D h" "same_class D f h" "r \<longrightarrow> weakly_reduced h"
      using isReduced_class [OF pf assms(2) rh] by simp_all
    show "posdef D g \<and> same_class D f g \<and> weakly_reduced g"
    proof (cases r)
      case True
      then show ?thesis using eq rh h by simp
    next
      case False
      then obtain k where k: "run_body h = Some k" "loop k = Some g" using eq rh by (auto simp: ret_iff)
      have "posdef D k" "same_class D h k" using run_body_class [OF h(1) assms(2) k(1)] by simp_all
      then show ?thesis using IH [OF k(2)] h(2) same_class_trans by meson
    qed
  qed
qed

lemma pulmark_reduce_correct:
  "pulmark_reduce f = Some g \<Longrightarrow> D < 0 \<Longrightarrow> posdef D f \<Longrightarrow>
    posdef D g \<and> same_class D f g \<and> weakly_reduced g"
  unfolding pulmark_reduce_def using run_correct by blast

lemma is_reduced_weakly: "0 < fa f \<Longrightarrow> is_reduced f \<Longrightarrow> weakly_reduced f"
  by (auto simp: is_reduced_def weakly_reduced_def)

text \<open>\<open>form::reduce\<close> afterwards only repairs the boundary case.\<close>

lemma weakly_reduced_canonical:
  assumes "posdef D f" and "D < 0" and "weakly_reduced f"
  shows "is_reduced f \<or> fb f = - fa f"
  using assms posdefD(1) [OF assms(1)] by (auto simp: is_reduced_def weakly_reduced_def abs_le_iff)

end
