(* ===== verification/Bytes.thy ===== *)
theory Bytes
  imports Prelude
begin

section \<open>Byte strings and the bit-level interface of \<open>mpz_t\<close>\<close>

text \<open>
  \<open>mpz_export\<close> and \<open>mpz_import\<close> with one-byte words in both orders, the
  \<open>integer\<close> constructors and members of \<open>integer_common.h\<close> built on them, and the
  integer square root.  A byte is an \<open>8 word\<close>.
\<close>

type_synonym byte = "8 word"

fun le_bytes :: "nat \<Rightarrow> byte list" where
  "le_bytes n = (if n = 0 then [] else of_nat n # le_bytes (n div 256))"

declare le_bytes.simps [simp del]

fun le_value :: "byte list \<Rightarrow> nat" where
  "le_value [] = 0"
| "le_value (b # bs) = unat b + 256 * le_value bs"

definition be_bytes :: "nat \<Rightarrow> byte list" where
  "be_bytes n = rev (le_bytes n)"

definition be_value :: "byte list \<Rightarrow> nat" where
  "be_value bs = le_value (rev bs)"

lemma unat_byte [simp]: "unat (of_nat n :: byte) = n mod 256"
  by (simp add: unat_of_nat)

lemma unat_byte_less [simp]: "unat (b :: byte) < 256"
  using unsigned_less [of b] by simp

lemma le_bytes_0 [simp]: "le_bytes 0 = []"
  by (simp add: le_bytes.simps)

lemma le_value_bytes [simp]: "le_value (le_bytes n) = n"
proof (induction n rule: le_bytes.induct)
  case (1 n)
  then show ?case by (cases "n = 0") (simp_all add: le_bytes.simps [of n])
qed

lemma be_value_bytes [simp]: "be_value (be_bytes n) = n"
  by (simp add: be_value_def be_bytes_def)

lemma le_value_append: "le_value (xs @ ys) = le_value xs + 256 ^ length xs * le_value ys"
  by (induction xs) (simp_all add: algebra_simps)

lemma le_value_replicate_0 [simp]: "le_value (replicate k 0) = 0"
  by (induction k) simp_all

lemma le_value_bound: "le_value bs < 256 ^ length bs"
proof (induction bs)
  case (Cons b bs)
  have "unat b + 256 * le_value bs < 256 + 256 * le_value bs" by simp
  also have "\<dots> = 256 * Suc (le_value bs)" by simp
  also have "\<dots> \<le> 256 * 256 ^ length bs" using Cons by (intro mult_left_mono) auto
  finally show ?case by simp
qed simp

lemma length_le_bytes: "length (le_bytes n) \<le> k \<longleftrightarrow> n < 256 ^ k"
proof (induction n arbitrary: k rule: le_bytes.induct)
  case (1 n)
  show ?case
  proof (cases "n = 0")
    case False
    then show ?thesis
    proof (cases k)
      case (Suc j)
      have "n < 256 * 256 ^ j \<longleftrightarrow> n div 256 < 256 ^ j"
        by (simp add: div_less_iff_less_mult mult.commute)
      then show ?thesis using False 1 Suc by (simp add: le_bytes.simps [of n])
    qed (simp add: le_bytes.simps [of n])
  qed simp
qed

lemma be_value_bound: "be_value bs < 256 ^ length bs"
  using le_value_bound [of "rev bs"] by (simp add: be_value_def)

subsection \<open>The \<open>integer\<close> class on bytes and limbs\<close>

text \<open>Reading bytes most significant first, and writing them: \<open>to_bytes\<close> sizes its
  buffer from the bit length (1 for zero) and \<open>mpz_export\<close> writes no word for zero.\<close>

definition integer_of_bytes :: "byte list \<Rightarrow> int" where
  "integer_of_bytes v = int (be_value v)"

definition num_bits :: "int \<Rightarrow> nat" where
  "num_bits x = sizeinbase2 x"

definition to_bytes :: "int \<Rightarrow> byte list" where
  "to_bytes x =
     (let n = (sizeinbase2 x + 7) div 8; e = be_bytes (nat \<bar>x\<bar>)
      in e @ replicate (n - length e) 0)"

fun limbs :: "nat \<Rightarrow> 64 word list" where
  "limbs n = (if n = 0 then [] else of_nat n # limbs (n div 2 ^ 64))"

declare limbs.simps [simp del]

definition to_vector :: "int \<Rightarrow> 64 word list" where
  "to_vector x = limbs (nat \<bar>x\<bar>)"

fun limbs_value :: "64 word list \<Rightarrow> nat" where
  "limbs_value [] = 0"
| "limbs_value (w # ws) = unat w + 2 ^ 64 * limbs_value ws"

definition integer_of_limbs :: "64 word list \<Rightarrow> int" where
  "integer_of_limbs ws = int (limbs_value ws)"

definition set_bit_int :: "int \<Rightarrow> nat \<Rightarrow> bool \<Rightarrow> int" where
  "set_bit_int x i v =
     (let on = odd (x div 2 ^ i) in
      if v \<and> \<not> on then x + 2 ^ i else if \<not> v \<and> on then x - 2 ^ i else x)"

definition get_bit :: "int \<Rightarrow> nat \<Rightarrow> bool" where
  "get_bit x i = odd (x div 2 ^ i)"

lemma to_bytes_round_trip: "integer_of_bytes (to_bytes x) = \<bar>x\<bar>"
proof (cases "x = 0")
  case True
  then show ?thesis
    by (simp add: integer_of_bytes_def to_bytes_def be_bytes_def be_value_def sizeinbase2_def)
next
  case False
  let ?n = "nat \<bar>x\<bar>" and ?k = "(sizeinbase2 x + 7) div 8"
  have "?n < 256 ^ length (be_bytes ?n)"
    using length_le_bytes [of ?n "length (be_bytes ?n)"] by (simp add: be_bytes_def)
  then have "int ?n < 256 ^ length (be_bytes ?n)" by (metis of_nat_less_iff of_nat_power of_nat_numeral)
  then have "\<bar>x\<bar> < 2 ^ (8 * length (be_bytes ?n))" by (simp add: power_mult)
  then have "sizeinbase2 x \<le> 8 * length (be_bytes ?n)"
    using False by (simp add: sizeinbase2_def bit_length_le)
  moreover have "?n < 256 ^ ?k"
  proof -
    have "\<bar>x\<bar> < 2 ^ sizeinbase2 x" by (rule sizeinbase2_bound)
    also have "(2 :: int) ^ sizeinbase2 x \<le> 2 ^ (8 * ?k)" by (intro power_increasing) auto
    also have "\<dots> = 256 ^ ?k" by (simp add: power_mult)
    finally show ?thesis using False by (simp add: nat_less_iff)
  qed
  then have "length (be_bytes ?n) \<le> ?k" using length_le_bytes [of ?n ?k] by (simp add: be_bytes_def)
  ultimately have "?k = length (be_bytes ?n)" by linarith
  then show ?thesis by (simp add: to_bytes_def Let_def integer_of_bytes_def)
qed

lemma limbs_value_limbs [simp]: "limbs_value (limbs n) = n"
proof (induction n rule: limbs.induct)
  case (1 n)
  then show ?case
    by (cases "n = 0") (simp_all add: limbs.simps [of 0] limbs.simps [of n] unat_of_nat)
qed

text \<open>The limbs computed over \<open>int\<close>, for evaluation.\<close>

function limbs_int :: "int \<Rightarrow> 64 word list" where
  "limbs_int x = (if x \<le> 0 then [] else of_int x # limbs_int (x div 18446744073709551616))"
  by pat_completeness auto
termination
  by (relation "measure nat") auto

declare limbs_int.simps [simp del, code]

lemma limbs_int_eq: "limbs_int (int n) = limbs n"
proof (induction n rule: limbs.induct)
  case (1 n)
  have "int n div 18446744073709551616 = int (n div 2 ^ 64)" by (simp add: zdiv_int)
  then show ?case using 1 by (cases "n = 0") (simp_all add: limbs_int.simps [of "int n"] limbs.simps [of n] limbs_int.simps [of 0] limbs.simps [of 0])
qed

lemma to_vector_code [code]: "to_vector x = limbs_int \<bar>x\<bar>"
  using limbs_int_eq [of "nat \<bar>x\<bar>"] by (simp add: to_vector_def)
lemma to_vector_round_trip: "integer_of_limbs (to_vector x) = \<bar>x\<bar>"
  by (simp add: integer_of_limbs_def to_vector_def)

subsection \<open>Integer square root\<close>

text \<open>\<open>mpz_sqrt\<close> is the truncated square root, \<open>mpz_perfect_square_p\<close> tests for a
  square.\<close>

function isqrt :: "int \<Rightarrow> int" where
  "isqrt n =
     (if n \<le> 0 then 0
      else let r = 2 * isqrt (n div 4) in if (r + 1) * (r + 1) \<le> n then r + 1 else r)"
  by pat_completeness auto
termination
  by (relation "measure nat") auto

declare isqrt.simps [simp del]

definition perfect_square :: "int \<Rightarrow> bool" where
  "perfect_square n \<longleftrightarrow> 0 \<le> n \<and> isqrt n * isqrt n = n"

lemma isqrt_spec: "0 \<le> n \<Longrightarrow> 0 \<le> isqrt n \<and> isqrt n * isqrt n \<le> n \<and> n < (isqrt n + 1) * (isqrt n + 1)"
proof (induction n rule: isqrt.induct)
  case (1 n)
  show ?case
  proof (cases "n = 0")
    case False
    define q where "q = isqrt (n div 4)"
    have IH: "0 \<le> q" "q * q \<le> n div 4" "n div 4 < (q + 1) * (q + 1)"
      using 1 False by (simp_all add: q_def)
    have "4 * (q * q) \<le> n" "n < 4 * ((q + 1) * (q + 1))" using IH by linarith+
    then have "(2 * q) * (2 * q) \<le> n" "n < (2 * q + 2) * (2 * q + 2)" by (simp_all add: algebra_simps)
    moreover have "isqrt n = (if (2 * q + 1) * (2 * q + 1) \<le> n then 2 * q + 1 else 2 * q)"
      using 1(2) False by (simp add: isqrt.simps [of n] q_def [symmetric] Let_def)
    ultimately show ?thesis using IH(1)
      by (cases "(2 * q + 1) * (2 * q + 1) \<le> n") (simp_all add: add.commute [of 2])
  qed (simp add: isqrt.simps)
qed

lemma isqrt_unique: "0 \<le> r \<Longrightarrow> r * r \<le> n \<Longrightarrow> n < (r + 1) * (r + 1) \<Longrightarrow> isqrt n = r"
proof -
  assume r: "0 \<le> r" "r * r \<le> n" "n < (r + 1) * (r + 1)"
  have "0 \<le> r * r" by simp
  with r(2) have "0 \<le> n" by linarith
  note s = isqrt_spec [OF this]
  have "\<not> r + 1 \<le> isqrt n" "\<not> isqrt n + 1 \<le> r"
    using mult_mono [of "r + 1" "isqrt n" "r + 1" "isqrt n"] mult_mono [of "isqrt n + 1" r "isqrt n + 1" r] r s
    by auto
  then show ?thesis by linarith
qed

lemma isqrt_square: "0 \<le> r \<Longrightarrow> isqrt (r * r) = r"
  by (rule isqrt_unique) (simp_all add: algebra_simps)

lemma perfect_square_square: "0 \<le> r \<Longrightarrow> perfect_square (r * r)"
  by (simp add: perfect_square_def isqrt_square)

end
