(* ===== verification/Bqfc.thy ===== *)
theory Bqfc
  imports FormClass Xgcd Bytes
begin

unbundle bit_operations_syntax

section \<open>Compressed forms: \<open>bqfc.c\<close>\<close>

text \<open>
  A reduced form \<open>(a, b)\<close> is sent as \<open>a / g\<close>, a short multiplier \<open>t / g\<close> with
  \<open>t b\<close> small modulo \<open>a\<close>, their gcd \<open>g\<close> and the quotient \<open>b0\<close>.  The
  theory holds \<open>struct qfb_c\<close>, compression and decompression, the byte layout, and the
  two entry points.  A return code other than 0 is \<open>Inl\<close>; writing or reading outside a
  buffer is \<open>None\<close>.  The theorems are the two round trips and the canonicity check.
\<close>

record qfb_c =
  qa :: int
  qt :: int
  qg :: int
  qb0 :: int
  qb_sign :: bool

definition bqfc_compr :: "int \<Rightarrow> int \<Rightarrow> qfb_c option" where
  "bqfc_compr a b =
     (if a = b then Some \<lparr>qa = a, qt = 0, qg = 0, qb0 = 0, qb_sign = False\<rparr>
      else if a < 0 then None
      else do {
        let sign = b < 0;
        let b_copy = (if sign then - b else b);
        x \<leftarrow> mpz_xgcd_partial a b_copy (isqrt a);
        let t = - co1 x;
        let g = gcd a t;
        if g = 1 then Some \<lparr>qa = a, qt = t, qg = g, qb0 = 0, qb_sign = sign\<rparr>
        else do {
          a' \<leftarrow> divexact a g;
          t' \<leftarrow> divexact t g;
          if a' = 0 then None
          else Some \<lparr>qa = a', qt = t', qg = g,
                     qb0 = (if sign then - tdiv b a' else tdiv b a'), qb_sign = sign\<rparr>
        }
      })"

definition bqfc_decompr :: "gcdext \<Rightarrow> int \<Rightarrow> qfb_c \<Rightarrow> int + (int \<times> int)" where
  "bqfc_decompr G D c =
     (if qt c = 0 then Inr (qa c, qa c)
      else let t = (if qt c < 0 then qt c + qa c else qt c) in
        if qa c = 0 then Inl (- 1)
        else case G t (qa c) of (d, t_inv, _) \<Rightarrow>
          if d \<noteq> 1 then Inl (- 1)
          else let t_inv = (if t_inv < 0 then t_inv + qa c else t_inv);
                   d = D mod qa c;
                   tmp = tmod (((qt c * qt c) mod \<bar>qa c\<bar>) * d) (qa c)
               in if \<not> perfect_square tmp then Inl (- 1)
                  else let out_b = tmod (isqrt tmp * t_inv) (qa c);
                           out_a = (if qg c > 1 then qa c * qg c else qa c);
                           out_b = (if qb0 c > 0 then out_b + qa c * qb0 c else out_b);
                           out_b = (if qb_sign c then - out_b else out_b)
                       in Inr (out_a, out_b))"

subsection \<open>The byte layout\<close>

abbreviation BQFC_FORM_SIZE :: nat where
  "BQFC_FORM_SIZE \<equiv> 100"

definition overwrite :: "'a list \<Rightarrow> nat \<Rightarrow> 'a list \<Rightarrow> 'a list" where
  "overwrite xs k ys = take k xs @ ys @ drop (k + length ys) xs"

definition bqfc_export :: "byte list \<Rightarrow> nat \<Rightarrow> nat \<Rightarrow> int \<Rightarrow> (byte list \<times> nat) option" where
  "bqfc_export out_str offset sz n =
     (let e = le_bytes (nat \<bar>n\<bar>); w = e @ replicate (sz - length e) 0
      in if offset + length w \<le> length out_str
         then Some (overwrite out_str offset w, offset + sz) else None)"

definition round32 :: "nat \<Rightarrow> nat" where
  "round32 d_bits = (d_bits + 31) div 32 * 32"

definition flag_byte :: "bool \<Rightarrow> bool \<Rightarrow> byte" where
  "flag_byte b_neg t_neg = (if b_neg then 1 else 0) OR (if t_neg then 2 else 0)"

definition bqfc_serialize_only :: "byte list \<Rightarrow> qfb_c \<Rightarrow> nat \<Rightarrow> byte list option" where
  "bqfc_serialize_only out_str c d_bits =
     (let d = round32 d_bits; g_size = (sizeinbase2 (qg c) + 7) div 8 - 1 in
      if length out_str < 2 \<or> d div 32 < g_size then None
      else do {
        let out0 = out_str[0 := flag_byte (qb_sign c) (qt c < 0), 1 := of_nat g_size];
        (out1, off1) \<leftarrow> bqfc_export out0 2 (d div 16 - g_size) (qa c);
        (out2, off2) \<leftarrow> bqfc_export out1 off1 (d div 32 - g_size) (qt c);
        (out3, off3) \<leftarrow> bqfc_export out2 off2 (g_size + 1) (qg c);
        (out4, off4) \<leftarrow> bqfc_export out3 off3 (g_size + 1) (qb0 c);
        Some out4
      })"

definition import_at :: "byte list \<Rightarrow> nat \<Rightarrow> nat \<Rightarrow> int option" where
  "import_at str offset bytes =
     (if offset + bytes \<le> length str then Some (int (le_value (take bytes (drop offset str)))) else None)"

definition bqfc_deserialize_only :: "byte list \<Rightarrow> nat \<Rightarrow> (int + qfb_c) option" where
  "bqfc_deserialize_only str d_bits =
     (if length str < 2 then None
      else let d = round32 d_bits; g_size = unat (str ! 1) in
        if g_size \<ge> d div 32 then Some (Inl (- 1))
        else do {
          let n1 = d div 16 - g_size;
          let n2 = d div 32 - g_size;
          let n3 = g_size + 1;
          a \<leftarrow> import_at str 2 n1;
          t \<leftarrow> import_at str (2 + n1) n2;
          g \<leftarrow> import_at str (2 + n1 + n2) n3;
          b0 \<leftarrow> import_at str (2 + n1 + n2 + n3) n3;
          Some (Inr \<lparr>qa = a, qt = (if str ! 0 AND 2 \<noteq> 0 then - t else t), qg = g, qb0 = b0,
                     qb_sign = (str ! 0 AND 1 \<noteq> 0)\<rparr>)
        })"

definition bqfc_get_compr_size :: "nat \<Rightarrow> nat" where
  "bqfc_get_compr_size d_bits = (d_bits + 31) div 32 * 3 + 4"

definition bqfc_serialize :: "byte list \<Rightarrow> int \<Rightarrow> int \<Rightarrow> nat \<Rightarrow> byte list option" where
  "bqfc_serialize out_str a b d_bits =
     (let valid_size = bqfc_get_compr_size d_bits in
      if length out_str < BQFC_FORM_SIZE then None
      else if b = 1 \<and> a \<le> 2
      then Some (overwrite out_str 0 ((if a = 2 then 8 else 4) # replicate (BQFC_FORM_SIZE - 1) 0))
      else do {
        c \<leftarrow> bqfc_compr a b;
        out1 \<leftarrow> bqfc_serialize_only out_str c d_bits;
        if valid_size = BQFC_FORM_SIZE then Some out1
        else if valid_size > BQFC_FORM_SIZE then None
        else Some (overwrite out1 valid_size (replicate (BQFC_FORM_SIZE - valid_size) 0))
      })"

definition bqfc_verify_canon :: "int \<Rightarrow> int \<Rightarrow> byte list \<Rightarrow> nat \<Rightarrow> int option" where
  "bqfc_verify_canon a b str d_bits =
     do {
       canon \<leftarrow> bqfc_serialize (replicate BQFC_FORM_SIZE 0) a b d_bits;
       Some (if canon = take BQFC_FORM_SIZE str then 0 else 1)
     }"

definition bqfc_deserialize ::
  "gcdext \<Rightarrow> int \<Rightarrow> byte list \<Rightarrow> nat \<Rightarrow> nat \<Rightarrow> (int + (int \<times> int)) option" where
  "bqfc_deserialize G D str sz d_bits =
     (if sz \<noteq> BQFC_FORM_SIZE then Some (Inl (- 1))
      else if length str < sz then None
      else if str ! 0 AND 12 \<noteq> 0 then Some (Inr (if str ! 0 AND 8 \<noteq> 0 then 2 else 1, 1))
      else do {
        r \<leftarrow> bqfc_deserialize_only str d_bits;
        case r of
          Inl e \<Rightarrow> Some (Inl e)
        | Inr c \<Rightarrow>
            (case bqfc_decompr G D c of
               Inl e \<Rightarrow> Some (Inl e)
             | Inr (a, b) \<Rightarrow> do {
                 ret \<leftarrow> bqfc_verify_canon a b str d_bits;
                 Some (if ret \<noteq> 0 then Inl ret else Inr (a, b))
               })
      })"

subsection \<open>Compression round trip\<close>

text \<open>GMP documents that the first cofactor is smaller than the second operand.\<close>

definition gcdext_small :: "gcdext \<Rightarrow> bool" where
  "gcdext_small G \<longleftrightarrow> (\<forall>a b. b \<noteq> 0 \<longrightarrow> \<bar>fst (snd (G a b))\<bar> < \<bar>b\<bar>)"

definition gcdext_min :: gcdext where
  "gcdext_min a b =
     (case gcdext_ref a b of (g, s, t) \<Rightarrow>
        if b = 0 then (g, s, t) else (g, s mod \<bar>b\<bar>, (g - a * (s mod \<bar>b\<bar>)) div b))"

text \<open>What compression leaves: \<open>r\<close> is the short remainder \<open>t b mod a'\<close>.\<close>

definition compr_ok :: "int \<Rightarrow> int \<Rightarrow> qfb_c \<Rightarrow> bool" where
  "compr_ok a b c \<longleftrightarrow>
     (\<exists>r. a = qa c * qg c \<and> 0 < qa c \<and> 0 < qg c \<and> qt c \<noteq> 0 \<and> gcd (qt c) (qa c) = 1 \<and>
        0 \<le> r \<and> r * r < qa c \<and> qa c dvd r - qt c * \<bar>b\<bar> \<and>
        qb0 c = (if qg c = 1 then 0 else \<bar>b\<bar> div qa c) \<and> qb_sign c = (b < 0))"

lemma square_remainder:
  assumes D: "good_disc D" and disc: "D = b * b - 4 * (a' * g) * c" and b: "\<bar>b\<bar> < a' * g"
    and pos: "0 < a'" "0 < g" and r: "0 \<le> r" "(g * r) * (g * r) \<le> a' * g"
    and dv: "a' dvd r - t * \<bar>b\<bar>" and cop: "gcd t a' = 1"
  shows "r * r < a'"
proof -
  have "g * (r * r) * g \<le> a' * g" using r(2) by (simp add: mult_ac)
  then have le: "g * (r * r) \<le> a'" using pos(2) by (simp only: mult_le_cancel_right)
  have rr: "0 \<le> r * r" using r(1) by simp
  then have "r * r \<le> g * (r * r)" using pos(2) mult_right_mono [of 1 g "r * r"] by simp
  with le have le': "r * r \<le> a'" by simp
  moreover have "r * r \<noteq> a'"
  proof
    assume eq: "r * r = a'"
    have "g * a' \<le> 1 * a'" using le eq by simp
    then have g: "g = 1" using pos by (simp only: mult_le_cancel_right) auto
    have "r dvd a'" by (simp add: eq [symmetric])
    then have "r dvd r - t * \<bar>b\<bar>" using dv by (rule dvd_trans)
    then have "r dvd t * \<bar>b\<bar>" by (metis dvd_diff_right_iff dvd_refl)
    moreover have "coprime r t"
      using cop \<open>r dvd a'\<close> by (metis coprime_divisors coprime_iff_gcd_eq_1 dvd_refl gcd.commute)
    ultimately have "r dvd \<bar>b\<bar>" by (simp add: coprime_dvd_mult_right_iff)
    then have "r dvd b" by simp
    then have "r * r dvd b * b" by (intro mult_dvd_mono)
    moreover have "r * r dvd 4 * (a' * g) * c" by (simp add: eq)
    ultimately have "r * r dvd D" unfolding disc by (rule dvd_diff)
    then have "\<bar>r\<bar> = 1" using D by (simp add: good_disc_def)
    then have a: "a' = 1" using eq r(1) by auto
    then have "b = 0" using b g by simp
    then have "2 * 2 dvd D" unfolding disc by simp
    then show False using D unfolding good_disc_def by fastforce
  qed
  ultimately show ?thesis by simp
qed

lemma tdiv_sign: "0 < a \<Longrightarrow> (if b < 0 then - tdiv b a else tdiv b a) = \<bar>b\<bar> div a"
  by (cases "b = 0") (auto simp: tdiv_def sgn_if)

lemma bqfc_compr_ok:
  assumes D: "good_disc D" and disc: "D = b * b - 4 * a * c" and a: "0 < a" and b: "\<bar>b\<bar> < a"
  obtains q where "bqfc_compr a b = Some q" and "compr_ok a b q"
proof -
  obtain x where x: "mpz_xgcd_partial a \<bar>b\<bar> (isqrt a) = Some x" and inv: "xgcd_inv a \<bar>b\<bar> x"
    and small: "xr1 x = 0 \<or> xr1 x \<le> isqrt a"
    using xgcd_partial_returns [OF abs_ge_zero b] by blast
  define t where "t = - co1 x"
  define g where "g = gcd a t"
  have t0: "t \<noteq> 0" and r0: "0 \<le> xr1 x" and dv: "a dvd xr1 x - t * \<bar>b\<bar>"
    using inv by (simp_all add: xgcd_inv_def t_def)
  have g0: "0 < g" unfolding g_def using a by (auto intro: gcd_pos_int [THEN iffD2])
  obtain a' where a': "a = g * a'" unfolding g_def by (metis dvd_def gcd_dvd1)
  obtain t' where t': "t = g * t'" unfolding g_def by (metis dvd_def gcd_dvd2)
  have pa: "0 < a'" using a g0 a' by (simp add: zero_less_mult_iff)
  have "g * gcd a' t' = g * 1" using g_def g0 a' t' by (metis abs_of_pos gcd_mult_distrib_int mult.right_neutral)
  then have cop: "gcd t' a' = 1" using g0 by (simp add: gcd.commute)
  have "g dvd xr1 x - t * \<bar>b\<bar>" using dv a' by (metis dvd_mult_left)
  then have "g dvd xr1 x" using t' by (metis dvd_diff_left_iff dvd_triv_left mult.assoc)
  then obtain r where r: "xr1 x = g * r" by (rule dvdE)
  have rp: "0 \<le> r" using r0 g0 r by (simp add: zero_le_mult_iff)
  have "g * a' dvd g * (r - t' * \<bar>b\<bar>)" using dv r t' a' by (simp add: algebra_simps)
  then have dv': "a' dvd r - t' * \<bar>b\<bar>" using g0 by simp
  have "xr1 x * xr1 x \<le> isqrt a * isqrt a \<or> xr1 x = 0"
    using small r0 by (auto intro: mult_mono)
  then have "xr1 x * xr1 x \<le> a" using isqrt_spec [of a] a by auto
  then have sq: "(g * r) * (g * r) \<le> a' * g" unfolding r using a' by (simp add: mult.commute)
  have lt: "r * r < a'"
    by (rule square_remainder [OF D _ _ pa g0 rp sq dv' cop, where c = c])
      (use disc b a' in \<open>simp_all add: mult_ac\<close>)
  let ?q = "\<lparr>qa = a', qt = t', qg = g, qb0 = (if g = 1 then 0 else \<bar>b\<bar> div a'), qb_sign = b < 0\<rparr>"
  have dx: "divexact a g = Some a'" "divexact t g = Some t'"
    using a' t' g0 by (auto intro: divexact_mult)
  have bc: "(if b < 0 then - b else b) = \<bar>b\<bar>" by simp
  have "bqfc_compr a b = Some ?q"
    unfolding bqfc_compr_def Let_def bc x bind.simps t_def [symmetric] g_def [symmetric] dx tdiv_sign [OF pa]
    using a b pa a' t' by auto
  moreover have "compr_ok a b ?q"
    unfolding compr_ok_def using a' pa g0 t0 t' cop rp lt dv' by (intro exI [of _ r]) (simp add: mult.commute)
  ultimately show thesis by (rule that)
qed


lemma mod_by_congruence: "0 \<le> r \<Longrightarrow> r < a \<Longrightarrow> a dvd r - x \<Longrightarrow> x mod a = (r :: int)"
  by (metis mod_eq_dvd_iff mod_pos_pos_trivial)

lemma decompr_radicand:
  assumes a: "0 < a" and dv: "a dvd r - t * b" and D: "a dvd b * b - D" and r: "0 \<le> r * r" "r * r < a"
  shows "tmod (((t * t) mod \<bar>a\<bar>) * (D mod a)) a = r * r"
proof -
  have "a dvd (r - t * b) * (r + t * b) + t * t * (b * b - D)"
    using dv D by (intro dvd_add dvd_mult dvd_mult2)
  then have "a dvd r * r - t * t * D" by (simp add: algebra_simps)
  with r have "(t * t * D) mod a = r * r" by (intro mod_by_congruence)
  moreover have "0 \<le> (t * t) mod a * (D mod a)" using a by simp
  ultimately show ?thesis using a by (simp add: tmod_nonneg mod_mult_eq)
qed

lemma bqfc_decompr_ok:
  assumes G: "gcdext_ok G" "gcdext_small G" and disc: "D = b * b - 4 * a * c"
    and ok: "compr_ok a b q" and b: "\<bar>b\<bar> < a"
  shows "bqfc_decompr G D q = Inr (a, b)"
proof -
  obtain r where a: "a = qa q * qg q" and pos: "0 < qa q" "0 < qg q" and t: "qt q \<noteq> 0" "gcd (qt q) (qa q) = 1"
    and r: "0 \<le> r" "r * r < qa q" and dv: "qa q dvd r - qt q * \<bar>b\<bar>"
    and b0: "qb0 q = (if qg q = 1 then 0 else \<bar>b\<bar> div qa q)" and sg: "qb_sign q = (b < 0)"
    using ok unfolding compr_ok_def by (elim exE conjE) (rule that; assumption)
  define t where "t = (if qt q < 0 then qt q + qa q else qt q)"
  have tg: "gcd t (qa q) = 1" using t(2) by (simp add: t_def)
  have tc: "qa q dvd t - qt q" by (simp add: t_def)
  obtain d s w where st: "G t (qa q) = (d, s, w)" by (cases "G t (qa q)") auto
  have d: "d = 1" "t * s + qa q * w = 1" using gcdext_okD [OF G(1) st] tg by simp_all
  define ti where "ti = (if s < 0 then s + qa q else s)"
  have "\<bar>s\<bar> < qa q" using G(2) pos(1) st unfolding gcdext_small_def by (metis abs_of_pos fst_conv less_irrefl snd_conv)
  then have ti0: "0 \<le> ti" by (simp add: ti_def abs_less_iff)
  have "qa q dvd t * (ti - s) + (1 - qa q * w) - t * s - 1 + t * s"
    by (simp add: ti_def)
  then have "qa q dvd t * (ti - s) + (t * s - 1)" using d(2) by (simp add: algebra_simps)
  then have inv: "qa q dvd t * ti - 1" by (simp add: algebra_simps)
  have "qa q dvd \<bar>b\<bar> * \<bar>b\<bar> - D" unfolding disc a by simp
  from decompr_radicand [OF pos(1) dv this]
  have rad: "tmod (((qt q * qt q) mod \<bar>qa q\<bar>) * (D mod qa q)) (qa q) = r * r" using r by simp
  have ob: "tmod (r * ti) (qa q) = \<bar>b\<bar> mod qa q"
  proof -
    have "qa q dvd (r - qt q * \<bar>b\<bar>) * ti - (t - qt q) * (\<bar>b\<bar> * ti) + \<bar>b\<bar> * (t * ti - 1)"
      by (rule dvd_add [OF dvd_diff [OF dvd_mult2 [OF dv] dvd_mult2 [OF tc]] dvd_mult [OF inv]])
    then have "qa q dvd r * ti - \<bar>b\<bar>" by (simp add: algebra_simps)
    then show ?thesis using r(1) ti0 pos(1) by (simp add: tmod_nonneg mod_eq_dvd_iff)
  qed
  have full: "(if qb0 q > 0 then \<bar>b\<bar> mod qa q + qa q * qb0 q else \<bar>b\<bar> mod qa q) = \<bar>b\<bar>"
  proof (cases "qg q = 1")
    case True
    then show ?thesis using b0 b a by simp
  next
    case False
    have "0 \<le> \<bar>b\<bar> div qa q" using pos(1) by (simp add: pos_imp_zdiv_nonneg_iff)
    then show ?thesis using False b0 mult_div_mod_eq [of "qa q" "\<bar>b\<bar>"] by (cases "\<bar>b\<bar> div qa q = 0") auto
  qed
  have oa: "(if qg q > 1 then qa q * qg q else qa q) = a" using a pos(2) by (cases "qg q = 1") auto
  have sb: "(if qb_sign q then - \<bar>b\<bar> else \<bar>b\<bar>) = b" using sg by simp
  have ps: "perfect_square (r * r)" "isqrt (r * r) = r"
    using r(1) by (simp_all add: perfect_square_square isqrt_square)
  have nz: "qt q \<noteq> 0" "qa q \<noteq> 0" using t(1) pos(1) by simp_all
  show ?thesis
    unfolding bqfc_decompr_def Let_def t_def [symmetric] st prod.case ti_def [symmetric] rad d(1)
    by (simp only: nz ps ob full oa sb simp_thms if_False if_True)
qed

lemma compr_round_trip:
  assumes "good_disc D" and "gcdext_ok G" "gcdext_small G" and "posdef D f" and "is_reduced f"
  shows "\<exists>q. bqfc_compr (fa f) (fb f) = Some q \<and> bqfc_decompr G D q = Inr (fa f, fb f)"
proof (cases "fa f = fb f")
  case True
  then show ?thesis by (simp add: bqfc_compr_def bqfc_decompr_def)
next
  case False
  have a: "0 < fa f" and disc: "D = fb f * fb f - 4 * fa f * fc f"
    using assms(4) by (auto simp: posdef_def disc_def)
  have b: "\<bar>fb f\<bar> < fa f" using False assms(5) a by (auto simp: is_reduced_def)
  obtain q where "bqfc_compr (fa f) (fb f) = Some q" "compr_ok (fa f) (fb f) q"
    using assms(1) disc a b by (rule bqfc_compr_ok)
  then show ?thesis using bqfc_decompr_ok [OF assms(2,3) disc _ b] by blast
qed

lemma gcdext_min_ok: "gcdext_ok gcdext_min" "gcdext_small gcdext_min"
proof -
  have "a * s + b * t = gcd a b \<Longrightarrow> b \<noteq> 0 \<Longrightarrow>
      a * (s mod \<bar>b\<bar>) + b * ((gcd a b - a * (s mod \<bar>b\<bar>)) div b) = gcd a b" for a b s t :: int
  proof -
    assume e: "a * s + b * t = gcd a b" and b: "b \<noteq> 0"
    have "b dvd s - s mod \<bar>b\<bar>" by (metis abs_dvd_iff dvd_minus_mod)
    then have "b dvd a * (s - s mod \<bar>b\<bar>) + b * t" by simp
    then have "b dvd gcd a b - a * (s mod \<bar>b\<bar>)" using e by (simp add: algebra_simps)
    then show ?thesis by simp
  qed
  note bez = this
  show "gcdext_ok gcdext_min"
    unfolding gcdext_ok_def
  proof (intro allI)
    fix a b
    obtain g s t where st: "gcdext_ref a b = (g, s, t)" by (cases "gcdext_ref a b") auto
    note g = gcdext_okD [OF gcdext_ref_ok st]
    show "case gcdext_min a b of (g, s, t) \<Rightarrow> g = gcd a b \<and> a * s + b * t = g"
    proof (cases "b = 0")
      case True
      then have "gcdext_ref a 0 = (g, s, t)" using st by simp
      with True g show ?thesis by (simp add: gcdext_min_def)
    next
      case False
      with bez [OF g(2) False] g(1) show ?thesis by (simp add: gcdext_min_def st)
    qed
  qed
  show "gcdext_small gcdext_min"
    unfolding gcdext_small_def gcdext_min_def by (auto split: prod.splits)
qed

subsection \<open>The byte layout round trip\<close>

definition padded :: "nat \<Rightarrow> int \<Rightarrow> byte list" where
  "padded n x = le_bytes (nat \<bar>x\<bar>) @ replicate (n - length (le_bytes (nat \<bar>x\<bar>))) 0"

lemma padded_length: "\<bar>x\<bar> < 256 ^ n \<Longrightarrow> length (padded n x) = n"
proof -
  assume "\<bar>x\<bar> < 256 ^ n"
  then have "nat \<bar>x\<bar> < 256 ^ n" by (simp add: nat_less_iff)
  then have "length (le_bytes (nat \<bar>x\<bar>)) \<le> n" by (simp add: length_le_bytes)
  then show ?thesis by (simp add: padded_def)
qed

lemma padded_value: "int (le_value (padded n x)) = \<bar>x\<bar>"
  by (simp add: padded_def le_value_append)

lemma bqfc_export_append:
  assumes "\<bar>x\<bar> < 256 ^ n" and "length pre = k" and "n \<le> length rest"
  shows "bqfc_export (pre @ rest) k n x = Some ((pre @ padded n x) @ drop n rest, k + n)"
  unfolding bqfc_export_def Let_def padded_def [symmetric]
  using assms padded_length [OF assms(1)] by (simp add: overwrite_def)

lemma import_at_append:
  "length pre = k \<Longrightarrow> length w = n \<Longrightarrow> import_at (pre @ w @ rest) k n = Some (int (le_value w))"
  by (simp add: import_at_def)

text \<open>The fields fit their slots.\<close>

definition fits :: "qfb_c \<Rightarrow> nat \<Rightarrow> bool" where
  "fits q d_bits \<longleftrightarrow>
     (let d = round32 d_bits; g = (sizeinbase2 (qg q) + 7) div 8 - 1 in
      g < d div 32 \<and> g < 256 \<and> \<bar>qa q\<bar> < 256 ^ (d div 16 - g) \<and> \<bar>qt q\<bar> < 256 ^ (d div 32 - g) \<and>
      \<bar>qg q\<bar> < 256 ^ (g + 1) \<and> \<bar>qb0 q\<bar> < 256 ^ (g + 1))"

lemma round32_div: "round32 d div 16 = 2 * (round32 d div 32)"
  by (simp add: round32_def)

lemma compr_size_eq: "bqfc_get_compr_size d = 2 + (2 * (round32 d div 32) + (round32 d div 32) + 2)"
  by (simp add: bqfc_get_compr_size_def round32_def)

lemma serialize_only_shape:
  assumes "fits q d_bits" and "bqfc_get_compr_size d_bits \<le> length buf"
  defines "m \<equiv> round32 d_bits div 32" and "g \<equiv> (sizeinbase2 (qg q) + 7) div 8 - 1"
  shows "bqfc_serialize_only buf q d_bits =
    Some ([flag_byte (qb_sign q) (qt q < 0), of_nat g] @ padded (2 * m - g) (qa q) @ padded (m - g) (qt q)
      @ padded (g + 1) (qg q) @ padded (g + 1) (qb0 q) @ drop (bqfc_get_compr_size d_bits) buf)"
proof -
  have f: "g < m" "\<bar>qa q\<bar> < 256 ^ (2 * m - g)" "\<bar>qt q\<bar> < 256 ^ (m - g)"
    "\<bar>qg q\<bar> < 256 ^ (g + 1)" "\<bar>qb0 q\<bar> < 256 ^ (g + 1)"
    using assms(1) by (simp_all add: fits_def Let_def m_def g_def round32_div)
  have len: "2 + (2 * m + m + 2) \<le> length buf" using assms(2) by (simp add: compr_size_eq m_def)
  let ?h = "[flag_byte (qb_sign q) (qt q < 0), of_nat g]"
  obtain x y rest where buf: "buf = x # y # rest"
    using len by (cases buf; cases "tl buf") auto
  have b0: "buf[0 := flag_byte (qb_sign q) (qt q < 0), 1 := of_nat g] = ?h @ rest"
    by (simp add: buf)
  have lr: "2 * m + m + 2 \<le> length rest" using len by (simp add: buf)
  have e1: "bqfc_export (?h @ rest) 2 (2 * m - g) (qa q)
      = Some ((?h @ padded (2 * m - g) (qa q)) @ drop (2 * m - g) rest, 2 + (2 * m - g))"
    by (rule bqfc_export_append) (use f lr in auto)
  have e2: "bqfc_export ((?h @ padded (2 * m - g) (qa q)) @ drop (2 * m - g) rest) (2 + (2 * m - g)) (m - g) (qt q)
      = Some (((?h @ padded (2 * m - g) (qa q)) @ padded (m - g) (qt q)) @ drop (m - g) (drop (2 * m - g) rest),
          2 + (2 * m - g) + (m - g))"
    by (rule bqfc_export_append) (use f lr in \<open>auto simp: padded_length\<close>)
  let ?p2 = "(?h @ padded (2 * m - g) (qa q)) @ padded (m - g) (qt q)"
  let ?r2 = "drop (m - g) (drop (2 * m - g) rest)" and ?o2 = "2 + (2 * m - g) + (m - g)"
  have e3: "bqfc_export (?p2 @ ?r2) ?o2 (g + 1) (qg q)
      = Some ((?p2 @ padded (g + 1) (qg q)) @ drop (g + 1) ?r2, ?o2 + (g + 1))"
    by (rule bqfc_export_append) (use f lr in \<open>auto simp: padded_length\<close>)
  have e4: "bqfc_export ((?p2 @ padded (g + 1) (qg q)) @ drop (g + 1) ?r2) (?o2 + (g + 1)) (g + 1) (qb0 q)
      = Some (((?p2 @ padded (g + 1) (qg q)) @ padded (g + 1) (qb0 q)) @ drop (g + 1) (drop (g + 1) ?r2),
          ?o2 + (g + 1) + (g + 1))"
    by (rule bqfc_export_append) (use f lr in \<open>auto simp: padded_length\<close>)
  have "drop (g + 1) (drop (g + 1) ?r2) = drop (bqfc_get_compr_size d_bits) buf"
    using f(1) by (simp add: buf compr_size_eq m_def [symmetric] add.commute)
  moreover have "\<not> (length buf < 2 \<or> m < g)" using f(1) len by auto
  ultimately show ?thesis
    unfolding bqfc_serialize_only_def Let_def round32_div m_def [symmetric] g_def [symmetric] b0 e1
    by (simp only: bind.simps prod.case e2 e3 e4 if_False) (simp only: append_assoc)
qed

lemma flag_bits [simp]:
  "flag_byte x y AND 1 \<noteq> 0 \<longleftrightarrow> x" "flag_byte x y AND 2 \<noteq> 0 \<longleftrightarrow> y" "flag_byte x y AND 12 = 0"
  by (cases x; cases y; simp add: flag_byte_def)+

lemma deserialize_serialize_only:
  assumes "fits q d_bits" and "bqfc_get_compr_size d_bits \<le> length buf" and "qt q < 0 \<or> 0 \<le> qt q"
    and "0 \<le> qa q" "0 \<le> qg q" "0 \<le> qb0 q" and "bqfc_serialize_only buf q d_bits = Some str"
  shows "bqfc_deserialize_only (str @ extra) d_bits = Some (Inr q)"
proof -
  define m where "m = round32 d_bits div 32"
  define g where "g = (sizeinbase2 (qg q) + 7) div 8 - 1"
  have f: "g < m" "g < 256" "\<bar>qa q\<bar> < 256 ^ (2 * m - g)" "\<bar>qt q\<bar> < 256 ^ (m - g)"
    "\<bar>qg q\<bar> < 256 ^ (g + 1)" "\<bar>qb0 q\<bar> < 256 ^ (g + 1)"
    using assms(1) by (simp_all add: fits_def Let_def m_def g_def round32_div)
  let ?h = "[flag_byte (qb_sign q) (qt q < 0), of_nat g]"
  let ?A = "padded (2 * m - g) (qa q)" and ?T = "padded (m - g) (qt q)"
    and ?G = "padded (g + 1) (qg q)" and ?B = "padded (g + 1) (qb0 q)"
  let ?R = "drop (bqfc_get_compr_size d_bits) buf @ extra"
  have str: "str @ extra = ?h @ ?A @ ?T @ ?G @ ?B @ ?R"
    using assms(7) serialize_only_shape [OF assms(1,2)] by (simp add: m_def g_def)
  have L: "length ?A = 2 * m - g" "length ?T = m - g" "length ?G = g + 1" "length ?B = g + 1"
    using f by (simp_all add: padded_length)
  have i1: "import_at (str @ extra) 2 (2 * m - g) = Some (qa q)"
    unfolding str using import_at_append [of ?h 2 ?A "2 * m - g"] L assms(4) by (simp add: padded_value)
  have i2: "import_at (str @ extra) (2 + (2 * m - g)) (m - g) = Some \<bar>qt q\<bar>"
    unfolding str using import_at_append [of "?h @ ?A" "2 + (2 * m - g)" ?T "m - g"] L by (simp add: padded_value)
  have i3: "import_at (str @ extra) (2 + (2 * m - g) + (m - g)) (g + 1) = Some (qg q)"
    unfolding str using import_at_append [of "?h @ ?A @ ?T" "2 + (2 * m - g) + (m - g)" ?G "g + 1"] L assms(5)
    by (simp add: padded_value)
  have i4: "import_at (str @ extra) (2 + (2 * m - g) + (m - g) + (g + 1)) (g + 1) = Some (qb0 q)"
    unfolding str
    using import_at_append [of "?h @ ?A @ ?T @ ?G" "2 + (2 * m - g) + (m - g) + (g + 1)" ?B "g + 1"] L assms(6)
    by (simp add: padded_value)
  have s: "(str @ extra) ! 0 = flag_byte (qb_sign q) (qt q < 0)" "unat ((str @ extra) ! 1) = g"
    "\<not> length (str @ extra) < 2" "\<not> m \<le> g"
    using f by (simp_all add: str)
  show ?thesis
    unfolding bqfc_deserialize_only_def Let_def round32_div m_def [symmetric] s
    by (simp only: s i1 i2 i3 i4 bind.simps if_False flag_bits) auto
qed


definition layout :: "qfb_c \<Rightarrow> nat \<Rightarrow> byte list" where
  "layout q d_bits =
     (let m = round32 d_bits div 32; g = (sizeinbase2 (qg q) + 7) div 8 - 1 in
      [flag_byte (qb_sign q) (qt q < 0), of_nat g] @ padded (2 * m - g) (qa q) @ padded (m - g) (qt q)
      @ padded (g + 1) (qg q) @ padded (g + 1) (qb0 q))"

lemma serialize_only_layout:
  assumes "fits q d_bits" and "bqfc_get_compr_size d_bits \<le> length buf"
  shows "bqfc_serialize_only buf q d_bits = Some (layout q d_bits @ drop (bqfc_get_compr_size d_bits) buf)"
  using serialize_only_shape [OF assms] by (simp add: layout_def Let_def)

lemma length_layout: "fits q d_bits \<Longrightarrow> length (layout q d_bits) = bqfc_get_compr_size d_bits"
proof -
  assume fits: "fits q d_bits"
  define m where "m = round32 d_bits div 32"
  define g where "g = (sizeinbase2 (qg q) + 7) div 8 - 1"
  have f: "g < m" "\<bar>qa q\<bar> < 256 ^ (2 * m - g)" "\<bar>qt q\<bar> < 256 ^ (m - g)"
    "\<bar>qg q\<bar> < 256 ^ (g + 1)" "\<bar>qb0 q\<bar> < 256 ^ (g + 1)"
    using fits by (simp_all add: fits_def Let_def m_def g_def round32_div)
  show ?thesis
    unfolding layout_def Let_def m_def [symmetric] g_def [symmetric] compr_size_eq
    using f by (simp add: padded_length del: add_Suc_right One_nat_def)
qed

definition special :: "int \<Rightarrow> int \<Rightarrow> bool" where
  "special a b \<longleftrightarrow> b = 1 \<and> a \<le> 2"

lemma serialize_normal:
  assumes "\<not> special a b" and "bqfc_compr a b = Some q" and "fits q d_bits"
    and "bqfc_get_compr_size d_bits \<le> 100" and "100 \<le> length buf"
  shows "bqfc_serialize buf a b d_bits =
    Some (layout q d_bits @ replicate (100 - bqfc_get_compr_size d_bits) 0 @ drop 100 buf)"
proof -
  have s: "bqfc_serialize_only buf q d_bits = Some (layout q d_bits @ drop (bqfc_get_compr_size d_bits) buf)"
    using assms by (intro serialize_only_layout) auto
  show ?thesis
    using assms(1,2,4,5) s length_layout [OF assms(3)]
    unfolding bqfc_serialize_def special_def Let_def
    by (auto simp: overwrite_def)
qed

text \<open>The sizes of a compressed reduced form.\<close>

lemma reduced_a_bound:
  assumes "posdef D f" and "is_reduced f"
  shows "3 * (fa f * fa f) \<le> - D"
proof -
  have a: "0 < fa f" and D: "D = fb f * fb f - 4 * fa f * fc f" using assms(1) by (auto simp: posdef_def disc_def)
  have b: "\<bar>fb f\<bar> \<le> fa f" "fa f \<le> fc f" using reduced_bounds [OF a assms(2)] by auto
  have "fb f * fb f \<le> fa f * fa f" using b(1) by (metis abs_le_square_iff abs_of_pos a power2_eq_square)
  moreover have "fa f * fa f \<le> fa f * fc f" using a b(2) by simp
  ultimately show ?thesis unfolding D by (simp add: mult.assoc)
qed

lemma pow256: "(256 :: int) ^ n = 2 ^ (8 * n)"
  by (simp add: power_mult)

lemma size_of_g:
  assumes "0 < g" and "n = (sizeinbase2 g + 7) div 8 - 1"
  shows "256 ^ n \<le> g" and "g < 256 ^ (n + 1)"
proof -
  have s: "sizeinbase2 g = bit_length g" "0 < bit_length g"
    using assms(1) by (simp_all add: sizeinbase2_def bit_length.simps [of g])
  have "8 * n \<le> bit_length g - 1" using assms(2) s by linarith
  then have "(2 :: int) ^ (8 * n) \<le> 2 ^ (bit_length g - 1)" by (intro power_increasing) auto
  also have "\<dots> \<le> g" using assms(1) by (rule bit_length_lower)
  finally show "256 ^ n \<le> g" by (simp add: pow256)
  have "1 \<le> (bit_length g + 7) div 8" using s(2) by simp
  then have "n + 1 = (bit_length g + 7) div 8" using assms(2) s(1) by simp
  moreover have "x \<le> 8 * ((x + 7) div 8)" for x :: nat by presburger
  ultimately have "bit_length g \<le> 8 * (n + 1)" by simp
  then show "g < 256 ^ (n + 1)" using bit_length_le [of g "8 * (n + 1)"] assms(1) by (simp add: pow256 del: power_Suc)
qed

lemma quotient_fits:
  assumes "x * g < 256 ^ k" and "256 ^ n \<le> g" and "0 \<le> x" and "n \<le> k"
  shows "x < (256 :: int) ^ (k - n)"
proof -
  have "x * 256 ^ n \<le> x * g" using assms(2,3) by (rule mult_left_mono)
  also have "\<dots> < 256 ^ (k - n) * 256 ^ n" using assms(1,4) by (simp flip: power_add)
  finally show ?thesis by simp
qed

text \<open>\<open>t_bound\<close> is the one size the code relies on without checking it: that the
  multiplier the partial gcd returns fits its slot.\<close>

definition t_bound :: "int \<Rightarrow> int \<Rightarrow> nat \<Rightarrow> bool" where
  "t_bound a b d_bits \<longleftrightarrow>
     (case bqfc_compr a b of None \<Rightarrow> False
      | Some q \<Rightarrow> \<bar>qt q\<bar> * max 1 (qg q) < 256 ^ (round32 d_bits div 32))"

lemma compr_ok_fits:
  assumes ok: "compr_ok a b q" and b: "\<bar>b\<bar> < a" and a: "a < 256 ^ (2 * (round32 d_bits div 32))"
    and t: "\<bar>qt q\<bar> * max 1 (qg q) < 256 ^ (round32 d_bits div 32)" and d: "d_bits \<le> 1024"
  shows "fits q d_bits"
proof -
  define m where "m = round32 d_bits div 32"
  define n where "n = (sizeinbase2 (qg q) + 7) div 8 - 1"
  obtain r where aq: "a = qa q * qg q" and pos: "0 < qa q" "0 < qg q" and t0: "qt q \<noteq> 0"
    and b0: "qb0 q = (if qg q = 1 then 0 else \<bar>b\<bar> div qa q)"
    using ok unfolding compr_ok_def by (elim exE conjE) (rule that; assumption)
  note g = size_of_g [OF pos(2) n_def]
  have tg: "\<bar>qt q\<bar> * qg q < 256 ^ m" using t pos(2) by (simp add: m_def max_def split: if_splits)
  have "1 * qg q \<le> \<bar>qt q\<bar> * qg q" using t0 pos(2) by (intro mult_right_mono) auto
  then have "256 ^ n < (256 :: int) ^ m" using g(1) tg by linarith
  then have nm: "n < m" by simp
  have m: "m \<le> 32" using d by (simp add: m_def round32_def)
  have A: "qa q < 256 ^ (2 * m - n)"
    by (rule quotient_fits [where g = "qg q"]) (use a aq g pos nm in \<open>auto simp: m_def\<close>)
  have T: "\<bar>qt q\<bar> < 256 ^ (m - n)" by (rule quotient_fits [where g = "qg q"]) (use tg g nm in auto)
  have "\<bar>b\<bar> div qa q < qg q" using b aq pos by (intro div_less_of_less_mult) (auto simp: mult.commute)
  moreover have "0 \<le> \<bar>b\<bar> div qa q" using pos by (simp add: pos_imp_zdiv_nonneg_iff)
  ultimately have "\<bar>qb0 q\<bar> < 256 ^ (n + 1)" using g(2) b0 by (cases "qg q = 1") auto
  then show ?thesis
    using nm m A T g(2) pos unfolding fits_def Let_def round32_div m_def [symmetric] n_def [symmetric] by simp
qed

lemma serialize_fits:
  assumes D: "good_disc D" and f: "posdef D f" "is_reduced f" and d: "d_bits = num_bits D" "d_bits \<le> 1024"
    and t: "t_bound (fa f) (fb f) d_bits"
  obtains q where "bqfc_compr (fa f) (fb f) = Some q" and "fits q d_bits"
    and "0 \<le> qa q" "0 \<le> qg q" "0 \<le> qb0 q"
proof -
  let ?m = "round32 d_bits div 32"
  have a: "0 < fa f" and disc: "D = fb f * fb f - 4 * fa f * fc f"
    using f by (auto simp: posdef_def disc_def)
  have D0: "D < 0" using D by simp
  have m: "d_bits \<le> 32 * ?m" "?m \<le> 32" using d(2) by (simp_all add: round32_def)
  have "\<bar>D\<bar> < 2 ^ d_bits" unfolding d num_bits_def by (rule sizeinbase2_bound)
  also have "(2 :: int) ^ d_bits \<le> 2 ^ (32 * ?m)" using m(1) by (intro power_increasing) auto
  also have "(2 :: int) ^ (32 * ?m) = 256 ^ (2 * ?m) * 256 ^ (2 * ?m)" by (simp add: pow256 flip: power_add)
  finally have "fa f * fa f < 256 ^ (2 * ?m) * 256 ^ (2 * ?m)"
    using reduced_a_bound [OF f] D0 zero_le_square [of "fa f"] by linarith
  then have ab: "fa f < 256 ^ (2 * ?m)" using a by (metis linorder_not_le mult_mono less_imp_le zero_le_numeral zero_le_power)
  have "sizeinbase2 D \<noteq> 0" using D0 by (simp add: sizeinbase2_def bit_length.simps)
  then have m0: "0 < ?m" using d(1) m(1) by (simp add: num_bits_def)
  show thesis
  proof (cases "fa f = fb f")
    case True
    let ?q = "\<lparr>qa = fa f, qt = 0, qg = 0, qb0 = 0, qb_sign = False\<rparr>"
    have "fits ?q d_bits"
      using ab a m m0 by (simp add: fits_def Let_def round32_div sizeinbase2_def)
    moreover have "bqfc_compr (fa f) (fb f) = Some ?q" using True by (simp add: bqfc_compr_def)
    ultimately show thesis using a by (intro that [of ?q]) simp_all
  next
    case False
    have b: "\<bar>fb f\<bar> < fa f" using False f(2) a by (auto simp: is_reduced_def)
    obtain q where q: "bqfc_compr (fa f) (fb f) = Some q" "compr_ok (fa f) (fb f) q"
      using D disc a b by (rule bqfc_compr_ok)
    have "fits q d_bits"
      using q(2) b ab _ d(2) by (rule compr_ok_fits) (use t q(1) in \<open>simp add: t_bound_def\<close>)
    moreover have "0 \<le> qa q" "0 \<le> qg q" "0 \<le> qb0 q"
      using q(2) by (auto simp: compr_ok_def pos_imp_zdiv_nonneg_iff)
    ultimately show thesis using q(1) by (intro that)
  qed
qed

lemma bqfc_round_trip_aux:
  assumes D: "good_disc D" and G: "gcdext_ok G" "gcdext_small G" and f: "posdef D f" "is_reduced f"
    and d: "d_bits = num_bits D" "d_bits \<le> 1024" and t: "t_bound (fa f) (fb f) d_bits"
    and buf: "length buf = 100"
  shows "\<exists>str. bqfc_serialize buf (fa f) (fb f) d_bits = Some str \<and> length str = 100 \<and>
    bqfc_deserialize G D str 100 d_bits = Some (Inr (fa f, fb f))"
proof (cases "special (fa f) (fb f)")
  case True
  have a: "fa f = 1 \<or> fa f = 2" using True f(1) by (auto simp: special_def posdef_def)
  let ?s = "overwrite buf 0 ((if fa f = 2 then 8 else 4) # replicate 99 0) :: byte list"
  have "bqfc_serialize buf (fa f) (fb f) d_bits = Some ?s"
    using True buf by (simp add: bqfc_serialize_def special_def)
  moreover have "length ?s = 100" "?s ! 0 = (if fa f = 2 then 8 else 4)" using buf by (simp_all add: overwrite_def)
  then have "bqfc_deserialize G D ?s 100 d_bits = Some (Inr (fa f, fb f))"
    using a True by (auto simp: bqfc_deserialize_def special_def)
  ultimately show ?thesis using buf by (intro exI [of _ ?s]) (simp add: overwrite_def)
next
  case False
  obtain q where q: "bqfc_compr (fa f) (fb f) = Some q" and fq: "fits q d_bits"
    and pos: "0 \<le> qa q" "0 \<le> qg q" "0 \<le> qb0 q"
    using D f d t by (rule serialize_fits)
  have v: "bqfc_get_compr_size d_bits \<le> 100" using d(2) by (simp add: bqfc_get_compr_size_def)
  let ?z = "replicate (100 - bqfc_get_compr_size d_bits) 0 :: byte list"
  let ?s = "layout q d_bits @ ?z"
  have ser: "bqfc_serialize b (fa f) (fb f) d_bits = Some ?s" if "length b = 100" for b
    using serialize_normal [OF False q fq v] that by simp
  have "bqfc_serialize_only (replicate (bqfc_get_compr_size d_bits) 0) q d_bits = Some (layout q d_bits)"
    using serialize_only_layout [OF fq, of "replicate (bqfc_get_compr_size d_bits) 0"] by simp
  then have des: "bqfc_deserialize_only ?s d_bits = Some (Inr q)"
    using pos by (intro deserialize_serialize_only [OF fq]) auto
  have len: "length ?s = 100" using length_layout [OF fq] v by simp
  have "bqfc_decompr G D q = Inr (fa f, fb f)"
    using compr_round_trip [OF D G f] q by simp
  moreover have "bqfc_verify_canon (fa f) (fb f) ?s d_bits = Some 0"
    using ser [of "replicate 100 0"] len by (simp add: bqfc_verify_canon_def)
  moreover have "?s ! 0 AND 12 = 0" by (simp add: layout_def Let_def)
  ultimately have "bqfc_deserialize G D ?s 100 d_bits = Some (Inr (fa f, fb f))"
    unfolding bqfc_deserialize_def using len des by simp
  then show ?thesis using ser [OF buf] len by blast
qed

text \<open>Whatever else is accepted re-serializes to the bytes it came from.\<close>

lemma deserialize_canonical_aux:
  assumes "bqfc_deserialize G D str sz d_bits = Some (Inr (a, b))" and "str ! 0 AND 12 = 0"
  shows "bqfc_serialize (replicate 100 0) a b d_bits = Some (take 100 str)"
proof -
  obtain r where r: "(case r of Inl e \<Rightarrow> Some (Inl e)
      | Inr c \<Rightarrow> (case bqfc_decompr G D c of Inl e \<Rightarrow> Some (Inl e)
         | Inr (a, b) \<Rightarrow> do { ret \<leftarrow> bqfc_verify_canon a b str d_bits;
                            Some (if ret \<noteq> 0 then Inl ret else Inr (a, b)) })) = Some (Inr (a, b))"
    using assms unfolding bqfc_deserialize_def by (auto simp: ret_iff split: if_splits)
  then obtain c where c: "r = Inr c" by (cases r) auto
  obtain a' b' where ab: "bqfc_decompr G D c = Inr (a', b')"
    using r c by (cases "bqfc_decompr G D c") auto
  obtain ret where ret: "bqfc_verify_canon a' b' str d_bits = Some ret"
    "(if ret \<noteq> 0 then Inl ret else Inr (a', b')) = Inr (a, b)"
    using r c ab by (auto simp: ret_iff)
  then have "a' = a" "b' = b" "bqfc_verify_canon a b str d_bits = Some 0" by (auto split: if_splits)
  then show ?thesis by (auto simp: bqfc_verify_canon_def ret_iff split: if_splits)
qed

end
