(* ===== verification/HashPrime.thy ===== *)
theory HashPrime
  imports Bytes
begin

section \<open>Hash to prime: \<open>HashPrime\<close> and \<open>CreateDiscriminant\<close>\<close>

text \<open>
  \<open>HashPrime\<close> of \<open>proof_common.h\<close> expands a seed with SHA-256, treats the result as a
  big-endian integer, sets the requested bits and repeats until the primality test accepts.
  The hash and the primality test are arguments \<open>H\<close> and \<open>P\<close> (the program's own are
  modelled in their theories); a failed assertion and an endless search are \<open>None\<close>.
\<close>

text \<open>The nonce: the seed is incremented as a big-endian counter.\<close>

fun incr_le :: "byte list \<Rightarrow> byte list" where
  "incr_le [] = []"
| "incr_le (b # bs) = (let b' = b + 1 in if b' \<noteq> 0 then b' # bs else b' # incr_le bs)"

definition sprout_incr :: "byte list \<Rightarrow> byte list" where
  "sprout_incr s = rev (incr_le (rev s))"

partial_function (option) hash_fill ::
  "(byte list \<Rightarrow> byte list) \<Rightarrow> nat \<Rightarrow> byte list \<Rightarrow> byte list \<Rightarrow> (byte list \<times> byte list) option" where
  "hash_fill H len blob sprout =
     (if length blob * 8 < len
      then hash_fill H len
             (blob @ take (len div 8 - length blob) (H (sprout_incr sprout))) (sprout_incr sprout)
      else Some (blob, sprout))"

definition apply_mask :: "int \<Rightarrow> nat list \<Rightarrow> int" where
  "apply_mask p bitmask = set_bit_int (fold (\<lambda>b q. set_bit_int q b True) bitmask p) 0 True"

partial_function (option) hash_search ::
  "(byte list \<Rightarrow> byte list) \<Rightarrow> (int \<Rightarrow> bool) \<Rightarrow> nat \<Rightarrow> nat list \<Rightarrow> byte list \<Rightarrow> int option" where
  "hash_search H P len bitmask sprout =
     Option.bind (hash_fill H len [] sprout) (\<lambda>(blob, sprout').
       if length blob * 8 \<noteq> len then None
       else if P (apply_mask (integer_of_bytes blob) bitmask)
       then Some (apply_mask (integer_of_bytes blob) bitmask)
       else hash_search H P len bitmask sprout')"

declare hash_fill.simps [code] hash_search.simps [code]

definition HashPrime ::
  "(byte list \<Rightarrow> byte list) \<Rightarrow> (int \<Rightarrow> bool) \<Rightarrow> byte list \<Rightarrow> nat \<Rightarrow> nat list \<Rightarrow> int option" where
  "HashPrime H P seed len bitmask =
     (if len mod 8 \<noteq> 0 then None else hash_search H P len bitmask seed)"

definition CreateDiscriminant ::
  "(byte list \<Rightarrow> byte list) \<Rightarrow> (int \<Rightarrow> bool) \<Rightarrow> byte list \<Rightarrow> nat \<Rightarrow> int option" where
  "CreateDiscriminant H P seed len =
     map_option (\<lambda>p. p * (- 1)) (HashPrime H P seed len [0, 1, 2, len - 1])"

subsection \<open>The nonce counts\<close>

lemma length_incr_le [simp]: "length (incr_le bs) = length bs"
  by (induction bs) (simp_all add: Let_def)

lemma length_sprout_incr [simp]: "length (sprout_incr s) = length s"
  by (simp add: sprout_incr_def)

lemma byte_incr: "(b + 1 \<noteq> 0 \<longrightarrow> unat (b + 1) = unat b + 1) \<and> (b + 1 = 0 \<longrightarrow> unat b = 255)" for b :: byte
proof -
  have "unat (b + 1) = (unat b + 1) mod 256"
    by (simp add: unat_word_ariths)
  moreover have "unat b < 256" by simp
  moreover have "b + 1 = 0 \<longleftrightarrow> unat (b + 1) = 0" by (simp add: unat_eq_0)
  ultimately show ?thesis by (cases "unat b = 255") auto
qed

lemma incr_le_value: "le_value (incr_le bs) = (le_value bs + 1) mod 256 ^ length bs"
proof (induction bs)
  case (Cons b bs)
  note b = byte_incr [of b]
  show ?case
  proof (cases "b + 1 = 0")
    case True
    have "le_value (incr_le (b # bs)) = 256 * ((le_value bs + 1) mod 256 ^ length bs)"
      using True Cons by simp
    also have "\<dots> = (256 * (le_value bs + 1)) mod (256 * 256 ^ length bs)"
      by (simp only: mult_mod_right)
    also have "256 * (le_value bs + 1) = le_value (b # bs) + 1" using True b by simp
    finally show ?thesis by simp
  next
    case False
    have "le_value ((b + 1) # bs) < 256 ^ length ((b + 1) # bs)" by (rule le_value_bound)
    then show ?thesis using False b by simp
  qed
qed simp

lemma sprout_incr_value: "be_value (sprout_incr s) = (be_value s + 1) mod 256 ^ length s"
  by (simp add: sprout_incr_def be_value_def incr_le_value)

subsection \<open>The expansion returns\<close>

lemma hash_fill_returns:
  assumes H: "\<And>m. length (H m) = 32" and len: "len mod 8 = 0" and b: "length blob * 8 \<le> len"
  shows "\<exists>blob' sprout'. hash_fill H len blob sprout = Some (blob', sprout') \<and> length blob' * 8 = len
     \<and> length sprout' = length sprout"
  using b
proof (induction "len - length blob * 8" arbitrary: blob sprout rule: less_induct)
  case less
  show ?case
  proof (cases "length blob * 8 < len")
    case True
    let ?w = "take (len div 8 - length blob) (H (sprout_incr sprout))"
    have l: "length ?w = min (len div 8 - length blob) 32" by (simp add: H min.commute)
    have "0 < len div 8 - length blob" using True len by presburger
    then have pos: "0 < length ?w" unfolding l by simp
    have "length (blob @ ?w) * 8 \<le> len" using l len less.prems by auto
    moreover have "len - length (blob @ ?w) * 8 < len - length blob * 8"
    proof -
      obtain n where n: "length ?w = n" and "0 < n" using pos by blast
      then show ?thesis using True unfolding length_append n by (intro diff_less_mono2) auto
    qed
    ultimately obtain blob' sprout' where
      "hash_fill H len (blob @ ?w) (sprout_incr sprout) = Some (blob', sprout')"
      "length blob' * 8 = len" "length sprout' = length (sprout_incr sprout)"
      using less.hyps [of "blob @ ?w" "sprout_incr sprout"] by blast
    then show ?thesis using True by (subst hash_fill.simps) auto
  next
    case False
    then show ?thesis using less.prems by (subst hash_fill.simps) auto
  qed
qed

subsection \<open>What a returned prime looks like\<close>

lemma get_set_bit: "get_bit (set_bit_int x i True) j \<longleftrightarrow> i = j \<or> get_bit x j"
proof (cases "get_bit x i")
  case True
  then show ?thesis by (auto simp: set_bit_int_def get_bit_def Let_def)
next
  case False
  then have e: "even (x div 2 ^ i)" by (simp add: get_bit_def)
  have s: "set_bit_int x i True = x + 2 ^ i" using e by (simp add: set_bit_int_def Let_def)
  consider "j < i" | "j = i" | "i < j" by linarith
  then show ?thesis
  proof cases
    case 1
    then obtain k where k: "i = j + Suc k" by (metis less_imp_Suc_add add_Suc_right)
    have "x + 2 ^ i = x + 2 ^ j * (2 * 2 ^ k)" by (simp add: k power_add)
    then have "(x + 2 ^ i) div 2 ^ j = x div 2 ^ j + 2 * 2 ^ k"
      by (simp only: div_mult_self2 power_not_zero zero_neq_numeral simp_thms)
    then show ?thesis using 1 unfolding s get_bit_def by simp
  next
    case 2
    have "(x + 2 ^ i) div 2 ^ i = x div 2 ^ i + 1" by (rule div_add_self2) simp
    then show ?thesis using e 2 unfolding s get_bit_def by simp
  next
    case 3
    then obtain k where k: "j = i + Suc k" by (metis less_imp_Suc_add add_Suc_right)
    have "(2 :: int) ^ j = 2 ^ i * 2 ^ Suc k" by (simp add: k power_add)
    then have "(x + 2 ^ i) div 2 ^ j = ((x + 2 ^ i) div 2 ^ i) div 2 ^ Suc k"
      by (simp only: zdiv_zmult2_eq zero_le_power zero_le_numeral)
    also have "(x + 2 ^ i) div 2 ^ i = x div 2 ^ i + 1" by (rule div_add_self2) simp
    also have "(x div 2 ^ i + 1) div 2 ^ Suc k = ((x div 2 ^ i + 1) div 2) div 2 ^ k"
      by (simp add: zdiv_zmult2_eq)
    also have "(x div 2 ^ i + 1) div 2 = (x div 2 ^ i) div 2" using e by presburger
    also have "((x div 2 ^ i) div 2) div 2 ^ k = x div (2 ^ i * (2 * 2 ^ k))"
      by (simp add: zdiv_zmult2_eq [of "2 * 2 ^ k"] zdiv_zmult2_eq [of "2 ^ k"])
    also have "(2 :: int) ^ i * (2 * 2 ^ k) = 2 ^ j" by (simp add: k power_add)
    finally show ?thesis using 3 unfolding s get_bit_def by simp
  qed
qed

lemma get_bit_mask: "get_bit (apply_mask p bitmask) j \<longleftrightarrow> j = 0 \<or> j \<in> set bitmask \<or> get_bit p j"
proof -
  have "get_bit (fold (\<lambda>b q. set_bit_int q b True) bitmask p) j \<longleftrightarrow> j \<in> set bitmask \<or> get_bit p j"
    by (induction bitmask arbitrary: p) (auto simp: get_set_bit)
  then show ?thesis by (auto simp: apply_mask_def get_set_bit)
qed


lemma get_bit_bound: "0 \<le> x \<Longrightarrow> x < 2 ^ n \<Longrightarrow> n \<le> j \<Longrightarrow> \<not> get_bit x j"
proof -
  assume x: "0 \<le> x" "x < 2 ^ n" and j: "n \<le> j"
  have "(2 :: int) ^ n \<le> 2 ^ j" using j by (intro power_increasing) auto
  then have "x < 2 ^ j" using x by linarith
  then have "x div 2 ^ j = 0" using x by (intro div_pos_pos_trivial) auto
  then show "\<not> get_bit x j" by (simp add: get_bit_def)
qed

lemma bits_below:
  assumes "0 \<le> x" and "\<And>j. n \<le> j \<Longrightarrow> \<not> get_bit x j"
  shows "x < 2 ^ n"
proof (rule ccontr)
  assume ge: "\<not> x < 2 ^ n"
  then have "0 < x" using assms(1) by (cases "x = 0") auto
  let ?b = "bit_length x - 1"
  have "0 < bit_length x" using \<open>0 < x\<close> by (simp add: bit_length.simps [of x])
  have lo: "2 ^ ?b \<le> x" using \<open>0 < x\<close> by (rule bit_length_lower)
  have hi: "x < 2 * 2 ^ ?b"
    using bit_length_bound [OF assms(1)] \<open>0 < bit_length x\<close> by (cases "bit_length x") simp_all
  have "x div 2 ^ ?b < 2" using hi by (intro div_less_of_less_mult) auto
  moreover have "1 \<le> x div 2 ^ ?b" using lo zdiv_mono1 [of "2 ^ ?b" x "2 ^ ?b"] by simp
  ultimately have "x div 2 ^ ?b = 1" by simp
  then have "get_bit x ?b" by (simp add: get_bit_def)
  moreover have "n \<le> ?b"
  proof (rule ccontr)
    assume "\<not> n \<le> ?b"
    then have "(2 :: int) * 2 ^ ?b \<le> 2 ^ n" using power_increasing [of "Suc ?b" n "2 :: int"] by simp
    then show False using hi ge by simp
  qed
  ultimately show False using assms(2) by blast
qed

lemma set_bit_int_nonneg: "0 \<le> x \<Longrightarrow> 0 \<le> set_bit_int x i True"
  by (simp add: set_bit_int_def Let_def)

lemma apply_mask_nonneg: "0 \<le> p \<Longrightarrow> 0 \<le> apply_mask p bitmask"
proof -
  assume "0 \<le> p"
  then have "0 \<le> fold (\<lambda>b q. set_bit_int q b True) bitmask p"
    by (induction bitmask arbitrary: p) (simp_all add: set_bit_int_nonneg)
  then show ?thesis by (simp add: apply_mask_def set_bit_int_nonneg)
qed

definition prime_shape :: "(int \<Rightarrow> bool) \<Rightarrow> nat \<Rightarrow> nat list \<Rightarrow> int \<Rightarrow> bool" where
  "prime_shape P len bitmask p \<longleftrightarrow>
     P p \<and> 0 \<le> p \<and> p < 2 ^ len \<and> odd p \<and> (\<forall>b\<in>set bitmask. get_bit p b)"

lemma hash_search_shape_step:
  assumes IH: "\<And>H P len bitmask s p. loop H P len bitmask s = Some p \<Longrightarrow>
        0 < len \<longrightarrow> (\<forall>b\<in>set bitmask. b < len) \<longrightarrow> prime_shape P len bitmask p"
    and eq: "Option.bind (hash_fill H len [] s) (\<lambda>(blob, sprout').
         if length blob * 8 \<noteq> len then None
         else if P (apply_mask (integer_of_bytes blob) bitmask)
         then Some (apply_mask (integer_of_bytes blob) bitmask)
         else loop H P len bitmask sprout') = Some p"
    and len: "0 < len" and mask: "\<forall>b\<in>set bitmask. b < len"
  shows "prime_shape P len bitmask p"
proof -
  obtain blob s' where b: "length blob * 8 = len"
    and c: "(if P (apply_mask (integer_of_bytes blob) bitmask) then Some (apply_mask (integer_of_bytes blob) bitmask)
       else loop H P len bitmask s') = Some p"
    using eq by (auto simp: ret_iff split: if_splits)
  let ?q = "apply_mask (integer_of_bytes blob) bitmask"
  show "prime_shape P len bitmask p"
  proof (cases "P ?q")
    case False
    then show ?thesis using c IH len mask by auto
  next
    case True
    then have p: "p = ?q" using c by simp
    have i: "0 \<le> integer_of_bytes blob" by (simp add: integer_of_bytes_def)
    have "be_value blob < 256 ^ length blob" by (rule be_value_bound)
    also have "(256 :: nat) ^ length blob = (2 ^ 8) ^ length blob" by simp
    also have "\<dots> = 2 ^ len" unfolding b [symmetric] power_mult [symmetric] by (simp only: mult.commute)
    finally have lt: "integer_of_bytes blob < 2 ^ len"
      unfolding integer_of_bytes_def by (metis of_nat_less_iff of_nat_numeral of_nat_power)
    have "?q < 2 ^ len"
    proof (rule bits_below [OF apply_mask_nonneg [OF i]])
      fix j
      assume j: "len \<le> j"
      then show "\<not> get_bit ?q j"
        using len mask get_bit_bound [OF i lt j] by (auto simp: get_bit_mask)
    qed
    moreover have "get_bit ?q 0" by (simp add: get_bit_mask)
    then have "odd ?q" by (simp add: get_bit_def)
    ultimately show ?thesis using True p apply_mask_nonneg [OF i] by (auto simp: prime_shape_def get_bit_mask)
  qed
qed

lemma hash_search_shape:
  assumes "hash_search H P len bitmask sprout = Some p"
    and len: "0 < len" and mask: "\<forall>b\<in>set bitmask. b < len"
  shows "prime_shape P len bitmask p"
proof -
  let ?Q = "\<lambda>((((H, P), l), m), s) p. 0 < l \<longrightarrow> (\<forall>b\<in>set m. b < l) \<longrightarrow> prime_shape P l m p"
  have "?Q ((((H, P), len), bitmask), sprout) p"
  proof (rule hash_search.raw_induct [where Pa = ?Q, OF _ assms(1)], unfold split, intro impI)
    fix loop H P len bitmask s p
    assume IH: "\<And>H P len bitmask s p. loop H P len bitmask s = Some p \<Longrightarrow>
        0 < len \<longrightarrow> (\<forall>b\<in>set bitmask. b < len) \<longrightarrow> prime_shape P len bitmask p"
      and eq: "Option.bind (hash_fill H len [] s) (\<lambda>(blob, sprout').
         if length blob * 8 \<noteq> len then None
         else if P (apply_mask (integer_of_bytes blob) bitmask)
         then Some (apply_mask (integer_of_bytes blob) bitmask)
         else loop H P len bitmask sprout') = Some p"
      and len: "0 < len" and mask: "\<forall>b\<in>set bitmask. b < len"
    show "prime_shape P len bitmask p"
      by (rule hash_search_shape_step [where loop = loop and H = H and s = s, OF _ eq len mask]) (rule IH)
  qed
  then show ?thesis using len mask by simp
qed

lemma HashPrime_shape:
  assumes "HashPrime H P seed len bitmask = Some p" and "0 < len" and "\<forall>b\<in>set bitmask. b < len"
  shows "prime_shape P len bitmask p"
  using assms hash_search_shape by (auto simp: HashPrime_def split: if_splits)

lemma top_bit_lower: "0 \<le> x \<Longrightarrow> get_bit x n \<Longrightarrow> 2 ^ n \<le> x"
  using get_bit_bound [of x n n] by force

lemma low_bits_mod8:
  assumes "get_bit p 0" and "get_bit p 1" and "get_bit p 2"
  shows "p mod 8 = 7"
proof -
  have "p mod 2 = 1" "p div 2 mod 2 = 1" "p div 4 mod 2 = 1" using assms by (simp_all add: get_bit_def odd_iff_mod_2_eq_one)
  moreover have "p mod (2 * (2 * 2)) = p mod 2 + 2 * (p div 2 mod 2 + 2 * (p div 2 div 2 mod 2))"
    by (simp only: zmod_zmult2_eq [of "2 * 2" p 2] zmod_zmult2_eq [of 2 "p div 2" 2]) simp
  moreover have "p div 2 div 2 = p div 4" by (simp add: zdiv_zmult2_eq [symmetric])
  ultimately show ?thesis by simp
qed

lemma CreateDiscriminant_shape_aux:
  assumes "CreateDiscriminant H P seed len = Some D" and "3 \<le> len"
  shows "P (- D) \<and> D mod 8 = 1 \<and> - (2 ^ len) < D \<and> D \<le> - (2 ^ (len - 1))"
proof -
  obtain p where p: "HashPrime H P seed len [0, 1, 2, len - 1] = Some p" and D: "D = - p"
    using assms(1) by (auto simp: CreateDiscriminant_def)
  have s: "prime_shape P len [0, 1, 2, len - 1] p"
    by (rule HashPrime_shape [OF p]) (use assms(2) in auto)
  then have b: "get_bit p 0" "get_bit p 1" "get_bit p 2" "get_bit p (len - 1)" and p0: "0 \<le> p"
    and lt: "p < 2 ^ len" and P: "P p"
    by (simp_all add: prime_shape_def)
  have "p mod 8 = 7" by (rule low_bits_mod8) (fact b)+
  then have "D mod 8 = 1" unfolding D by presburger
  moreover have "2 ^ (len - 1) \<le> p" by (rule top_bit_lower) (fact p0 b)+
  ultimately show ?thesis using lt P by (simp add: D)
qed

subsection \<open>The search returns as soon as the test accepts a candidate\<close>

fun sprout_at :: "(byte list \<Rightarrow> byte list) \<Rightarrow> nat \<Rightarrow> byte list \<Rightarrow> nat \<Rightarrow> byte list" where
  "sprout_at H len s 0 = s"
| "sprout_at H len s (Suc k) =
     (case hash_fill H len [] s of None \<Rightarrow> s | Some (blob, s') \<Rightarrow> sprout_at H len s' k)"

definition candidate :: "(byte list \<Rightarrow> byte list) \<Rightarrow> nat \<Rightarrow> nat list \<Rightarrow> byte list \<Rightarrow> int" where
  "candidate H len bitmask s =
     (case hash_fill H len [] s of None \<Rightarrow> 0 | Some (blob, s') \<Rightarrow> apply_mask (integer_of_bytes blob) bitmask)"

lemma hash_search_returns:
  assumes H: "\<And>m. length (H m) = 32" and len: "len mod 8 = 0"
    and "P (candidate H len bitmask (sprout_at H len s k))"
  shows "\<exists>p. hash_search H P len bitmask s = Some p"
  using assms(3)
proof (induction k arbitrary: s)
  case 0
  obtain blob s' where f: "hash_fill H len [] s = Some (blob, s')" "length blob * 8 = len"
    using hash_fill_returns [of H len "[]" s, OF H len] by auto
  then show ?case using 0 by (subst hash_search.simps) (simp add: candidate_def)
next
  case (Suc k)
  obtain blob s' where f: "hash_fill H len [] s = Some (blob, s')" "length blob * 8 = len"
    using hash_fill_returns [of H len "[]" s, OF H len] by auto
  moreover from Suc.prems f have "\<exists>p. hash_search H P len bitmask s' = Some p"
    by (intro Suc.IH) simp
  ultimately show ?case by (subst hash_search.simps) auto
qed

lemma HashPrime_returns:
  assumes "\<And>m. length (H m) = 32" and "len mod 8 = 0"
    and "P (candidate H len bitmask (sprout_at H len s k))"
  shows "\<exists>p. HashPrime H P s len bitmask = Some p"
  using hash_search_returns [of H len P bitmask s k] assms by (simp add: HashPrime_def)

end
