(* ===== verification/ProofCommon.thy ===== *)
theory ProofCommon
  imports VdfNew Nucomp Reducer Bqfc HashPrime
begin

section \<open>The operations provers and verifiers share: \<open>proof_common.h\<close>\<close>

text \<open>
  Serialization of forms, the Fiat-Shamir challenge \<open>GetB\<close>, modular powers of two and
  \<open>FastPowFormNucomp\<close>, which raises a form to a power with NUCOMP and NUDUPL and reduces
  only forms whose first coefficient has grown.  What the callers rely on of the reducer is
  the locale \<open>reducer_sound\<close> (when it returns, it returns a weakly reduced form of the
  same class), which \<open>PulmarkReducer\<close> meets, and \<open>reducer_total\<close> adds that it
  returns, which \<open>form::reduce\<close> meets too.
\<close>

subsection \<open>The code\<close>

abbreviation B_bits :: nat where
  "B_bits \<equiv> 264"

abbreviation B_bytes :: nat where
  "B_bytes \<equiv> 33"

definition serialize_form :: "form \<Rightarrow> nat \<Rightarrow> (byte list \<times> form) option" where
  "serialize_form y d_bits =
     do {
       y' \<leftarrow> reduce y;
       res \<leftarrow> bqfc_serialize (replicate BQFC_FORM_SIZE 0) (fa y') (fb y') d_bits;
       Some (res, y')
     }"

definition deserialize_form :: "gcdext \<Rightarrow> int \<Rightarrow> byte list \<Rightarrow> nat \<Rightarrow> form res" where
  "deserialize_form G D bytes sz =
     bind_res (lift_opt (bqfc_deserialize G D bytes sz (num_bits D))) (\<lambda>r.
       case r of
         Inl e \<Rightarrow> throw ''Deserializing compressed form failed''
       | Inr (a, b) \<Rightarrow>
           bind_res (from_abd a b D) (\<lambda>f.
             if \<not> is_reduced f then throw ''Form is not reduced'' else ret f))"

definition fast_pow :: "int \<Rightarrow> nat \<Rightarrow> int \<Rightarrow> int res" where
  "fast_pow a b c = (if c = 0 then throw ''Division by 0'' else ret (a ^ b mod \<bar>c\<bar>))"

text \<open>\<open>GetB\<close> reduces both forms in place; they are returned with the challenge.\<close>

definition get_B ::
  "(byte list \<Rightarrow> byte list) \<Rightarrow> (int \<Rightarrow> bool) \<Rightarrow> int \<Rightarrow> form \<Rightarrow> form \<Rightarrow> (int \<times> form \<times> form) option" where
  "get_B H P D x y =
     do {
       let d_bits = num_bits D;
       (sx, x') \<leftarrow> serialize_form x d_bits;
       (sy, y') \<leftarrow> serialize_form y d_bits;
       B \<leftarrow> HashPrime H P (sx @ sy) B_bits [B_bits - 1];
       Some (B, x', y')
     }"

text \<open>\<open>root(-D, 4)\<close> truncates, and so does taking the square root twice.\<close>

definition iroot4 :: "int \<Rightarrow> int" where
  "iroot4 n = isqrt (isqrt n)"

text \<open>The \<open>_mp_size\<close> field: the number of limbs with the sign of the value.\<close>

definition mp_size :: "int \<Rightarrow> int" where
  "mp_size x = sgn x * mpz_size x"

fun fast_pow_loop ::
  "gcdext \<Rightarrow> (form \<Rightarrow> form option) \<Rightarrow> form \<Rightarrow> int \<Rightarrow> int \<Rightarrow> int \<Rightarrow> int \<Rightarrow> nat \<Rightarrow> form \<Rightarrow> form option" where
  "fast_pow_loop G red x D L e max_size 0 res = Some res"
| "fast_pow_loop G red x D L e max_size (Suc i) res =
     do {
       r1 \<leftarrow> nudupl_form G res D L;
       r2 \<leftarrow> (if mp_size (fa r1) > max_size then red r1 else Some r1);
       r3 \<leftarrow> (if get_bit e i then nucomp_form G r2 x D L else Some r2);
       fast_pow_loop G red x D L e max_size i r3
     }"

definition fast_pow_form ::
  "gcdext \<Rightarrow> (form \<Rightarrow> form option) \<Rightarrow> form \<Rightarrow> int \<Rightarrow> int \<Rightarrow> int \<Rightarrow> form res" where
  "fast_pow_form G red x D num_iterations L =
     (if num_iterations = 0 then identity D
      else lift_opt (do {
        let max_size = tdiv (- mp_size D) 2;
        res \<leftarrow> fast_pow_loop G red x D L num_iterations max_size (num_bits num_iterations - 1) x;
        red res
      }))"

subsection \<open>The reducer as an interface\<close>

locale reducer_sound =
  fixes red :: "form \<Rightarrow> form option"
  assumes red_sound: "red f = Some g \<Longrightarrow> D < 0 \<Longrightarrow> posdef D f \<Longrightarrow>
    posdef D g \<and> same_class D f g \<and> weakly_reduced g"

locale reducer_total = reducer_sound +
  assumes red_returns: "D < 0 \<Longrightarrow> posdef D f \<Longrightarrow> \<exists>g. red f = Some g"

lemma get_bit_half: "e div 2 ^ i = 2 * (e div 2 ^ Suc i) + (if get_bit e i then 1 else 0)"
proof -
  have "e div 2 ^ Suc i = (e div 2 ^ i) div 2"
    using zdiv_zmult2_eq [of 2 e "2 ^ i"] by (simp add: mult.commute)
  then show ?thesis by (simp add: get_bit_def)
qed

lemma pow_bit_step:
  assumes D: "good_disc D" and x: "posdef D x"
    and e: "0 \<le> e" and r: "class_pow D x (nat (e div 2 ^ Suc i)) r"
    and sq: "class_mul D r r r1" and red: "same_class D r1 r2"
    and mul: "if get_bit e i then class_mul D r2 x r3 else r3 = r2"
  shows "class_pow D x (nat (e div 2 ^ i)) r3"
proof -
  let ?n = "nat (e div 2 ^ Suc i)"
  have p: "0 \<le> e div 2 ^ Suc i" using e by (simp add: pos_imp_zdiv_nonneg_iff)
  have two: "class_pow D x (?n + ?n) r2"
    using class_pow_same [OF class_pow_add [OF D x r r sq] red] .
  show ?thesis
  proof (cases "get_bit e i")
    case True
    then have "class_pow D x (Suc (?n + ?n)) r3"
      using two mul True class_mul_commute [of D r2 x r3] by (intro class_pow_Suc [OF two]) simp
    moreover have "nat (e div 2 ^ i) = Suc (?n + ?n)" using get_bit_half [of e i] True p by simp
    ultimately show ?thesis by simp
  next
    case False
    then have "nat (e div 2 ^ i) = ?n + ?n" using get_bit_half [of e i] p by simp
    then show ?thesis using False two mul by simp
  qed
qed

lemma top_exponent: "0 < e \<Longrightarrow> e div 2 ^ (num_bits e - 1) = 1"
proof -
  assume e: "0 < e"
  then have b: "num_bits e = bit_length e" "0 < bit_length e"
    by (simp_all add: num_bits_def sizeinbase2_def bit_length.simps [of e])
  have "2 ^ (bit_length e - 1) \<le> e" using e by (rule bit_length_lower)
  then have "1 \<le> e div 2 ^ (bit_length e - 1)"
    using zdiv_mono1 [of "2 ^ (bit_length e - 1)" e "2 ^ (bit_length e - 1)"] by simp
  moreover have "e < 2 * 2 ^ (bit_length e - 1)"
    using bit_length_bound [of e] e b(2) by (cases "bit_length e") simp_all
  then have "e div 2 ^ (bit_length e - 1) < 2" by (intro div_less_of_less_mult) auto
  ultimately show ?thesis by (simp add: b)
qed

lemma identity_ok:
  assumes "good_disc D" and "posdef D f"
  shows "\<exists>u. identity D = ret u \<and> posdef D u \<and> is_reduced u \<and> class_pow D x 0 u"
proof -
  have D: "D < 0" and m: "D mod 4 = 1" using assms good_disc_odd_mod4 [of D f] by (auto simp: posdef_def)
  let ?u = "mk_form 1 1 ((1 - D) div 4)"
  have "(1 - D) mod 4 = 0" using m by presburger
  then have c: "4 * ((1 - D) div 4) = 1 - D" by presburger
  then have p: "posdef D ?u" by simp
  have "1 < (1 - D) div 4 \<or> (1 - D) div 4 = 1" using c D by presburger
  then have r: "is_reduced ?u" by (simp add: is_reduced_def)
  have "identity D = ret ?u"
    using \<open>(1 - D) mod 4 = 0\<close> reduce_id [OF posdefD(1) [OF p] r] by (simp add: identity_def from_abd_def)
  then show ?thesis using p r class_pow_0 [of ?u D x] by simp
qed

context reducer_sound
begin

lemma loop_sound:
  assumes D: "good_disc D" and G: "gcdext_ok G" and x: "posdef D x" and e: "0 \<le> e"
  shows "fast_pow_loop G red x D L e m i r = Some s \<Longrightarrow> posdef D r \<Longrightarrow>
    class_pow D x (nat (e div 2 ^ i)) r \<Longrightarrow> posdef D s \<and> class_pow D x (nat e) s"
proof (induction i arbitrary: r)
  case (Suc i)
  obtain r1 where r1: "nudupl_form G r D L = Some r1" "posdef D r1" "class_mul D r r r1"
    using qfb_nudupl_ok [OF D G Suc.prems(2), of L] by (auto simp: nudupl_form_def)
  obtain r2 r3 where r2: "(if mp_size (fa r1) > m then red r1 else Some r1) = Some r2"
    and r3: "(if get_bit e i then nucomp_form G r2 x D L else Some r2) = Some r3"
    and rest: "fast_pow_loop G red x D L e m i r3 = Some s"
    using Suc.prems(1) r1(1) by (auto simp: ret_iff)
  have p2: "posdef D r2" "same_class D r1 r2"
    using red_sound [of r1 r2 D] r2 r1(2) D by (auto split: if_splits)
  have p3: "posdef D r3" "if get_bit e i then class_mul D r2 x r3 else r3 = r2"
    using qfb_nucomp_ok [OF D G p2(1) x, of L] r3 p2(1) by (auto simp: nucomp_form_def split: if_splits)
  have "class_pow D x (nat (e div 2 ^ i)) r3"
    by (rule pow_bit_step [OF D x e Suc.prems(3) r1(3) p2(2) p3(2)])
  with Suc.IH [OF rest p3(1)] show ?case by blast
qed simp

lemma fast_pow_form_sound:
  assumes D: "good_disc D" and G: "gcdext_ok G" and x: "posdef D x" and e: "0 \<le> e"
    and r: "fast_pow_form G red x D e L = ret s"
  shows "posdef D s \<and> weakly_reduced s \<and> class_pow D x (nat e) s"
proof (cases "e = 0")
  case True
  obtain u where u: "identity D = ret u" "posdef D u" "is_reduced u" "class_pow D x 0 u"
    using identity_ok [OF D x] by blast
  then show ?thesis
    using r True is_reduced_weakly posdefD(1) by (auto simp: fast_pow_form_def)
next
  case False
  obtain t where t: "fast_pow_loop G red x D L e (tdiv (- mp_size D) 2) (num_bits e - 1) x = Some t"
    and s: "red t = Some s"
    using r False by (auto simp: fast_pow_form_def ret_iff)
  have "class_pow D x (nat (e div 2 ^ (num_bits e - 1))) x"
    using top_exponent [of e] e False class_pow_1 [OF D x] by simp
  then have "posdef D t" "class_pow D x (nat e) t" using loop_sound [OF D G x e t x] by auto
  then show ?thesis using red_sound [OF s _ \<open>posdef D t\<close>] D class_pow_same by auto
qed

end

context reducer_total
begin

lemma loop_returns:
  assumes D: "good_disc D" and G: "gcdext_ok G" and x: "posdef D x"
  shows "posdef D r \<Longrightarrow> \<exists>s. fast_pow_loop G red x D L e m i r = Some s \<and> posdef D s"
proof (induction i arbitrary: r)
  case (Suc i)
  obtain r1 where r1: "nudupl_form G r D L = Some r1" "posdef D r1"
    using qfb_nudupl_ok [OF D G Suc.prems, of L] by (auto simp: nudupl_form_def)
  obtain r2 where r2: "(if mp_size (fa r1) > m then red r1 else Some r1) = Some r2" "posdef D r2"
    using red_returns [of D r1] red_sound [of r1 _ D] r1(2) D good_disc_neg by (metis (full_types))
  obtain r3 where r3: "(if get_bit e i then nucomp_form G r2 x D L else Some r2) = Some r3" "posdef D r3"
    using qfb_nucomp_ok [OF D G r2(2) x, of L] r2(2)
    by (cases "get_bit e i") (auto simp: nucomp_form_def)
  then show ?case using Suc.IH [OF r3(2)] r1(1) r2(1) by simp
qed simp

lemma fast_pow_form_returns:
  assumes D: "good_disc D" and G: "gcdext_ok G" and x: "posdef D x"
  shows "\<exists>s. fast_pow_form G red x D e L = ret s"
proof (cases "e = 0")
  case True
  then show ?thesis using identity_ok [OF D x] by (auto simp: fast_pow_form_def)
next
  case False
  obtain t where t: "fast_pow_loop G red x D L e (tdiv (- mp_size D) 2) (num_bits e - 1) x = Some t" "posdef D t"
    using loop_returns [OF D G x x] by blast
  obtain s where "red t = Some s" using red_returns [OF _ t(2)] D by auto
  with t(1) False show ?thesis by (simp add: fast_pow_form_def)
qed

end

interpretation pulmark: reducer_sound pulmark_reduce
  by unfold_locales (rule pulmark_reduce_correct)

interpretation exact: reducer_total reduce
proof
  fix f g :: form and D :: int
  assume "reduce f = Some g" "D < 0" "posdef D f"
  then obtain h where "reduce f = Some h" "posdef D h" "is_reduced h" "same_class D f h"
    using reduce_returns by metis
  then show "posdef D g \<and> same_class D f g \<and> weakly_reduced g"
    using \<open>reduce f = Some g\<close> is_reduced_weakly posdefD(1) by auto
next
  fix f :: form and D :: int
  assume "D < 0" "posdef D f"
  then show "\<exists>g. reduce f = Some g" using reduce_returns by metis
qed

subsection \<open>Serialized forms\<close>

lemma from_abd_posdef:
  assumes "from_abd a b D = ret f" and "D < 0"
  shows "posdef D f \<and> is_reduced f"
proof -
  have a: "0 < a" and m: "(b * b - D) mod (4 * a) = 0" and r: "reduce (mk_form a b ((b * b - D) div (4 * a))) = Some f"
    using assms(1) by (auto simp: from_abd_def ret_iff split: if_splits)
  have "4 * a * ((b * b - D) div (4 * a)) = b * b - D" using m by (intro dvd_div_mult) auto
  then have "posdef D (mk_form a b ((b * b - D) div (4 * a)))" using a by (simp add: disc_def)
  then show ?thesis using reduce_returns [OF _ assms(2)] r by (metis option.inject)
qed

lemma from_abd_reduced:
  assumes "posdef D f" and "is_reduced f"
  shows "from_abd (fa f) (fb f) D = ret f"
proof -
  have a: "0 < fa f" and c: "fb f * fb f - D = (4 * fa f) * fc f"
    using assms(1) by (auto simp: posdef_def disc_def)
  then have "(fb f * fb f - D) div (4 * fa f) = fc f" by (intro div_eq_if_mult) auto
  moreover have "reduce (mk_form (fa f) (fb f) (fc f)) = Some f"
    using reduce_id [OF a assms(2)] by (cases f) simp
  ultimately show ?thesis using a c by (simp add: from_abd_def)
qed

lemma deserialize_form_posdef:
  assumes "deserialize_form G D bytes sz = ret f" and "D < 0"
  shows "posdef D f \<and> is_reduced f"
proof -
  obtain r :: "int + (int \<times> int)" where r: "(case r of Inl e \<Rightarrow> throw ''Deserializing compressed form failed''
       | Inr (a, b) \<Rightarrow> bind_res (from_abd a b D) (\<lambda>f.
             if \<not> is_reduced f then throw ''Form is not reduced'' else ret f)) = ret f"
    using assms(1) by (auto simp: deserialize_form_def ret_iff)
  then obtain a b where ab: "from_abd a b D = ret f"
    by (auto simp: ret_iff split: sum.splits prod.splits if_splits)
  then show ?thesis using assms(2) by (rule from_abd_posdef)
qed

lemma serialize_form_reduced: "0 < fa y \<Longrightarrow> is_reduced y \<Longrightarrow> serialize_form y d = Some (s, y') \<Longrightarrow> y' = y"
  by (auto simp: serialize_form_def ret_iff reduce_id)

lemma serialize_form_round_trip:
  assumes D: "good_disc D" and G: "gcdext_ok G" "gcdext_small G" and y: "posdef D y" "is_reduced y"
    and d: "num_bits D \<le> 1024" and t: "t_bound (fa y) (fb y) (num_bits D)"
  shows "\<exists>s. serialize_form y (num_bits D) = Some (s, y) \<and> length s = 100 \<and> deserialize_form G D s 100 = ret y"
proof -
  obtain s where s: "bqfc_serialize (replicate 100 0) (fa y) (fb y) (num_bits D) = Some s" "length s = 100"
    "bqfc_deserialize G D s 100 (num_bits D) = Some (Inr (fa y, fb y))"
    using bqfc_round_trip_aux [OF D G y refl d t, of "replicate 100 0"] by auto
  have "serialize_form y (num_bits D) = Some (s, y)"
    using s(1) reduce_id [OF posdefD(1) [OF y(1)] y(2)] by (simp add: serialize_form_def)
  moreover have "deserialize_form G D s 100 = ret y"
    using s(3) from_abd_reduced [OF y] y(2) by (simp add: deserialize_form_def)
  ultimately show ?thesis using s(2) by blast
qed

lemma get_B_reduced:
  assumes "get_B H P D x y = Some (B, x', y')" and "D < 0" and "posdef D x" and "posdef D y"
  shows "posdef D x'" "is_reduced x'" "same_class D x x'" "posdef D y'" "is_reduced y'" "same_class D y y'"
    and "is_reduced x \<Longrightarrow> x' = x" and "is_reduced y \<Longrightarrow> y' = y"
    and "prime_shape P 264 [263] B"
proof -
  have r: "reduce x = Some x'" "reduce y = Some y'"
    using assms(1) by (auto simp: get_B_def serialize_form_def ret_iff Let_def)
  show "posdef D x'" "is_reduced x'" "same_class D x x'"
    using reduce_returns [OF assms(3,2)] r by (metis option.inject)+
  show "posdef D y'" "is_reduced y'" "same_class D y y'"
    using reduce_returns [OF assms(4,2)] r by (metis option.inject)+
  show "is_reduced x \<Longrightarrow> x' = x" "is_reduced y \<Longrightarrow> y' = y"
    using r assms(3,4) reduce_id posdefD(1) by (metis option.inject)+
  obtain s where "HashPrime H P s 264 [263] = Some B"
    using assms(1) by (auto simp: get_B_def ret_iff Let_def)
  then show "prime_shape P 264 [263] B" by (rule HashPrime_shape) auto
qed

lemma challenge_pos: "prime_shape P 264 [263] B \<Longrightarrow> 2 ^ 263 \<le> B"
  unfolding prime_shape_def by (intro top_bit_lower) auto

subsection \<open>The equation a Wesolowski proof certifies\<close>

text \<open>\<open>y = \<pi>\<^sup>B x\<^sup>r\<close> in the class group, with \<open>r\<close> the remainder of
  \<open>2\<^sup>T\<close> modulo the challenge.\<close>

definition weso_equation :: "int \<Rightarrow> form \<Rightarrow> form \<Rightarrow> form \<Rightarrow> int \<Rightarrow> nat \<Rightarrow> bool" where
  "weso_equation D x y proof_form B iters \<longleftrightarrow>
     (\<exists>p q. posdef D p \<and> posdef D q \<and> class_pow D proof_form (nat B) p \<and>
        class_pow D x (nat (2 ^ iters mod B)) q \<and> class_mul D p q y)"

lemma weso_equation_unique:
  assumes "weso_equation D x y pf B n" and "weso_equation D x y' pf B n"
  shows "same_class D y y'"
proof -
  obtain p q p' q' where "class_pow D pf (nat B) p" "class_pow D x (nat (2 ^ n mod B)) q" "class_mul D p q y"
    "class_pow D pf (nat B) p'" "class_pow D x (nat (2 ^ n mod B)) q'" "class_mul D p' q' y'"
    using assms unfolding weso_equation_def by blast
  then show ?thesis
    by (meson class_mul_cong class_mul_unique class_pow_unique same_class_refl)
qed

text \<open>An honest proof satisfies it: \<open>B \<lfloor>2\<^sup>T / B\<rfloor> + (2\<^sup>T mod B) = 2\<^sup>T\<close>.\<close>

lemma honest_exponent: "0 < B \<Longrightarrow> nat (2 ^ n div B) * nat B + nat (2 ^ n mod B) = 2 ^ n"
proof -
  assume B: "0 < B"
  have "int (nat (2 ^ n div B) * nat B + nat (2 ^ n mod B)) = 2 ^ n div B * B + 2 ^ n mod B"
    using B by (simp add: pos_imp_zdiv_nonneg_iff)
  also have "\<dots> = int (2 ^ n)" by simp
  finally show ?thesis by (simp only: of_nat_eq_iff)
qed

lemma honest_weso_equation:
  assumes D: "good_disc D" and x: "posdef D x" and B: "0 < B"
    and p: "posdef D p" "class_pow D pf (nat B) p" and q: "posdef D q" "class_pow D x (nat (2 ^ n mod B)) q"
    and pf: "class_pow D x (nat (2 ^ n div B)) pf" and y: "class_mul D p q y"
  shows "class_pow D x (2 ^ n) y"
  using class_pow_add [OF D x class_pow_mult [OF D x pf p(2)] q(2) y] honest_exponent [OF B, of n] by simp

end
