(* ===== verification/Util.thy ===== *)
theory Util
  imports Bytes Forms
begin

unbundle bit_operations_syntax

section \<open>\<open>util.h\<close>: segments, byte order and proofs\<close>

text \<open>
  \<open>Segment\<close> with its ordering and bucket, the big-endian conversions, and
  \<open>Proof::hex\<close>.  Unsigned 64-bit fields are words; \<open>bswap_64\<close> followed by a copy to
  memory writes the bytes of its operand most significant first, whatever the byte order of
  the little-endian hosts the program targets.
\<close>

record segment =
  seg_start :: "64 word"
  seg_length :: "64 word"
  seg_x :: form
  seg_y :: form
  seg_proof :: form
  seg_empty :: bool

definition IsWorseThan :: "segment \<Rightarrow> segment \<Rightarrow> bool" where
  "IsWorseThan s other =
     (if seg_empty s then \<not> seg_empty other
      else if seg_length s > seg_length other then True
      else if seg_length s < seg_length other then False
      else seg_start s > seg_start other)"

text \<open>The loop of \<open>GetSegmentBucket\<close>; the warning it prints is the second result.\<close>

function bucket_loop :: "64 word \<Rightarrow> nat \<Rightarrow> bool \<Rightarrow> nat \<times> bool" where
  "bucket_loop len index warn =
     (if len > 1 then bucket_loop (drop_bit 2 len) (index + 1) (warn \<or> len = 2 \<or> len = 3)
      else (index, warn))"
  by pat_completeness auto
termination
proof (relation "measure (\<lambda>(len, index, warn). unat len)")
  fix len :: "64 word" and index :: nat and warn :: bool
  assume "1 < len"
  then have "0 < unat len" by (simp add: word_less_nat_alt)
  then have "unat (drop_bit 2 len) < unat len" by (simp only: unat_drop_bit_eq) (simp add: drop_bit_eq_div)
  then show "((drop_bit 2 len, index + 1, warn \<or> len = 2 \<or> len = 3), (len, index, warn))
      \<in> measure (\<lambda>(len, index, warn). unat len)"
    by simp
qed simp

declare bucket_loop.simps [simp del]

definition GetSegmentBucket :: "segment \<Rightarrow> nat \<times> segment" where
  "GetSegmentBucket s =
     (let c_length = seg_length s;
          s' = s\<lparr>seg_length := drop_bit 16 (seg_length s)\<rparr>;
          index = fst (bucket_loop (seg_length s') 0 False)
      in (index, s'\<lparr>seg_length := c_length\<rparr>))"

text \<open>\<open>memcpy\<close> between a word and memory on a little-endian host.\<close>

primrec le_fixed :: "nat \<Rightarrow> nat \<Rightarrow> byte list" where
  "le_fixed 0 v = []"
| "le_fixed (Suc n) v = of_nat v # le_fixed n (v div 256)"

definition bswap_64 :: "64 word \<Rightarrow> 64 word" where
  "bswap_64 x = of_nat (le_value (rev (le_fixed 8 (unat x))))"

definition bswap_32 :: "32 word \<Rightarrow> 32 word" where
  "bswap_32 x = of_nat (le_value (rev (le_fixed 4 (unat x))))"

definition Int64ToBytes :: "64 word \<Rightarrow> byte list" where
  "Int64ToBytes x = le_fixed 8 (unat (bswap_64 x))"

definition Int32ToBytes :: "32 word \<Rightarrow> byte list" where
  "Int32ToBytes x = le_fixed 4 (unat (bswap_32 x))"

definition BytesToInt64 :: "byte list \<Rightarrow> 64 word option" where
  "BytesToInt64 bs =
     (if length bs < 8 then None else Some (bswap_64 (of_nat (le_value (take 8 bs)))))"

text \<open>Two lower-case hexadecimal digits per byte.\<close>

definition hex_digit :: "nat \<Rightarrow> char" where
  "hex_digit n = (if n < 10 then char_of (48 + n) else char_of (87 + n))"

definition BytesToStr :: "byte list \<Rightarrow> string" where
  "BytesToStr bs = concat (map (\<lambda>b. [hex_digit (unat b div 16), hex_digit (unat b mod 16)]) bs)"

record wproof =
  proof_y :: "byte list"
  proof_proof :: "byte list"
  proof_witness_type :: nat

definition proof_hex :: "wproof \<Rightarrow> string" where
  "proof_hex p = BytesToStr (proof_y p @ proof_proof p)"

subsection \<open>Byte order\<close>

lemma length_le_fixed [simp]: "length (le_fixed n v) = n"
  by (induction n arbitrary: v) simp_all

lemma le_value_fixed: "le_value (le_fixed n v) = v mod 256 ^ n"
proof (induction n arbitrary: v)
  case (Suc n)
  have "v mod (256 * 256 ^ n) = 256 * (v div 256 mod 256 ^ n) + v mod 256"
    by (rule mod_mult2_eq)
  then show ?case using Suc by simp
qed simp

lemma le_fixed_value: "le_fixed (length bs) (le_value bs) = bs"
proof (induction bs)
  case (Cons b bs)
  have "(unat b + 256 * le_value bs) div 256 = le_value bs"
    using unat_byte_less [of b] by simp
  moreover have "(of_nat (unat b + 256 * le_value bs) :: byte) = b"
    by (rule word_unat_eq_iff [THEN iffD2]) (simp only: unat_of_nat, simp)
  ultimately show ?case using Cons by simp
qed simp

lemma bswap_64_bytes: "le_fixed 8 (unat (bswap_64 x)) = rev (le_fixed 8 (unat x))"
proof -
  let ?r = "rev (le_fixed 8 (unat x))"
  have "le_value ?r < 2 ^ 64" using le_value_bound [of ?r] by simp
  then have "unat (bswap_64 x) = le_value ?r" unfolding bswap_64_def by (simp add: unat_of_nat)
  then show ?thesis using le_fixed_value [of ?r] by simp
qed

lemma bswap_64_involutive: "bswap_64 (bswap_64 x) = x"
proof -
  have "unat x < 2 ^ 64" using unsigned_less [of x] by simp
  then have "le_value (le_fixed 8 (unat x)) = unat x" by (simp add: le_value_fixed)
  then show ?thesis unfolding bswap_64_def [of "bswap_64 x"] bswap_64_bytes by simp
qed

lemma Int64_big_endian: "be_value (Int64ToBytes x) = unat x"
proof -
  have "unat x < 2 ^ 64" using unsigned_less [of x] by simp
  then show ?thesis by (simp add: Int64ToBytes_def bswap_64_bytes be_value_def le_value_fixed)
qed

lemma length_Int64ToBytes [simp]: "length (Int64ToBytes x) = 8"
  by (simp add: Int64ToBytes_def)

lemma Int64_round_trip_aux: "BytesToInt64 (Int64ToBytes x @ rest) = Some x"
proof -
  have "unat (bswap_64 x) < 2 ^ 64" using unsigned_less [of "bswap_64 x"] by simp
  then have "le_value (Int64ToBytes x) = unat (bswap_64 x)" by (simp add: Int64ToBytes_def le_value_fixed)
  then show ?thesis by (simp add: BytesToInt64_def bswap_64_involutive)
qed

lemma hex_length: "length (BytesToStr bs) = 2 * length bs"
  by (induction bs) (simp_all add: BytesToStr_def)

subsection \<open>Segments\<close>

fun bucket_of :: "nat \<Rightarrow> nat" where
  "bucket_of n = (if n > 1 then Suc (bucket_of (n div 4)) else 0)"

declare bucket_of.simps [simp del]

lemma bucket_loop_index: "fst (bucket_loop len index warn) = index + bucket_of (unat len)"
proof (induction len index warn rule: bucket_loop.induct)
  case (1 len index warn)
  have "1 < len \<longleftrightarrow> 1 < unat len" by (simp add: word_less_nat_alt)
  moreover have "unat (drop_bit 2 len) = unat len div 4"
    by (simp only: unat_drop_bit_eq) (simp add: drop_bit_eq_div)
  ultimately show ?case
    using 1 by (simp add: bucket_loop.simps [of len] bucket_of.simps [of "unat len"])
qed

lemma bucket_of_pow4: "bucket_of (4 ^ k) = k"
proof (induction k)
  case 0
  show ?case by (simp add: bucket_of.simps)
next
  case (Suc k)
  have "(1 :: nat) < 4 ^ Suc k" by (rule one_less_power) auto
  then show ?case using Suc by (simp add: bucket_of.simps [of "4 * 4 ^ k"])
qed

lemma segment_bucket_aux:
  assumes "k \<le> 23" and "unat (seg_length s) = 2 ^ (16 + 2 * k)"
  shows "GetSegmentBucket s = (k, s)"
proof -
  have "unat (drop_bit 16 (seg_length s)) = 2 ^ (16 + 2 * k) div 2 ^ 16"
    by (simp only: unat_drop_bit_eq assms(2)) (simp add: drop_bit_eq_div)
  also have "\<dots> = 4 ^ k" by (simp add: power_add power_mult)
  finally show ?thesis
    by (simp add: GetSegmentBucket_def Let_def bucket_loop_index bucket_of_pow4)
qed

text \<open>Comparing segments is a strict weak order in which an empty segment is worst.\<close>

lemma IsWorseThan_irrefl: "\<not> IsWorseThan s s"
  by (simp add: IsWorseThan_def)

lemma IsWorseThan_asym: "IsWorseThan s t \<Longrightarrow> \<not> seg_empty s \<Longrightarrow> \<not> seg_empty t \<Longrightarrow> \<not> IsWorseThan t s"
  by (auto simp: IsWorseThan_def split: if_splits)

lemma IsWorseThan_trans:
  "IsWorseThan s t \<Longrightarrow> IsWorseThan t u \<Longrightarrow> \<not> seg_empty t \<Longrightarrow> \<not> seg_empty u \<Longrightarrow> IsWorseThan s u"
  by (auto simp: IsWorseThan_def split: if_splits)

end
