(* ===== verification/Outcome.thy ===== *)
theory Outcome
  imports Prelude
begin

section \<open>Loops over results and a calculus of outcomes\<close>

text \<open>
  \<open>fold_res\<close> runs a loop body that may fail over the values of its counter.
  \<open>holds t Q m\<close> reads: if \<open>m\<close> returns, then with a result that satisfies
  \<open>Q\<close>; the only error is an early stop; and if \<open>t\<close> is set, \<open>m\<close> does
  return: it does not stop early, diverge or hit undefined behaviour.  One proof in this
  calculus gives partial and total correctness.
\<close>

primrec fold_res :: "('b \<Rightarrow> 'a \<Rightarrow> 'a res) \<Rightarrow> 'b list \<Rightarrow> 'a \<Rightarrow> 'a res" where
  "fold_res f [] s = ret s"
| "fold_res f (x # xs) s = bind_res (f x s) (fold_res f xs)"

lemma bind_res_assoc: "bind_res (bind_res m k) k' = bind_res m (\<lambda>x. bind_res (k x) k')"
  by (simp add: bind_res_def split: option.splits sum.splits)

definition holds :: "bool \<Rightarrow> ('a \<Rightarrow> bool) \<Rightarrow> 'a res \<Rightarrow> bool" where
  "holds t Q m \<longleftrightarrow>
     (case m of None \<Rightarrow> \<not> t | Some (Inl e) \<Rightarrow> e = Stopped \<and> \<not> t | Some (Inr x) \<Rightarrow> Q x)"

lemma holds_ret [simp]: "holds t Q (ret x) \<longleftrightarrow> Q x"
  by (simp add: holds_def ret_def)

lemma holds_None [simp]: "holds t Q None \<longleftrightarrow> \<not> t"
  by (simp add: holds_def)

lemma holds_stopped [simp]: "holds t Q (Some (Inl Stopped)) \<longleftrightarrow> \<not> t"
  by (simp add: holds_def)

lemma holds_bind:
  assumes "holds t Q m" and "\<And>x. Q x \<Longrightarrow> holds t R (k x)"
  shows "holds t R (bind_res m k)"
proof (cases m)
  case (Some r)
  then show ?thesis using assms by (cases r) (simp_all add: holds_def bind_res_def)
qed (use assms(1) in simp)

lemma holds_mono: "holds t Q m \<Longrightarrow> (\<And>x. Q x \<Longrightarrow> R x) \<Longrightarrow> holds t R m"
  by (auto simp: holds_def split: option.splits sum.splits)

lemma holds_lift: "(\<And>x. m = Some x \<Longrightarrow> Q x) \<Longrightarrow> (t \<Longrightarrow> \<exists>x. m = Some x) \<Longrightarrow> holds t Q (lift_opt m)"
  by (cases m) auto

lemma holds_partialI: "(\<And>x. m = ret x \<Longrightarrow> Q x) \<Longrightarrow> (t \<Longrightarrow> \<exists>x. m = ret x) \<Longrightarrow>
    (\<And>e. m = Some (Inl e) \<Longrightarrow> e = Stopped) \<Longrightarrow> holds t Q m"
  by (cases t) (auto simp: holds_def ret_def split: option.splits sum.splits)

lemma holdsD: "holds t Q m \<Longrightarrow> m = ret x \<Longrightarrow> Q x"
  by simp

lemma holds_total: "holds True Q m \<Longrightarrow> \<exists>x. m = ret x \<and> Q x"
  by (auto simp: holds_def ret_def split: option.splits sum.splits)

text \<open>The same for code that cannot be stopped: \<open>settles t Q m\<close> excludes every error, so that
  nothing but a run that does not return is left when \<open>t\<close> is not set.\<close>

definition settles :: "bool \<Rightarrow> ('a \<Rightarrow> bool) \<Rightarrow> 'a res \<Rightarrow> bool" where
  "settles t Q m \<longleftrightarrow> (case m of None \<Rightarrow> \<not> t | Some (Inl e) \<Rightarrow> False | Some (Inr x) \<Rightarrow> Q x)"

lemma settles_ret [simp]: "settles t Q (ret x) \<longleftrightarrow> Q x"
  by (simp add: settles_def ret_def)

lemma settles_None [simp]: "settles t Q None \<longleftrightarrow> \<not> t"
  by (simp add: settles_def)

lemma settles_bind:
  assumes "settles t Q m" and "\<And>x. Q x \<Longrightarrow> settles t R (k x)"
  shows "settles t R (bind_res m k)"
proof (cases m)
  case (Some r)
  then show ?thesis using assms by (cases r) (simp_all add: settles_def bind_res_def)
qed (use assms(1) in simp)

lemma settlesI: "(\<And>x. m = ret x \<Longrightarrow> Q x) \<Longrightarrow> (t \<Longrightarrow> \<exists>x. m = ret x) \<Longrightarrow> (\<And>e. m \<noteq> Some (Inl e)) \<Longrightarrow> settles t Q m"
  by (cases t) (auto simp: settles_def ret_def split: option.splits sum.splits)

lemma settles_total: "settles True Q m \<Longrightarrow> \<exists>x. m = ret x \<and> Q x"
  by (auto simp: settles_def ret_def split: option.splits sum.splits)

lemma settles_partial: "settles False (\<lambda>b. b) m \<Longrightarrow> m = None \<or> m = ret True"
  by (auto simp: settles_def ret_def split: option.splits sum.splits)

text \<open>The invariant rule for a counting loop.\<close>

lemma holds_fold_aux:
  assumes "P m s" and "m \<le> n"
    and step: "\<And>i s. m \<le> i \<Longrightarrow> i < n \<Longrightarrow> P i s \<Longrightarrow> holds t (P (Suc i)) (f i s)"
  shows "holds t (P n) (fold_res f [m..<n] s)"
  using assms(2,1) step
proof (induction m arbitrary: s rule: inc_induct)
  case (step m)
  have "holds t (P n) (bind_res (f m s) (fold_res f [Suc m..<n]))"
  proof (rule holds_bind)
    show "holds t (P (Suc m)) (f m s)" using step by simp
    show "holds t (P n) (fold_res f [Suc m..<n] x)" if "P (Suc m) x" for x
      using step that by simp
  qed
  then show ?case using step(2) by (simp add: upt_rec)
qed simp

lemma holds_fold:
  assumes "P 0 s" and "\<And>i s. i < n \<Longrightarrow> P i s \<Longrightarrow> holds t (P (Suc i)) (f i s)"
  shows "holds t (P n) (fold_res f [0..<n] s)"
  by (rule holds_fold_aux) (use assms in auto)

text \<open>The same for a loop that counts down.\<close>

lemma holds_fold_down:
  assumes "P n s" and "\<And>i s. m \<le> i \<Longrightarrow> i < n \<Longrightarrow> P (Suc i) s \<Longrightarrow> holds t (P i) (f i s)" and "m \<le> n"
  shows "holds t (P m) (fold_res f (rev [m..<n]) s)"
  using assms(3,1,2)
proof (induction n arbitrary: s rule: dec_induct)
  case (step n)
  have "holds t (P m) (bind_res (f n s) (fold_res f (rev [m..<n])))"
  proof (rule holds_bind)
    show "holds t (P n) (f n s)" using step by simp
    show "holds t (P m) (fold_res f (rev [m..<n]) x)" if "P n x" for x
      using step that by simp
  qed
  then show ?case using step(1) by simp
qed simp

end
