(* ===== verification/Verifier.thy ===== *)
theory Verifier
  imports ProofCommon Util Outcome
begin

section \<open>The verifier: \<open>verifier.h\<close>\<close>

text \<open>
  \<open>VerifyWesoSegment\<close> recomputes the end of a segment from its proof and its challenge,
  \<open>VerifyWesolowskiProof\<close> compares with a given end, and the \<open>CheckProofOfTime\<close>
  functions walk over the segments of a proof blob from its end to its beginning.  The
  environment of all of them (extended gcd, hash, primality test, reducer) is passed as
  \<open>G\<close>, \<open>H\<close>, \<open>P\<close> and \<open>red\<close>.  Reads outside the blob, an
  \<open>int32_t\<close> overflow and the fourth root of a negative number are \<open>None\<close>.
\<close>

subsection \<open>The code\<close>

definition root4 :: "int \<Rightarrow> int option" where
  "root4 n = (if n < 0 then None else Some (iroot4 n))"

text \<open>The body all verifiers share: \<open>f1 * f2\<close>.\<close>

definition weso_product ::
  "gcdext \<Rightarrow> (form \<Rightarrow> form option) \<Rightarrow> int \<Rightarrow> form \<Rightarrow> form \<Rightarrow> int \<Rightarrow> nat \<Rightarrow> form res" where
  "weso_product G red D x proof_form B iters =
     bind_res (lift_opt (root4 (- D))) (\<lambda>L.
     bind_res (fast_pow 2 iters B) (\<lambda>r.
     bind_res (fast_pow_form G red proof_form D B L) (\<lambda>f1.
     bind_res (fast_pow_form G red x D r L) (\<lambda>f2.
     lift_opt (form_times G False f1 f2)))))"

definition VerifyWesoSegment ::
  "gcdext \<Rightarrow> (byte list \<Rightarrow> byte list) \<Rightarrow> (int \<Rightarrow> bool) \<Rightarrow> (form \<Rightarrow> form option) \<Rightarrow>
   int \<Rightarrow> form \<Rightarrow> form \<Rightarrow> int \<Rightarrow> nat \<Rightarrow> (int \<times> form) res" where
  "VerifyWesoSegment G H P red D x proof_form B iters =
     bind_res (weso_product G red D x proof_form B iters) (\<lambda>out_y.
     bind_res (lift_opt (get_B H P D x out_y)) (\<lambda>(B', x', out_y').
     ret (if B = B' then 0 else - 1, out_y')))"

definition VerifyWesolowskiProof ::
  "gcdext \<Rightarrow> (byte list \<Rightarrow> byte list) \<Rightarrow> (int \<Rightarrow> bool) \<Rightarrow> (form \<Rightarrow> form option) \<Rightarrow>
   int \<Rightarrow> form \<Rightarrow> form \<Rightarrow> form \<Rightarrow> nat \<Rightarrow> bool res" where
  "VerifyWesolowskiProof G H P red D x y proof_form iters =
     bind_res (lift_opt (root4 (- D))) (\<lambda>L.
     bind_res (lift_opt (get_B H P D x y)) (\<lambda>(B, x', y').
     bind_res (fast_pow 2 iters B) (\<lambda>r.
     bind_res (fast_pow_form G red proof_form D B L) (\<lambda>f1.
     bind_res (fast_pow_form G red x' D r L) (\<lambda>f2.
     bind_res (lift_opt (form_times G False f1 f2)) (\<lambda>f.
     ret (f = y')))))))"

text \<open>Reading at an offset of the blob; the slice may run to its end.\<close>

definition blob_at :: "byte list \<Rightarrow> int \<Rightarrow> byte list option" where
  "blob_at blob i = (if 0 \<le> i \<and> nat i \<le> length blob then Some (drop (nat i) blob) else None)"

definition blob_integer :: "byte list \<Rightarrow> int \<Rightarrow> nat \<Rightarrow> int option" where
  "blob_integer blob i n =
     (case blob_at blob i of
        None \<Rightarrow> None
      | Some bs \<Rightarrow> if length bs < n then None else Some (integer_of_bytes (take n bs)))"

abbreviation form_size :: int where
  "form_size \<equiv> 100"

abbreviation segment_len :: int where
  "segment_len \<equiv> 8 + 33 + 100"

definition deserialize_at :: "gcdext \<Rightarrow> int \<Rightarrow> byte list \<Rightarrow> int \<Rightarrow> form res" where
  "deserialize_at G D blob i =
     bind_res (lift_opt (blob_at blob i)) (\<lambda>bs. deserialize_form G D bs BQFC_FORM_SIZE)"

text \<open>One segment of the blob: its iterations, its challenge and its proof.\<close>

definition read_segment :: "gcdext \<Rightarrow> int \<Rightarrow> byte list \<Rightarrow> int \<Rightarrow> (nat \<times> int \<times> form) res" where
  "read_segment G D blob i =
     bind_res (lift_opt (Option.bind (blob_at blob i) BytesToInt64)) (\<lambda>segment_iters.
     bind_res (deserialize_at G D blob (i + 8 + int B_bytes)) (\<lambda>proof_form.
     bind_res (lift_opt (blob_integer blob (i + 8) B_bytes)) (\<lambda>B.
     ret (unat segment_iters, B, proof_form))))"

text \<open>The loop of \<open>CheckProofOfTimeNWesolowskiCommon\<close>, which
  \<open>CheckProofOfTimeNWesolowski\<close> repeats with \<open>skip_check\<close> false and
  \<open>last_segment\<close> at two forms.  The result is \<open>None\<close> for \<open>return false\<close> and
  otherwise the new \<open>x\<close> and \<open>iterations\<close>.\<close>

function segment_loop ::
  "gcdext \<Rightarrow> (byte list \<Rightarrow> byte list) \<Rightarrow> (int \<Rightarrow> bool) \<Rightarrow> (form \<Rightarrow> form option) \<Rightarrow>
   int \<Rightarrow> byte list \<Rightarrow> int \<Rightarrow> bool \<Rightarrow> int \<Rightarrow> form \<Rightarrow> nat \<Rightarrow> (form \<times> nat) option res" where
  "segment_loop G H P red D blob last_segment skip_check i x iterations =
     (if i < last_segment then ret (Some (x, iterations))
      else if i < 0 then None
      else bind_res (read_segment G D blob i) (\<lambda>(segment_iters, B, proof_form).
        bind_res
          (if \<not> skip_check
           then bind_res (VerifyWesoSegment G H P red D x proof_form B segment_iters)
                  (\<lambda>(status, xnew). ret (if status \<noteq> 0 then None else Some xnew))
           else bind_res (weso_product G red D x proof_form B segment_iters) (\<lambda>xnew. ret (Some xnew)))
          (\<lambda>r. case r of
             None \<Rightarrow> ret None
           | Some xnew \<Rightarrow>
               if segment_iters > iterations then ret None
               else segment_loop G H P red D blob last_segment skip_check (i - segment_len) xnew
                      (iterations - segment_iters))))"
  by pat_completeness auto
termination
  by (relation "measure (\<lambda>(G, H, P, red, D, blob, last_segment, skip_check, i, x, iterations). nat (i + 1))") auto

declare segment_loop.simps [simp del]

text \<open>The length a blob must have, computed in \<open>int32_t\<close>.\<close>

definition blob_length :: "int \<Rightarrow> int \<Rightarrow> int option" where
  "blob_length forms depth =
     (let n = forms * form_size + depth * segment_len in
      if - (2 ^ 31) \<le> depth * segment_len \<and> depth * segment_len < 2 ^ 31 \<and> n < 2 ^ 31 then Some n else None)"

definition CheckProofOfTimeNWesolowski ::
  "gcdext \<Rightarrow> (byte list \<Rightarrow> byte list) \<Rightarrow> (int \<Rightarrow> bool) \<Rightarrow> (form \<Rightarrow> form option) \<Rightarrow>
   int \<Rightarrow> byte list \<Rightarrow> byte list \<Rightarrow> int \<Rightarrow> nat \<Rightarrow> int \<Rightarrow> bool res" where
  "CheckProofOfTimeNWesolowski G H P red D x_s proof_blob proof_blob_len iterations depth =
     bind_res (deserialize_form G D x_s BQFC_FORM_SIZE) (\<lambda>x.
     bind_res (lift_opt (blob_length 2 depth)) (\<lambda>expected.
     if proof_blob_len \<noteq> expected then ret False
     else bind_res (segment_loop G H P red D proof_blob (2 * form_size) False
                      (proof_blob_len - segment_len) x iterations) (\<lambda>r.
       case r of
         None \<Rightarrow> ret False
       | Some (x, iterations) \<Rightarrow>
           bind_res (deserialize_at G D proof_blob 0) (\<lambda>y.
           bind_res (deserialize_at G D proof_blob form_size) (\<lambda>proof_form.
           VerifyWesolowskiProof G H P red D x y proof_form iterations)))))"

definition CheckProofOfTimeNWesolowskiCommon ::
  "gcdext \<Rightarrow> (byte list \<Rightarrow> byte list) \<Rightarrow> (int \<Rightarrow> bool) \<Rightarrow> (form \<Rightarrow> form option) \<Rightarrow>
   int \<Rightarrow> form \<Rightarrow> byte list \<Rightarrow> int \<Rightarrow> nat \<Rightarrow> int \<Rightarrow> bool \<Rightarrow> (form \<times> nat) option res" where
  "CheckProofOfTimeNWesolowskiCommon G H P red D x proof_blob proof_blob_len iterations last_segment skip_check =
     segment_loop G H P red D proof_blob last_segment skip_check (proof_blob_len - segment_len) x iterations"

definition CheckProofOfTimeNWesolowskiWithB ::
  "gcdext \<Rightarrow> (byte list \<Rightarrow> byte list) \<Rightarrow> (int \<Rightarrow> bool) \<Rightarrow> (form \<Rightarrow> form option) \<Rightarrow>
   int \<Rightarrow> int \<Rightarrow> byte list \<Rightarrow> byte list \<Rightarrow> int \<Rightarrow> nat \<Rightarrow> int \<Rightarrow> (bool \<times> byte list) res" where
  "CheckProofOfTimeNWesolowskiWithB G H P red D B x_s proof_blob proof_blob_len iterations depth =
     bind_res (deserialize_form G D x_s BQFC_FORM_SIZE) (\<lambda>x.
     bind_res (lift_opt (blob_length 1 depth)) (\<lambda>expected.
     if proof_blob_len \<noteq> expected then ret (False, [])
     else bind_res (CheckProofOfTimeNWesolowskiCommon G H P red D x proof_blob proof_blob_len iterations
                      form_size False) (\<lambda>r.
       case r of
         None \<Rightarrow> ret (False, [])
       | Some (x, iterations) \<Rightarrow>
           bind_res (deserialize_at G D proof_blob 0) (\<lambda>proof_form.
           bind_res (VerifyWesoSegment G H P red D x proof_form B iterations) (\<lambda>(status, y_result).
           if status = - 1 then ret (False, [])
           else bind_res (lift_opt (serialize_form y_result (num_bits D))) (\<lambda>(result, y').
             ret (True, result)))))))"

definition GetBFromProof ::
  "gcdext \<Rightarrow> (byte list \<Rightarrow> byte list) \<Rightarrow> (int \<Rightarrow> bool) \<Rightarrow> (form \<Rightarrow> form option) \<Rightarrow>
   int \<Rightarrow> byte list \<Rightarrow> byte list \<Rightarrow> int \<Rightarrow> nat \<Rightarrow> int \<Rightarrow> int res" where
  "GetBFromProof G H P red D x_s proof_blob proof_blob_len iterations depth =
     bind_res (deserialize_form G D x_s BQFC_FORM_SIZE) (\<lambda>x.
     bind_res (lift_opt (blob_length 2 depth)) (\<lambda>expected.
     if proof_blob_len \<noteq> expected then throw ''Invalid proof.''
     else bind_res (CheckProofOfTimeNWesolowskiCommon G H P red D x proof_blob proof_blob_len iterations
                      (2 * form_size) True) (\<lambda>r.
       case r of
         None \<Rightarrow> throw ''Invalid proof.''
       | Some (x, iterations) \<Rightarrow>
           bind_res (deserialize_at G D proof_blob 0) (\<lambda>y.
           bind_res (lift_opt (get_B H P D x y)) (\<lambda>(B, x', y'). ret B)))))"

subsection \<open>What an accepted segment certifies\<close>

text \<open>A path along the segments \<open>(iterations, B, proof)\<close>: every segment satisfies the equation of
  its proof for its own challenge, which is the one derived from its two ends, both reduced.\<close>

inductive weso_path ::
  "(byte list \<Rightarrow> byte list) \<Rightarrow> (int \<Rightarrow> bool) \<Rightarrow> int \<Rightarrow> form \<Rightarrow> (nat \<times> int \<times> form) list \<Rightarrow> form \<Rightarrow> bool"
  for H P D where
  here: "weso_path H P D x [] x"
| step: "posdef D pf \<Longrightarrow> get_B H P D x y = Some (B, x, y) \<Longrightarrow> weso_equation D x y pf B n \<Longrightarrow>
    weso_path H P D y segs z \<Longrightarrow> weso_path H P D x ((n, B, pf) # segs) z"

inductive_cases weso_path_stepE: "weso_path H P D x (s # segs) z"
inductive_cases weso_path_hereE: "weso_path H P D x [] z"

definition path_iters :: "(nat \<times> int \<times> form) list \<Rightarrow> nat" where
  "path_iters segs = sum_list (map fst segs)"

lemma path_iters_simps [simp]:
  "path_iters [] = 0" "path_iters (s # segs) = fst s + path_iters segs"
  "path_iters (segs @ segs') = path_iters segs + path_iters segs'"
  by (simp_all add: path_iters_def)

lemma weso_path_append:
  "weso_path H P D x segs y \<Longrightarrow> weso_path H P D y segs' z \<Longrightarrow> weso_path H P D x (segs @ segs') z"
  by (induction rule: weso_path.induct) (simp_all add: weso_path.step)

lemma weso_path_last:
  assumes "posdef D pf" and "get_B H P D x y = Some (B, x, y)" and "weso_equation D x y pf B n"
  shows "weso_path H P D x [(n, B, pf)] y"
  by (rule weso_path.step [OF assms weso_path.here])

text \<open>What the loop reads: one segment every 141 bytes, backwards from offset \<open>i\<close>, the last one
  it can read above \<open>lst\<close>.\<close>

definition blob_segments :: "gcdext \<Rightarrow> int \<Rightarrow> byte list \<Rightarrow> int \<Rightarrow> (nat \<times> int \<times> form) list \<Rightarrow> bool" where
  "blob_segments G D blob i segs \<longleftrightarrow>
     (\<forall>j<length segs. read_segment G D blob (i - segment_len * int j) = ret (segs ! j))"

lemma blob_segments_Cons:
  assumes "read_segment G D blob i = ret s" and "blob_segments G D blob (i - segment_len) segs"
  shows "blob_segments G D blob i (s # segs)"
  unfolding blob_segments_def
proof (intro allI impI)
  fix j assume j: "j < length (s # segs)"
  show "read_segment G D blob (i - segment_len * int j) = ret ((s # segs) ! j)"
  proof (cases j)
    case (Suc k)
    have "i - segment_len * int j = i - segment_len - segment_len * int k" by (simp add: Suc)
    then show ?thesis using assms(2) j unfolding blob_segments_def by (simp only: Suc nth_Cons_Suc) simp
  qed (use assms(1) in simp)
qed

context reducer_sound
begin

lemma weso_product_sound:
  assumes D: "good_disc D" and G: "gcdext_ok G" and x: "posdef D x" and pf: "posdef D pf" and B: "0 \<le> B"
    and r: "weso_product G red D x pf B n = ret y"
  shows "posdef D y \<and> is_reduced y \<and> 0 < B \<and> weso_equation D x y pf B n"
proof -
  obtain L e f1 f2 where e: "fast_pow 2 n B = ret e" and f1: "fast_pow_form G red pf D B L = ret f1"
    and f2: "fast_pow_form G red x D e L = ret f2" and y: "multiply G f1 f2 = Some y"
    using r by (auto simp: weso_product_def ret_iff form_times_def)
  have B0: "0 < B" and e': "e = 2 ^ n mod B" using e B by (auto simp: fast_pow_def split: if_splits)
  have s1: "posdef D f1" "class_pow D pf (nat B) f1" using fast_pow_form_sound [OF D G pf B f1] by auto
  have s2: "posdef D f2" "class_pow D x (nat (2 ^ n mod B)) f2"
    using fast_pow_form_sound [OF D G x _ f2] e' B0 by auto
  obtain y' where "multiply G f1 f2 = Some y'" "posdef D y'" "is_reduced y'" "class_mul D f1 f2 y'"
    using multiply_correct [OF D G s1(1) s2(1)] by blast
  then show ?thesis using y s1 s2 B0 unfolding weso_equation_def by auto
qed

lemma verify_segment_sound:
  assumes D: "good_disc D" and G: "gcdext_ok G" and x: "posdef D x" "is_reduced x" and pf: "posdef D pf"
    and B: "0 \<le> B" and r: "VerifyWesoSegment G H P red D x pf B n = ret (0, y)"
  shows "posdef D y \<and> is_reduced y \<and> get_B H P D x y = Some (B, x, y) \<and> weso_equation D x y pf B n"
proof -
  obtain z B' x' where z: "weso_product G red D x pf B n = ret z" and g: "get_B H P D x z = Some (B', x', y)"
    and st: "(if B = B' then 0 else (- 1 :: int)) = 0"
    using r by (auto simp: VerifyWesoSegment_def ret_iff)
  have zs: "posdef D z" "is_reduced z" "weso_equation D x z pf B n"
    using weso_product_sound [OF D G x(1) pf B z] by auto
  have "x' = x" "y = z" using get_B_reduced(7,8) [OF g _ x(1) zs(1)] D x(2) zs(2) by auto
  then show ?thesis using zs g st by (auto split: if_splits)
qed

lemma verify_proof_iff:
  assumes D: "good_disc D" and G: "gcdext_ok G" and x: "posdef D x" and y: "posdef D y" and pf: "posdef D pf"
    and r: "VerifyWesolowskiProof G H P red D x y pf n = ret b"
  shows "\<exists>B x' y'. get_B H P D x y = Some (B, x', y') \<and> 2 ^ 263 \<le> B \<and> (b \<longleftrightarrow> weso_equation D x y' pf B n)"
proof -
  have D0: "D < 0" using D by simp
  obtain L B x' y' e f1 f2 f where L: "root4 (- D) = Some L" and g: "get_B H P D x y = Some (B, x', y')"
    and rest: "fast_pow 2 n B = ret e" "fast_pow_form G red pf D B L = ret f1"
    "fast_pow_form G red x' D e L = ret f2" "form_times G False f1 f2 = Some f" and b: "b \<longleftrightarrow> f = y'"
    using r by (auto simp: VerifyWesolowskiProof_def ret_iff)
  note s = get_B_reduced [OF g D0 x y]
  have B: "2 ^ 263 \<le> B" using s(9) by (rule challenge_pos)
  have w: "weso_product G red D x' pf B n = ret f" using L rest by (simp add: weso_product_def)
  have f: "posdef D f" "is_reduced f" "weso_equation D x' f pf B n"
    using weso_product_sound [OF D G s(1) pf _ w] B by auto
  have base: "weso_equation D x f pf B n"
    using f(3) class_pow_base [OF same_class_sym [OF s(3)]] unfolding weso_equation_def by blast
  have "weso_equation D x y' pf B n \<longleftrightarrow> f = y'"
    using base weso_equation_unique [OF base] reduced_unique [OF D0 f(1,2) s(4,5)] by blast
  then show ?thesis using g B b by blast
qed

lemma read_segment_posdef:
  assumes "read_segment G D blob i = ret (n, B, pf)" and "D < 0"
  shows "posdef D pf \<and> 0 \<le> B"
  using assms deserialize_form_posdef
  by (auto simp: read_segment_def deserialize_at_def blob_integer_def integer_of_bytes_def ret_iff
      split: option.splits if_splits)

lemma segment_loop_sound:
  assumes D: "good_disc D" and G: "gcdext_ok G"
  shows "segment_loop G H P red D blob lst False i x iters = ret (Some (x', iters')) \<Longrightarrow>
    posdef D x \<Longrightarrow> is_reduced x \<Longrightarrow>
    \<exists>segs. blob_segments G D blob i segs \<and> i < lst + segment_len * int (length segs) \<and>
      (segs \<noteq> [] \<longrightarrow> lst + segment_len * (int (length segs) - 1) \<le> i) \<and>
      weso_path H P D x segs x' \<and> iters = iters' + path_iters segs \<and> posdef D x' \<and> is_reduced x'"
proof (induction "nat (i + 1)" arbitrary: i x iters rule: less_induct)
  case less
  show ?case
  proof (cases "i < lst")
    case True
    then have "x = x'" "iters = iters'" using less.prems(1) by (simp_all add: segment_loop.simps [of _ _ _ _ _ _ _ _ i])
    then show ?thesis using True less.prems(2,3) by (intro exI [of _ "[]"]) (simp add: blob_segments_def weso_path.here)
  next
    case False
    obtain n B pf where seg: "read_segment G D blob i = ret (n, B, pf)"
      and k: "bind_res (bind_res (VerifyWesoSegment G H P red D x pf B n)
          (\<lambda>(status, xnew). ret (if status \<noteq> 0 then None else Some xnew)))
          (\<lambda>r. case r of None \<Rightarrow> ret None
           | Some xnew \<Rightarrow> if n > iters then ret None
               else segment_loop G H P red D blob lst False (i - segment_len) xnew (iters - n)) = ret (Some (x', iters'))"
      and i: "0 \<le> i"
      using less.prems(1) False
      by (subst (asm) segment_loop.simps) (auto simp: ret_iff split: if_splits prod.splits)
    obtain y where v: "VerifyWesoSegment G H P red D x pf B n = ret (0, y)" and n: "n \<le> iters"
      and rest: "segment_loop G H P red D blob lst False (i - segment_len) y (iters - n) = ret (Some (x', iters'))"
      using k by (auto simp: ret_iff split: if_splits option.splits prod.splits)
    have pf: "posdef D pf" "0 \<le> B" using read_segment_posdef [OF seg] D by auto
    have y: "posdef D y" "is_reduced y" "get_B H P D x y = Some (B, x, y)" "weso_equation D x y pf B n"
      using verify_segment_sound [OF D G less.prems(2,3) pf v] by auto
    have "nat (i - segment_len + 1) < nat (i + 1)" using i by simp
    from less.hyps [OF this rest y(1,2)] obtain segs where segs: "blob_segments G D blob (i - segment_len) segs"
      "i - segment_len < lst + segment_len * int (length segs)"
      "segs \<noteq> [] \<longrightarrow> lst + segment_len * (int (length segs) - 1) \<le> i - segment_len"
      "weso_path H P D y segs x'" "iters - n = iters' + path_iters segs" "posdef D x'" "is_reduced x'"
      by (elim exE conjE)
    have "lst + segment_len * int (length segs) \<le> i" using segs(3) False by (cases segs) simp_all
    moreover have "weso_path H P D x ((n, B, pf) # segs) x'" by (rule weso_path.step [OF pf(1) y(3,4) segs(4)])
    ultimately show ?thesis
      using blob_segments_Cons [OF seg segs(1)] segs(2,5-7) n by (intro exI [of _ "(n, B, pf) # segs"]) simp
  qed
qed

lemma check_proof_sound:
  assumes D: "good_disc D" and G: "gcdext_ok G"
    and r: "CheckProofOfTimeNWesolowski G H P red D x_s blob len iters depth = ret True"
  shows "len = 200 + 141 * depth \<and> (\<exists>x y pf B segs n. deserialize_form G D x_s 100 = ret x \<and> deserialize_at G D blob 0 = ret y \<and>
    deserialize_at G D blob 100 = ret pf \<and> length segs = nat depth \<and> blob_segments G D blob (len - 141) segs \<and>
    path_iters segs + n = iters \<and> weso_path H P D x (segs @ [(n, B, pf)]) y)"
proof -
  have D0: "D < 0" using D by simp
  obtain x x' iters' y pf where x: "deserialize_form G D x_s 100 = ret x" and len: "blob_length 2 depth = Some len"
    and loop: "segment_loop G H P red D blob (2 * form_size) False (len - segment_len) x iters = ret (Some (x', iters'))"
    and y: "deserialize_at G D blob 0 = ret y" and pf: "deserialize_at G D blob form_size = ret pf"
    and v: "VerifyWesolowskiProof G H P red D x' y pf iters' = ret True"
    using r by (auto simp: CheckProofOfTimeNWesolowski_def ret_iff split: if_splits option.splits prod.splits)
  have len': "len = 200 + 141 * depth" using len by (auto simp: blob_length_def Let_def split: if_splits)
  have px: "posdef D x" "is_reduced x" using deserialize_form_posdef [OF x D0] by auto
  have py: "posdef D y" "is_reduced y" and ppf: "posdef D pf"
    using y pf deserialize_form_posdef [OF _ D0] by (auto simp: deserialize_at_def ret_iff)
  from segment_loop_sound [OF D G loop px] obtain segs where segs: "blob_segments G D blob (len - segment_len) segs"
    "len - segment_len < 2 * form_size + segment_len * int (length segs)"
    "segs \<noteq> [] \<longrightarrow> 2 * form_size + segment_len * (int (length segs) - 1) \<le> len - segment_len"
    "weso_path H P D x segs x'" "iters = iters' + path_iters segs" "posdef D x'" "is_reduced x'"
    by (elim exE conjE)
  have n: "length segs = nat depth" using segs(2,3) unfolding len' by (cases segs) auto
  obtain B x2 y2 where g: "get_B H P D x' y = Some (B, x2, y2)" and eq: "weso_equation D x' y2 pf B iters'"
    using verify_proof_iff [OF D G segs(6) py(1) ppf v] by blast
  have "x2 = x'" "y2 = y" using get_B_reduced(7,8) [OF g D0 segs(6) py(1)] segs(7) py(2) by auto
  then have "weso_path H P D x (segs @ [(iters', B, pf)]) y"
    using weso_path_append [OF segs(4) weso_path_last [OF ppf]] g eq by simp
  then have "length segs = nat depth \<and> blob_segments G D blob (len - 141) segs \<and> path_iters segs + iters' = iters \<and>
      weso_path H P D x (segs @ [(iters', B, pf)]) y"
    using n segs(1,5) by simp
  then show ?thesis using len' x y pf by blast
qed

lemma check_with_B_sound:
  assumes D: "good_disc D" and G: "gcdext_ok G" and B: "0 \<le> B"
    and r: "CheckProofOfTimeNWesolowskiWithB G H P red D B x_s blob len iters depth = ret (True, out)"
  shows "\<exists>x y segs n pf. deserialize_form G D x_s 100 = ret x \<and> deserialize_at G D blob 0 = ret pf \<and>
    blob_segments G D blob (len - 141) segs \<and> path_iters segs + n = iters \<and>
    weso_path H P D x (segs @ [(n, B, pf)]) y \<and> serialize_form y (num_bits D) = Some (out, y)"
proof -
  have D0: "D < 0" using D by simp
  obtain x x' iters' y pf st y' where x: "deserialize_form G D x_s 100 = ret x"
    and loop: "segment_loop G H P red D blob form_size False (len - segment_len) x iters = ret (Some (x', iters'))"
    and pf: "deserialize_at G D blob 0 = ret pf"
    and v: "VerifyWesoSegment G H P red D x' pf B iters' = ret (st, y)" and st: "st \<noteq> - 1"
    and out: "serialize_form y (num_bits D) = Some (out, y')"
    using r by (auto simp: CheckProofOfTimeNWesolowskiWithB_def CheckProofOfTimeNWesolowskiCommon_def ret_iff
        split: if_splits option.splits prod.splits)
  have st0: "st = 0" using v st by (auto simp: VerifyWesoSegment_def ret_iff split: if_splits)
  have px: "posdef D x" "is_reduced x" using deserialize_form_posdef [OF x D0] by auto
  have ppf: "posdef D pf"
    using pf deserialize_form_posdef [OF _ D0] by (auto simp: deserialize_at_def ret_iff)
  from segment_loop_sound [OF D G loop px] obtain segs where segs: "blob_segments G D blob (len - segment_len) segs"
    "weso_path H P D x segs x'" "iters = iters' + path_iters segs" "posdef D x'" "is_reduced x'"
    by (elim exE conjE)
  have y: "posdef D y" "is_reduced y" "get_B H P D x' y = Some (B, x', y)" "weso_equation D x' y pf B iters'"
    using verify_segment_sound [OF D G segs(4,5) ppf B v [unfolded st0]] by auto
  have "weso_path H P D x (segs @ [(iters', B, pf)]) y"
    using weso_path_append [OF segs(2) weso_path_last [OF ppf y(3,4)]] .
  moreover have "y' = y" using out serialize_form_reduced posdefD(1) y(1,2) by blast
  ultimately show ?thesis using x pf out segs(1,3)
    by (intro exI [of _ x] exI [of _ y] exI [of _ segs] exI [of _ iters'] exI [of _ pf]) simp
qed

end

context reducer_total
begin

lemma weso_product_returns:
  assumes D: "good_disc D" and G: "gcdext_ok G" and x: "posdef D x" and pf: "posdef D pf" and B: "0 < B"
  shows "\<exists>y. weso_product G red D x pf B n = ret y"
proof -
  have "D < 0" using D by simp
  then have L: "root4 (- D) = Some (iroot4 (- D))" by (simp add: root4_def)
  have e: "fast_pow 2 n B = ret (2 ^ n mod B)" using B by (simp add: fast_pow_def)
  obtain f1 where f1: "fast_pow_form G red pf D B (iroot4 (- D)) = ret f1"
    using fast_pow_form_returns [OF D G pf] by blast
  obtain f2 where f2: "fast_pow_form G red x D (2 ^ n mod B) (iroot4 (- D)) = ret f2"
    using fast_pow_form_returns [OF D G x] by blast
  have p: "posdef D f1" "posdef D f2"
    using fast_pow_form_sound [OF D G pf _ f1] fast_pow_form_sound [OF D G x _ f2] B by auto
  obtain y where "multiply G f1 f2 = Some y" using multiply_correct [OF D G p] by blast
  then show ?thesis using L e f1 f2 by (simp add: weso_product_def form_times_def)
qed

lemma verify_proof_returns:
  assumes D: "good_disc D" and G: "gcdext_ok G" and x: "posdef D x" and y: "posdef D y" and pf: "posdef D pf"
    and g: "get_B H P D x y = Some (B, x', y')"
  shows "\<exists>b. VerifyWesolowskiProof G H P red D x y pf n = ret b"
proof -
  have D0: "D < 0" using D by simp
  note s = get_B_reduced [OF g D0 x y]
  have B: "0 < B" using challenge_pos [OF s(9)] by simp
  obtain f where "weso_product G red D x' pf B n = ret f"
    using weso_product_returns [OF D G s(1) pf B] by blast
  then show ?thesis using g by (auto simp: VerifyWesolowskiProof_def weso_product_def ret_iff)
qed

end

subsection \<open>Verdicts on honest proofs\<close>

text \<open>On typed input the verifiers throw nothing, and they return if the reducer does.\<close>

lemma fast_pow_form_no_throw:
  assumes "good_disc D" and "posdef D x"
  shows "fast_pow_form G red x D e L \<noteq> Some (Inl err)"
  using identity_ok [OF assms]
  by (auto simp: fast_pow_form_def lift_opt_def ret_def split: if_splits option.splits)

lemma weso_product_settles:
  assumes red: "reducer_sound red" and t: "t \<Longrightarrow> reducer_total red" and D: "good_disc D" and G: "gcdext_ok G"
    and x: "posdef D x" and pf: "posdef D pf" and B: "0 < B"
  shows "settles t (\<lambda>y. posdef D y \<and> is_reduced y \<and> weso_equation D x y pf B n) (weso_product G red D x pf B n)"
proof (rule settlesI)
  show "posdef D y \<and> is_reduced y \<and> weso_equation D x y pf B n" if "weso_product G red D x pf B n = ret y" for y
    using reducer_sound.weso_product_sound [OF red D G x pf _ that] B by simp
  show "\<exists>y. weso_product G red D x pf B n = ret y" if t
    by (rule reducer_total.weso_product_returns [OF t [OF that] D G x pf B])
  show "weso_product G red D x pf B n \<noteq> Some (Inl e)" for e
    using B fast_pow_form_no_throw [OF D pf] fast_pow_form_no_throw [OF D x]
    by (auto simp: weso_product_def bind_res_def lift_opt_def fast_pow_def ret_def split: option.splits sum.splits)
qed

lemma honest_product:
  assumes D: "good_disc D" and x: "posdef D x" and B: "0 < B" and y: "class_pow D x (2 ^ n) y"
    and pf: "class_pow D x (nat (2 ^ n div B)) pf" and z: "weso_equation D x z pf B n"
  shows "same_class D y z"
proof -
  obtain a b where "posdef D a" "posdef D b" "class_pow D pf (nat B) a" "class_pow D x (nat (2 ^ n mod B)) b" "class_mul D a b z"
    using z unfolding weso_equation_def by blast
  then have "class_pow D x (2 ^ n) z" using honest_weso_equation [OF D x B _ _ _ _ pf] by blast
  then show ?thesis using y class_pow_unique by blast
qed

lemma verify_honest_settles:
  assumes red: "reducer_sound red" and t: "t \<Longrightarrow> reducer_total red" and D: "good_disc D" and G: "gcdext_ok G"
    and x: "posdef D x" and y: "posdef D y" and pf: "posdef D pf"
    and g: "get_B H P D x y = Some (B, x', y')"
    and hy: "class_pow D x (2 ^ n) y" and hp: "class_pow D x (nat (2 ^ n div B)) pf"
  shows "settles t (\<lambda>b. b) (VerifyWesolowskiProof G H P red D x y pf n)"
proof -
  have D0: "D < 0" using D by simp
  note s = get_B_reduced [OF g D0 x y]
  have B: "0 < B" using challenge_pos [OF s(9)] by simp
  have "VerifyWesolowskiProof G H P red D x y pf n =
      bind_res (weso_product G red D x' pf B n) (\<lambda>f. ret (f = y'))"
    using D0 g by (simp add: VerifyWesolowskiProof_def weso_product_def root4_def bind_res_assoc)
  moreover have "settles t (\<lambda>b. b) \<dots>"
  proof (rule settles_bind [OF weso_product_settles [OF red t D G s(1) pf B]])
    fix f assume f: "posdef D f \<and> is_reduced f \<and> weso_equation D x' f pf B n"
    have "same_class D y' f"
      by (rule honest_product [OF D s(1) B class_pow_same [OF class_pow_base [OF s(3) hy] s(6)] class_pow_base [OF s(3) hp]])
        (use f in simp)
    then show "settles t (\<lambda>b. b) (ret (f = y'))" using reduced_unique [OF D0 s(4,5)] f by auto
  qed
  ultimately show ?thesis by simp
qed

lemma verify_honest:
  assumes "reducer_sound red" and "good_disc D" and "gcdext_ok G" and "posdef D x" and "posdef D y" and "posdef D pf"
    and "get_B H P D x y = Some (B, x', y')"
    and "class_pow D x (2 ^ n) y" and "class_pow D x (nat (2 ^ n div B)) pf"
  shows "VerifyWesolowskiProof G H P red D x y pf n \<noteq> ret False"
  using settles_partial [OF verify_honest_settles [OF assms(1) _ assms(2-), of False]] by auto

end
