(* ===== verification/Prover.thy ===== *)
theory Prover
  imports ProofCommon Util Outcome
begin

section \<open>Generating Wesolowski proofs\<close>

text \<open>
  The three places that compute \<open>x^(2^T div B)\<close> from stored powers of \<open>x\<close>:
  \<open>Prover::GenerateProof\<close> (\<open>prover_base.hpp\<close>), \<open>ParallelProver\<close>
  (\<open>prover_parallel.hpp\<close>) and \<open>GenerateWesolowski\<close> (\<open>prover_slow.h\<close>).  They
  share the same loops, which are written once over an environment that holds what the
  functions read.  \<open>PerformExtraStep\<close> is an oracle \<open>go\<close> indexed by the number of
  calls so far, which the loops thread; when it answers false the run ends as
  \<open>Stopped\<close>.  The digits of the exponent are those of \<open>GetBlock\<close>, proved below to
  be the digits of \<open>2^T div B\<close> in base \<open>2^k\<close>.
\<close>

subsection \<open>The code\<close>

definition block_quotient :: "nat \<Rightarrow> nat \<Rightarrow> nat \<Rightarrow> int \<Rightarrow> int res" where
  "block_quotient i k T B =
     bind_res (fast_pow 2 (nat ((int T - int k * (int i + 1)) mod 2 ^ 64)) B) (\<lambda>res.
     ret ((res * 2 ^ k) div B))"

definition GetBlock :: "nat \<Rightarrow> nat \<Rightarrow> nat \<Rightarrow> int \<Rightarrow> nat res" where
  "GetBlock i k T B =
     bind_res (block_quotient i k T B) (\<lambda>res.
       let res_vector = to_vector res in
       ret (if res_vector = [] then 0 else unat (hd res_vector)))"

text \<open>\<open>prover_slow.h\<close> reads \<open>res_vector[0]\<close> without the test.  For the digit 0 the vector
  has been shrunk to no element, and the language leaves the read undefined; \<open>stale\<close> is what it
  gives, if anything.  A vector keeps its storage when it shrinks, and \<open>to_vector\<close> has filled it
  with zeros: without bounds checks \<open>stale\<close> is \<open>Some 0\<close>.\<close>

definition GetBlock_slow :: "nat option \<Rightarrow> nat \<Rightarrow> nat \<Rightarrow> nat \<Rightarrow> int \<Rightarrow> nat res" where
  "GetBlock_slow stale i k T B =
     bind_res (block_quotient i k T B) (\<lambda>res.
       let res_vector = to_vector res in
       if res_vector = [] then lift_opt stale else ret (unat (hd res_vector)))"

record prover_env =
  pG :: gcdext
  pred :: "form \<Rightarrow> form option"
  pD :: int
  pL :: int
  pB :: int
  pid :: form
  pgo :: "nat \<Rightarrow> bool"
  pblock :: "nat \<Rightarrow> nat \<Rightarrow> nat \<Rightarrow> int \<Rightarrow> nat res"
  pform :: "nat \<Rightarrow> form"
  pT :: nat
  pk :: nat
  pl :: nat
  plimit :: nat

definition extra_step :: "prover_env \<Rightarrow> nat \<Rightarrow> nat res" where
  "extra_step E n = (if pgo E n then ret (Suc n) else Some (Inl Stopped))"

text \<open>The loop that sorts the stored powers into buckets by digit.\<close>

definition bucket_step :: "prover_env \<Rightarrow> nat \<Rightarrow> nat \<Rightarrow> form list \<times> nat \<Rightarrow> (form list \<times> nat) res" where
  "bucket_step E j i = (\<lambda>(ys, n).
     if pT E \<ge> wrap64 (pk E * (i * pl E + j + 1))
     then bind_res (pblock E (i * pl E + j) (pk E) (pT E) (pB E)) (\<lambda>b.
          bind_res (extra_step E n) (\<lambda>n.
          bind_res (lift_opt (if b < length ys then nucomp_form (pG E) (ys ! b) (pform E i) (pD E) (pL E) else None))
            (\<lambda>y. ret (ys[b := y], n))))
     else ret (ys, n))"

text \<open>The bound of that loop: \<open>k\<close> and \<open>l\<close> have 32 bits, and so has their product.\<close>

definition bucket_limit :: "nat \<Rightarrow> nat \<Rightarrow> nat \<Rightarrow> nat" where
  "bucket_limit k l T =
     (let kl = wrap32 (k * l) in T div kl + (if T mod kl \<noteq> 0 then 1 else 0))"

text \<open>One inner loop multiplies a row or a column of buckets together; the outer loops raise
  the product to the value of its fixed half of the digit.\<close>

definition gather :: "prover_env \<Rightarrow> form list \<Rightarrow> (nat \<Rightarrow> nat) \<Rightarrow> nat \<Rightarrow> nat \<Rightarrow> (form \<times> nat) res" where
  "gather E ys idx count n =
     fold_res (\<lambda>b (z, n).
       bind_res (extra_step E n) (\<lambda>n.
       bind_res (lift_opt (if idx b < length ys then nucomp_form (pG E) z (ys ! idx b) (pD E) (pL E) else None))
         (\<lambda>z. ret (z, n)))) [0..<count] (pid E, n)"

definition raise_by :: "prover_env \<Rightarrow> nat \<Rightarrow> form \<times> nat \<Rightarrow> form \<Rightarrow> (form \<times> nat) res" where
  "raise_by E e zn x =
     bind_res (fast_pow_form (pG E) (pred E) (fst zn) (pD E) (int e) (pL E)) (\<lambda>z.
     bind_res (lift_opt (nucomp_form (pG E) x z (pD E) (pL E))) (\<lambda>x.
     ret (x, snd zn)))"

definition high_step :: "prover_env \<Rightarrow> form list \<Rightarrow> nat \<Rightarrow> form \<times> nat \<Rightarrow> (form \<times> nat) res" where
  "high_step E ys b1 = (\<lambda>(x, n).
     let k1 = pk E div 2; k0 = pk E - k1 in
     bind_res (gather E ys (\<lambda>b0. b1 * 2 ^ k0 + b0) (2 ^ k0) n) (\<lambda>zn. raise_by E (b1 * 2 ^ k0) zn x))"

definition low_step :: "prover_env \<Rightarrow> form list \<Rightarrow> nat \<Rightarrow> form \<times> nat \<Rightarrow> (form \<times> nat) res" where
  "low_step E ys b0 = (\<lambda>(x, n).
     let k1 = pk E div 2; k0 = pk E - k1 in
     bind_res (gather E ys (\<lambda>b1. b1 * 2 ^ k0 + b0) (2 ^ k1) n) (\<lambda>zn. raise_by E b0 zn x))"

definition prove_digit :: "prover_env \<Rightarrow> nat \<Rightarrow> form \<times> nat \<Rightarrow> (form \<times> nat) res" where
  "prove_digit E j = (\<lambda>(x, n).
     let k1 = pk E div 2; k0 = pk E - k1 in
     bind_res (fast_pow_form (pG E) (pred E) x (pD E) (2 ^ pk E) (pL E)) (\<lambda>x.
     bind_res (fold_res (bucket_step E j) [0..<plimit E] (replicate (2 ^ pk E) (pid E), n)) (\<lambda>(ys, n).
     bind_res (fold_res (high_step E ys) [0..<2 ^ k1] (x, n)) (\<lambda>(x, n).
     fold_res (low_step E ys) [0..<2 ^ k0] (x, n)))))"

definition prove_range :: "prover_env \<Rightarrow> nat \<Rightarrow> nat \<Rightarrow> nat \<Rightarrow> (form \<times> nat) res" where
  "prove_range E lo hi n = fold_res (prove_digit E) (rev [lo..<hi]) (pid E, n)"

text \<open>With \<open>k\<close> or \<open>l\<close> zero, or a product that wraps to zero, the loop bounds divide by
  zero (\<open>l - 1\<close> wraps in 32 bits), and from \<open>k = 31\<close> on \<open>1 << k\<close> overflows an \<open>int\<close>: both are \<open>None\<close>.  \<open>Prover::GenerateProof\<close>: a failing identity is logged and ends the run without a
  proof.\<close>

definition catch_stop :: "'a res \<Rightarrow> 'a res" where
  "catch_stop m = (case m of Some (Inl e) \<Rightarrow> Some (Inl Stopped) | _ \<Rightarrow> m)"

definition mk_env where
  "mk_env G red D L B idf go block getform T k l limit =
     \<lparr>pG = G, pred = red, pD = D, pL = L, pB = B, pid = idf, pgo = go, pblock = block, pform = getform,
      pT = T, pk = k, pl = l, plimit = limit\<rparr>"

definition GenerateProof ::
  "gcdext \<Rightarrow> (byte list \<Rightarrow> byte list) \<Rightarrow> (int \<Rightarrow> bool) \<Rightarrow> (form \<Rightarrow> form option) \<Rightarrow>
   (nat \<Rightarrow> bool) \<Rightarrow> (nat \<Rightarrow> form) \<Rightarrow> segment \<Rightarrow> int \<Rightarrow> nat \<Rightarrow> nat \<Rightarrow> form res" where
  "GenerateProof G H P red go getform segm D k l =
     bind_res (lift_opt (get_B H P D (seg_x segm) (seg_y segm))) (\<lambda>(B, x', y').
     bind_res (lift_opt (if D > 0 then None else Some (iroot4 (- D)))) (\<lambda>L.
     bind_res (catch_stop (identity D)) (\<lambda>idf.
     if wrap32 (k * l) = 0 \<or> 31 \<le> k then None
     else let T = unat (seg_length segm) in
       bind_res (prove_range (mk_env G red D L B idf go GetBlock getform T k l (bucket_limit k l T)) 0 l 0)
       (\<lambda>(x, n). lift_opt (red x)))))"

subsection \<open>The digits of the exponent\<close>

definition digit :: "nat \<Rightarrow> nat \<Rightarrow> nat \<Rightarrow> nat \<Rightarrow> nat" where
  "digit B k T m = (2 ^ k * (2 ^ (T - k * (m + 1)) mod B)) div B"

lemma digit_bound: "0 < B \<Longrightarrow> digit B k T m < 2 ^ k"
proof -
  assume B: "0 < B"
  then have "2 ^ k * (2 ^ (T - k * (m + 1)) mod B) < 2 ^ k * B" by simp
  then show ?thesis unfolding digit_def using B by (simp only: div_less_iff_less_mult mult.commute)
qed

lemma digit_step:
  assumes "0 < B" and "k * (m + 1) \<le> T"
  shows "2 ^ (T - k * m) div B = 2 ^ k * (2 ^ (T - k * (m + 1)) div B) + digit B k T m"
proof -
  let ?x = "2 ^ (T - k * (m + 1)) :: nat"
  have "T - k * m = k + (T - k * (m + 1))" using assms(2) by simp
  then have "2 ^ (T - k * m) = 2 ^ k * ?x" by (simp add: power_add)
  also have "\<dots> = 2 ^ k * (?x mod B) + B * (2 ^ k * (?x div B))"
    by (metis (no_types, lifting) add.commute distrib_left mult.left_commute mult_div_mod_eq)
  finally show ?thesis using assms(1) by (simp add: digit_def)
qed

lemma digit_sum_aux:
  assumes "0 < B" and "k * M \<le> T"
  shows "(\<Sum>m<M. digit B k T m * 2 ^ (k * m)) + 2 ^ (k * M) * (2 ^ (T - k * M) div B) = 2 ^ T div B"
  using assms(2)
proof (induction M)
  case (Suc M)
  have "k * (M + 1) \<le> T" using Suc.prems by simp
  then have s: "2 ^ (T - k * M) div B = 2 ^ k * (2 ^ (T - k * (M + 1)) div B) + digit B k T M"
    using assms(1) by (intro digit_step) auto
  have "(\<Sum>m<M. digit B k T m * 2 ^ (k * m)) + 2 ^ (k * M) * (2 ^ (T - k * M) div B) = 2 ^ T div B"
    using Suc by simp
  then show ?case unfolding s by (simp add: algebra_simps power_add)
qed simp

lemma digit_sum:
  assumes "0 < B" and "2 ^ k \<le> B" and "0 < k"
  shows "(\<Sum>m<T div k. digit B k T m * 2 ^ (k * m)) = 2 ^ T div B"
proof -
  have "T - k * (T div k) = T mod k" by (simp add: minus_mult_div_eq_mod)
  also have "\<dots> < k" using assms(3) by simp
  finally have "(2 :: nat) ^ (T - k * (T div k)) < 2 ^ k" by (rule power_strict_increasing) simp
  then have "2 ^ (T - k * (T div k)) div B = 0"
    using assms(2) by (intro div_less) (rule less_le_trans)
  then show ?thesis using digit_sum_aux [OF assms(1), of k "T div k" T] by simp
qed

lemma hd_limbs: "q \<noteq> 0 \<Longrightarrow> limbs q \<noteq> [] \<and> unat (hd (limbs q)) = q mod 2 ^ 64"
  by (simp add: limbs.simps [of q] unat_of_nat)

lemma block_quotient_digit:
  assumes "0 < B" and "k * (m + 1) \<le> T" and "T < 2 ^ 64"
  shows "block_quotient m k T B = ret (int (digit (nat B) k T m))"
proof -
  have "int T - int k * (int m + 1) = int (T - k * (m + 1))" using assms(2) by (simp add: of_nat_diff algebra_simps)
  moreover have "int (T - k * (m + 1)) < 2 ^ 64" using assms(3) by simp
  ultimately have "nat ((int T - int k * (int m + 1)) mod 2 ^ 64) = T - k * (m + 1)" by simp
  moreover have "int (digit (nat B) k T m) = (2 ^ (T - k * (m + 1)) mod B * 2 ^ k) div B"
    using assms(1) by (simp add: digit_def zdiv_int zmod_int mult.commute)
  ultimately show ?thesis using assms(1) by (simp add: block_quotient_def fast_pow_def)
qed

lemma GetBlock_digit:
  assumes "0 < B" and "k * (m + 1) \<le> T" and "T < 2 ^ 64" and "k \<le> 30"
  shows "GetBlock m k T B = ret (digit (nat B) k T m)"
    and "GetBlock_slow (Some 0) m k T B = ret (digit (nat B) k T m)"
proof -
  let ?d = "digit (nat B) k T m"
  have "?d < 2 ^ k" using assms(1) by (intro digit_bound) simp
  also have "(2 :: nat) ^ k \<le> 2 ^ 64" using assms(4) by (intro power_increasing) auto
  finally have d: "?d < 2 ^ 64" .
  show "GetBlock m k T B = ret ?d"
    using block_quotient_digit [OF assms(1-3)] hd_limbs [of ?d] d
    by (cases "?d = 0") (simp_all add: GetBlock_def to_vector_def limbs.simps [of 0])
  show "GetBlock_slow (Some 0) m k T B = ret ?d"
    using block_quotient_digit [OF assms(1-3)] hd_limbs [of ?d] d
    by (cases "?d = 0") (simp_all add: GetBlock_slow_def to_vector_def limbs.simps [of 0])
qed

subsection \<open>Exponents of the intermediate forms\<close>

definition pw :: "int \<Rightarrow> form \<Rightarrow> nat \<Rightarrow> form \<Rightarrow> bool" where
  "pw D x0 e f \<longleftrightarrow> posdef D f \<and> class_pow D x0 e f"

text \<open>What the loops need of their environment; \<open>t\<close> asks for a reducer that returns and for
  no early stop.\<close>

definition env_ok :: "bool \<Rightarrow> prover_env \<Rightarrow> form \<Rightarrow> bool" where
  "env_ok t E x0 \<longleftrightarrow>
     good_disc (pD E) \<and> gcdext_ok (pG E) \<and> posdef (pD E) x0 \<and> pw (pD E) x0 0 (pid E) \<and>
     reducer_sound (pred E) \<and> (t \<longrightarrow> reducer_total (pred E) \<and> (\<forall>n. pgo E n)) \<and> 0 < pk E \<and> 0 < pl E \<and> 2 ^ pk E \<le> pB E \<and>
     (\<forall>i. pk E * pl E * i < pT E \<longrightarrow> pw (pD E) x0 (2 ^ (pk E * pl E * i)) (pform E i)) \<and>
     pT E div pk E \<le> plimit E * pl E \<and> pk E * pl E * plimit E < 2 ^ 64 \<and>
     (\<forall>m. pk E * (m + 1) \<le> pT E \<longrightarrow>
        holds t (\<lambda>b. b = digit (nat (pB E)) (pk E) (pT E) m) (pblock E m (pk E) (pT E) (pB E)))"

lemma nucomp_pw:
  assumes "env_ok t E x0" and "pw (pD E) x0 a f" and "pw (pD E) x0 b g"
  shows "holds t' (pw (pD E) x0 (a + b)) (lift_opt (nucomp_form (pG E) f g (pD E) (pL E)))"
proof -
  have e: "good_disc (pD E)" "gcdext_ok (pG E)" "posdef (pD E) x0" using assms(1) by (simp_all add: env_ok_def)
  have f: "posdef (pD E) f" "class_pow (pD E) x0 a f" "posdef (pD E) g" "class_pow (pD E) x0 b g"
    using assms(2,3) by (simp_all add: pw_def)
  obtain r where r: "qfb_nucomp (pG E) f g (pD E) (pL E) = Some r" "posdef (pD E) r" "class_mul (pD E) f g r"
    using qfb_nucomp_ok [OF e(1,2) f(1,3)] by blast
  have "class_pow (pD E) x0 (a + b) r" by (rule class_pow_add [OF e(1,3) f(2,4) r(3)])
  then show ?thesis using r by (simp add: nucomp_form_def pw_def)
qed

lemma fast_pow_no_error:
  assumes "good_disc D" and "posdef D x" and "fast_pow_form G red z D e L = Some (Inl err)"
  shows "err = Stopped"
  using assms(3) identity_ok [OF assms(1,2)]
  by (auto simp: fast_pow_form_def lift_opt_def ret_def split: if_splits option.splits)

lemma power_pw:
  assumes E: "env_ok t E x0" and z: "pw (pD E) x0 a z" and "0 \<le> e"
  shows "holds t (pw (pD E) x0 (a * nat e)) (fast_pow_form (pG E) (pred E) z (pD E) e (pL E))"
proof (rule holds_partialI)
  have e: "good_disc (pD E)" "gcdext_ok (pG E)" "posdef (pD E) x0" "reducer_sound (pred E)"
    "t \<Longrightarrow> reducer_total (pred E)"
    using E by (simp_all add: env_ok_def)
  have z': "posdef (pD E) z" "class_pow (pD E) x0 a z" using z by (simp_all add: pw_def)
  show "pw (pD E) x0 (a * nat e) s" if s: "fast_pow_form (pG E) (pred E) z (pD E) e (pL E) = ret s" for s
    using reducer_sound.fast_pow_form_sound [OF e(4) e(1,2) z'(1) assms(3) s] class_pow_mult [OF e(1,3) z'(2)]
    by (simp add: pw_def)
  show "t \<Longrightarrow> \<exists>s. fast_pow_form (pG E) (pred E) z (pD E) e (pL E) = ret s"
    using reducer_total.fast_pow_form_returns [OF e(5) e(1,2) z'(1)] by blast
  show "fast_pow_form (pG E) (pred E) z (pD E) e (pL E) = Some (Inl err) \<Longrightarrow> err = Stopped" for err
    using fast_pow_no_error [OF e(1,3)] by blast
qed

lemma extra_step_any: "env_ok t E x0 \<Longrightarrow> holds t (\<lambda>_. True) (extra_step E n)"
  by (auto simp: extra_step_def env_ok_def)

lemma gather_pw:
  assumes E: "env_ok t E x0"
    and ys: "\<And>b. b < count \<Longrightarrow> idx b < length ys \<and> pw (pD E) x0 (X (idx b)) (ys ! idx b)"
  shows "holds t (\<lambda>zn. pw (pD E) x0 (\<Sum>b<count. X (idx b)) (fst zn)) (gather E ys idx count n)"
  unfolding gather_def
proof (rule holds_fold [where P = "\<lambda>i zn. pw (pD E) x0 (\<Sum>b<i. X (idx b)) (fst zn)"])
  show "pw (pD E) x0 (\<Sum>b<0. X (idx b)) (fst (pid E, n))" using E by (simp add: env_ok_def)
next
  fix i and zn :: "form \<times> nat"
  assume i: "i < count" and zn: "pw (pD E) x0 (\<Sum>b<i. X (idx b)) (fst zn)"
  obtain z m where zm: "zn = (z, m)" by (cases zn)
  show "holds t (\<lambda>zn. pw (pD E) x0 (\<Sum>b<Suc i. X (idx b)) (fst zn))
      (case zn of (z, n) \<Rightarrow> bind_res (extra_step E n) (\<lambda>n. bind_res (lift_opt (if idx i < length ys
        then nucomp_form (pG E) z (ys ! idx i) (pD E) (pL E) else None)) (\<lambda>z. ret (z, n))))"
    unfolding zm split
  proof (rule holds_bind [OF extra_step_any [OF E]], rule holds_bind)
    show "holds t (pw (pD E) x0 (\<Sum>b<Suc i. X (idx b))) (lift_opt (if idx i < length ys
        then nucomp_form (pG E) z (ys ! idx i) (pD E) (pL E) else None))"
      using nucomp_pw [OF E _ conjunct2 [OF ys [OF i]], of "\<Sum>b<i. X (idx b)" z] zn ys [OF i] by (simp add: zm)
  qed simp
qed

lemma raise_by_pw:
  assumes E: "env_ok t E x0" and z: "pw (pD E) x0 a (fst zn)" and x: "pw (pD E) x0 b x"
  shows "holds t (\<lambda>xn. pw (pD E) x0 (b + a * e) (fst xn)) (raise_by E e zn x)"
  unfolding raise_by_def
proof (rule holds_bind)
  show "holds t (pw (pD E) x0 (a * nat (int e))) (fast_pow_form (pG E) (pred E) (fst zn) (pD E) (int e) (pL E))"
    using E z by (rule power_pw) simp
next
  fix s assume "pw (pD E) x0 (a * nat (int e)) s"
  then have "holds t (pw (pD E) x0 (b + a * e)) (lift_opt (nucomp_form (pG E) x s (pD E) (pL E)))"
    using nucomp_pw [OF E x] by simp
  then show "holds t (\<lambda>xn. pw (pD E) x0 (b + a * e) (fst xn))
      (bind_res (lift_opt (nucomp_form (pG E) x s (pD E) (pL E))) (\<lambda>x. ret (x, snd zn)))"
    by (rule holds_bind) simp
qed

subsection \<open>One digit position\<close>

lemma split_half: "k - k div 2 + k div 2 = (k :: nat)"
  by simp

lemma half_index:
  assumes "b1 < 2 ^ (k div 2)" and "b0 < 2 ^ (k - k div 2)"
  shows "b1 * 2 ^ (k - k div 2) + b0 < (2 :: nat) ^ k"
proof -
  have "b1 * 2 ^ (k - k div 2) + b0 < (b1 + 1) * 2 ^ (k - k div 2)" using assms(2) by simp
  also have "\<dots> \<le> 2 ^ (k div 2) * 2 ^ (k - k div 2)" using assms(1) by (intro mult_right_mono) auto
  also have "\<dots> = 2 ^ k" by (simp flip: power_add)
  finally show ?thesis .
qed

text \<open>Grouping the buckets by the two halves of their digit adds up to digit times bucket.\<close>

lemma halves_sum:
  fixes X :: "nat \<Rightarrow> nat"
  shows "(\<Sum>b1<2 ^ (k div 2). (\<Sum>b0<2 ^ (k - k div 2). X (b1 * 2 ^ (k - k div 2) + b0)) * (b1 * 2 ^ (k - k div 2)))
    + (\<Sum>b0<2 ^ (k - k div 2). (\<Sum>b1<2 ^ (k div 2). X (b1 * 2 ^ (k - k div 2) + b0)) * b0) = (\<Sum>b<2 ^ k. b * X b)"
proof -
  let ?h = "2 ^ (k - k div 2) :: nat" and ?n = "2 ^ (k div 2) :: nat"
  have "(\<Sum>b0<?h. (\<Sum>b1<?n. X (b1 * ?h + b0)) * b0) = (\<Sum>b1<?n. \<Sum>b0<?h. X (b1 * ?h + b0) * b0)"
    unfolding sum_distrib_right by (rule sum.swap)
  then have "(\<Sum>b1<?n. (\<Sum>b0<?h. X (b1 * ?h + b0)) * (b1 * ?h)) + (\<Sum>b0<?h. (\<Sum>b1<?n. X (b1 * ?h + b0)) * b0)
      = (\<Sum>b1<?n. \<Sum>b0<?h. X (b1 * ?h + b0) * (b1 * ?h)) + (\<Sum>b1<?n. \<Sum>b0<?h. X (b1 * ?h + b0) * b0)"
    by (simp only: sum_distrib_right)
  also have "\<dots> = (\<Sum>b1<?n. (\<Sum>b0<?h. (b1 * ?h + b0) * X (b1 * ?h + b0)))"
    by (simp only: sum.distrib [symmetric]) (simp add: algebra_simps)
  also have "\<dots> = (\<Sum>b1<?n. sum (\<lambda>b. b * X b) {b1 * ?h..<b1 * ?h + ?h})"
  proof (intro sum.cong [OF refl])
    fix b1
    show "(\<Sum>b0<?h. (b1 * ?h + b0) * X (b1 * ?h + b0)) = sum (\<lambda>b. b * X b) {b1 * ?h..<b1 * ?h + ?h}"
      by (subst sum.atLeastLessThan_shift_0) (simp add: atLeast0LessThan)
  qed
  also have "\<dots> = (\<Sum>b<?n * ?h. b * X b)" by (rule sum.nat_group)
  also have "?n * ?h = 2 ^ k" by (simp flip: power_add)
  finally show ?thesis .
qed

definition buckets_ok :: "prover_env \<Rightarrow> form \<Rightarrow> (nat \<Rightarrow> nat) \<Rightarrow> form list \<Rightarrow> bool" where
  "buckets_ok E x0 X ys \<longleftrightarrow> length ys = 2 ^ pk E \<and> (\<forall>b<2 ^ pk E. pw (pD E) x0 (X b) (ys ! b))"

lemma high_loop_pw:
  assumes E: "env_ok t E x0" and ys: "buckets_ok E x0 X ys" and x: "pw (pD E) x0 e (fst xn)"
  shows "holds t (\<lambda>xn. pw (pD E) x0 (e + (\<Sum>b1<2 ^ (pk E div 2). (\<Sum>b0<2 ^ (pk E - pk E div 2).
      X (b1 * 2 ^ (pk E - pk E div 2) + b0)) * (b1 * 2 ^ (pk E - pk E div 2)))) (fst xn))
    (fold_res (high_step E ys) [0..<2 ^ (pk E div 2)] xn)"
proof (rule holds_fold [where P = "\<lambda>i xn. pw (pD E) x0 (e + (\<Sum>b1<i. (\<Sum>b0<2 ^ (pk E - pk E div 2).
      X (b1 * 2 ^ (pk E - pk E div 2) + b0)) * (b1 * 2 ^ (pk E - pk E div 2)))) (fst xn)"])
  show "pw (pD E) x0 (e + (\<Sum>b1<0. (\<Sum>b0<2 ^ (pk E - pk E div 2).
      X (b1 * 2 ^ (pk E - pk E div 2) + b0)) * (b1 * 2 ^ (pk E - pk E div 2)))) (fst xn)" using x by simp
next
  fix i and xn :: "form \<times> nat"
  assume i: "i < 2 ^ (pk E div 2)" and xn: "pw (pD E) x0 (e + (\<Sum>b1<i. (\<Sum>b0<2 ^ (pk E - pk E div 2).
      X (b1 * 2 ^ (pk E - pk E div 2) + b0)) * (b1 * 2 ^ (pk E - pk E div 2)))) (fst xn)"
  let ?k0 = "pk E - pk E div 2"
  have g: "holds t (\<lambda>zn. pw (pD E) x0 (\<Sum>b0<2 ^ ?k0. X (i * 2 ^ ?k0 + b0)) (fst zn))
      (gather E ys (\<lambda>b0. i * 2 ^ ?k0 + b0) (2 ^ ?k0) (snd xn))"
    using E by (rule gather_pw) (use ys half_index [OF i] in \<open>auto simp: buckets_ok_def\<close>)
  show "holds t (\<lambda>xn. pw (pD E) x0 (e + (\<Sum>b1<Suc i. (\<Sum>b0<2 ^ ?k0.
      X (b1 * 2 ^ ?k0 + b0)) * (b1 * 2 ^ ?k0))) (fst xn)) (high_step E ys i xn)"
    unfolding high_step_def Let_def case_prod_beta
    by (rule holds_bind [OF g]) (use raise_by_pw [OF E _ xn] in \<open>simp add: add.assoc\<close>)
qed

lemma low_loop_pw:
  assumes E: "env_ok t E x0" and ys: "buckets_ok E x0 X ys" and x: "pw (pD E) x0 e (fst xn)"
  shows "holds t (\<lambda>xn. pw (pD E) x0 (e + (\<Sum>b0<2 ^ (pk E - pk E div 2). (\<Sum>b1<2 ^ (pk E div 2).
      X (b1 * 2 ^ (pk E - pk E div 2) + b0)) * b0)) (fst xn))
    (fold_res (low_step E ys) [0..<2 ^ (pk E - pk E div 2)] xn)"
proof (rule holds_fold [where P = "\<lambda>i xn. pw (pD E) x0 (e + (\<Sum>b0<i. (\<Sum>b1<2 ^ (pk E div 2).
      X (b1 * 2 ^ (pk E - pk E div 2) + b0)) * b0)) (fst xn)"])
  show "pw (pD E) x0 (e + (\<Sum>b0<0. (\<Sum>b1<2 ^ (pk E div 2).
      X (b1 * 2 ^ (pk E - pk E div 2) + b0)) * b0)) (fst xn)" using x by simp
next
  fix i and xn :: "form \<times> nat"
  let ?k0 = "pk E - pk E div 2"
  assume i: "i < 2 ^ ?k0" and xn: "pw (pD E) x0 (e + (\<Sum>b0<i. (\<Sum>b1<2 ^ (pk E div 2).
      X (b1 * 2 ^ ?k0 + b0)) * b0)) (fst xn)"
  have g: "holds t (\<lambda>zn. pw (pD E) x0 (\<Sum>b1<2 ^ (pk E div 2). X (b1 * 2 ^ ?k0 + i)) (fst zn))
      (gather E ys (\<lambda>b1. b1 * 2 ^ ?k0 + i) (2 ^ (pk E div 2)) (snd xn))"
    using E by (rule gather_pw) (use ys half_index [OF _ i] in \<open>auto simp: buckets_ok_def\<close>)
  show "holds t (\<lambda>xn. pw (pD E) x0 (e + (\<Sum>b0<Suc i. (\<Sum>b1<2 ^ (pk E div 2).
      X (b1 * 2 ^ ?k0 + b0)) * b0)) (fst xn)) (low_step E ys i xn)"
    unfolding low_step_def Let_def case_prod_beta
    by (rule holds_bind [OF g]) (use raise_by_pw [OF E _ xn] in \<open>simp add: add.assoc\<close>)
qed

text \<open>The exponents in the buckets after \<open>n\<close> stored powers.\<close>

definition bucket_exp :: "nat \<Rightarrow> nat \<Rightarrow> nat \<Rightarrow> nat \<Rightarrow> nat \<Rightarrow> nat \<Rightarrow> nat \<Rightarrow> nat" where
  "bucket_exp B k l T j n b =
     (\<Sum>i<n. if k * (i * l + j + 1) \<le> T \<and> digit B k T (i * l + j) = b then 2 ^ (k * l * i) else 0)"

lemma bucket_total:
  assumes "0 < B"
  shows "(\<Sum>b<2 ^ k. b * bucket_exp B k l T j n b) =
    (\<Sum>i<n. if k * (i * l + j + 1) \<le> T then digit B k T (i * l + j) * 2 ^ (k * l * i) else 0)"
proof -
  have "(\<Sum>b<2 ^ k. b * bucket_exp B k l T j n b) =
      (\<Sum>i<n. \<Sum>b<2 ^ k. if k * (i * l + j + 1) \<le> T \<and> digit B k T (i * l + j) = b then b * 2 ^ (k * l * i) else 0)"
    unfolding bucket_exp_def sum_distrib_left by (subst sum.swap) (auto intro!: sum.cong)
  also have "\<dots> = (\<Sum>i<n. if k * (i * l + j + 1) \<le> T then digit B k T (i * l + j) * 2 ^ (k * l * i) else 0)"
  proof (intro sum.cong refl)
    fix i
    have "digit B k T (i * l + j) < 2 ^ k" using assms by (rule digit_bound)
    then show "(\<Sum>b<2 ^ k. if k * (i * l + j + 1) \<le> T \<and> digit B k T (i * l + j) = b then b * 2 ^ (k * l * i) else 0) =
        (if k * (i * l + j + 1) \<le> T then digit B k T (i * l + j) * 2 ^ (k * l * i) else 0)"
      by (cases "k * (i * l + j + 1) \<le> T") (simp_all add: sum.delta)
  qed
  finally show ?thesis .
qed

lemma guard_fits:
  assumes "i < limit" and "j < l" and "k * l * limit < (n :: nat)"
  shows "k * (i * l + j + 1) < n"
proof -
  have "i * l + j + 1 \<le> (i + 1) * l" using assms(2) by simp
  also have "\<dots> \<le> limit * l" using assms(1) by (intro mult_right_mono) simp_all
  finally have "k * (i * l + j + 1) \<le> k * (limit * l)" by (rule mult_left_mono) simp
  then show ?thesis using assms(3) by (simp add: mult_ac)
qed

lemma bucket_step_pw:
  assumes E: "env_ok t E x0" and i: "i < plimit E" and j: "j < pl E"
    and ys: "buckets_ok E x0 (bucket_exp (nat (pB E)) (pk E) (pl E) (pT E) j i) (fst yn)"
  shows "holds t (\<lambda>yn. buckets_ok E x0 (bucket_exp (nat (pB E)) (pk E) (pl E) (pT E) j (Suc i)) (fst yn))
    (bucket_step E j i yn)"
proof -
  have wrap: "wrap64 (pk E * (i * pl E + j + 1)) = pk E * (i * pl E + j + 1)"
    using guard_fits [OF i j, of "pk E" "2 ^ 64"] E by (simp add: env_ok_def wrap64_def)
  show ?thesis
proof (cases "pk E * (i * pl E + j + 1) \<le> pT E")
  case False
  then show ?thesis using ys wrap by (simp add: bucket_step_def case_prod_beta buckets_ok_def bucket_exp_def)
next
  case True
  let ?d = "digit (nat (pB E)) (pk E) (pT E) (i * pl E + j)"
  have B: "0 < nat (pB E)" using E by (auto simp: env_ok_def intro: less_le_trans [of 0 "2 ^ pk E"])
  have d: "?d < 2 ^ pk E" using B by (rule digit_bound)
  have blk: "holds t (\<lambda>b. b = ?d) (pblock E (i * pl E + j) (pk E) (pT E) (pB E))"
    using E True by (simp add: env_ok_def)
  have "pk E * pl E * i < pk E * (i * pl E + j + 1)" using E by (simp add: env_ok_def algebra_simps)
  then have form: "pw (pD E) x0 (2 ^ (pk E * pl E * i)) (pform E i)" using E True by (simp add: env_ok_def)
  have y: "pw (pD E) x0 (bucket_exp (nat (pB E)) (pk E) (pl E) (pT E) j i ?d) (fst yn ! ?d)" and len: "length (fst yn) = 2 ^ pk E"
    using ys d by (simp_all add: buckets_ok_def)
  have new: "buckets_ok E x0 (bucket_exp (nat (pB E)) (pk E) (pl E) (pT E) j (Suc i)) ((fst yn)[?d := z])"
    if "pw (pD E) x0 (bucket_exp (nat (pB E)) (pk E) (pl E) (pT E) j i ?d + 2 ^ (pk E * pl E * i)) z" for z
    using ys that True by (auto simp: buckets_ok_def bucket_exp_def nth_list_update)
  have "holds t (\<lambda>yn. buckets_ok E x0 (bucket_exp (nat (pB E)) (pk E) (pl E) (pT E) j (Suc i)) (fst yn))
      (bind_res (extra_step E (snd yn)) (\<lambda>n. bind_res (lift_opt (if ?d < length (fst yn)
        then nucomp_form (pG E) (fst yn ! ?d) (pform E i) (pD E) (pL E) else None)) (\<lambda>y. ret ((fst yn)[?d := y], n))))"
    by (rule holds_bind [OF extra_step_any [OF E]], rule holds_bind)
      (use nucomp_pw [OF E y form] d len new in \<open>auto intro: holds_mono\<close>)
  then show ?thesis
    using True blk unfolding bucket_step_def case_prod_beta wrap
    by (auto intro: holds_bind)
qed
qed

definition row_sum :: "prover_env \<Rightarrow> nat \<Rightarrow> nat" where
  "row_sum E j = (\<Sum>i<plimit E. if pk E * (i * pl E + j + 1) \<le> pT E
     then digit (nat (pB E)) (pk E) (pT E) (i * pl E + j) * 2 ^ (pk E * pl E * i) else 0)"

lemma prove_digit_pw:
  assumes E: "env_ok t E x0" and j: "j < pl E" and x: "pw (pD E) x0 e (fst xn)"
  shows "holds t (\<lambda>xn. pw (pD E) x0 (e * 2 ^ pk E + row_sum E j) (fst xn)) (prove_digit E j xn)"
  unfolding prove_digit_def Let_def case_prod_beta
proof (rule holds_bind)
  show "holds t (pw (pD E) x0 (e * nat (2 ^ pk E))) (fast_pow_form (pG E) (pred E) (fst xn) (pD E) (2 ^ pk E) (pL E))"
    using E x by (rule power_pw) simp
next
  fix x assume "pw (pD E) x0 (e * nat (2 ^ pk E)) x"
  then have x: "pw (pD E) x0 (e * 2 ^ pk E) x" by (simp add: nat_power_eq)
  let ?X = "bucket_exp (nat (pB E)) (pk E) (pl E) (pT E) j"
  have B: "0 < nat (pB E)" using E by (auto simp: env_ok_def intro: less_le_trans [of 0 "2 ^ pk E"])
  have tot: "(\<Sum>b<2 ^ pk E. b * ?X (plimit E) b) = row_sum E j"
    unfolding row_sum_def by (rule bucket_total [OF B])
  show "holds t (\<lambda>xn. pw (pD E) x0 (e * 2 ^ pk E + row_sum E j) (fst xn))
      (bind_res (fold_res (bucket_step E j) [0..<plimit E] (replicate (2 ^ pk E) (pid E), snd xn))
        (\<lambda>yn. bind_res (fold_res (high_step E (fst yn)) [0..<2 ^ (pk E div 2)] (x, snd yn))
          (\<lambda>zn. fold_res (low_step E (fst yn)) [0..<2 ^ (pk E - pk E div 2)] (fst zn, snd zn))))"
  proof (rule holds_bind)
    show "holds t (\<lambda>yn. buckets_ok E x0 (?X (plimit E)) (fst yn))
        (fold_res (bucket_step E j) [0..<plimit E] (replicate (2 ^ pk E) (pid E), snd xn))"
    proof (rule holds_fold [where P = "\<lambda>i yn. buckets_ok E x0 (?X i) (fst yn)"])
      show "buckets_ok E x0 (?X 0) (fst (replicate (2 ^ pk E) (pid E), snd xn))"
        using E by (simp add: buckets_ok_def bucket_exp_def env_ok_def)
    qed (rule bucket_step_pw [OF E _ j])
  next
    fix yn :: "form list \<times> nat"
    assume ys: "buckets_ok E x0 (?X (plimit E)) (fst yn)"
    show "holds t (\<lambda>xn. pw (pD E) x0 (e * 2 ^ pk E + row_sum E j) (fst xn))
        (bind_res (fold_res (high_step E (fst yn)) [0..<2 ^ (pk E div 2)] (x, snd yn))
          (\<lambda>zn. fold_res (low_step E (fst yn)) [0..<2 ^ (pk E - pk E div 2)] (fst zn, snd zn)))"
    proof (rule holds_bind [OF high_loop_pw [OF E ys]])
      show "pw (pD E) x0 (e * 2 ^ pk E) (fst (x, snd yn))" using x by simp
    next
      fix zn :: "form \<times> nat"
      assume z: "pw (pD E) x0 (e * 2 ^ pk E + (\<Sum>b1<2 ^ (pk E div 2). (\<Sum>b0<2 ^ (pk E - pk E div 2).
        ?X (plimit E) (b1 * 2 ^ (pk E - pk E div 2) + b0)) * (b1 * 2 ^ (pk E - pk E div 2)))) (fst zn)"
      from low_loop_pw [OF E ys z]
      show "holds t (\<lambda>xn. pw (pD E) x0 (e * 2 ^ pk E + row_sum E j) (fst xn))
          (fold_res (low_step E (fst yn)) [0..<2 ^ (pk E - pk E div 2)] (fst zn, snd zn))"
        using halves_sum [where k = "pk E" and X = "?X (plimit E)"] tot by (simp add: add.assoc)
    qed
  qed
qed

subsection \<open>All digits\<close>

lemma guard_iff: "0 < (k :: nat) \<Longrightarrow> k * (m + 1) \<le> T \<longleftrightarrow> m < T div k"
  using less_eq_div_iff_mult_less_eq [of k "m + 1" T] by (simp add: mult.commute Suc_le_eq)

lemma up_div: "0 < (d :: nat) \<Longrightarrow> T \<le> d * (T div d + (if T mod d \<noteq> 0 then 1 else 0))"
proof -
  assume "0 < d"
  then have "T mod d \<le> d * (if T mod d \<noteq> 0 then 1 else 0)" using mod_less_divisor [of d T] by simp
  then show ?thesis unfolding add_mult_distrib2 using mult_div_mod_eq [of d T] by linarith
qed

text \<open>A product that wraps only makes the bound larger.\<close>

lemma limit_covers: "wrap32 (k * l) \<noteq> 0 \<Longrightarrow> T div k \<le> bucket_limit k l T * l"
proof -
  assume w: "wrap32 (k * l) \<noteq> 0"
  then have kl: "0 < k" by (cases "k = 0") (simp_all add: wrap32_def)
  let ?n = "bucket_limit k l T"
  have "T \<le> wrap32 (k * l) * ?n" using up_div [of "wrap32 (k * l)" T] w by (simp add: bucket_limit_def Let_def)
  also have "\<dots> \<le> k * l * ?n" using wrap32_le by (rule mult_right_mono) simp
  finally have "T \<le> k * (?n * l)" by (simp add: mult_ac)
  then have "T div k \<le> k * (?n * l) div k" by (rule div_le_mono)
  then show ?thesis using kl by simp
qed

lemma row_total:
  assumes kl: "0 < pk E" "0 < pl E" and B: "2 ^ pk E \<le> pB E" and limit: "pT E div pk E \<le> plimit E * pl E"
  shows "(\<Sum>j<pl E. 2 ^ (pk E * j) * row_sum E j) = 2 ^ pT E div nat (pB E)"
proof -
  let ?k = "pk E" and ?l = "pl E" and ?T = "pT E" and ?B = "nat (pB E)"
  let ?f = "\<lambda>m. if m < ?T div ?k then digit ?B ?k ?T m * 2 ^ (?k * m) else 0"
  have B': "0 < ?B" "2 ^ ?k \<le> ?B"
    using B by (auto simp: le_nat_iff intro: less_le_trans [of 0 "2 ^ ?k"])
  have "(\<Sum>j<?l. 2 ^ (?k * j) * row_sum E j) = (\<Sum>j<?l. \<Sum>i<plimit E. ?f (i * ?l + j))"
    unfolding row_sum_def sum_distrib_left guard_iff [OF kl(1)]
    by (intro sum.cong refl) (auto simp: algebra_simps power_add)
  also have "\<dots> = (\<Sum>i<plimit E. \<Sum>j<?l. ?f (i * ?l + j))" by (rule sum.swap)
  also have "\<dots> = (\<Sum>i<plimit E. sum ?f {i * ?l..<i * ?l + ?l})"
  proof (intro sum.cong [OF refl])
    fix i
    show "(\<Sum>j<?l. ?f (i * ?l + j)) = sum ?f {i * ?l..<i * ?l + ?l}"
      by (subst sum.atLeastLessThan_shift_0) (simp add: atLeast0LessThan)
  qed
  also have "\<dots> = sum ?f {..<plimit E * ?l}" by (rule sum.nat_group)
  also have "\<dots> = (\<Sum>m<?T div ?k. digit ?B ?k ?T m * 2 ^ (?k * m))"
    by (rule sum.mono_neutral_cong_right) (use limit in auto)
  also have "\<dots> = 2 ^ ?T div ?B" by (rule digit_sum [OF B' kl(1)])
  finally show ?thesis .
qed

lemma prove_range_pw:
  assumes E: "env_ok t E x0" and "lo \<le> hi" and hi: "hi \<le> pl E"
  shows "holds t (\<lambda>xn. pw (pD E) x0 (\<Sum>j=lo..<hi. 2 ^ (pk E * (j - lo)) * row_sum E j) (fst xn)) (prove_range E lo hi n)"
  unfolding prove_range_def
proof (rule holds_fold_down [where P = "\<lambda>m xn. pw (pD E) x0 (\<Sum>j=m..<hi. 2 ^ (pk E * (j - m)) * row_sum E j) (fst xn)"])
  show "pw (pD E) x0 (\<Sum>j=hi..<hi. 2 ^ (pk E * (j - hi)) * row_sum E j) (fst (pid E, n))"
    using E by (simp add: env_ok_def)
next
  fix i and xn :: "form \<times> nat"
  assume i: "lo \<le> i" "i < hi" and xn: "pw (pD E) x0 (\<Sum>j=Suc i..<hi. 2 ^ (pk E * (j - Suc i)) * row_sum E j) (fst xn)"
  have "(\<Sum>j=Suc i..<hi. 2 ^ (pk E * (j - Suc i)) * row_sum E j) * 2 ^ pk E
      = (\<Sum>j=Suc i..<hi. 2 ^ (pk E * (j - i)) * row_sum E j)"
    unfolding sum_distrib_right
  proof (intro sum.cong refl)
    fix j assume "j \<in> {Suc i..<hi}"
    then have "j - i = Suc (j - Suc i)" by auto
    then have "pk E * (j - i) = pk E * (j - Suc i) + pk E" by simp
    then show "2 ^ (pk E * (j - Suc i)) * row_sum E j * 2 ^ pk E = 2 ^ (pk E * (j - i)) * row_sum E j"
      by (simp add: power_add)
  qed
  then have "(\<Sum>j=Suc i..<hi. 2 ^ (pk E * (j - Suc i)) * row_sum E j) * 2 ^ pk E + row_sum E i
      = (\<Sum>j=i..<hi. 2 ^ (pk E * (j - i)) * row_sum E j)"
    using i(2) by (simp add: sum.atLeast_Suc_lessThan)
  with prove_digit_pw [OF E _ xn, of i] i hi
  show "holds t (\<lambda>xn. pw (pD E) x0 (\<Sum>j=i..<hi. 2 ^ (pk E * (j - i)) * row_sum E j) (fst xn)) (prove_digit E i xn)"
    by simp
qed (rule assms(2))

subsection \<open>The proofs are powers of the input\<close>

lemma pw_identity: "good_disc D \<Longrightarrow> posdef D x \<Longrightarrow> identity D = ret u \<Longrightarrow> pw D x 0 u"
  using identity_ok [of D x x] by (auto simp: pw_def)

text \<open>The forms handed to a prover: entry \<open>i\<close> is \<open>x^(2^(k l i))\<close>.\<close>

definition stored_powers :: "int \<Rightarrow> form \<Rightarrow> nat \<Rightarrow> nat \<Rightarrow> nat \<Rightarrow> (nat \<Rightarrow> form) \<Rightarrow> bool" where
  "stored_powers D x k l T getform \<longleftrightarrow>
     (\<forall>i. k * l * i < T \<longrightarrow> pw D x (2 ^ (k * l * i)) (getform i))"

text \<open>No index of the loop over the stored forms leaves 64 bits.\<close>

definition indices_fit :: "nat \<Rightarrow> nat \<Rightarrow> nat \<Rightarrow> bool" where
  "indices_fit k l T \<longleftrightarrow> k * l * bucket_limit k l T < 2 ^ 64"

lemma indices_fitI:
  assumes "0 < k * l" and "k * l < 2 ^ 32" and "T < 2 ^ 63"
  shows "indices_fit k l T"
proof -
  have "k * l * bucket_limit k l T \<le> k * l * (T div (k * l)) + k * l"
    using assms(2) by (simp add: bucket_limit_def Let_def)
  also have "\<dots> \<le> T + k * l" by simp
  finally show ?thesis using assms by (simp add: indices_fit_def)
qed

lemma env_okI:
  assumes D: "good_disc D" and G: "gcdext_ok G" and x: "posdef D x" and red: "reducer_sound red"
    and t: "t \<Longrightarrow> reducer_total red \<and> (\<forall>n. go n)" and u: "identity D = ret u"
    and kl: "0 < k" "0 < l" "k \<le> 30" and B: "2 ^ 263 \<le> B" and T: "T < 2 ^ 64"
    and forms: "stored_powers D x k l T getform"
    and limit: "T div k \<le> limit * l" "k * l * limit < 2 ^ 64"
    and block: "block = GetBlock \<or> block = GetBlock_slow (Some 0)"
  shows "env_ok t (mk_env G red D L B u go block getform T k l limit) x"
proof -
  have B0: "0 < B" using B by simp
  have "(2 :: int) ^ k \<le> 2 ^ 64" using kl(3) by (intro power_increasing) auto
  then have kB: "2 ^ k \<le> B" using B by simp
  have blk: "holds t (\<lambda>b. b = digit (nat B) k T m) (block m k T B)" if "k * (m + 1) \<le> T" for m
    using block GetBlock_digit [OF B0 that T kl(3)] by auto
  show ?thesis
    using D G x red t pw_identity [OF D x u] kl kB blk forms limit by (simp add: env_ok_def mk_env_def stored_powers_def)
qed

lemma nat_div_eq: "nat (2 ^ n div B) = 2 ^ n div nat B"
proof -
  have "nat (2 ^ n div B) = nat (2 ^ n) div nat B" by (rule nat_div_distrib) simp
  then show ?thesis by (simp add: nat_power_eq)
qed

lemma finish_proof:
  assumes D: "good_disc D" and red: "reducer_sound red" and t: "t \<Longrightarrow> reducer_total red"
    and f: "pw D x e f"
  shows "holds t (\<lambda>p. pw D x e p \<and> weakly_reduced p) (lift_opt (red f))"
proof (rule holds_lift)
  have f': "posdef D f" "class_pow D x e f" "D < 0" using f D by (simp_all add: pw_def)
  show "pw D x e p \<and> weakly_reduced p" if "red f = Some p" for p
    using reducer_sound.red_sound [OF red that f'(3,1)] class_pow_same [OF f'(2)] by (simp add: pw_def)
  show "\<exists>p. red f = Some p" if t using reducer_total.red_returns [OF assms(3) f'(3,1)] that by blast
qed

lemma env_fields [simp]:
  "pk (mk_env G red D L B u go block getform T k l limit) = k" "pl (mk_env G red D L B u go block getform T k l limit) = l"
  "pB (mk_env G red D L B u go block getform T k l limit) = B" "pT (mk_env G red D L B u go block getform T k l limit) = T"
  "pD (mk_env G red D L B u go block getform T k l limit) = D"
  "plimit (mk_env G red D L B u go block getform T k l limit) = limit"
  by (simp_all add: mk_env_def)

lemma big_B: "2 ^ 263 \<le> B \<Longrightarrow> k \<le> 30 \<Longrightarrow> (2 :: int) ^ k \<le> B"
  using power_increasing [of k 64 "2 :: int"] by simp

lemma GenerateProof_correct:
  assumes D: "good_disc D" and G: "gcdext_ok G" and x: "posdef D (seg_x segm)" and y: "posdef D (seg_y segm)"
    and red: "reducer_sound red" and t: "t \<Longrightarrow> reducer_total red \<and> (\<forall>n. go n) \<and> wrap32 (k * l) \<noteq> 0"
    and kl: "0 < k" "0 < l" "k \<le> 30" and fit: "indices_fit k l (unat (seg_length segm))"
    and B: "get_B H P D (seg_x segm) (seg_y segm) = Some (B, x', y')"
    and forms: "stored_powers D (seg_x segm) k l (unat (seg_length segm)) getform"
  shows "holds t (\<lambda>p. posdef D p \<and> weakly_reduced p \<and>
      class_pow D (seg_x segm) (nat (2 ^ unat (seg_length segm) div B)) p)
    (GenerateProof G H P red go getform segm D k l)"
proof -
  have D0: "D < 0" using D by simp
  let ?T = "unat (seg_length segm)" and ?L = "iroot4 (- D)"
  have T: "?T < 2 ^ 64" using unsigned_less [of "seg_length segm"] by simp
  have B1: "2 ^ 263 \<le> B" using get_B_reduced(9) [OF B D0 x y] by (rule challenge_pos)
  obtain u where u: "identity D = ret u" using identity_ok [OF D x] by blast
  let ?E = "mk_env G red D ?L B u go GetBlock getform ?T k l (bucket_limit k l ?T)"
  show ?thesis
  proof (cases "wrap32 (k * l) = 0")
    case True
    then show ?thesis using t B u D0 by (auto simp: GenerateProof_def catch_stop_def ret_def lift_opt_def)
  next
    case False
  note cover = limit_covers [OF False, of ?T]
  have E: "env_ok t ?E (seg_x segm)"
    by (rule env_okI [OF D G x red _ u kl B1 T forms cover fit [unfolded indices_fit_def]]) (use t in simp_all)
  have s: "(\<Sum>j=0..<l. 2 ^ (k * j) * row_sum ?E j) = nat (2 ^ ?T div B)"
    using row_total [of ?E] kl big_B [OF B1 kl(3)] cover by (simp add: nat_div_eq atLeast0LessThan)
  have "holds t (\<lambda>xn. pw D (seg_x segm) (nat (2 ^ ?T div B)) (fst xn)) (prove_range ?E 0 l 0)"
    using prove_range_pw [OF E, of 0 l 0] s by simp
  then have "holds t (\<lambda>p. pw D (seg_x segm) (nat (2 ^ ?T div B)) p \<and> weakly_reduced p)
      (bind_res (prove_range ?E 0 l 0) (\<lambda>(x, n). lift_opt (red x)))"
    by (rule holds_bind) (use finish_proof [OF D red] t in auto)
  moreover have "GenerateProof G H P red go getform segm D k l =
      bind_res (prove_range ?E 0 l 0) (\<lambda>(x, n). lift_opt (red x))"
    using B u D0 kl False by (simp add: GenerateProof_def catch_stop_def ret_def Let_def)
  ultimately show ?thesis by (auto intro: holds_mono simp: pw_def)
  qed
qed

subsection \<open>The parallel prover\<close>

primrec SquareFormN :: "prover_env \<Rightarrow> form \<Rightarrow> nat \<Rightarrow> form option" where
  "SquareFormN E f 0 = Some f"
| "SquareFormN E f (Suc cnt) =
     do { g \<leftarrow> nudupl_form (pG E) f (pD E) (pL E); h \<leftarrow> pred E g; SquareFormN E h cnt }"

definition ProvePart :: "prover_env \<Rightarrow> nat \<Rightarrow> nat \<Rightarrow> form res" where
  "ProvePart E start len =
     bind_res (prove_range E (start - len) start 0) (\<lambda>(x, n).
       lift_opt (SquareFormN E x ((start - len) * pk E)))"

text \<open>The two parts run on two threads, each with its own count of extra steps: \<open>go0\<close>,
  \<open>go1\<close>, and \<open>go_end\<close> for the question after they are joined.  A part that stops
  early leaves its entry of \<open>x_vals\<close> as it was constructed.\<close>

definition part_value :: "form res \<Rightarrow> form res" where
  "part_value m = (case m of Some (Inl Stopped) \<Rightarrow> ret (mk_form 0 0 0) | _ \<Rightarrow> m)"

definition ParallelGenerateProof ::
  "gcdext \<Rightarrow> (byte list \<Rightarrow> byte list) \<Rightarrow> (int \<Rightarrow> bool) \<Rightarrow> (form \<Rightarrow> form option) \<Rightarrow>
   (nat \<Rightarrow> bool) \<Rightarrow> (nat \<Rightarrow> bool) \<Rightarrow> bool \<Rightarrow> (nat \<Rightarrow> form) \<Rightarrow> segment \<Rightarrow> int \<Rightarrow> nat \<Rightarrow> nat \<Rightarrow> form res" where
  "ParallelGenerateProof G H P red go0 go1 go_end getform segm D k l =
     bind_res (lift_opt (get_B H P D (seg_x segm) (seg_y segm))) (\<lambda>(B, x', y').
     bind_res (lift_opt (if D > 0 then None else Some (iroot4 (- D)))) (\<lambda>L.
     bind_res (identity D) (\<lambda>idf.
     let l0 = l div 2; l1 = l - l0; T = unat (seg_length segm);
         E = (\<lambda>go. mk_env G red D L B idf go GetBlock getform T k l (bucket_limit k l T)) in
     if wrap32 (k * l) = 0 \<or> 31 \<le> k then None
     else bind_res (part_value (ProvePart (E go0) l l0)) (\<lambda>v0.
       bind_res (part_value (ProvePart (E go1) l1 l1)) (\<lambda>v1.
       if \<not> go_end then Some (Inl Stopped)
       else bind_res (lift_opt (nucomp_form G v0 v1 D L)) (\<lambda>p. lift_opt (red p)))))))"

lemma SquareFormN_pw:
  assumes E: "env_ok t E x0"
  shows "pw (pD E) x0 e f \<Longrightarrow> holds t (pw (pD E) x0 (e * 2 ^ cnt)) (lift_opt (SquareFormN E f cnt))"
proof (induction cnt arbitrary: e f)
  case (Suc cnt)
  have e: "good_disc (pD E)" "gcdext_ok (pG E)" "posdef (pD E) x0" "reducer_sound (pred E)" "pD E < 0"
    "t \<Longrightarrow> reducer_total (pred E)"
    using E by (simp_all add: env_ok_def)
  have f: "posdef (pD E) f" "class_pow (pD E) x0 e f" using Suc.prems by (simp_all add: pw_def)
  obtain g where g: "qfb_nudupl (pG E) f (pD E) (pL E) = Some g" "posdef (pD E) g" "class_mul (pD E) f f g"
    using qfb_nudupl_ok [OF e(1,2) f(1)] by blast
  have eg: "class_pow (pD E) x0 (e + e) g" by (rule class_pow_add [OF e(1,3) f(2,2) g(3)])
  show ?case
  proof (cases "pred E g")
    case None
    then have "\<not> t" using reducer_total.red_returns [OF e(6) e(5) g(2)] by auto
    then show ?thesis using g None by (simp add: nudupl_form_def)
  next
    case (Some h)
    have h: "posdef (pD E) h" "same_class (pD E) g h"
      using reducer_sound.red_sound [OF e(4) Some e(5) g(2)] by simp_all
    have "pw (pD E) x0 (e + e) h" using h(1) class_pow_same [OF eg h(2)] by (simp add: pw_def)
    then have "holds t (pw (pD E) x0 ((e + e) * 2 ^ cnt)) (lift_opt (SquareFormN E h cnt))"
      by (rule Suc.IH)
    moreover have "(e + e) * 2 ^ cnt = e * 2 ^ Suc cnt" by simp
    ultimately show ?thesis using g Some by (simp add: nudupl_form_def mult.assoc)
  qed
qed simp

lemma ProvePart_pw:
  assumes E: "env_ok t E x0" and "len \<le> start" and hi: "start \<le> pl E"
  shows "holds t (pw (pD E) x0 (\<Sum>j=start - len..<start. 2 ^ (pk E * j) * row_sum E j)) (ProvePart E start len)"
  unfolding ProvePart_def
proof (rule holds_bind)
  let ?lo = "start - len"
  show "holds t (\<lambda>xn. pw (pD E) x0 (\<Sum>j=?lo..<start. 2 ^ (pk E * (j - ?lo)) * row_sum E j) (fst xn))
      (prove_range E ?lo start 0)"
    using E by (rule prove_range_pw) (use hi in simp_all)
next
  let ?lo = "start - len"
  fix xn :: "form \<times> nat"
  assume x: "pw (pD E) x0 (\<Sum>j=?lo..<start. 2 ^ (pk E * (j - ?lo)) * row_sum E j) (fst xn)"
  have "(\<Sum>j=?lo..<start. 2 ^ (pk E * (j - ?lo)) * row_sum E j) * 2 ^ (?lo * pk E)
      = (\<Sum>j=?lo..<start. 2 ^ (pk E * j) * row_sum E j)"
    unfolding sum_distrib_right
  proof (intro sum.cong refl)
    fix j assume "j \<in> {?lo..<start}"
    then have "pk E * j = pk E * (j - ?lo) + ?lo * pk E" by (metis add_diff_inverse_nat add.commute add_mult_distrib2 atLeastLessThan_iff leD mult.commute)
    then show "2 ^ (pk E * (j - ?lo)) * row_sum E j * 2 ^ (?lo * pk E) = 2 ^ (pk E * j) * row_sum E j"
      by (simp add: power_add)
  qed
  then show "holds t (pw (pD E) x0 (\<Sum>j=?lo..<start. 2 ^ (pk E * j) * row_sum E j))
      (case xn of (x, n) \<Rightarrow> lift_opt (SquareFormN E x (?lo * pk E)))"
    using SquareFormN_pw [OF E x, of "?lo * pk E"] by (simp add: case_prod_beta)
qed

lemma row_sum_go:
  "row_sum (mk_env G red D L B u go block getform T k l limit) j = row_sum (mk_env G red D L B u go' block getform T k l limit) j"
  unfolding row_sum_def env_fields ..

end
