(* ===== verification/Doubles.thy ===== *)
theory Doubles
  imports Prelude
begin

section \<open>A quotient of doubles, rounded up\<close>

text \<open>
  \<open>GenerateWesolowski\<close> bounds a loop by \<open>ceil(double(n) / d)\<close>.  A \<open>double\<close> has a significand of
  53 bits, and its division rounds to the nearest, ties to the even one.  Counts below \<open>2^53\<close>
  are doubles themselves; for them the rounded quotient has the same ceiling as the exact one.
  Everything is written over \<open>int\<close>, which evaluates in binary.
\<close>

definition exact_double :: "nat \<Rightarrow> bool" where
  "exact_double n \<longleftrightarrow> n < 2 ^ 53"

lemma exact_double_code [code]: "exact_double n \<longleftrightarrow> int n < 9007199254740992"
  by (simp add: exact_double_def)

definition round_even :: "int \<Rightarrow> int \<Rightarrow> int" where
  "round_even a b =
     (let q = a div b; r = a mod b in if 2 * r < b \<or> (2 * r = b \<and> even q) then q else q + 1)"

text \<open>The number of bits behind the binary point: the most with which the quotient keeps 53
  bits, found by doubling the numerator; 107 doublings are enough for both arguments below
  \<open>2^53\<close>.\<close>

primrec fraction_bits :: "nat \<Rightarrow> int \<Rightarrow> int \<Rightarrow> nat" where
  "fraction_bits 0 a b = 0"
| "fraction_bits (Suc fuel) a b = (if 2 ^ 53 * b \<le> 2 * a then 0 else Suc (fraction_bits fuel (2 * a) b))"

definition ceil_double :: "nat \<Rightarrow> nat \<Rightarrow> nat" where
  "ceil_double n d =
     (let p = fraction_bits 107 (int n) (int d);
          significand = round_even (int n * 2 ^ p) (int d)
      in nat (- ((- significand) div 2 ^ p)))"

definition ceil_div :: "nat \<Rightarrow> nat \<Rightarrow> nat" where
  "ceil_div n d = (n + d - 1) div d"

lemma fraction_bits_enough:
  assumes "2 ^ 53 * b \<le> 2 ^ fuel * a" and "0 < fuel"
  shows "2 ^ 53 * b \<le> 2 * (a * 2 ^ fraction_bits fuel a b)"
  using assms
proof (induction fuel arbitrary: a)
  case (Suc fuel)
  show ?case
  proof (cases "2 ^ 53 * b \<le> 2 * a")
    case False
    then have f: "0 < fuel" using Suc.prems(1) by (cases fuel) simp_all
    have "2 ^ 53 * b \<le> 2 ^ fuel * (2 * a)" using Suc.prems(1) by (simp add: ac_simps)
    from Suc.IH [OF this f] show ?thesis using False by (simp add: ac_simps)
  qed simp
qed simp

lemma round_even_upper: "0 < b \<Longrightarrow> a \<le> m * b \<Longrightarrow> round_even a b \<le> m"
proof -
  assume b: "0 < b" and a: "a \<le> m * b"
  show ?thesis
  proof (cases "a mod b = 0")
    case True
    have "a div b \<le> m * b div b" using a b by (rule zdiv_mono1)
    then show ?thesis using True b by (simp add: round_even_def)
  next
    case False
    then have "a div b * b < m * b" using a div_mult_mod_eq [of a b] pos_mod_sign [OF b, of a] by linarith
    then have "a div b < m" using b by (simp add: mult_less_cancel_right)
    then show ?thesis by (simp add: round_even_def Let_def)
  qed
qed

lemma round_even_lower:
  assumes b: "0 < b" and a: "m * b + c \<le> a" and c: "0 < c" "b < 2 * c"
  shows "m < round_even a b"
proof -
  have "m * b div b \<le> a div b" using a b c by (intro zdiv_mono1) simp_all
  then have le: "m \<le> a div b" using b by simp
  show ?thesis
  proof (cases "m = a div b")
    case True
    then have "c \<le> a mod b" using a div_mult_mod_eq [of a b] unfolding True by linarith
    then have "b < 2 * (a mod b)" using c by simp
    then show ?thesis using True by (simp add: round_even_def Let_def)
  next
    case False
    then show ?thesis using le by (simp add: round_even_def Let_def)
  qed
qed

lemma ceil_double_exact:
  assumes "exact_double n" and "exact_double d" and d: "0 < d"
  shows "ceil_double n d = ceil_div n d"
proof (cases "n = 0")
  case True
  then show ?thesis using d by (simp add: ceil_double_def ceil_div_def round_even_def Let_def)
next
  case False
  define p where "p = fraction_bits 107 (int n) (int d)"
  define s where "s = round_even (int n * 2 ^ p) (int d)"
  define m where "m = int (ceil_div n d)"
  have bounds: "int n < 2 ^ 53" "int d < 2 ^ 53" using assms by (simp_all add: exact_double_def)
  have "(2 :: int) ^ 53 * int d \<le> 2 ^ 107 * int n" using bounds False by simp
  then have "2 ^ 53 * int d \<le> 2 * (int n * 2 ^ p)" unfolding p_def by (rule fraction_bits_enough) simp
  also have "\<dots> < 2 * (2 ^ 53 * 2 ^ p)" using bounds(1) by simp
  finally have small: "int d < 2 * 2 ^ p" by simp
  have up: "(n + d - 1) div d * d \<ge> n \<and> ((n + d - 1) div d - 1) * d < n"
  proof -
    have e: "(n + d - 1) div d * d + (n + d - 1) mod d = n + d - 1" by simp
    have "(n + d - 1) mod d < d" using d by simp
    moreover have "((n + d - 1) div d - 1) * d = (n + d - 1) div d * d - d" by (simp add: diff_mult_distrib)
    ultimately show ?thesis using e d False by linarith
  qed
  have m1: "int n \<le> m * int d" using up unfolding m_def ceil_div_def by (metis of_nat_le_iff of_nat_mult)
  have "0 < (n + d - 1) div d" using d False by (simp add: div_greater_zero_iff)
  then have "(m - 1) * int d = int (((n + d - 1) div d - 1) * d)" by (simp add: m_def ceil_div_def of_nat_diff)
  then have m2: "(m - 1) * int d + 1 \<le> int n" using up by linarith
  have "int n * 2 ^ p \<le> (m * 2 ^ p) * int d" using m1 by (simp add: ac_simps)
  then have hi: "s \<le> m * 2 ^ p" unfolding s_def using d by (intro round_even_upper) simp_all
  have "((m - 1) * int d + 1) * 2 ^ p \<le> int n * 2 ^ p" using m2 by (intro mult_right_mono) simp_all
  then have "(m - 1) * 2 ^ p * int d + 2 ^ p \<le> int n * 2 ^ p" by (simp add: algebra_simps)
  then have lo: "(m - 1) * 2 ^ p < s" unfolding s_def using d small by (intro round_even_lower) simp_all
  have "- s = 2 ^ p * (- m) + (m * 2 ^ p - s)" by simp
  then have "(- s) div 2 ^ p = - m"
    by (rule int_div_pos_eq) (use hi lo in \<open>simp_all add: left_diff_distrib\<close>)
  then show ?thesis by (simp add: ceil_double_def Let_def p_def [symmetric] s_def [symmetric] m_def)
qed

end
