(* ===== verification/Provers.thy ===== *)
theory Provers
  imports Prover Doubles
begin

section \<open>The provers that use the proof generator\<close>

text \<open>
  The correctness of \<open>ParallelProver\<close>, and the slow prover of \<open>prover_slow.h\<close> from
  the squaring loop to the serialized output.
\<close>

subsection \<open>The parallel prover computes the same power\<close>

text \<open>A part that stopped early leaves the zero form, which no composition accepts.\<close>

lemma part_value_holds:
  "holds t Q m \<Longrightarrow> holds t (\<lambda>v. Q v \<or> \<not> t \<and> v = mk_form 0 0 0) (part_value m)"
  by (auto simp: holds_def part_value_def ret_def split: option.splits sum.splits vdf_error.splits)

lemma nucomp_zero:
  assumes "0 \<le> fa v"
  shows "nucomp_form G (mk_form 0 0 0) v D L = None" and "nucomp_form G v (mk_form 0 0 0) D L = None"
  using assms
  by (auto simp: nucomp_form_def qfb_nucomp_def nucomp_ordered_def nucomp_reduce_def Let_def)

lemma combine_parts:
  assumes E: "env_ok t E x0"
    and v0: "pw (pD E) x0 a v0 \<or> \<not> t \<and> v0 = mk_form 0 0 0"
    and v1: "pw (pD E) x0 b v1 \<or> \<not> t \<and> v1 = mk_form 0 0 0"
  shows "holds t (pw (pD E) x0 (a + b)) (lift_opt (nucomp_form (pG E) v0 v1 (pD E) (pL E)))"
proof (cases "v0 = mk_form 0 0 0 \<or> v1 = mk_form 0 0 0")
  case True
  have "0 \<le> fa v0" "0 \<le> fa v1" using v0 v1 by (auto simp: pw_def posdef_def)
  moreover have "\<not> t" using True v0 v1 by (auto simp: pw_def posdef_def)
  ultimately show ?thesis using True nucomp_zero by auto
next
  case False
  then show ?thesis using nucomp_pw [OF E] v0 v1 by blast
qed

lemma ParallelGenerateProof_correct:
  assumes D: "good_disc D" and G: "gcdext_ok G" and x: "posdef D (seg_x segm)" and y: "posdef D (seg_y segm)"
    and red: "reducer_sound red"
    and t: "t \<Longrightarrow> reducer_total red \<and> (\<forall>n. go0 n) \<and> (\<forall>n. go1 n) \<and> go_end \<and> wrap32 (k * l) \<noteq> 0"
    and kl: "0 < k" "0 < l" "k \<le> 30" and fit: "indices_fit k l (unat (seg_length segm))"
    and B: "get_B H P D (seg_x segm) (seg_y segm) = Some (B, x', y')"
    and forms: "stored_powers D (seg_x segm) k l (unat (seg_length segm)) getform"
  shows "holds t (\<lambda>p. posdef D p \<and> weakly_reduced p \<and>
      class_pow D (seg_x segm) (nat (2 ^ unat (seg_length segm) div B)) p)
    (ParallelGenerateProof G H P red go0 go1 go_end getform segm D k l)"
proof -
  have D0: "D < 0" using D by simp
  let ?T = "unat (seg_length segm)" and ?L = "iroot4 (- D)" and ?l1 = "l - l div 2"
  have T: "?T < 2 ^ 64" using unsigned_less [of "seg_length segm"] by simp
  have B1: "2 ^ 263 \<le> B" using get_B_reduced(9) [OF B D0 x y] by (rule challenge_pos)
  obtain u where u: "identity D = ret u" using identity_ok [OF D x] by blast
  show ?thesis
  proof (cases "wrap32 (k * l) = 0")
    case True
    then show ?thesis using t B u D0 by (auto simp: ParallelGenerateProof_def ret_def lift_opt_def Let_def)
  next
    case False
  note cover = limit_covers [OF False, of ?T]
  define E where "E go = mk_env G red D ?L B u go GetBlock getform ?T k l (bucket_limit k l ?T)" for go
  have E: "env_ok t (E go0) (seg_x segm)" "env_ok t (E go1) (seg_x segm)"
    unfolding E_def using env_okI [OF D G x red _ u kl B1 T forms cover fit [unfolded indices_fit_def]] t by auto
  have fields: "pD (E go) = D" "pG (E go) = G" "pL (E go) = ?L" "pk (E go) = k" "pl (E go) = l" "pT (E go) = ?T"
    "pB (E go) = B" "plimit (E go) = bucket_limit k l ?T" for go
    by (simp_all add: E_def mk_env_def)
  have rows: "row_sum (E go1) j = row_sum (E go0) j" for j unfolding E_def by (rule row_sum_go)
  let ?S = "\<lambda>lo hi. \<Sum>j=lo..<hi. 2 ^ (k * j) * row_sum (E go0) j"
  have "?S ?l1 l + ?S 0 ?l1 = ?S 0 l" by (simp add: add.commute sum.atLeastLessThan_concat)
  also have "\<dots> = nat (2 ^ ?T div B)"
    using row_total [of "E go0"] kl big_B [OF B1 kl(3)] cover by (simp add: fields nat_div_eq atLeast0LessThan)
  finally have total: "?S ?l1 l + ?S 0 ?l1 = nat (2 ^ ?T div B)" .
  have l1: "l - l div 2 = ?l1" by simp
  have p0: "holds t (pw D (seg_x segm) (?S ?l1 l)) (ProvePart (E go0) l (l div 2))"
    using ProvePart_pw [OF E(1), of "l div 2" l] by (simp add: fields)
  have p1: "holds t (pw D (seg_x segm) (?S 0 ?l1)) (ProvePart (E go1) ?l1 ?l1)"
    using ProvePart_pw [OF E(2), of ?l1 ?l1] by (simp add: fields rows)
  have fin: "holds t (\<lambda>p. pw D (seg_x segm) (nat (2 ^ ?T div B)) p \<and> weakly_reduced p)
      (bind_res (lift_opt (nucomp_form G v0 v1 D ?L)) (\<lambda>p. lift_opt (red p)))"
    if "pw D (seg_x segm) (?S ?l1 l) v0 \<or> \<not> t \<and> v0 = mk_form 0 0 0"
      "pw D (seg_x segm) (?S 0 ?l1) v1 \<or> \<not> t \<and> v1 = mk_form 0 0 0" for v0 v1
  proof (rule holds_bind)
    show "holds t (pw D (seg_x segm) (nat (2 ^ ?T div B))) (lift_opt (nucomp_form G v0 v1 D ?L))"
      using combine_parts [OF E(1), unfolded fields, OF that] unfolding total .
  qed (use finish_proof [OF D red] t in blast)
  have "ParallelGenerateProof G H P red go0 go1 go_end getform segm D k l =
      bind_res (part_value (ProvePart (E go0) l (l div 2))) (\<lambda>v0.
        bind_res (part_value (ProvePart (E go1) ?l1 ?l1)) (\<lambda>v1.
        if \<not> go_end then Some (Inl Stopped)
        else bind_res (lift_opt (nucomp_form G v0 v1 D ?L)) (\<lambda>p. lift_opt (red p))))"
    using B u D0 kl(3) by (simp add: ParallelGenerateProof_def E_def Let_def False)
  moreover have "holds t (\<lambda>p. pw D (seg_x segm) (nat (2 ^ ?T div B)) p \<and> weakly_reduced p) \<dots>"
    by (rule holds_bind [OF part_value_holds [OF p0]], rule holds_bind [OF part_value_holds [OF p1]])
      (use fin t in auto)
  ultimately show ?thesis by (auto intro: holds_mono simp: pw_def)
  qed
qed

subsection \<open>The slow prover\<close>

text \<open>The squaring loop stores \<open>y\<close> at every multiple of \<open>kl\<close>; past the buffer of \<open>space\<close>
  entries the write is undefined.\<close>

definition slow_step :: "gcdext \<Rightarrow> (form \<Rightarrow> form option) \<Rightarrow> int \<Rightarrow> int \<Rightarrow> nat \<Rightarrow> nat \<Rightarrow> nat \<Rightarrow> form \<times> form list \<Rightarrow>
    (form \<times> form list) res" where
  "slow_step G red D L kl space i = (\<lambda>(y, stored).
     let stored = (if i mod kl = 0 then stored @ [y] else stored) in
     if length stored > space then None
     else bind_res (lift_opt (nudupl_form G y D L)) (\<lambda>y.
     bind_res (lift_opt (red y)) (\<lambda>y. ret (y, stored))))"

text \<open>The loop bound is the ceiling of a quotient of doubles.  The model follows it while both
  numbers are doubles; from \<open>2^53\<close> on, and for a product \<open>k l\<close> of zero, which makes the bound
  infinite, it is \<open>None\<close>.\<close>

definition GenerateWesolowski ::
  "gcdext \<Rightarrow> (byte list \<Rightarrow> byte list) \<Rightarrow> (int \<Rightarrow> bool) \<Rightarrow> (form \<Rightarrow> form option) \<Rightarrow> nat option \<Rightarrow>
   form \<Rightarrow> form \<Rightarrow> int \<Rightarrow> form list \<Rightarrow> nat \<Rightarrow> nat \<Rightarrow> nat \<Rightarrow> (form \<times> form \<times> form) res" where
  "GenerateWesolowski G H P red stale y x_init D intermediates num_iterations k l =
     bind_res (lift_opt (get_B H P D x_init y)) (\<lambda>(B, x_init', y').
     bind_res (lift_opt (if D > 0 then None else Some (iroot4 (- D)))) (\<lambda>L.
     bind_res (identity D) (\<lambda>idf.
     let kl = wrap64 (k * l) in
     if kl = 0 \<or> 31 \<le> k \<or> \<not> exact_double num_iterations \<or> \<not> exact_double kl then None
     else bind_res (prove_range (mk_env G red D L B idf (\<lambda>_. True) (GetBlock_slow stale) ((!) intermediates)
            num_iterations k l (ceil_double num_iterations kl)) 0 l 0) (\<lambda>(x, n).
       bind_res (lift_opt (red x)) (\<lambda>x. ret (x, x_init', y'))))))"

text \<open>\<open>ApproximateParameters\<close> is floating-point code; \<open>approx\<close> stands for it and
  returns \<open>(l, k)\<close>, which \<open>ProveSlow\<close> raises to at least 1.  Their product is an \<open>int\<close>.\<close>

definition ProveSlow ::
  "gcdext \<Rightarrow> (byte list \<Rightarrow> byte list) \<Rightarrow> (int \<Rightarrow> bool) \<Rightarrow> (form \<Rightarrow> form option) \<Rightarrow> nat option \<Rightarrow> (nat \<Rightarrow> int \<times> int) \<Rightarrow>
   int \<Rightarrow> form \<Rightarrow> nat \<Rightarrow> byte list res" where
  "ProveSlow G H P red stale approx D x num_iterations =
     bind_res (lift_opt (if D > 0 then None else Some (iroot4 (- D)))) (\<lambda>L.
     bind_res (from_abd (fa x) (fb x) D) (\<lambda>y.
     let d_bits = num_bits D;
         l = nat (if fst (approx num_iterations) \<le> 0 then 1 else fst (approx num_iterations));
         k = nat (if snd (approx num_iterations) \<le> 0 then 1 else snd (approx num_iterations));
         kl = k * l;
         size_vec = wrap64 (num_iterations + kl - 1) div kl
     in if int kl \<ge> 2 ^ 31 then None
        else bind_res (fold_res (slow_step G red D L kl size_vec) [0..<num_iterations] (y, [])) (\<lambda>(y, intermediates).
        bind_res (GenerateWesolowski G H P red stale y x D intermediates num_iterations k l) (\<lambda>(proof_form, x', y').
        bind_res (lift_opt (serialize_form y' d_bits)) (\<lambda>(result, y'').
        bind_res (lift_opt (serialize_form proof_form d_bits)) (\<lambda>(proof_bytes, p').
        ret (result @ proof_bytes)))))))"

text \<open>The loop stores exactly the forms the buffer of \<open>ceil (T / kl)\<close> entries has room
  for, each the power its reader expects.\<close>

definition stored_ok :: "int \<Rightarrow> form \<Rightarrow> nat \<Rightarrow> nat \<Rightarrow> form \<times> form list \<Rightarrow> bool" where
  "stored_ok D x kl i ys \<longleftrightarrow>
     pw D x (2 ^ i) (fst ys) \<and> length (snd ys) = ceil_div i kl \<and>
     (\<forall>m < length (snd ys). pw D x (2 ^ (kl * m)) (snd ys ! m))"

lemma ceil_div_split:
  assumes "r < d"
  shows "ceil_div (d * q + r) d = q + (if r = 0 then 0 else 1)"
proof (cases "r = 0")
  case True
  then show ?thesis using assms unfolding ceil_div_def
    by (simp, intro div_nat_eqI) (auto simp: algebra_simps)
next
  case False
  have "(d * q + r + d - 1) div d = Suc q"
    by (rule div_nat_eqI) (use assms False in \<open>auto simp: algebra_simps\<close>)
  then show ?thesis using False by (simp add: ceil_div_def)
qed

lemma ceil_div_eq: "0 < d \<Longrightarrow> ceil_div n d = n div d + (if n mod d = 0 then 0 else 1)"
  using ceil_div_split [of "n mod d" d "n div d"] by simp

lemma ceil_div_Suc: "0 < d \<Longrightarrow> ceil_div (Suc i) d = (if i mod d = 0 then Suc (ceil_div i d) else ceil_div i d)"
  by (simp add: ceil_div_eq mod_Suc div_Suc)

lemma slow_step_ok:
  assumes D: "good_disc D" and G: "gcdext_ok G" and x: "posdef D x" and red: "reducer_sound red"
    and t: "t \<Longrightarrow> reducer_total red" and kl: "0 < kl" and ys: "stored_ok D x kl i ys" and space: "ceil_div (Suc i) kl \<le> space"
  shows "holds t (stored_ok D x kl (Suc i)) (slow_step G red D L kl space i ys)"
proof -
  obtain y st where [simp]: "ys = (y, st)" by (cases ys)
  let ?st = "if i mod kl = 0 then st @ [y] else st"
  have y: "posdef D y" "class_pow D x (2 ^ i) y" "D < 0" using ys D by (simp_all add: stored_ok_def pw_def)
  have st: "length ?st = ceil_div (Suc i) kl" "\<forall>m < length ?st. pw D x (2 ^ (kl * m)) (?st ! m)"
  proof -
    show "length ?st = ceil_div (Suc i) kl" using ys kl by (simp add: stored_ok_def ceil_div_Suc)
    have "kl * length st = i" if "i mod kl = 0"
      using that ys kl by (auto simp: stored_ok_def ceil_div_eq)
    then show "\<forall>m < length ?st. pw D x (2 ^ (kl * m)) (?st ! m)"
      using ys by (auto simp: stored_ok_def nth_append less_Suc_eq)
  qed
  obtain z where z: "qfb_nudupl G y D L = Some z" "posdef D z" "class_mul D y y z"
    using qfb_nudupl_ok [OF D G y(1)] by blast
  have "class_pow D x (2 ^ i + 2 ^ i) z" by (rule class_pow_add [OF D x y(2,2) z(3)])
  then have "pw D x (2 ^ Suc i) z" using z(2) by (simp add: pw_def mult_2)
  then have "holds t (\<lambda>p. pw D x (2 ^ Suc i) p \<and> weakly_reduced p) (lift_opt (red z))"
    using finish_proof [OF D red] t by blast
  then have "holds t (stored_ok D x kl (Suc i)) (bind_res (lift_opt (red z)) (\<lambda>y. ret (y, ?st)))"
    by (rule holds_bind) (use st in \<open>simp add: stored_ok_def\<close>)
  then show ?thesis using z(1) st(1) space by (simp add: slow_step_def nudupl_form_def)
qed

lemma ceil_div_mono: "0 < d \<Longrightarrow> m \<le> n \<Longrightarrow> ceil_div m d \<le> ceil_div n d"
  unfolding ceil_div_def by (rule div_le_mono) simp

lemma slow_loop_ok:
  assumes D: "good_disc D" and G: "gcdext_ok G" and x: "posdef D x" and red: "reducer_sound red"
    and t: "t \<Longrightarrow> reducer_total red" and kl: "0 < kl" and y: "pw D x 1 y" and space: "ceil_div T kl \<le> space"
  shows "holds t (stored_ok D x kl T) (fold_res (slow_step G red D L kl space) [0..<T] (y, []))"
proof (rule holds_fold)
  have "ceil_div 0 kl = 0" using kl by (simp add: ceil_div_eq)
  then show "stored_ok D x kl 0 (y, [])" using y by (simp add: stored_ok_def)
next
  fix i ys
  assume i: "i < T" and ys: "stored_ok D x kl i ys"
  have "ceil_div (Suc i) kl \<le> space" using ceil_div_mono [OF kl, of "Suc i" T] i space by simp
  then show "holds t (stored_ok D x kl (Suc i)) (slow_step G red D L kl space i ys)"
    using slow_step_ok [OF D G x red t kl ys] by blast
qed

lemma ceil_div_covers: "0 < kl \<Longrightarrow> kl * m < T \<Longrightarrow> m < ceil_div T kl"
proof -
  assume kl: "0 < kl" and m: "kl * m < T"
  have le: "m \<le> T div kl" using m kl by (simp add: less_eq_div_iff_mult_less_eq mult.commute)
  have "m < T div kl" if "T mod kl = 0"
  proof -
    have "kl * m < kl * (T div kl)" using m that by (metis add.right_neutral mult_div_mod_eq)
    then show ?thesis by simp
  qed
  then show ?thesis using le kl by (auto simp: ceil_div_eq)
qed

text \<open>\<open>GenerateWesolowski\<close> with the forms the loop stored.\<close>

lemma GenerateWesolowski_ok:
  assumes D: "good_disc D" and G: "gcdext_ok G" and x: "posdef D x" and red: "reducer_sound red"
    and t: "t \<Longrightarrow> reducer_total red"
    and kl: "0 < k" "0 < l" "k \<le> 30" "k * l < 2 ^ 31" and T: "exact_double T"
    and st: "stored_ok D x (k * l) T (y, stored)" and B: "get_B H P D x y = Some (B, x', y')"
  shows "holds t (\<lambda>(p, u, v). u = x' \<and> v = y' \<and> pw D x (nat (2 ^ T div B)) p)
    (GenerateWesolowski G H P red (Some 0) y x D stored T k l)"
proof -
  have D0: "D < 0" using D by simp
  have y: "posdef D y" using st by (simp add: stored_ok_def pw_def)
  obtain u where u: "identity D = ret u" using identity_ok [OF D x] by blast
  have B1: "2 ^ 263 \<le> B" using get_B_reduced(9) [OF B D0 x y] by (rule challenge_pos)
  have forms: "stored_powers D x k l T ((!) stored)"
    using st kl ceil_div_covers [of "k * l"] by (auto simp: stored_powers_def stored_ok_def)
  have T53: "T < 2 ^ 53" using T by (simp add: exact_double_def)
  have c: "ceil_double T (k * l) = bucket_limit k l T"
    using ceil_double_exact [OF T, of "k * l"] kl by (simp add: exact_double_def ceil_div_eq bucket_limit_def Let_def)
  have w: "wrap64 (k * l) = k * l" "wrap32 (k * l) \<noteq> 0" "exact_double (k * l)" using kl by (simp_all add: exact_double_def)
  note cover = limit_covers [OF w(2), of T]
  have fit: "k * l * bucket_limit k l T < 2 ^ 64"
    using indices_fitI [of k l T] kl T53 by (simp add: indices_fit_def)
  let ?E = "mk_env G red D (iroot4 (- D)) B u (\<lambda>_. True) (GetBlock_slow (Some 0)) ((!) stored) T k l (bucket_limit k l T)"
  have E: "env_ok t ?E x"
    by (rule env_okI [OF D G x red _ u kl(1-3) B1 _ forms cover fit]) (use t T53 in simp_all)
  have s: "(\<Sum>j=0..<l. 2 ^ (k * j) * row_sum ?E j) = nat (2 ^ T div B)"
    using row_total [of ?E] kl big_B [OF B1 kl(3)] cover by (simp add: nat_div_eq atLeast0LessThan)
  have "holds t (\<lambda>xn. pw D x (nat (2 ^ T div B)) (fst xn)) (prove_range ?E 0 l 0)"
    using prove_range_pw [OF E, of 0 l 0] s by simp
  then have "holds t (\<lambda>(p, u, v). u = x' \<and> v = y' \<and> pw D x (nat (2 ^ T div B)) p)
      (bind_res (prove_range ?E 0 l 0) (\<lambda>(w, n). bind_res (lift_opt (red w)) (\<lambda>p. ret (p, x', y'))))"
  proof (rule holds_bind, clarify)
    fix w n assume "pw D x (nat (2 ^ T div B)) (fst (w, n :: nat))"
    then have "holds t (\<lambda>p. pw D x (nat (2 ^ T div B)) p \<and> weakly_reduced p) (lift_opt (red w))"
      using finish_proof [OF D red t] by simp
    then show "holds t (\<lambda>(p, u, v). u = x' \<and> v = y' \<and> pw D x (nat (2 ^ T div B)) p)
        (bind_res (lift_opt (red w)) (\<lambda>p. ret (p, x', y')))"
      by (rule holds_bind) simp
  qed
  then show ?thesis using B u D0 kl w T by (simp add: GenerateWesolowski_def c Let_def)
qed

end
