(* ===== verification/EndToEnd.thy ===== *)
theory EndToEnd
  imports Provers Verifier
begin

section \<open>Provers and verifiers together\<close>

text \<open>
  What the proof generators compute is what the verifier accepts, from the forms up to the
  bytes: the output of the slow prover, sent with the serialized input, is accepted when the
  verifier's reducer returns, and neither rejected nor thrown at otherwise.
\<close>

lemma import_at_extend: "import_at s off n = Some v \<Longrightarrow> import_at (s @ e) off n = Some v"
  by (auto simp: import_at_def split: if_splits)

lemma deserialize_only_extend:
  "bqfc_deserialize_only s d = Some r \<Longrightarrow> bqfc_deserialize_only (s @ e) d = Some r"
  unfolding bqfc_deserialize_only_def Let_def
  by (auto simp: nth_append ret_iff import_at_extend split: if_splits)

lemma bqfc_deserialize_extend:
  assumes "bqfc_deserialize G D s 100 d = Some (Inr r)" and "length s = 100"
  shows "bqfc_deserialize G D (s @ e) 100 d = Some (Inr r)"
proof -
  have z: "(s @ e) ! 0 = s ! 0" using assms(2) by (simp add: nth_append)
  have v: "bqfc_verify_canon a b (s @ e) d = bqfc_verify_canon a b s d" for a b
    using assms(2) by (simp add: bqfc_verify_canon_def)
  show ?thesis
    using assms unfolding bqfc_deserialize_def z v
    by (auto simp: ret_iff deserialize_only_extend split: if_splits)
qed

lemma deserialize_form_extend:
  assumes "deserialize_form G D s 100 = ret f" and "length s = 100"
  shows "deserialize_form G D (s @ e) 100 = ret f"
proof -
  obtain r where r: "bqfc_deserialize G D s 100 (num_bits D) = Some r"
    using assms(1) by (auto simp: deserialize_form_def ret_iff)
  then obtain ab where "r = Inr ab" using assms(1) by (cases r) (auto simp: deserialize_form_def ret_iff)
  then show ?thesis
    using assms(1) r bqfc_deserialize_extend [OF _ assms(2)] by (simp add: deserialize_form_def)
qed

text \<open>Serialization of reduced forms of one discriminant fits its buffer.\<close>

definition serializable :: "int \<Rightarrow> bool" where
  "serializable D \<longleftrightarrow> num_bits D \<le> 1024 \<and>
     (\<forall>f. posdef D f \<longrightarrow> is_reduced f \<longrightarrow> t_bound (fa f) (fb f) (num_bits D))"

lemma serialize_form_reads_back:
  assumes D: "good_disc D" and G: "gcdext_ok G" "gcdext_small G" and ser: "serializable D"
    and f: "posdef D f" and s: "serialize_form f (num_bits D) = Some (s, f')"
  shows "length s = 100 \<and> deserialize_form G D s 100 = ret f' \<and> posdef D f' \<and> is_reduced f' \<and> same_class D f f'"
proof -
  obtain g where g: "reduce f = Some g" "posdef D g" "is_reduced g" "same_class D f g"
    using reduce_returns [OF f] D good_disc_neg by blast
  have f': "f' = g" using s g(1) by (auto simp: serialize_form_def ret_iff)
  obtain s' where s': "serialize_form g (num_bits D) = Some (s', g)" "length s' = 100" "deserialize_form G D s' 100 = ret g"
    using serialize_form_round_trip [OF D G g(2,3)] ser g by (auto simp: serializable_def)
  have "s' = s"
    using s s'(1) g(1) reduce_id [OF posdefD(1) [OF g(2)] g(3)] by (auto simp: serialize_form_def ret_iff)
  then show ?thesis using s' g f' by simp
qed

lemma ProveSlow_output:
  assumes D: "good_disc D" and G: "gcdext_ok G" and x: "posdef D x" and red: "reducer_sound red"
    and k: "snd (approx T) \<le> 30"
    and r: "ProveSlow G H P red (Some 0) approx D x T = ret out"
  shows "\<exists>B x' y y' y'' p p' s1 s2. get_B H P D x y = Some (B, x', y') \<and> 2 ^ 263 \<le> B \<and> pw D x (2 ^ T) y \<and>
    pw D x (nat (2 ^ T div B)) p \<and> out = s1 @ s2 \<and>
    serialize_form y' (num_bits D) = Some (s1, y'') \<and> serialize_form p (num_bits D) = Some (s2, p')"
proof -
  have D0: "D < 0" using D by simp
  define l where "l = nat (if fst (approx T) \<le> 0 then 1 else fst (approx T))"
  define k where "k = nat (if snd (approx T) \<le> 0 then 1 else snd (approx T))"
  have kl: "0 < k" "0 < l" "k \<le> 30" using k by (auto simp: k_def l_def)
  let ?space = "wrap64 (T + k * l - 1) div (k * l)"
  obtain y0 y st p x' y' s1 y'' s2 p' where y0: "from_abd (fa x) (fb x) D = ret y0" and kli: "int k * int l < 2 ^ 31"
    and loop: "fold_res (slow_step G red D (iroot4 (- D)) (k * l) ?space) [0..<T] (y0, []) = ret (y, st)"
    and gen: "GenerateWesolowski G H P red (Some 0) y x D st T k l = ret (p, x', y')"
    and out: "serialize_form y' (num_bits D) = Some (s1, y'')" "serialize_form p (num_bits D) = Some (s2, p')"
      "out = s1 @ s2"
    using r D0 unfolding ProveSlow_def Let_def k_def [symmetric] l_def [symmetric]
    by (auto simp: ret_iff not_le split: if_splits)
  have "int (k * l) < int (2 ^ 31)" using kli by simp
  then have kl31: "k * l < 2 ^ 31" by (simp only: of_nat_less_iff)
  obtain B where T: "exact_double T" and B: "get_B H P D x y = Some (B, x', y')"
    using gen by (auto simp: GenerateWesolowski_def Let_def ret_iff split: if_splits)
  have space: "?space = ceil_div T (k * l)" using T kl31 by (simp add: ceil_div_def exact_double_def)
  have "pw D x 1 y0"
  proof -
    have a: "0 < fa x" and c: "fb x * fb x - D = (4 * fa x) * fc x" using x by (auto simp: posdef_def disc_def)
    have "(fb x * fb x - D) div (4 * fa x) = fc x" using a c by (intro div_eq_if_mult) auto
    then have "reduce (mk_form (fa x) (fb x) (fc x)) = Some y0" using y0 a c by (simp add: from_abd_def ret_iff)
    then have "reduce x = Some y0" by (cases x) simp
    then have "posdef D y0" "same_class D x y0" using reduce_returns [OF x D0] by (metis option.inject)+
    then show ?thesis using class_pow_same [OF class_pow_1 [OF D x]] by (simp add: pw_def)
  qed
  then have "holds False (stored_ok D x (k * l) T) (fold_res (slow_step G red D (iroot4 (- D)) (k * l) ?space) [0..<T] (y0, []))"
    using kl space by (intro slow_loop_ok [OF D G x red]) simp_all
  then have st: "stored_ok D x (k * l) T (y, st)" using loop by simp
  have y: "pw D x (2 ^ T) y" using st by (simp add: stored_ok_def)
  have "posdef D y" using y by (simp add: pw_def)
  then have "2 ^ 263 \<le> B" using get_B_reduced(9) [OF B D0 x] by (intro challenge_pos)
  moreover have "pw D x (nat (2 ^ T div B)) p"
    using GenerateWesolowski_ok [OF D G x red _ kl kl31 T st B, of False] gen by simp
  ultimately show ?thesis using B y out by blast
qed

lemma get_B_of_reduced:
  assumes "get_B H P D x y = Some (B, x', y')" and "D < 0" and "posdef D x" and "posdef D y"
  shows "get_B H P D x y' = Some (B, x', y')"
proof -
  have "reduce y = Some y'" using assms(1) by (auto simp: get_B_def serialize_form_def ret_iff Let_def)
  moreover have "reduce y' = Some y'"
    using get_B_reduced(4,5) [OF assms] reduce_id posdefD(1) by blast
  ultimately have "serialize_form y' d = serialize_form y d" for d by (simp add: serialize_form_def)
  then show ?thesis using assms(1) by (simp add: get_B_def)
qed

lemma check_single:
  assumes D: "good_disc D" and G: "gcdext_ok G" "gcdext_small G" and ser: "serializable D"
    and xs: "serialize_form x (num_bits D) = Some (xs, x)" "posdef D x"
    and s1: "serialize_form y (num_bits D) = Some (s1, y')" "posdef D y"
    and s2: "serialize_form p (num_bits D) = Some (s2, p')" "posdef D p"
  shows "CheckProofOfTimeNWesolowski G H P red D xs (s1 @ s2) 200 T 0 = VerifyWesolowskiProof G H P red D x y' p' T"
proof -
  note rx = serialize_form_reads_back [OF D G ser xs(2,1)]
    and r1 = serialize_form_reads_back [OF D G ser s1(2,1)]
    and r2 = serialize_form_reads_back [OF D G ser s2(2,1)]
  have "deserialize_at G D (s1 @ s2) 0 = ret y'"
    using r1 deserialize_form_extend by (simp add: deserialize_at_def blob_at_def)
  moreover have "deserialize_at G D (s1 @ s2) form_size = ret p'"
    using r1 r2 by (simp add: deserialize_at_def blob_at_def)
  ultimately show ?thesis
    using rx by (simp add: CheckProofOfTimeNWesolowski_def blob_length_def segment_loop.simps)
qed

lemma slow_proof_settles:
  assumes D: "good_disc D" and G: "gcdext_ok G" "gcdext_small G" and ser: "serializable D"
    and x: "posdef D x" "is_reduced x" and red: "reducer_sound red" "reducer_sound red'" and t: "t \<Longrightarrow> reducer_total red'"
    and k: "snd (approx T) \<le> 30"
    and r: "ProveSlow G H P red (Some 0) approx D x T = ret out"
    and xs: "serialize_form x (num_bits D) = Some (xs, x)"
  shows "settles t (\<lambda>b. b) (CheckProofOfTimeNWesolowski G H P red' D xs out 200 T 0)"
proof -
  have D0: "D < 0" using D by simp
  obtain B x' y y' y'' p p' s1 s2 where B: "get_B H P D x y = Some (B, x', y')" and y: "pw D x (2 ^ T) y"
    and p: "pw D x (nat (2 ^ T div B)) p" and out: "out = s1 @ s2"
    and s: "serialize_form y' (num_bits D) = Some (s1, y'')" "serialize_form p (num_bits D) = Some (s2, p')"
    using ProveSlow_output [OF D G(1) x(1) red(1) k r] by blast
  have py: "posdef D y" "posdef D p" using y p by (simp_all add: pw_def)
  note b = get_B_reduced [OF B D0 x(1) py(1)]
  have y'': "y'' = y'" using serialize_form_reduced [OF posdefD(1) [OF b(4)] b(5) s(1)] .
  have p': "posdef D p'" "same_class D p p'" using serialize_form_reads_back [OF D G ser py(2) s(2)] by auto
  have chk: "CheckProofOfTimeNWesolowski G H P red' D xs out 200 T 0 = VerifyWesolowskiProof G H P red' D x y' p' T"
    unfolding out using check_single [OF D G ser xs x(1) s(1) b(4) s(2) py(2)] by (simp add: y'')
  show ?thesis
    unfolding chk
  proof (rule verify_honest_settles [OF red(2) t D G(1) x(1) b(4) p'(1)])
    show "get_B H P D x y' = Some (B, x', y')" by (rule get_B_of_reduced [OF B D0 x(1) py(1)])
    show "class_pow D x (2 ^ T) y'" using y class_pow_same [OF _ b(6)] by (simp add: pw_def)
    show "class_pow D x (nat (2 ^ T div B)) p'" using p class_pow_same [OF _ p'(2)] by (simp add: pw_def)
  qed
qed

text \<open>A segment prover's result passes the verifier of its segment.\<close>

lemma generated_proof_accepted:
  assumes D: "good_disc D" and G: "gcdext_ok G" and x: "posdef D (seg_x segm)" and y: "posdef D (seg_y segm)"
    and red: "reducer_sound red" "reducer_sound red'" and kl: "0 < k" "0 < l" "k \<le> 30"
    and fit: "indices_fit k l (unat (seg_length segm))"
    and B: "get_B H P D (seg_x segm) (seg_y segm) = Some (B, x', y')"
    and forms: "stored_powers D (seg_x segm) k l (unat (seg_length segm)) getform"
    and hy: "class_pow D (seg_x segm) (2 ^ unat (seg_length segm)) (seg_y segm)"
    and r: "GenerateProof G H P red go getform segm D k l = ret p"
  shows "VerifyWesolowskiProof G H P red' D (seg_x segm) (seg_y segm) p (unat (seg_length segm)) \<noteq> ret False"
proof -
  have "holds False (\<lambda>p. posdef D p \<and> weakly_reduced p \<and>
      class_pow D (seg_x segm) (nat (2 ^ unat (seg_length segm) div B)) p)
    (GenerateProof G H P red go getform segm D k l)"
    by (rule GenerateProof_correct [OF D G x y red(1) _ kl fit B forms]) simp
  then have "posdef D p" "class_pow D (seg_x segm) (nat (2 ^ unat (seg_length segm) div B)) p" using r by simp_all
  then show ?thesis using verify_honest [OF red(2) D G x y _ B hy] by blast
qed

end
