(* ===== verification/AggUtil.thy ===== *)
theory AggUtil
  imports Verifier Prover
begin

section \<open>Helpers of the aggregated proof: \<open>aggvdf/aggutil.h\<close>\<close>

text \<open>
  Hashing a challenge into the class group (\<open>H_G\<close>) and re-deriving the same form from the
  number of iterations it took (\<open>H_GFast\<close>), hashing to a prime with its iteration count
  (\<open>HashPrimeWithIteration\<close>) and back (\<open>HashPrimeFast\<close>), two's complement bytes of
  an integer, and the power \<open>g^(2^T div B)\<close> by long division.  A search that never ends,
  a failed assertion and an \<open>int\<close> overflow are \<open>None\<close>.
\<close>

subsection \<open>The code\<close>

text \<open>A count does not fit a C \<open>int\<close>; evaluated over \<open>int\<close>, which is binary.\<close>

definition past_int :: "nat \<Rightarrow> bool" where
  "past_int n \<longleftrightarrow> n \<ge> 2 ^ 31"

lemma past_int_code [code]: "past_int n \<longleftrightarrow> int n \<ge> 2147483648"
  by (simp add: past_int_def)

declare past_int_def [simp]

definition int2bytes :: "int \<Rightarrow> byte list" where
  "int2bytes v = [of_int (v div 2 ^ 24), of_int (v div 2 ^ 16), of_int (v div 2 ^ 8), of_int v]"

primrec convert_loop :: "bool \<Rightarrow> int \<Rightarrow> nat \<Rightarrow> byte list" where
  "convert_loop negative x 0 = []"
| "convert_loop negative x (Suc n) =
     (let b = to_vector (x mod 256);
          b = (if b = [] then 0 else hd b);
          b = (if negative then b XOR 255 else b)
      in ucast b # convert_loop negative (x div 256) n)"

text \<open>The counter of the loop is an \<open>int\<close>: it overflows before it reaches \<open>2^31\<close>.\<close>

definition ConvertIntegerToBytes2 :: "int \<Rightarrow> nat \<Rightarrow> byte list option" where
  "ConvertIntegerToBytes2 x num_bytes =
     (if past_int num_bytes then None
      else Some (rev (if x < 0 then convert_loop True (\<bar>x\<bar> - 1) num_bytes else convert_loop False x num_bytes)))"

text \<open>\<open>mpz_powm\<close>: a negative exponent inverts the base, which traps when there is no
  inverse; a zero modulus traps.\<close>

definition FastPowMod :: "int \<Rightarrow> int \<Rightarrow> int \<Rightarrow> int option" where
  "FastPowMod b e m =
     (if m = 0 then None
      else if 0 \<le> e then Some (b ^ nat e mod \<bar>m\<bar>)
      else if gcd b m \<noteq> 1 then None
      else Some (fst (snd (gcdext_ref b m)) ^ nat (- e) mod \<bar>m\<bar>))"

text \<open>The nonce of \<open>H_G\<close>: the loop leaves at the first byte that wraps to zero.\<close>

fun agg_incr_le :: "byte list \<Rightarrow> byte list" where
  "agg_incr_le [] = []"
| "agg_incr_le (b # bs) = (let b' = b + 1 in if b' = 0 then b' # bs else b' # agg_incr_le bs)"

definition agg_sprout_incr :: "byte list \<Rightarrow> byte list" where
  "agg_sprout_incr s = rev (agg_incr_le (rev s))"

partial_function (option) H_G_fill ::
  "(byte list \<Rightarrow> byte list) \<Rightarrow> nat \<Rightarrow> byte list \<Rightarrow> byte list \<Rightarrow> (byte list \<times> byte list) option" where
  "H_G_fill H len blob sprout =
     (if length blob * 8 < len
      then H_G_fill H len
             (blob @ take (len div 8 - length blob) (H (agg_sprout_incr sprout))) (agg_sprout_incr sprout)
      else Some (blob, sprout))"

definition H_G_candidate ::
  "(byte list \<Rightarrow> byte list) \<Rightarrow> byte list \<Rightarrow> (int \<times> byte list) option" where
  "H_G_candidate H sprout =
     Option.bind (H_G_fill H 256 [] sprout) (\<lambda>(blob, sprout').
       if length blob * 8 \<noteq> 256 then None
       else Some (set_bit_int (set_bit_int (integer_of_bytes blob) 0 True) 1 True, sprout'))"

text \<open>The square root of \<open>D\<close> modulo \<open>a\<close>, odd; the outer option is a trap, the inner
  one tells whether \<open>D\<close> is a residue.\<close>

definition H_G_root :: "int \<Rightarrow> int \<Rightarrow> int option option" where
  "H_G_root D a =
     (if a = 0 then None
      else let k = D mod \<bar>a\<bar> in
        Option.bind (FastPowMod k ((a - 1) div 2) a) (\<lambda>r.
          if r = 1
          then Option.bind (FastPowMod k ((a + 1) div 4) a) (\<lambda>b. Some (Some (if b mod 2 = 0 then a - b else b)))
          else Some None))"

definition H_G_size :: "int \<Rightarrow> nat" where
  "H_G_size D = (num_bits D + 16) div 2 ^ 4"

partial_function (option) H_G_loop ::
  "(byte list \<Rightarrow> byte list) \<Rightarrow> (int \<Rightarrow> bool) \<Rightarrow> int \<Rightarrow> nat \<Rightarrow> byte list \<Rightarrow> (vdf_error + form \<times> nat) option" where
  "H_G_loop H P D ii sprout =
     (if past_int (Suc ii) then None
      else Option.bind (H_G_candidate H sprout) (\<lambda>(a, sprout').
        if P a
        then Option.bind (H_G_root D a) (\<lambda>root.
          case root of
            None \<Rightarrow> H_G_loop H P D (Suc ii) sprout'
          | Some b \<Rightarrow> bind_res (from_abd a b D) (\<lambda>f. ret (f, Suc ii)))
        else H_G_loop H P D (Suc ii) sprout'))"

definition H_G ::
  "(byte list \<Rightarrow> byte list) \<Rightarrow> (int \<Rightarrow> bool) \<Rightarrow> int \<Rightarrow> int \<Rightarrow> (form \<times> nat) res" where
  "H_G H P challenge D = Option.bind (ConvertIntegerToBytes2 challenge (H_G_size D)) (H_G_loop H P D 0)"

text \<open>\<open>H_GFast\<close> skips to iteration \<open>a_iter\<close>; when the candidate there is prime and
  \<open>D\<close> is not a residue, it loops on.\<close>

partial_function (option) H_GFast_loop ::
  "(byte list \<Rightarrow> byte list) \<Rightarrow> (int \<Rightarrow> bool) \<Rightarrow> int \<Rightarrow> int \<Rightarrow> nat \<Rightarrow> byte list \<Rightarrow> (vdf_error + form) option" where
  "H_GFast_loop H P D a_iter ii sprout =
     (if past_int (Suc ii) then None
      else Option.bind (H_G_candidate H sprout) (\<lambda>(a, sprout').
        if int (Suc ii) = a_iter
        then (if P a
              then Option.bind (H_G_root D a) (\<lambda>root.
                case root of
                  None \<Rightarrow> H_GFast_loop H P D a_iter (Suc ii) sprout'
                | Some b \<Rightarrow> from_abd a b D)
              else identity D)
        else H_GFast_loop H P D a_iter (Suc ii) sprout'))"

declare H_G_fill.simps [code] H_G_loop.simps [code] H_GFast_loop.simps [code]

definition H_GFast ::
  "(byte list \<Rightarrow> byte list) \<Rightarrow> (int \<Rightarrow> bool) \<Rightarrow> int \<Rightarrow> int \<Rightarrow> int \<Rightarrow> form res" where
  "H_GFast H P challenge D a_iter =
     Option.bind (ConvertIntegerToBytes2 challenge (H_G_size D)) (H_GFast_loop H P D a_iter 0)"

text \<open>One step of the long division of \<open>2^T\<close> by \<open>B\<close>.\<close>

definition quotient_step ::
  "gcdext \<Rightarrow> (form \<Rightarrow> form option) \<Rightarrow> form \<Rightarrow> int \<Rightarrow> int \<Rightarrow> int \<Rightarrow> nat \<Rightarrow> form \<times> int \<Rightarrow> (form \<times> int) res" where
  "quotient_step G red g D B L i = (\<lambda>(x, r).
     bind_res (lift_opt (nudupl_form G x D L)) (\<lambda>x.
     bind_res
       (if r * 2 \<ge> B
        then bind_res (lift_opt (nucomp_form G x g D L)) (\<lambda>x. lift_opt (red x))
        else ret x) (\<lambda>x.
     if B = 0 then None else ret (x, (r * 2) mod \<bar>B\<bar>))))"

definition PowFormWithQuotient ::
  "gcdext \<Rightarrow> (form \<Rightarrow> form option) \<Rightarrow> form \<Rightarrow> int \<Rightarrow> nat \<Rightarrow> int \<Rightarrow> int \<Rightarrow> form res" where
  "PowFormWithQuotient G red g D num_iterations B L =
     bind_res (identity D) (\<lambda>x.
     if past_int num_iterations then None
     else bind_res (fold_res (quotient_step G red g D B L) [0..<num_iterations] (x, 1)) (\<lambda>(x, r). ret x))"

text \<open>Hashing to a prime with the count of candidates tried.\<close>

partial_function (option) hash_search_count ::
  "(byte list \<Rightarrow> byte list) \<Rightarrow> (int \<Rightarrow> bool) \<Rightarrow> nat \<Rightarrow> nat list \<Rightarrow> nat \<Rightarrow> byte list \<Rightarrow> (int \<times> nat) option" where
  "hash_search_count H P len bitmask n sprout =
     Option.bind (hash_fill H len [] sprout) (\<lambda>(blob, sprout').
       if length blob * 8 \<noteq> len then None
       else if past_int (Suc n) then None
       else if P (apply_mask (integer_of_bytes blob) bitmask)
       then Some (apply_mask (integer_of_bytes blob) bitmask, Suc n)
       else hash_search_count H P len bitmask (Suc n) sprout')"

definition HashPrimeWithIteration ::
  "(byte list \<Rightarrow> byte list) \<Rightarrow> (int \<Rightarrow> bool) \<Rightarrow> byte list \<Rightarrow> nat \<Rightarrow> nat list \<Rightarrow> (int \<times> nat) option" where
  "HashPrimeWithIteration H P seed len bitmask =
     (if len mod 8 \<noteq> 0 then None else hash_search_count H P len bitmask 0 seed)"

partial_function (option) hash_search_skip ::
  "(byte list \<Rightarrow> byte list) \<Rightarrow> (int \<Rightarrow> bool) \<Rightarrow> nat \<Rightarrow> nat list \<Rightarrow> int \<Rightarrow> nat \<Rightarrow> byte list \<Rightarrow> int option" where
  "hash_search_skip H P len bitmask skip n sprout =
     Option.bind (hash_fill H len [] sprout) (\<lambda>(blob, sprout').
       if length blob * 8 \<noteq> len then None
       else if past_int (Suc n) then None
       else if int (Suc n) < skip then hash_search_skip H P len bitmask skip (Suc n) sprout'
       else if P (apply_mask (integer_of_bytes blob) bitmask)
       then Some (apply_mask (integer_of_bytes blob) bitmask)
       else hash_search_skip H P len bitmask skip (Suc n) sprout')"

declare hash_search_count.simps [code] hash_search_skip.simps [code]

definition HashPrimeFast ::
  "(byte list \<Rightarrow> byte list) \<Rightarrow> (int \<Rightarrow> bool) \<Rightarrow> byte list \<Rightarrow> nat \<Rightarrow> nat list \<Rightarrow> int \<Rightarrow> int option" where
  "HashPrimeFast H P seed len bitmask skip_to_iteration =
     (if len mod 8 \<noteq> 0 then None else hash_search_skip H P len bitmask skip_to_iteration 0 seed)"

definition CreateDiscriminantWithIteration ::
  "(byte list \<Rightarrow> byte list) \<Rightarrow> (int \<Rightarrow> bool) \<Rightarrow> byte list \<Rightarrow> nat \<Rightarrow> (int \<times> nat) option" where
  "CreateDiscriminantWithIteration H P seed len =
     map_option (\<lambda>(D, n). (D * - 1, n)) (HashPrimeWithIteration H P seed len [0, 1, 2, len - 1])"

subsection \<open>Two's complement bytes\<close>

lemma unat_ucast_byte: "unat (ucast (w :: 64 word) :: byte) = unat w mod 256"
  by (simp add: unsigned_ucast_eq take_bit_eq_mod)

lemma unat_not_byte: "unat (NOT (w :: byte)) = 255 - unat w"
proof -
  have "NOT w = - 1 - w" by (simp add: not_eq_complement)
  moreover have "unat (- 1 - w) = unat (- 1 :: byte) - unat w"
    by (rule unat_sub) simp
  ultimately show ?thesis by (simp add: unsigned_minus_1_eq_mask mask_eq_exp_minus_1)
qed

lemma ucast_xor_255: "ucast ((w :: 64 word) XOR 255) = NOT (ucast w :: byte)"
proof -
  have m: "(255 :: 64 word) = mask 8" by (simp add: mask_eq_exp_minus_1)
  show ?thesis unfolding m by (rule bit_word_eqI) (auto simp: bit_simps)
qed

definition loop_byte :: "bool \<Rightarrow> int \<Rightarrow> byte" where
  "loop_byte negative x =
     (let b = to_vector (x mod 256);
          b = (if b = [] then 0 else hd b);
          b = (if negative then b XOR 255 else b) in ucast b)"

lemma loop_byte_value: "int (unat (loop_byte negative x)) = (if negative then 255 - x mod 256 else x mod 256)"
proof -
  define n where "n = nat (x mod 256)"
  have n: "n < 256" "x mod 256 = int n" by (simp_all add: n_def)
  have h: "(if to_vector (int n) = [] then 0 else hd (to_vector (int n))) = (of_nat n :: 64 word)"
    by (simp add: to_vector_def limbs.simps [of n])
  have u: "unat (of_nat n :: 64 word) = n" using n(1) by (simp add: unat_of_nat)
  show ?thesis
    unfolding loop_byte_def Let_def n(2) h using n(1)
    by (cases negative) (simp_all only: if_True if_False ucast_xor_255 unat_not_byte unat_ucast_byte u, simp_all)
qed

lemma convert_loop_Suc: "convert_loop negative x (Suc n) = loop_byte negative x # convert_loop negative (x div 256) n"
  by (simp add: loop_byte_def Let_def)

lemma mod_pow_Suc: "x mod (256 * 256 ^ n) = x mod 256 + 256 * (x div 256 mod 256 ^ n)" for x :: int
  by (simp add: zmod_zmult2_eq)

lemma convert_loop_value:
  "int (le_value (convert_loop negative x n)) =
     (if negative then 256 ^ n - 1 - x mod 256 ^ n else x mod 256 ^ n)"
proof (induction n arbitrary: x)
  case (Suc n)
  show ?case
    unfolding convert_loop_Suc power_Suc mod_pow_Suc using Suc [of "x div 256"]
    by (simp only: le_value.simps of_nat_add of_nat_mult loop_byte_value) (auto simp: algebra_simps)
qed simp

lemma length_convert_loop: "length (convert_loop negative x n) = n"
  by (induction n arbitrary: x) (simp_all add: Let_def)

lemma ConvertIntegerToBytes2_value:
  assumes "ConvertIntegerToBytes2 x n = Some bs"
  shows "n < 2 ^ 31 \<and> length bs = n \<and> integer_of_bytes bs = x mod 256 ^ n"
proof -
  have n: "n < 2 ^ 31" and bs: "bs = rev (if x < 0 then convert_loop True (\<bar>x\<bar> - 1) n else convert_loop False x n)"
    using assms by (simp_all add: ConvertIntegerToBytes2_def split: if_splits)
  have "256 ^ n - 1 - (- x - 1) mod 256 ^ n = x mod 256 ^ n" (is "?l = _")
  proof -
    have "0 \<le> (- x - 1) mod 256 ^ n" "(- x - 1) mod 256 ^ n < 256 ^ n" by simp_all
    then have "0 \<le> ?l" "?l < 256 ^ n" by linarith+
    moreover have "?l mod 256 ^ n = (256 ^ n - 1 - (- x - 1)) mod 256 ^ n" by (rule mod_diff_right_eq)
    ultimately show ?thesis by simp
  qed
  then show ?thesis using n
    by (auto simp: bs length_convert_loop integer_of_bytes_def be_value_def convert_loop_value)
qed

lemma ConvertIntegerToBytes2_returns: "(\<exists>bs. ConvertIntegerToBytes2 x n = Some bs) \<longleftrightarrow> n < 2 ^ 31"
  by (auto simp: ConvertIntegerToBytes2_def)

lemma int2bytes_value: "integer_of_bytes (int2bytes v) = v mod 2 ^ 32"
proof -
  have u: "int (unat (of_int x :: byte)) = x mod 256" for x :: int
    by (simp add: unsigned_of_int take_bit_eq_mod)
  have step: "y mod (256 * m) = y mod 256 + 256 * (y div 256 mod m)" if "0 < m" for y m :: int
    using that by (simp add: zmod_zmult2_eq)
  have A: "v mod (256 * (256 * (256 * 256))) = v mod 256 + 256 * (v div 256 mod 256 + 256 * (v div 256 div 256 mod 256 +
      256 * (v div 256 div 256 div 256 mod 256)))"
    by (subst step, simp, subst step, simp, subst step, simp, rule refl)
  have B: "v div 2 ^ 24 = v div 256 div 256 div 256" "v div 2 ^ 16 = v div 256 div 256" "v div 2 ^ 8 = v div 256"
    by (simp_all add: zdiv_zmult2_eq [symmetric])
  have C: "(2 :: int) ^ 32 = 256 * (256 * (256 * 256))" by simp
  have "integer_of_bytes (int2bytes v) = v mod 256 + 256 * (v div 2 ^ 8 mod 256 +
      256 * (v div 2 ^ 16 mod 256 + 256 * (v div 2 ^ 24 mod 256 + 256 * 0)))"
    by (simp only: int2bytes_def integer_of_bytes_def be_value_def rev.simps append.simps le_value.simps
        of_nat_add of_nat_mult of_nat_numeral semiring_1_class.of_nat_0 u)
  then show ?thesis by (simp only: A B C mult_zero_right add_0_right)
qed

subsection \<open>The nonce of \<open>H_G\<close> is not a counter\<close>

lemma length_agg_incr_le [simp]: "length (agg_incr_le bs) = length bs"
  by (induction bs) (simp_all add: Let_def)

lemma agg_sprout_differs: "agg_sprout_incr [0, 0] = [1, 1]" "sprout_incr [0, 0] = [0, 1]"
  by (simp_all add: agg_sprout_incr_def sprout_incr_def)

subsection \<open>Hashing into the class group\<close>

lemma FastPowMod_pos: "0 < m \<Longrightarrow> 0 \<le> e \<Longrightarrow> FastPowMod b e m = Some (b ^ nat e mod m)"
  by (simp add: FastPowMod_def)

lemma H_G_root_total: "a mod 4 = 3 \<Longrightarrow> 0 < a \<Longrightarrow> \<exists>r. H_G_root D a = Some r"
  by (auto simp: H_G_root_def FastPowMod_pos Let_def)

lemma sqrt_mod_prime:
  assumes a: "a mod 4 = 3" "0 < a" and r: "k ^ nat ((a - 1) div 2) mod a = 1"
  shows "(k ^ nat ((a + 1) div 4) mod a) * (k ^ nat ((a + 1) div 4) mod a) mod a = k mod a"
proof -
  have e: "nat ((a + 1) div 4) + nat ((a + 1) div 4) = Suc (nat ((a - 1) div 2))"
  proof -
    obtain q where q: "a = 4 * q + 3" using a(1) mult_div_mod_eq [of 4 a] by metis
    moreover have "(4 * q + 3 + 1) div 4 = q + 1" "(4 * q + 3 - 1) div 2 = 2 * q + 1" by presburger+
    ultimately show ?thesis using a(2) by auto
  qed
  have "(k ^ nat ((a + 1) div 4) mod a) * (k ^ nat ((a + 1) div 4) mod a) mod a
      = k * (k ^ nat ((a - 1) div 2)) mod a"
    by (simp add: mod_mult_eq power_add [symmetric] e)
  also have "\<dots> = k * (k ^ nat ((a - 1) div 2) mod a) mod a" by (simp add: mod_mult_right_eq)
  finally show ?thesis using r by simp
qed

lemma H_G_root_square:
  assumes a: "a mod 4 = 3" "0 < a" and r: "H_G_root D a = Some (Some b)"
  shows "odd b" and "a dvd b * b - D"
proof -
  define c where "c = (D mod a) ^ nat ((a + 1) div 4) mod a"
  have e: "0 \<le> (a - 1) div 2" "0 \<le> (a + 1) div 4" using a(2) by simp_all
  define d where "d = (if c mod 2 = 0 then a - c else c)"
  define q where "q = (D mod a) ^ nat ((a - 1) div 2) mod a"
  have "H_G_root D a = (if q = 1 then Some (Some d) else Some None)"
    using a(2) unfolding H_G_root_def c_def d_def q_def Let_def
    by (simp add: FastPowMod_pos [OF a(2) e(1)] FastPowMod_pos [OF a(2) e(2)])
  then have one: "q = 1" and "b = d" using r by (auto split: if_splits)
  then have b: "b = (if c mod 2 = 0 then a - c else c)" by (simp add: d_def)
  have "odd a" using a(1) by presburger
  then show "odd b" unfolding b even_iff_mod_2_eq_zero [symmetric] by (cases "even c") simp_all
  have "c * c mod a = D mod a"
    using sqrt_mod_prime [OF a one [unfolded q_def]] unfolding c_def by simp
  then have "a dvd c * c - D" by (simp add: mod_eq_dvd_iff)
  moreover have "(a - c) * (a - c) - D = a * (a - 2 * c) + (c * c - D)" by (simp add: algebra_simps)
  ultimately have "a dvd (a - c) * (a - c) - D" by (metis dvd_add dvd_triv_left)
  then show "a dvd b * b - D" using \<open>a dvd c * c - D\<close> b by (cases "c mod 2 = 0") (simp_all only: if_True if_False simp_thms)
qed

lemma H_G_form:
  assumes a: "a mod 4 = 3" "0 < a" and D: "D < 0" "D mod 4 = 1" and r: "H_G_root D a = Some (Some b)"
  shows "\<exists>f. from_abd a b D = ret f \<and> posdef D f \<and> is_reduced f \<and> same_class D (mk_form a b ((b * b - D) div (4 * a))) f"
proof -
  obtain k where k: "b = 2 * k + 1" using H_G_root_square(1) [OF a r] by (rule oddE)
  have "b * b - D = 4 * (k * k + k) + (1 - D)" by (simp add: k algebra_simps)
  moreover have "4 dvd 1 - D" using D(2) by presburger
  ultimately have "4 dvd b * b - D" by (metis dvd_add dvd_triv_left)
  moreover have "coprime 4 a"
  proof -
    have "odd a" using a(1) by presburger
    then have "coprime (2 * 2) a" by (simp only: coprime_mult_left_iff coprime_left_2_iff_odd) simp
    then show ?thesis by simp
  qed
  ultimately have "4 * a dvd b * b - D" using H_G_root_square(2) [OF a r] by (simp add: divides_mult)
  then have m: "(b * b - D) mod (4 * a) = 0" "4 * a * ((b * b - D) div (4 * a)) = b * b - D"
    by (simp_all add: dvd_eq_mod_eq_0 [symmetric])
  let ?f = "mk_form a b ((b * b - D) div (4 * a))"
  have "posdef D ?f" using m(2) a(2) by simp
  then obtain g where "reduce ?f = Some g" "posdef D g" "is_reduced g" "same_class D ?f g"
    using D(1) by (rule reduce_returns)
  then show ?thesis using a(2) m(1) by (simp add: from_abd_def)
qed

lemma H_G_candidate_mod4:
  assumes "H_G_candidate H s = Some (a, s')"
  shows "a mod 4 = 3" "0 < a"
proof -
  obtain blob where a: "a = set_bit_int (set_bit_int (integer_of_bytes blob) 0 True) 1 True"
    using assms by (auto simp: H_G_candidate_def ret_iff split: if_splits)
  have "get_bit a 0" "get_bit a 1" by (simp_all add: a get_set_bit)
  then have "odd a" "odd (a div 2)" by (simp_all add: get_bit_def)
  then show "a mod 4 = 3" by presburger
  have "0 \<le> a" unfolding a by (intro set_bit_int_nonneg) (simp add: integer_of_bytes_def)
  then show "0 < a" using \<open>odd a\<close> by (cases "a = 0") auto
qed


text \<open>What \<open>H_G\<close> returns is a reduced form of the group, and \<open>H_GFast\<close> with the
  returned count finds the same form.\<close>

lemma H_G_loop_result:
  assumes "H_G_loop H P D ii s = Some r" and "D < 0" and "D mod 4 = 1"
  shows "\<exists>f n. r = Inr (f, n) \<and> posdef D f \<and> is_reduced f \<and> ii < n \<and> n < 2 ^ 31 \<and>
    H_GFast_loop H P D (int n) ii s = ret f"
proof -
  let ?Q = "\<lambda>((((H, P), D), ii), s) r. D < 0 \<longrightarrow> D mod 4 = 1 \<longrightarrow>
    (\<exists>f n. r = Inr (f, n) \<and> posdef D f \<and> is_reduced f \<and> ii < n \<and> n < 2 ^ 31 \<and>
      H_GFast_loop H P D (int n) ii s = ret f)"
  have "?Q ((((H, P), D), ii), s) r"
  proof (rule H_G_loop.raw_induct [where Pa = ?Q, OF _ assms(1)], unfold split, intro impI)
    fix loop H P D ii s and r :: "vdf_error + form \<times> nat"
    assume IH: "\<And>H P D ii s r. loop H P D ii s = Some r \<Longrightarrow> D < 0 \<longrightarrow> D mod 4 = 1 \<longrightarrow>
        (\<exists>f n. r = Inr (f, n) \<and> posdef D f \<and> is_reduced f \<and> ii < n \<and> n < 2 ^ 31 \<and>
          H_GFast_loop H P D (int n) ii s = ret f)"
      and eq: "(if past_int (Suc ii) then None
        else Option.bind (H_G_candidate H s) (\<lambda>(a, s').
          if P a then Option.bind (H_G_root D a) (\<lambda>root. case root of None \<Rightarrow> loop H P D (Suc ii) s'
            | Some b \<Rightarrow> bind_res (from_abd a b D) (\<lambda>f. ret (f, Suc ii)))
          else loop H P D (Suc ii) s')) = Some r"
      and D: "D < 0" "D mod 4 = 1"
    have ii: "Suc ii < 2 ^ 31" using eq by (auto split: if_splits)
    obtain a s' where c: "H_G_candidate H s = Some (a, s')"
      using eq by (cases "H_G_candidate H s") (auto split: if_splits)
    have rest: "(if P a then Option.bind (H_G_root D a) (\<lambda>root. case root of None \<Rightarrow> loop H P D (Suc ii) s'
            | Some b \<Rightarrow> bind_res (from_abd a b D) (\<lambda>f. ret (f, Suc ii)))
          else loop H P D (Suc ii) s') = Some r"
      using eq ii c by simp
    note a = H_G_candidate_mod4 [OF c]
    obtain root where root: "H_G_root D a = Some root" using H_G_root_total [OF a] by blast
    show "\<exists>f n. r = Inr (f, n) \<and> posdef D f \<and> is_reduced f \<and> ii < n \<and> n < 2 ^ 31 \<and>
        H_GFast_loop H P D (int n) ii s = ret f"
    proof (cases "P a \<and> root \<noteq> None")
      case True
      then obtain b where b: "root = Some b" by auto
      obtain f where f: "from_abd a b D = ret f" "posdef D f" "is_reduced f"
        using H_G_form [OF a D] root b by blast
      have "r = Inr (f, Suc ii)" using rest root b f(1) True by (simp add: ret_def)
      moreover have "H_GFast_loop H P D (int (Suc ii)) ii s = ret f"
        using ii c root b f(1) True by (subst H_GFast_loop.simps) simp
      ultimately show ?thesis using f ii by blast
    next
      case False
      then have l: "loop H P D (Suc ii) s' = Some r" using rest root by (auto split: if_splits)
      obtain f n where fn: "r = Inr (f, n)" "posdef D f" "is_reduced f" "Suc ii < n" "n < 2 ^ 31"
        "H_GFast_loop H P D (int n) (Suc ii) s' = ret f"
        using IH [OF l] D by blast
      then have "H_GFast_loop H P D (int n) ii s = ret f"
        using ii c by (subst H_GFast_loop.simps) simp
      then show ?thesis using fn by (metis Suc_lessD)
    qed
  qed
  then show ?thesis using assms(2,3) by simp
qed

lemma H_G_result:
  assumes "H_G H P ch D = Some r" and "D < 0" and "D mod 4 = 1"
  shows "\<exists>f n. r = Inr (f, n) \<and> posdef D f \<and> is_reduced f \<and> 0 < n \<and> H_GFast H P ch D (int n) = ret f"
proof -
  obtain s where s: "ConvertIntegerToBytes2 ch (H_G_size D) = Some s" and l: "H_G_loop H P D 0 s = Some r"
    using assms(1) by (auto simp: H_G_def Option.bind_eq_Some_conv)
  from H_G_loop_result [OF l assms(2,3)] show ?thesis by (auto simp: H_GFast_def s)
qed

text \<open>A wrong count: if the candidate it points at is prime and \<open>D\<close> is not a residue,
  \<open>H_GFast\<close> never returns.\<close>

lemma H_GFast_past:
  assumes "H_GFast_loop H P D n ii s = Some r"
  shows "n \<le> int ii \<longrightarrow> False"
proof -
  let ?Q = "\<lambda>(((((H, P), D), n), ii), s) r. n \<le> int ii \<longrightarrow> False"
  have "?Q (((((H, P), D), n), ii), s) r"
  proof (rule H_GFast_loop.raw_induct [where Pa = ?Q, OF _ assms(1)], unfold split, intro impI)
    fix loop H P D n ii s and r :: "vdf_error + form"
    assume IH: "\<And>H P D n ii s r. loop H P D n ii s = Some r \<Longrightarrow> n \<le> int ii \<longrightarrow> False"
      and eq: "(if past_int (Suc ii) then None
        else Option.bind (H_G_candidate H s) (\<lambda>(a, s').
          if int (Suc ii) = n
          then (if P a then Option.bind (H_G_root D a) (\<lambda>root. case root of None \<Rightarrow> loop H P D n (Suc ii) s'
              | Some b \<Rightarrow> from_abd a b D) else identity D)
          else loop H P D n (Suc ii) s')) = Some r"
      and n: "n \<le> int ii"
    then obtain s' where "loop H P D n (Suc ii) s' = Some r"
      by (auto simp: ret_iff split: if_splits)
    then show False using IH n by fastforce
  qed
  then show ?thesis by simp
qed

lemma H_GFast_stuck:
  assumes "H_G_candidate H s = Some (a, s')" and "P a" and "H_G_root D a = Some None"
  shows "H_GFast_loop H P D (int (Suc ii)) ii s = None"
proof -
  have "H_GFast_loop H P D (int (Suc ii)) (Suc ii) s' = None"
    using H_GFast_past [of H P D "int (Suc ii)" "Suc ii" s'] by (cases "H_GFast_loop H P D (int (Suc ii)) (Suc ii) s'") auto
  then show ?thesis using assms by (subst H_GFast_loop.simps) simp
qed

subsection \<open>Skipping to the iteration that found the prime\<close>

lemma hash_search_count_result:
  assumes "hash_search_count H P len msk n s = Some r"
  shows "n < snd r \<and> snd r < 2 ^ 31 \<and> hash_search H P len msk s = Some (fst r) \<and>
    hash_search_skip H P len msk (int (snd r)) n s = Some (fst r)"
proof -
  let ?Q = "\<lambda>(((((H, P), len), msk), n), s) r.
    n < snd r \<and> snd r < 2 ^ 31 \<and> hash_search H P len msk s = Some (fst r) \<and>
    hash_search_skip H P len msk (int (snd r)) n s = Some (fst r)"
  have "?Q (((((H, P), len), msk), n), s) r"
  proof (rule hash_search_count.raw_induct [where Pa = ?Q, OF _ assms(1)], unfold split)
    fix loop H P len msk n s and r :: "int \<times> nat"
    let ?R = "\<lambda>n s. n < snd r \<and> snd r < 2 ^ 31 \<and> hash_search H P len msk s = Some (fst r) \<and>
        hash_search_skip H P len msk (int (snd r)) n s = Some (fst r)"
    assume IH: "\<And>H P len msk n s r. loop H P len msk n s = Some r \<Longrightarrow>
        n < snd r \<and> snd r < 2 ^ 31 \<and> hash_search H P len msk s = Some (fst r) \<and>
        hash_search_skip H P len msk (int (snd r)) n s = Some (fst r)"
      and eq: "Option.bind (hash_fill H len [] s) (\<lambda>(blob, s').
       if length blob * 8 \<noteq> len then None
       else if past_int (Suc n) then None
       else if P (apply_mask (integer_of_bytes blob) msk)
       then Some (apply_mask (integer_of_bytes blob) msk, Suc n)
       else loop H P len msk (Suc n) s') = Some r"
    obtain blob s' where f: "hash_fill H len [] s = Some (blob, s')" "length blob * 8 = len" "Suc n < 2 ^ 31"
      and k: "(if P (apply_mask (integer_of_bytes blob) msk)
       then Some (apply_mask (integer_of_bytes blob) msk, Suc n) else loop H P len msk (Suc n) s') = Some r"
      using eq by (auto simp: ret_iff split: if_splits)
    show "?R n s"
    proof (cases "P (apply_mask (integer_of_bytes blob) msk)")
      case True
      then show ?thesis using f k by (subst hash_search.simps, subst hash_search_skip.simps) auto
    next
      case False
      then have "?R (Suc n) s'" using IH k by simp
      then show ?thesis using f False by (subst hash_search.simps, subst hash_search_skip.simps) auto
    qed
  qed
  then show ?thesis by simp
qed

lemma HashPrimeWithIteration_result:
  assumes "HashPrimeWithIteration H P seed len msk = Some (p, n)"
  shows "HashPrime H P seed len msk = Some p \<and> HashPrimeFast H P seed len msk (int n) = Some p \<and> 0 < n"
  using hash_search_count_result [of H P len msk 0 seed "(p, n)"] assms
  by (auto simp: HashPrimeWithIteration_def HashPrime_def HashPrimeFast_def split: if_splits)


subsection \<open>The power by long division\<close>

lemma nudupl_power:
  assumes "good_disc D" and "gcdext_ok G" and "posdef D x" and "pw D x a f"
  shows "holds t (pw D x (a + a)) (lift_opt (nudupl_form G f D L))"
proof -
  obtain r where "qfb_nudupl G f D L = Some r" "posdef D r" "class_mul D f f r"
    using qfb_nudupl_ok assms(1,2,4) by (metis pw_def)
  then show ?thesis using class_pow_add [OF assms(1,3)] assms(4) by (auto simp: nudupl_form_def pw_def)
qed

lemma nucomp_power:
  assumes "good_disc D" and "gcdext_ok G" and "posdef D x" and "pw D x a f" and "pw D x b g"
  shows "holds t (pw D x (a + b)) (lift_opt (nucomp_form G f g D L))"
proof -
  obtain r where "qfb_nucomp G f g D L = Some r" "posdef D r" "class_mul D f g r"
    using qfb_nucomp_ok assms(1,2,4,5) by (metis pw_def)
  then show ?thesis using class_pow_add [OF assms(1,3)] assms(4,5) by (auto simp: nucomp_form_def pw_def)
qed

lemma quotient_bit:
  assumes "1 < B"
  shows "2 ^ Suc i div B = 2 * (2 ^ i div B) + (if 2 ^ i mod B * 2 \<ge> B then 1 else 0)"
    and "2 ^ Suc i mod B = (2 ^ i mod B * 2) mod (B :: int)"
proof -
  let ?q = "2 ^ i div B" and ?r = "2 ^ i mod B"
  have r: "0 \<le> ?r" "?r < B" using assms by simp_all
  have e: "2 ^ Suc i = ?r * 2 + (2 * ?q) * B"
  proof -
    have double: "2 * x = r * 2 + (2 * q) * B" if "x = r + q * B" for x r q :: int
      using that by simp
    have "2 ^ i = ?r + ?q * B" by (simp only: mod_div_mult_eq)
    then show ?thesis unfolding power_Suc by (rule double)
  qed
  have "(?r * 2) div B = (if ?r * 2 \<ge> B then 1 else 0)"
  proof (cases "?r * 2 \<ge> B")
    case True
    then have "(?r * 2 - B) div B = 0" using r by (intro div_pos_pos_trivial) auto
    then show ?thesis using True assms div_add_self2 [of B "?r * 2 - B"] by simp
  qed (use r in \<open>simp add: div_pos_pos_trivial\<close>)
  then show "2 ^ Suc i div B = 2 * ?q + (if ?r * 2 \<ge> B then 1 else 0)"
    unfolding e using assms by simp
  show "2 ^ Suc i mod B = (?r * 2) mod B" unfolding e by simp
qed

lemma PowFormWithQuotient_holds:
  assumes D: "good_disc D" and G: "gcdext_ok G" and g: "posdef D g" and red: "reducer_sound red"
    and t: "t \<Longrightarrow> reducer_total red" and B: "1 < B" and T: "T < 2 ^ 31"
  shows "holds t (pw D g (nat (2 ^ T div B))) (PowFormWithQuotient G red g D T B L)"
proof -
  let ?I = "\<lambda>i xr. pw D g (nat (2 ^ i div B)) (fst xr) \<and> snd xr = 2 ^ i mod B"
  obtain u where u: "identity D = ret u" "posdef D u" "class_pow D g 0 u" using identity_ok [OF D g] by blast
  have "holds t (?I T) (fold_res (quotient_step G red g D B L) [0..<T] (u, 1))"
  proof (rule holds_fold)
    show "?I 0 (u, 1)" using u B by (simp add: pw_def)
    fix i xr
    assume I: "?I i xr"
    let ?q = "nat (2 ^ i div B)" and ?up = "2 ^ i mod B * 2 \<ge> B"
    have q: "nat (2 ^ Suc i div B) = ?q + ?q + (if ?up then 1 else 0)"
      unfolding quotient_bit(1) [OF B] using B by (simp add: pos_imp_zdiv_nonneg_iff nat_add_distrib nat_mult_distrib)
    have g1: "pw D g 1 g" using g class_pow_1 [OF D g] by (simp add: pw_def)
    have "holds t (pw D g (?q + ?q)) (lift_opt (nudupl_form G (fst xr) D L))"
      using nudupl_power [OF D G g] I by blast
    then have "holds t (?I (Suc i)) (bind_res (lift_opt (nudupl_form G (fst xr) D L)) (\<lambda>x.
        bind_res (if snd xr * 2 \<ge> B then bind_res (lift_opt (nucomp_form G x g D L)) (\<lambda>x. lift_opt (red x)) else ret x)
          (\<lambda>x. if B = 0 then None else ret (x, (snd xr * 2) mod \<bar>B\<bar>))))"
    proof (rule holds_bind)
      fix x assume x: "pw D g (?q + ?q) x"
      have "holds t (pw D g (nat (2 ^ Suc i div B)))
        (if ?up then bind_res (lift_opt (nucomp_form G x g D L)) (\<lambda>x. lift_opt (red x)) else ret x)"
      proof (cases ?up)
        case True
        have "holds t (pw D g (?q + ?q + 1)) (bind_res (lift_opt (nucomp_form G x g D L)) (\<lambda>x. lift_opt (red x)))"
          by (rule holds_bind [OF nucomp_power [OF D G g x g1]])
            (rule holds_mono [OF finish_proof [OF D red t]], auto)
        then show ?thesis unfolding q using True by simp
      qed (use x q in simp)
      then have "holds t (?I (Suc i)) (bind_res
        (if ?up then bind_res (lift_opt (nucomp_form G x g D L)) (\<lambda>x. lift_opt (red x)) else ret x)
        (\<lambda>x. if B = 0 then None else ret (x, (2 ^ i mod B * 2) mod \<bar>B\<bar>)))"
        by (rule holds_bind) (use B quotient_bit(2) [OF B] in simp)
      then show "holds t (?I (Suc i)) (bind_res (if snd xr * 2 \<ge> B
          then bind_res (lift_opt (nucomp_form G x g D L)) (\<lambda>x. lift_opt (red x)) else ret x)
          (\<lambda>x. if B = 0 then None else ret (x, (snd xr * 2) mod \<bar>B\<bar>)))"
        using I by (simp only:)
    qed
    then show "holds t (?I (Suc i)) (quotient_step G red g D B L i xr)"
      unfolding quotient_step_def case_prod_beta by (simp only: Let_def)
  qed
  then have "holds t (pw D g (nat (2 ^ T div B)))
      (bind_res (fold_res (quotient_step G red g D B L) [0..<T] (u, 1)) (\<lambda>(x, r). ret x))"
    by (rule holds_bind) auto
  then show ?thesis using u T by (simp add: PowFormWithQuotient_def)
qed

end
