(* ===== verification/AggVdf.thy ===== *)
theory AggVdf
  imports AggUtil
begin

section \<open>Aggregated proofs: \<open>aggvdf/aggvdf.h\<close>\<close>

text \<open>
  \<open>AggreateVdfProofs\<close> combines the proofs of many evaluations over one group into one:
  it raises every base to a hashed exponent, multiplies them and proves the product.
  \<open>VerifyAggProof\<close> recomputes the bases and the two products on several threads and checks
  one equation.  The threads write disjoint entries, and are run one after the other here;
  an exception inside a thread ends the program, which is \<open>None\<close>, as is an access outside
  a vector.
\<close>

subsection \<open>The code\<close>

definition vec_at :: "'a list \<Rightarrow> nat \<Rightarrow> 'a option" where
  "vec_at xs i = (if i < length xs then Some (xs ! i) else None)"

primrec map_res :: "('a \<Rightarrow> 'b res) \<Rightarrow> 'a list \<Rightarrow> 'b list res" where
  "map_res f [] = ret []"
| "map_res f (x # xs) = bind_res (f x) (\<lambda>y. bind_res (map_res f xs) (\<lambda>ys. ret (y # ys)))"

definition eval_step :: "gcdext \<Rightarrow> (form \<Rightarrow> form option) \<Rightarrow> int \<Rightarrow> int \<Rightarrow> nat \<Rightarrow> form \<Rightarrow> form res" where
  "eval_step G red D L i y = bind_res (lift_opt (nudupl_form G y D L)) (\<lambda>y. lift_opt (red y))"

definition EvalAggVdf ::
  "gcdext \<Rightarrow> (byte list \<Rightarrow> byte list) \<Rightarrow> (int \<Rightarrow> bool) \<Rightarrow> (form \<Rightarrow> form option) \<Rightarrow> int \<Rightarrow> int \<Rightarrow> nat \<Rightarrow> (form \<times> nat) res" where
  "EvalAggVdf G H P red D challenge_int t =
     bind_res (lift_opt (root4 (- D))) (\<lambda>L.
     bind_res (H_G H P challenge_int D) (\<lambda>(y, a_iter).
     if past_int t then None
     else bind_res (fold_res (eval_step G red D L) [0..<t] y) (\<lambda>y. ret (y, a_iter))))"

definition base_at ::
  "(byte list \<Rightarrow> byte list) \<Rightarrow> (int \<Rightarrow> bool) \<Rightarrow> int \<Rightarrow> int list \<Rightarrow> int list \<Rightarrow> nat \<Rightarrow> form res" where
  "base_at H P D challenges a_iters i =
     bind_res (lift_opt (vec_at challenges i)) (\<lambda>c.
     bind_res (lift_opt (vec_at a_iters i)) (\<lambda>a. H_GFast H P c D a))"

text \<open>The transcript \<open>bin(g_1)||bin(y_1)||...\<close>; serializing reduces the forms in place.\<close>

primrec agg_seed :: "nat \<Rightarrow> form list \<Rightarrow> form list \<Rightarrow> (byte list \<times> form list \<times> form list) option" where
  "agg_seed d_size [] ys = Some ([], [], [])"
| "agg_seed d_size (g # gs) ys =
     (case ys of
        [] \<Rightarrow> None
      | y # ys \<Rightarrow>
          do {
            (g_bytes, g') \<leftarrow> serialize_form g d_size;
            (y_bytes, y') \<leftarrow> serialize_form y d_size;
            (s, gs', ys') \<leftarrow> agg_seed d_size gs ys;
            Some (g_bytes @ y_bytes @ s, g' # gs', y' # ys')
          })"

definition agg_alpha :: "(byte list \<Rightarrow> byte list) \<Rightarrow> byte list \<Rightarrow> nat \<Rightarrow> int" where
  "agg_alpha H s i = integer_of_bytes (H (int2bytes (int i) @ s))"

definition agg_step ::
  "gcdext \<Rightarrow> (byte list \<Rightarrow> byte list) \<Rightarrow> (form \<Rightarrow> form option) \<Rightarrow> int \<Rightarrow> int \<Rightarrow> byte list \<Rightarrow> form list \<Rightarrow> nat \<Rightarrow> form \<Rightarrow>
   form res" where
  "agg_step G H red D L s gs i agg =
     bind_res (lift_opt (vec_at gs i)) (\<lambda>g.
     bind_res (fast_pow_form G red g D (agg_alpha H s i) L) (\<lambda>p.
     lift_opt (form_times G False agg p)))"

definition AggreateVdfProofs ::
  "gcdext \<Rightarrow> (byte list \<Rightarrow> byte list) \<Rightarrow> (int \<Rightarrow> bool) \<Rightarrow> (form \<Rightarrow> form option) \<Rightarrow>
   int \<Rightarrow> int list \<Rightarrow> form list \<Rightarrow> nat \<Rightarrow> int list \<Rightarrow> (form \<times> nat) res" where
  "AggreateVdfProofs G H P red D challenges ys num_iterations a_iters =
     (let d_size = num_bits D; proofs_num = length challenges in
      bind_res (lift_opt (root4 (- D))) (\<lambda>L.
      bind_res (map_res (base_at H P D challenges a_iters) [0..<proofs_num]) (\<lambda>gs.
      bind_res (lift_opt (agg_seed d_size gs ys)) (\<lambda>(s, gs, ys).
      bind_res (lift_opt (HashPrimeWithIteration H P s 264 [263])) (\<lambda>(B, b_iter).
      bind_res (identity D) (\<lambda>agg_g.
      bind_res (fold_res (agg_step G H red D L s gs) [0..<proofs_num] agg_g) (\<lambda>agg_g.
      bind_res (PowFormWithQuotient G red agg_g D num_iterations B L) (\<lambda>proof_form.
      ret (proof_form, b_iter)))))))))"

definition thread_range :: "nat \<Rightarrow> nat \<Rightarrow> nat \<Rightarrow> nat list" where
  "thread_range proofs_num nthreads tt =
     [tt * proofs_num div nthreads ..<
      (if Suc tt = nthreads then proofs_num else Suc tt * proofs_num div nthreads)]"

definition in_thread :: "'a res \<Rightarrow> 'a res" where
  "in_thread m = (case m of Some (Inl e) \<Rightarrow> None | _ \<Rightarrow> m)"

definition write_base ::
  "(byte list \<Rightarrow> byte list) \<Rightarrow> (int \<Rightarrow> bool) \<Rightarrow> int \<Rightarrow> int list \<Rightarrow> int list \<Rightarrow> nat \<Rightarrow> form list \<Rightarrow> form list res" where
  "write_base H P D challenges a_iters i gs =
     bind_res (base_at H P D challenges a_iters i) (\<lambda>g. ret (gs[i := g]))"

definition agg_pair_step ::
  "gcdext \<Rightarrow> (byte list \<Rightarrow> byte list) \<Rightarrow> (form \<Rightarrow> form option) \<Rightarrow> int \<Rightarrow> int \<Rightarrow> byte list \<Rightarrow> form list \<Rightarrow> form list \<Rightarrow>
   nat \<Rightarrow> form \<times> form \<Rightarrow> (form \<times> form) res" where
  "agg_pair_step G H red D L s gs ys i = (\<lambda>(agg_xx, agg_yy).
     bind_res (agg_step G H red D L s gs i agg_xx) (\<lambda>agg_xx.
     bind_res (agg_step G H red D L s ys i agg_yy) (\<lambda>agg_yy.
     ret (agg_xx, agg_yy))))"

definition combine_step :: "gcdext \<Rightarrow> form \<times> form \<Rightarrow> form \<times> form \<Rightarrow> (form \<times> form) res" where
  "combine_step G = (\<lambda>(gx, gy) (agg_x, agg_y).
     bind_res (lift_opt (form_times G False agg_x gx)) (\<lambda>agg_x.
     bind_res (lift_opt (form_times G False agg_y gy)) (\<lambda>agg_y.
     ret (agg_x, agg_y))))"

definition VerifyAggProof ::
  "gcdext \<Rightarrow> (byte list \<Rightarrow> byte list) \<Rightarrow> (int \<Rightarrow> bool) \<Rightarrow> (form \<Rightarrow> form option) \<Rightarrow>
   int \<Rightarrow> int list \<Rightarrow> form list \<Rightarrow> form \<Rightarrow> nat \<Rightarrow> nat \<Rightarrow> int list \<Rightarrow> int \<Rightarrow> bool res" where
  "VerifyAggProof G H P red D challenges ys aggregated_proof num_iterations nthreads a_iters b_iter =
     (let d_size = num_bits D; proofs_num = length challenges in
      bind_res (lift_opt (root4 (- D))) (\<lambda>L.
      if past_int ((nthreads - 1) * proofs_num) then None
      else bind_res (fold_res (\<lambda>tt gs. in_thread (fold_res (write_base H P D challenges a_iters)
                       (thread_range proofs_num nthreads tt) gs))
                     [0..<nthreads] (replicate proofs_num (mk_form 0 0 0))) (\<lambda>gs.
      bind_res (lift_opt (agg_seed d_size gs ys)) (\<lambda>(s, gs, ys).
      bind_res (lift_opt (HashPrimeFast H P s 264 [263] b_iter)) (\<lambda>B.
      bind_res (identity D) (\<lambda>idf.
      bind_res (map_res (\<lambda>tt. in_thread (fold_res (agg_pair_step G H red D L s gs ys)
                  (thread_range proofs_num nthreads tt) (idf, idf))) [0..<nthreads]) (\<lambda>parts.
      bind_res (fold_res (combine_step G) parts (idf, idf)) (\<lambda>(agg_x, agg_y).
      bind_res (fast_pow 2 num_iterations B) (\<lambda>r.
      bind_res (fast_pow_form G red aggregated_proof D B L) (\<lambda>f1.
      bind_res (fast_pow_form G red agg_x D r L) (\<lambda>f2.
      bind_res (lift_opt (form_times G False f1 f2)) (\<lambda>f.
      ret (f = agg_y)))))))))))))"

subsection \<open>Threads\<close>

lemma in_thread_ret [simp]: "in_thread m = ret x \<longleftrightarrow> m = ret x"
  by (auto simp: in_thread_def ret_def split: option.splits sum.splits)

lemma fold_res_append: "fold_res f (xs @ ys) s = bind_res (fold_res f xs s) (fold_res f ys)"
proof (induction xs arbitrary: s)
  case (Cons x xs)
  show ?case
  proof (cases "f x s")
    case (Some r)
    then show ?thesis using Cons by (cases r) (simp_all add: bind_res_def)
  qed (simp add: bind_res_def)
qed simp

lemma threads_fold:
  "fold_res (\<lambda>tt s. in_thread (fold_res f (R tt) s)) tts s = ret s' \<longleftrightarrow> fold_res f (concat (map R tts)) s = ret s'"
  by (induction tts arbitrary: s) (auto simp: fold_res_append ret_iff)

text \<open>The ranges of the threads cover the proofs, in order.\<close>

lemma thread_bounds:
  assumes "tt < T"
  shows "tt * n div T \<le> (if Suc tt = T then n else Suc tt * n div T)"
    and "(if Suc tt = T then n else Suc tt * n div T) \<le> n"
proof -
  have le: "k * n div T \<le> n" if "k \<le> T" for k
  proof -
    have "k * n div T \<le> T * n div T" using that by (intro div_le_mono mult_le_mono1)
    then show ?thesis using assms by simp
  qed
  have "tt * n div T \<le> Suc tt * n div T" by (intro div_le_mono mult_le_mono1) simp
  then show "tt * n div T \<le> (if Suc tt = T then n else Suc tt * n div T)" using assms le [of tt] by simp
  show "(if Suc tt = T then n else Suc tt * n div T) \<le> n" using assms le [of "Suc tt"] by auto
qed

lemma thread_ranges:
  assumes "0 < T"
  shows "concat (map (thread_range n T) [0..<T]) = [0..<n]"
proof -
  have "concat (map (thread_range n T) [0..<m]) = [0..<if m = T then n else m * n div T]" if "m \<le> T" for m
    using that
  proof (induction m)
    case (Suc m)
    let ?hi = "if Suc m = T then n else Suc m * n div T"
    have "m * n div T \<le> ?hi" using Suc.prems thread_bounds(1) [of m T n] by simp
    moreover have "concat (map (thread_range n T) [0..<m]) = [0..<m * n div T]" using Suc by simp
    moreover have "thread_range n T m = [m * n div T ..< ?hi]" by (simp only: thread_range_def)
    ultimately show ?case
      using upt_add_eq_append [of 0 "m * n div T" "?hi - m * n div T"] by simp
  qed (use assms in simp)
  from this [of T] show ?thesis by simp
qed

subsection \<open>Products of powers in the class group\<close>

primrec lmulti :: "int \<Rightarrow> (form \<times> nat) list \<Rightarrow> complex set" where
  "lmulti D [] = unit_lat D"
| "lmulti D (p # ps) = lprod (lpow D (lat D (fst p)) (snd p)) (lmulti D ps)"

definition class_multi :: "int \<Rightarrow> (form \<times> nat) list \<Rightarrow> form \<Rightarrow> bool" where
  "class_multi D ps h \<longleftrightarrow> homothetic (lmulti D ps) (lat D h)"

lemma lmulti_unit:
  assumes "homothetic (lprod (unit_lat D) (unit_lat D)) (unit_lat D)"
  shows "homothetic (lprod (unit_lat D) (lmulti D ps)) (lmulti D ps)"
  by (induction ps) (simp_all add: assms lprod_left_comm [of "unit_lat D"] homothetic_lprod_right)

lemma lmulti_append:
  assumes "homothetic (lprod (unit_lat D) (unit_lat D)) (unit_lat D)"
  shows "homothetic (lprod (lmulti D ps) (lmulti D qs)) (lmulti D (ps @ qs))"
  by (induction ps) (simp_all add: lmulti_unit [OF assms] lprod_assoc homothetic_lprod_right)

lemma class_multi_append:
  assumes D: "good_disc D" and f: "posdef D f"
    and "class_multi D ps g" and "class_multi D qs h" and "class_mul D g h k"
  shows "class_multi D (ps @ qs) k"
proof -
  have "homothetic (lprod (lmulti D ps) (lmulti D qs)) (lprod (lat D g) (lat D h))"
    using assms(3,4) unfolding class_multi_def by (rule homothetic_lprod)
  then show ?thesis
    using lmulti_append [OF good_disc_unit [OF D f]] assms(5) unfolding class_multi_def class_mul_def
    by (meson homothetic_sym homothetic_trans)
qed

lemma class_multi_single:
  assumes D: "good_disc D" and f: "posdef D f" and "class_pow D x a p"
  shows "class_multi D [(x, a)] p"
proof -
  have "homothetic (lprod (unit_lat D) (lpow D (lat D x) a)) (lpow D (lat D x) a)"
    using good_disc_unit [OF D f] by (rule lpow_unit)
  then show ?thesis
    using assms(3) unfolding class_multi_def class_pow_def by (simp add: lprod_comm) (metis homothetic_trans)
qed

lemma class_multi_Nil: "class_pow D f 0 u \<Longrightarrow> class_multi D [] u"
  by (simp add: class_multi_def class_pow_def)

lemma class_multi_unique: "class_multi D ps g \<Longrightarrow> class_multi D ps h \<Longrightarrow> same_class D g h"
  unfolding class_multi_def same_class_def by (meson homothetic_sym homothetic_trans)

lemma lpow_lprod:
  assumes "homothetic (lprod (unit_lat D) (unit_lat D)) (unit_lat D)"
  shows "homothetic (lpow D (lprod M N) n) (lprod (lpow D M n) (lpow D N n))"
proof (induction n)
  case 0
  then show ?case using assms by (simp add: homothetic_sym)
next
  case (Suc n)
  have "homothetic (lprod (lprod M N) (lpow D (lprod M N) n)) (lprod (lprod M N) (lprod (lpow D M n) (lpow D N n)))"
    using Suc by (rule homothetic_lprod_right)
  moreover have "lprod (lprod M N) (lprod (lpow D M n) (lpow D N n)) = lprod (lprod M (lpow D M n)) (lprod N (lpow D N n))"
    by (simp add: lprod_assoc lprod_left_comm [of N])
  ultimately show ?case by simp
qed

lemma lpow_of_unit:
  assumes "homothetic (lprod (unit_lat D) (unit_lat D)) (unit_lat D)"
  shows "homothetic (lpow D (unit_lat D) n) (unit_lat D)"
proof (induction n)
  case (Suc n)
  then show ?case using homothetic_trans [OF homothetic_lprod_right assms] by simp
qed simp

text \<open>Raising every base to the same power raises the product to it.\<close>

lemma lmulti_power:
  assumes U: "homothetic (lprod (unit_lat D) (unit_lat D)) (unit_lat D)"
    and "list_all2 (\<lambda>p q. class_pow D (fst p) n (fst q) \<and> snd p = snd q) ps qs"
  shows "homothetic (lpow D (lmulti D ps) n) (lmulti D qs)"
  using assms(2)
proof (induction rule: list_all2_induct)
  case Nil
  then show ?case using lpow_of_unit [OF U] by simp
next
  case (Cons p ps q qs)
  let ?X = "lat D (fst p)" and ?Y = "lat D (fst q)" and ?a = "snd p"
  have "homothetic (lpow D (lpow D ?X ?a) n) (lpow D (lpow D ?X n) ?a)"
  proof -
    have c: "?a * n = n * ?a" by simp
    show ?thesis
      using homothetic_trans [OF lpow_mult [OF U, of ?X ?a n] homothetic_sym [OF lpow_mult [OF U, of ?X n ?a, folded c]]] .
  qed
  moreover have "homothetic (lpow D (lpow D ?X n) ?a) (lpow D ?Y ?a)"
    using Cons(1) unfolding class_pow_def by (intro lpow_cong) simp
  ultimately have "homothetic (lpow D (lpow D ?X ?a) n) (lpow D ?Y ?a)" by (rule homothetic_trans)
  then have "homothetic (lprod (lpow D (lpow D ?X ?a) n) (lpow D (lmulti D ps) n)) (lmulti D (q # qs))"
    using Cons.IH Cons(1) by (simp add: homothetic_lprod)
  then have "homothetic (lpow D (lprod (lpow D ?X ?a) (lmulti D ps)) n) (lmulti D (q # qs))"
    by (rule homothetic_trans [OF lpow_lprod [OF U]])
  then show ?case by simp
qed

lemma class_multi_power:
  assumes D: "good_disc D" and f: "posdef D f"
    and l: "list_all2 (\<lambda>p q. class_pow D (fst p) n (fst q) \<and> snd p = snd q) ps qs"
    and X: "class_multi D ps X" and Y: "class_multi D qs Y"
  shows "class_pow D X n Y"
proof -
  have "homothetic (lpow D (lat D X) n) (lpow D (lmulti D ps) n)"
    using X unfolding class_multi_def by (rule lpow_cong [OF homothetic_sym])
  then have "homothetic (lpow D (lat D X) n) (lmulti D qs)"
    using lmulti_power [OF good_disc_unit [OF D f] l] by (rule homothetic_trans)
  then show ?thesis
    using Y unfolding class_pow_def class_multi_def by (rule homothetic_trans)
qed

subsection \<open>The folds\<close>

lemma map_res_ret: "map_res f xs = ret ys \<longleftrightarrow> list_all2 (\<lambda>x y. f x = ret y) xs ys"
proof (induction xs arbitrary: ys)
  case (Cons x xs)
  then show ?case by (cases ys) (auto simp: ret_iff)
qed auto


lemma holds_map_res:
  "(\<And>x. x \<in> set xs \<Longrightarrow> holds t (Q x) (f x)) \<Longrightarrow> holds t (list_all2 Q xs) (map_res f xs)"
proof (induction xs)
  case (Cons x xs)
  have "holds t (list_all2 Q (x # xs)) (bind_res (f x) (\<lambda>y. bind_res (map_res f xs) (\<lambda>ys. ret (y # ys))))"
  proof (rule holds_bind)
    show "holds t (Q x) (f x)" using Cons.prems by simp
    fix y assume y: "Q x y"
    have "holds t (list_all2 Q xs) (map_res f xs)" using Cons by simp
    then show "holds t (list_all2 Q (x # xs)) (bind_res (map_res f xs) (\<lambda>ys. ret (y # ys)))"
      by (rule holds_bind) (use y in simp)
  qed
  then show ?case by simp
qed simp

lemma holds_fold_nth:
  assumes "P 0 s" and "\<And>i s. i < length xs \<Longrightarrow> P i s \<Longrightarrow> holds t (P (Suc i)) (f (xs ! i) s)"
  shows "holds t (P (length xs)) (fold_res f xs s)"
  using assms
proof (induction xs rule: rev_induct)
  case (snoc x xs)
  have "holds t (P (length xs)) (fold_res f xs s)"
  proof (rule snoc.IH [OF snoc.prems(1)])
    fix i s assume "i < length xs" "P i s"
    then show "holds t (P (Suc i)) (f (xs ! i) s)" using snoc.prems(2) [of i s] by (simp add: nth_append)
  qed
  then have "holds t (P (Suc (length xs))) (bind_res (fold_res f xs s) (fold_res f [x]))"
  proof (rule holds_bind)
    fix s assume "P (length xs) s"
    then have "holds t (P (Suc (length xs))) (f x s)" using snoc.prems(2) [of "length xs" s] by simp
    then have "holds t (P (Suc (length xs))) (bind_res (f x s) ret)" by (rule holds_bind) simp
    moreover have "fold_res f [] = ret" by (rule ext) simp
    ultimately show "holds t (P (Suc (length xs))) (fold_res f [x] s)" by simp
  qed
  then show ?case by (simp add: fold_res_append)
qed simp

lemma holds_in_thread: "holds t Q m \<Longrightarrow> holds t Q (in_thread m)"
  by (auto simp: in_thread_def holds_def split: option.splits sum.splits)

text \<open>The bases: a thread writes the entry of each index it is given.\<close>

lemma write_base_ret [ret_iff]:
  "write_base H P D cs as i gs = ret gs' \<longleftrightarrow> (\<exists>g. base_at H P D cs as i = ret g \<and> gs' = gs[i := g])"
  by (auto simp: write_base_def ret_iff)

lemma write_bases:
  assumes "m \<le> n"
  shows "length gs0 = n \<Longrightarrow> fold_res (write_base H P D cs as) [m..<n] gs0 = ret gs \<longleftrightarrow>
    (\<exists>vs. map_res (base_at H P D cs as) [m..<n] = ret vs \<and> gs = take m gs0 @ vs)"
  using assms
proof (induction m arbitrary: gs0 gs rule: inc_induct)
  case base
  then show ?case by (auto simp: ret_iff)
next
  case (step m)
  have t: "take (Suc m) (gs0[m := g]) = take m gs0 @ [g]" for g
    using step.hyps step.prems by (simp add: take_Suc_conv_app_nth)
  have e: "fold_res (write_base H P D cs as) [Suc m..<n] (gs0[m := g]) = ret gs \<longleftrightarrow>
      (\<exists>vs. map_res (base_at H P D cs as) [Suc m..<n] = ret vs \<and> gs = (take m gs0 @ [g]) @ vs)" for g gs
    unfolding t [symmetric] using step.prems by (intro step.IH) simp
  have u: "[m..<n] = m # [Suc m..<n]" using step.hyps by (simp add: upt_conv_Cons)
  show ?case unfolding u by (auto simp: ret_iff e simp del: upt_Suc)
qed

lemma thread_bases:
  assumes "0 < T"
  shows "fold_res (\<lambda>tt gs. in_thread (fold_res (write_base H P D cs as) (thread_range n T tt) gs)) [0..<T]
      (replicate n z) = ret gs \<longleftrightarrow> map_res (base_at H P D cs as) [0..<n] = ret gs"
  unfolding threads_fold thread_ranges [OF assms] by (subst write_bases) simp_all


subsection \<open>The forms of a proof\<close>

lemma H_GFast_loop_posdef:
  assumes "H_GFast_loop H P D n ii s = Some r"
  shows "D < 0 \<longrightarrow> (\<forall>f. r = Inr f \<longrightarrow> posdef D f \<and> is_reduced f)"
proof -
  let ?Q = "\<lambda>(((((H, P), D), n), ii), s) r. D < 0 \<longrightarrow> (\<forall>f. r = Inr f \<longrightarrow> posdef D f \<and> is_reduced f)"
  have "?Q (((((H, P), D), n), ii), s) r"
  proof (rule H_GFast_loop.raw_induct [where Pa = ?Q, OF _ assms(1)], unfold split, intro impI allI)
    fix loop H P D n ii s f and r :: "vdf_error + form"
    assume IH: "\<And>H P D n ii s r. loop H P D n ii s = Some r \<Longrightarrow>
        D < 0 \<longrightarrow> (\<forall>f. r = Inr f \<longrightarrow> posdef D f \<and> is_reduced f)"
      and eq: "(if past_int (Suc ii) then None
        else Option.bind (H_G_candidate H s) (\<lambda>(a, s').
          if int (Suc ii) = n
          then (if P a then Option.bind (H_G_root D a) (\<lambda>root. case root of None \<Rightarrow> loop H P D n (Suc ii) s'
              | Some b \<Rightarrow> from_abd a b D) else identity D)
          else loop H P D n (Suc ii) s')) = Some r"
      and D: "D < 0" and f: "r = Inr f"
    obtain a s' where "H_G_candidate H s = Some (a, s')"
      using eq by (cases "H_G_candidate H s") (auto split: if_splits)
    then consider "loop H P D n (Suc ii) s' = Some r" | b where "from_abd a b D = Some r" | "identity D = Some r"
      using eq by (auto simp: ret_iff split: if_splits option.splits)
    then show "posdef D f \<and> is_reduced f"
      using IH [of H P D n "Suc ii" s' r] from_abd_posdef [OF _ D] D f
      by cases (auto simp: identity_def ret_def)
  qed
  then show ?thesis by simp
qed

lemma base_at_posdef: "base_at H P D cs as i = ret g \<Longrightarrow> D < 0 \<Longrightarrow> posdef D g \<and> is_reduced g"
proof -
  assume "base_at H P D cs as i = ret g" and D: "D < 0"
  then obtain c a where "H_GFast H P c D a = ret g" by (auto simp: base_at_def ret_iff)
  then obtain s where "H_GFast_loop H P D a 0 s = Some (Inr g)"
    unfolding H_GFast_def by (auto simp: ret_def Option.bind_eq_Some_conv)
  from H_GFast_loop_posdef [OF this] D show ?thesis by blast
qed

definition in_place :: "int \<Rightarrow> form \<Rightarrow> form \<Rightarrow> bool" where
  "in_place D f g \<longleftrightarrow> posdef D g \<and> is_reduced g \<and> same_class D f g"

lemma serialize_in_place:
  "serialize_form f d = Some (s, g) \<Longrightarrow> posdef D f \<Longrightarrow> D < 0 \<Longrightarrow> in_place D f g"
  using reduce_returns [of D f] by (auto simp: serialize_form_def ret_iff in_place_def)

lemma agg_seed_in_place:
  assumes "D < 0"
  shows "agg_seed d gs ys = Some (s, gs', ys') \<Longrightarrow> \<forall>g\<in>set gs. posdef D g \<Longrightarrow> \<forall>y\<in>set ys. posdef D y \<Longrightarrow>
    list_all2 (in_place D) gs gs' \<and> list_all2 (in_place D) (take (length gs) ys) ys'"
proof (induction gs arbitrary: ys s gs' ys')
  case (Cons g gs)
  obtain y yr where ys: "ys = y # yr" using Cons.prems(1) by (cases ys) auto
  obtain bg g' b y' s2 gr yr' where 1: "serialize_form g d = Some (bg, g')" "serialize_form y d = Some (b, y')"
    "agg_seed d gs yr = Some (s2, gr, yr')" "gs' = g' # gr" "ys' = y' # yr'"
    using Cons.prems(1) by (auto simp: ys ret_iff)
  have "list_all2 (in_place D) gs gr \<and> list_all2 (in_place D) (take (length gs) yr) yr'"
    using Cons.IH [OF 1(3)] Cons.prems by (simp add: ys)
  then show ?case using 1 Cons.prems serialize_in_place [OF _ _ assms] by (simp add: ys)
qed simp

lemma agg_seed_len: "agg_seed d gs ys = Some (s, gs', ys') \<Longrightarrow> length gs \<le> length ys"
proof (induction gs arbitrary: ys s gs' ys')
  case (Cons g gs)
  then show ?case by (cases ys) (auto simp: ret_iff)
qed simp

lemma lmulti_cong:
  "list_all2 (\<lambda>p q. same_class D (fst p) (fst q) \<and> snd p = snd q) ps qs \<Longrightarrow> homothetic (lmulti D ps) (lmulti D qs)"
proof (induction rule: list_all2_induct)
  case (Cons p ps q qs)
  then have "homothetic (lpow D (lat D (fst p)) (snd p)) (lpow D (lat D (fst q)) (snd q))"
    by (auto simp: same_class_def intro: lpow_cong)
  with Cons show ?case by (simp add: homothetic_lprod)
qed simp

lemma class_multi_cong:
  assumes "list_all2 (\<lambda>p q. same_class D (fst p) (fst q) \<and> snd p = snd q) ps qs" and "class_multi D qs h"
  shows "class_multi D ps h"
  using lmulti_cong [OF assms(1)] assms(2) unfolding class_multi_def by (rule homothetic_trans)

subsection \<open>The two products\<close>

definition agg_terms :: "(byte list \<Rightarrow> byte list) \<Rightarrow> byte list \<Rightarrow> form list \<Rightarrow> nat list \<Rightarrow> (form \<times> nat) list" where
  "agg_terms H s gs idx = map (\<lambda>i. (gs ! i, nat (agg_alpha H s i))) idx"

definition agg_is :: "int \<Rightarrow> (form \<times> nat) list \<Rightarrow> form \<Rightarrow> bool" where
  "agg_is D ps a \<longleftrightarrow> posdef D a \<and> is_reduced a \<and> class_multi D ps a"

lemma times_agg:
  assumes D: "good_disc D" and G: "gcdext_ok G" and a: "agg_is D ps a" and b: "posdef D b" "class_multi D qs b"
  shows "holds t (agg_is D (ps @ qs)) (lift_opt (form_times G False a b))"
proof -
  have pa: "posdef D a" "class_multi D ps a" using a by (simp_all add: agg_is_def)
  obtain r where "multiply G a b = Some r" "posdef D r" "is_reduced r" "class_mul D a b r"
    using multiply_correct [OF D G pa(1) b(1)] by blast
  then show ?thesis
    using class_multi_append [OF D pa(1) pa(2) b(2)] by (simp add: form_times_def agg_is_def)
qed

lemma agg_step_holds:
  assumes D: "good_disc D" and G: "gcdext_ok G" and red: "reducer_sound red" and t: "t \<Longrightarrow> reducer_total red"
    and a: "agg_is D ps a" and i: "i < length gs" "posdef D (gs ! i)"
  shows "holds t (agg_is D (ps @ agg_terms H s gs [i])) (agg_step G H red D L s gs i a)"
proof -
  let ?e = "agg_alpha H s i"
  have e: "0 \<le> ?e" by (simp add: agg_alpha_def integer_of_bytes_def)
  have "holds t (\<lambda>p. posdef D p \<and> class_pow D (gs ! i) (nat ?e) p) (fast_pow_form G red (gs ! i) D ?e L)"
    using reducer_sound.fast_pow_form_sound [OF red D G i(2) e] fast_pow_no_error [OF D i(2)]
      reducer_total.fast_pow_form_returns [OF t D G i(2)]
    by (intro holds_partialI) blast+
  then have "holds t (agg_is D (ps @ [(gs ! i, nat ?e)]))
      (bind_res (fast_pow_form G red (gs ! i) D ?e L) (\<lambda>p. lift_opt (form_times G False a p)))"
  proof (rule holds_bind)
    fix p assume "posdef D p \<and> class_pow D (gs ! i) (nat ?e) p"
    then show "holds t (agg_is D (ps @ [(gs ! i, nat ?e)])) (lift_opt (form_times G False a p))"
      using class_multi_single [OF D i(2)] by (intro times_agg [OF D G a]) auto
  qed
  then show ?thesis using i(1) by (simp add: agg_step_def vec_at_def agg_terms_def)
qed


lemma pair_step_holds:
  assumes D: "good_disc D" and G: "gcdext_ok G" and red: "reducer_sound red" and t: "t \<Longrightarrow> reducer_total red"
    and a: "agg_is D (agg_terms H s gs js) (fst a)" "agg_is D (agg_terms H s ys js) (snd a)"
    and i: "i < length gs" "posdef D (gs ! i)" "i < length ys" "posdef D (ys ! i)"
  shows "holds t (\<lambda>a. agg_is D (agg_terms H s gs (js @ [i])) (fst a) \<and> agg_is D (agg_terms H s ys (js @ [i])) (snd a))
    (agg_pair_step G H red D L s gs ys i a)"
  unfolding agg_pair_step_def case_prod_beta
proof (rule holds_bind)
  have app: "agg_terms H s xs (js @ [i]) = agg_terms H s xs js @ agg_terms H s xs [i]" for xs
    by (simp add: agg_terms_def)
  show "holds t (agg_is D (agg_terms H s gs (js @ [i]))) (agg_step G H red D L s gs i (fst a))"
    unfolding app by (rule agg_step_holds [OF D G red t a(1) i(1,2)])
  fix x assume x: "agg_is D (agg_terms H s gs (js @ [i])) x"
  have "holds t (agg_is D (agg_terms H s ys (js @ [i]))) (agg_step G H red D L s ys i (snd a))"
    unfolding app by (rule agg_step_holds [OF D G red t a(2) i(3,4)])
  then show "holds t (\<lambda>a. agg_is D (agg_terms H s gs (js @ [i])) (fst a) \<and> agg_is D (agg_terms H s ys (js @ [i])) (snd a))
      (bind_res (agg_step G H red D L s ys i (snd a)) (\<lambda>y. ret (x, y)))"
    by (rule holds_bind) (use x in simp)
qed

lemma unit_agg:
  assumes "good_disc D" and "posdef D f"
  obtains u where "identity D = ret u" "agg_is D [] u"
  using identity_ok [OF assms, of undefined] class_multi_Nil by (auto simp: agg_is_def)

lemma pair_fold_holds:
  assumes D: "good_disc D" and G: "gcdext_ok G" and red: "reducer_sound red" and t: "t \<Longrightarrow> reducer_total red"
    and u: "agg_is D [] u" and le: "m \<le> n"
    and i: "\<And>i. i < n \<Longrightarrow> i < length gs \<and> posdef D (gs ! i) \<and> i < length ys \<and> posdef D (ys ! i)"
  shows "holds t (\<lambda>a. agg_is D (agg_terms H s gs [m..<n]) (fst a) \<and> agg_is D (agg_terms H s ys [m..<n]) (snd a))
    (fold_res (agg_pair_step G H red D L s gs ys) [m..<n] (u, u))"
proof (rule holds_fold_aux [where P = "\<lambda>k a. agg_is D (agg_terms H s gs [m..<k]) (fst a) \<and>
      agg_is D (agg_terms H s ys [m..<k]) (snd a)", OF _ le])
  show "agg_is D (agg_terms H s gs [m..<m]) (fst (u, u)) \<and> agg_is D (agg_terms H s ys [m..<m]) (snd (u, u))"
    using u by (simp add: agg_terms_def)
  fix k a
  assume k: "m \<le> k" "k < n" and "agg_is D (agg_terms H s gs [m..<k]) (fst a) \<and> agg_is D (agg_terms H s ys [m..<k]) (snd a)"
  then show "holds t (\<lambda>a. agg_is D (agg_terms H s gs [m..<Suc k]) (fst a) \<and> agg_is D (agg_terms H s ys [m..<Suc k]) (snd a))
      (agg_pair_step G H red D L s gs ys k a)"
    using pair_step_holds [OF D G red t, where js = "[m..<k]" and i = k] i by simp
qed

lemma single_fold_holds:
  assumes D: "good_disc D" and G: "gcdext_ok G" and red: "reducer_sound red" and t: "t \<Longrightarrow> reducer_total red"
    and u: "agg_is D [] u" and i: "\<And>i. i < n \<Longrightarrow> i < length gs \<and> posdef D (gs ! i)"
  shows "holds t (agg_is D (agg_terms H s gs [0..<n])) (fold_res (agg_step G H red D L s gs) [0..<n] u)"
proof (rule holds_fold [where P = "\<lambda>k. agg_is D (agg_terms H s gs [0..<k])"])
  show "agg_is D (agg_terms H s gs [0..<0]) u" using u by (simp add: agg_terms_def)
  fix k a
  assume "k < n" "agg_is D (agg_terms H s gs [0..<k]) a"
  then have "holds t (agg_is D (agg_terms H s gs [0..<k] @ agg_terms H s gs [k])) (agg_step G H red D L s gs k a)"
    using i by (intro agg_step_holds [OF D G red t]) auto
  then show "holds t (agg_is D (agg_terms H s gs [0..<Suc k])) (agg_step G H red D L s gs k a)"
    by (simp add: agg_terms_def)
qed

lemma combine_holds:
  assumes D: "good_disc D" and G: "gcdext_ok G" and u: "agg_is D [] u"
    and parts: "list_all2 (\<lambda>tt p. agg_is D (agg_terms H s gs (R tt)) (fst p) \<and> agg_is D (agg_terms H s ys (R tt)) (snd p)) tts parts"
  shows "holds t (\<lambda>a. agg_is D (agg_terms H s gs (concat (map R tts))) (fst a) \<and>
      agg_is D (agg_terms H s ys (concat (map R tts))) (snd a)) (fold_res (combine_step G) parts (u, u))"
proof -
  let ?Q = "\<lambda>k a. agg_is D (agg_terms H s gs (concat (map R (take k tts)))) (fst a) \<and>
      agg_is D (agg_terms H s ys (concat (map R (take k tts)))) (snd a)"
  have l: "length parts = length tts" using parts by (simp add: list_all2_lengthD)
  have "holds t (?Q (length parts)) (fold_res (combine_step G) parts (u, u))"
  proof (rule holds_fold_nth)
    show "?Q 0 (u, u)" using u by (simp add: agg_terms_def)
    fix k a
    assume k: "k < length parts" and a: "?Q k a"
    let ?g = "fst (parts ! k)" and ?y = "snd (parts ! k)"
    have p: "agg_is D (agg_terms H s gs (R (tts ! k))) ?g" "agg_is D (agg_terms H s ys (R (tts ! k))) ?y"
      using parts k l by (simp_all add: list_all2_conv_all_nth)
    have app: "agg_terms H s xs (concat (map R (take (Suc k) tts))) =
        agg_terms H s xs (concat (map R (take k tts))) @ agg_terms H s xs (R (tts ! k))" for xs
      using k l by (simp add: take_Suc_conv_app_nth agg_terms_def)
    show "holds t (?Q (Suc k)) (combine_step G (parts ! k) a)"
      unfolding combine_step_def case_prod_beta
    proof (rule holds_bind)
      show "holds t (agg_is D (agg_terms H s gs (concat (map R (take (Suc k) tts))))) (lift_opt (form_times G False (fst a) ?g))"
        unfolding app using a p by (intro times_agg [OF D G]) (auto simp: agg_is_def)
      fix x assume x: "agg_is D (agg_terms H s gs (concat (map R (take (Suc k) tts)))) x"
      have "holds t (agg_is D (agg_terms H s ys (concat (map R (take (Suc k) tts))))) (lift_opt (form_times G False (snd a) ?y))"
        unfolding app using a p by (intro times_agg [OF D G]) (auto simp: agg_is_def)
      then show "holds t (?Q (Suc k)) (bind_res (lift_opt (form_times G False (snd a) ?y)) (\<lambda>y. ret (x, y)))"
        by (rule holds_bind) (use x in simp)
    qed
  qed
  then show ?thesis by (simp add: l)
qed


lemma products_holds:
  assumes D: "good_disc D" and G: "gcdext_ok G" and red: "reducer_sound red" and t: "t \<Longrightarrow> reducer_total red"
    and u: "agg_is D [] u" and T: "0 < T"
    and i: "\<And>i. i < n \<Longrightarrow> i < length gs \<and> posdef D (gs ! i) \<and> i < length ys \<and> posdef D (ys ! i)"
  shows "holds t (\<lambda>a. agg_is D (agg_terms H s gs [0..<n]) (fst a) \<and> agg_is D (agg_terms H s ys [0..<n]) (snd a))
    (bind_res (map_res (\<lambda>tt. in_thread (fold_res (agg_pair_step G H red D L s gs ys) (thread_range n T tt) (u, u))) [0..<T])
      (\<lambda>parts. fold_res (combine_step G) parts (u, u)))"
proof (rule holds_bind)
  let ?Q = "\<lambda>tt p. agg_is D (agg_terms H s gs (thread_range n T tt)) (fst p) \<and>
      agg_is D (agg_terms H s ys (thread_range n T tt)) (snd p)"
  show "holds t (list_all2 ?Q [0..<T])
      (map_res (\<lambda>tt. in_thread (fold_res (agg_pair_step G H red D L s gs ys) (thread_range n T tt) (u, u))) [0..<T])"
  proof (rule holds_map_res, rule holds_in_thread)
    fix tt assume "tt \<in> set [0..<T]"
    then have tt: "tt < T" by simp
    show "holds t (?Q tt) (fold_res (agg_pair_step G H red D L s gs ys) (thread_range n T tt) (u, u))"
      unfolding thread_range_def
      using thread_bounds [OF tt, of n] i by (intro pair_fold_holds [OF D G red t u]) (auto dest: less_le_trans)
  qed
  fix parts assume "list_all2 ?Q [0..<T] parts"
  from combine_holds [OF D G u this]
  show "holds t (\<lambda>a. agg_is D (agg_terms H s gs [0..<n]) (fst a) \<and> agg_is D (agg_terms H s ys [0..<n]) (snd a))
      (fold_res (combine_step G) parts (u, u))"
    by (simp only: thread_ranges [OF T])
qed

lemma check_holds:
  assumes D: "good_disc D" and G: "gcdext_ok G" and red: "reducer_sound red" and t: "t \<Longrightarrow> reducer_total red"
    and X: "agg_is D ps X" and Y: "agg_is D qs Y" and pf: "posdef D pf" and B: "0 < B" and L: "root4 (- D) = Some L"
  shows "holds t (\<lambda>b. b \<longleftrightarrow> weso_equation D X Y pf B n)
    (bind_res (fast_pow 2 n B) (\<lambda>r. bind_res (fast_pow_form G red pf D B L) (\<lambda>f1.
      bind_res (fast_pow_form G red X D r L) (\<lambda>f2. bind_res (lift_opt (form_times G False f1 f2)) (\<lambda>f. ret (f = Y))))))"
proof -
  have D0: "D < 0" using D by simp
  have x: "posdef D X" and y: "posdef D Y" "is_reduced Y" using X Y by (simp_all add: agg_is_def)
  have e: "fast_pow 2 n B = ret (2 ^ n mod B)" using B by (simp add: fast_pow_def)
  let ?Q = "\<lambda>f. posdef D f \<and> is_reduced f \<and> weso_equation D X f pf B n"
  have "holds t ?Q (weso_product G red D X pf B n)"
  proof (rule holds_partialI)
    show "?Q f" if "weso_product G red D X pf B n = ret f" for f
      using reducer_sound.weso_product_sound [OF red D G x pf _ that] B by simp
    show "\<exists>f. weso_product G red D X pf B n = ret f" if t
      using reducer_total.weso_product_returns [OF t D G x pf B] that by blast
    fix err assume "weso_product G red D X pf B n = Some (Inl err)"
    then consider "fast_pow_form G red pf D B L = Some (Inl err)"
      | "fast_pow_form G red X D (2 ^ n mod B) L = Some (Inl err)"
      using L e by (auto simp: weso_product_def bind_res_def lift_opt_def ret_def split: option.splits sum.splits)
    then show "err = Stopped" using fast_pow_no_error [OF D pf] by cases blast+
  qed
  then have "holds t (\<lambda>b. b \<longleftrightarrow> weso_equation D X Y pf B n) (bind_res (weso_product G red D X pf B n) (\<lambda>f. ret (f = Y)))"
  proof (rule holds_bind)
    fix f assume f: "?Q f"
    have "weso_equation D X Y pf B n \<longleftrightarrow> f = Y"
      using f y reduced_unique [OF D0 _ _ y] weso_equation_unique by blast
    then show "holds t (\<lambda>b. b \<longleftrightarrow> weso_equation D X Y pf B n) (ret (f = Y))" by simp
  qed
  then show ?thesis by (simp only: weso_product_def L lift_opt_simps bind_res_simps e bind_res_assoc)
qed


lemma hash_search_skip_shape:
  assumes "hash_search_skip H P len msk k n s = Some p"
  shows "\<exists>q. 0 \<le> q \<and> p = apply_mask q msk"
proof -
  let ?Q = "\<lambda>((((((H, P), len), msk), k), n), s) p. \<exists>q. 0 \<le> q \<and> p = apply_mask q msk"
  have "?Q ((((((H, P), len), msk), k), n), s) p"
  proof (rule hash_search_skip.raw_induct [where Pa = ?Q, OF _ assms(1)], unfold split)
    fix loop H P len msk k n s and p :: int
    assume IH: "\<And>H P len msk k n s p. loop H P len msk k n s = Some p \<Longrightarrow> \<exists>q. 0 \<le> q \<and> p = apply_mask q msk"
      and eq: "Option.bind (hash_fill H len [] s) (\<lambda>(blob, s').
       if length blob * 8 \<noteq> len then None
       else if past_int (Suc n) then None
       else if int (Suc n) < k then loop H P len msk k (Suc n) s'
       else if P (apply_mask (integer_of_bytes blob) msk) then Some (apply_mask (integer_of_bytes blob) msk)
       else loop H P len msk k (Suc n) s') = Some p"
    obtain blob s' where "loop H P len msk k (Suc n) s' = Some p \<or> p = apply_mask (integer_of_bytes blob) msk"
      using eq by (auto simp: ret_iff split: if_splits)
    then show "\<exists>q. 0 \<le> q \<and> p = apply_mask q msk"
      using IH by (metis integer_of_bytes_def of_nat_0_le_iff)
  qed
  then show ?thesis by simp
qed

lemma HashPrimeFast_lower:
  assumes "HashPrimeFast H P s 264 [263] k = Some B"
  shows "2 ^ 263 \<le> B"
proof -
  obtain q where "0 \<le> q" "B = apply_mask q [263]"
    using assms hash_search_skip_shape by (fastforce simp: HashPrimeFast_def)
  then show ?thesis by (intro top_bit_lower) (simp_all add: get_bit_mask apply_mask_nonneg)
qed

lemma terms_in_place:
  assumes "list_all2 (in_place D) gs gs'" and "set idx \<subseteq> {..<length gs}" and "class_multi D (agg_terms H s gs' idx) X"
  shows "class_multi D (agg_terms H s gs idx) X"
proof (rule class_multi_cong [OF _ assms(3)])
  show "list_all2 (\<lambda>p q. same_class D (fst p) (fst q) \<and> snd p = snd q) (agg_terms H s gs idx) (agg_terms H s gs' idx)"
    using assms(1,2) by (force simp: agg_terms_def list_all2_conv_all_nth in_place_def subset_eq)
qed

text \<open>What \<open>VerifyAggProof\<close> does after the transcript is known.\<close>

lemma verify_agg_holds:
  assumes D: "good_disc D" and G: "gcdext_ok G" and red: "reducer_sound red" and t: "t \<Longrightarrow> reducer_total red"
    and T: "0 < nthreads" and tb: "t \<Longrightarrow> (nthreads - 1) * length cs < 2 ^ 31"
    and pf: "posdef D pf" and ys: "\<forall>y\<in>set ys. posdef D y"
    and gs: "map_res (base_at H P D cs as) [0..<length cs] = ret gs"
    and seed: "agg_seed (num_bits D) gs ys = Some (s, gs', ys')"
    and B: "HashPrimeFast H P s 264 [263] bi = Some B"
  shows "holds t (\<lambda>b. \<exists>X Y. posdef D X \<and> posdef D Y \<and> class_multi D (agg_terms H s gs [0..<length cs]) X \<and>
      class_multi D (agg_terms H s ys [0..<length cs]) Y \<and> (b \<longleftrightarrow> weso_equation D X Y pf B n))
    (VerifyAggProof G H P red D cs ys pf n nthreads as bi)" (is "holds t ?Q _")
proof -
  have D0: "D < 0" using D by simp
  have L: "root4 (- D) = Some (iroot4 (- D))" using D0 by (simp add: root4_def)
  have B0: "0 < B" using HashPrimeFast_lower [OF B] by simp
  obtain u where u: "identity D = ret u" "agg_is D [] u" using unit_agg [OF D pf] by blast
  have lg: "length gs = length cs" and pg: "\<forall>g\<in>set gs. posdef D g"
    using gs base_at_posdef [OF _ D0, of H P cs as] by (force simp: map_res_ret list_all2_conv_all_nth in_set_conv_nth)+
  note ip = agg_seed_in_place [OF D0 seed pg ys]
  have ly: "length cs \<le> length ys" "length gs' = length cs" "length ys' = length cs"
    using ip list_all2_lengthD lg agg_seed_len [OF seed] by fastforce+
  have i: "i < length gs' \<and> posdef D (gs' ! i) \<and> i < length ys' \<and> posdef D (ys' ! i)" if "i < length cs" for i
    using ip that lg ly by (auto simp: list_all2_conv_all_nth in_place_def)
  let ?n = "length cs"
  have "holds t (\<lambda>a. agg_is D (agg_terms H s gs' [0..<?n]) (fst a) \<and> agg_is D (agg_terms H s ys' [0..<?n]) (snd a))
    (bind_res (map_res (\<lambda>tt. in_thread (fold_res (agg_pair_step G H red D (iroot4 (- D)) s gs' ys') (thread_range ?n nthreads tt) (u, u)))
      [0..<nthreads]) (\<lambda>parts. fold_res (combine_step G) parts (u, u)))"
    by (rule products_holds [OF D G red t u(2) T i])
  then have "holds t ?Q (bind_res (bind_res (map_res (\<lambda>tt. in_thread (fold_res (agg_pair_step G H red D (iroot4 (- D)) s gs' ys') (thread_range ?n nthreads tt) (u, u)))
      [0..<nthreads]) (\<lambda>parts. fold_res (combine_step G) parts (u, u))) (\<lambda>(X, Y).
      bind_res (fast_pow 2 n B) (\<lambda>r. bind_res (fast_pow_form G red pf D B (iroot4 (- D))) (\<lambda>f1.
      bind_res (fast_pow_form G red X D r (iroot4 (- D))) (\<lambda>f2. bind_res (lift_opt (form_times G False f1 f2)) (\<lambda>f. ret (f = Y)))))))"
  proof (rule holds_bind, unfold case_prod_beta)
    fix a assume a: "agg_is D (agg_terms H s gs' [0..<?n]) (fst a) \<and> agg_is D (agg_terms H s ys' [0..<?n]) (snd a)"
    have idx: "set [0..<?n] \<subseteq> {..<length gs}" "set [0..<?n] \<subseteq> {..<length (take (length gs) ys)}"
      using lg ly(1) by auto
    have m: "class_multi D (agg_terms H s gs' [0..<?n]) (fst a)" "class_multi D (agg_terms H s ys' [0..<?n]) (snd a)"
      using a by (simp_all only: agg_is_def)
    have "class_multi D (agg_terms H s gs [0..<?n]) (fst a)"
      by (rule terms_in_place [OF conjunct1 [OF ip] idx(1) m(1)])
    moreover have "class_multi D (agg_terms H s (take (length gs) ys) [0..<?n]) (snd a)"
      by (rule terms_in_place [OF conjunct2 [OF ip] idx(2) m(2)])
    moreover have "agg_terms H s (take (length gs) ys) [0..<?n] = agg_terms H s ys [0..<?n]"
      using lg by (simp add: agg_terms_def)
    ultimately have c: "class_multi D (agg_terms H s gs [0..<?n]) (fst a)" "class_multi D (agg_terms H s ys [0..<?n]) (snd a)"
      by simp_all
    have pa: "agg_is D (agg_terms H s gs' [0..<?n]) (fst a)" "agg_is D (agg_terms H s ys' [0..<?n]) (snd a)"
      using a by simp_all
    show "holds t ?Q (bind_res (fast_pow 2 n B) (\<lambda>r. bind_res (fast_pow_form G red pf D B (iroot4 (- D))) (\<lambda>f1.
      bind_res (fast_pow_form G red (fst a) D r (iroot4 (- D))) (\<lambda>f2. bind_res (lift_opt (form_times G False f1 f2)) (\<lambda>f. ret (f = snd a))))))"
    proof (rule holds_mono [OF check_holds [OF D G red t pa pf B0 L]])
      fix b assume "b \<longleftrightarrow> weso_equation D (fst a) (snd a) pf B n"
      then show "?Q b" using c pa unfolding agg_is_def by blast
    qed
  qed
  note tail = this
  show ?thesis
  proof (cases "(nthreads - 1) * length cs \<ge> 2 ^ 31")
    case True
    then have "\<not> t" using tb by auto
    then show ?thesis using True by (simp add: VerifyAggProof_def Let_def L)
  next
    case False
    then show ?thesis
      using tail unfolding VerifyAggProof_def Let_def L seed B u(1) lift_opt_simps bind_res_simps
        thread_bases [THEN iffD2, OF T gs] case_prod_conv bind_res_assoc if_False by simp
  qed
qed


lemma verify_agg_iff:
  assumes D: "good_disc D" and G: "gcdext_ok G" and red: "reducer_sound red" and T: "0 < nthreads"
    and pf: "posdef D pf" and ys: "\<forall>y\<in>set ys. posdef D y"
    and r: "VerifyAggProof G H P red D cs ys pf n nthreads as bi = ret b"
  shows "\<exists>gs s B X Y. map_res (base_at H P D cs as) [0..<length cs] = ret gs \<and>
      (\<exists>gs' ys'. agg_seed (num_bits D) gs ys = Some (s, gs', ys')) \<and> HashPrimeFast H P s 264 [263] bi = Some B \<and>
      class_multi D (agg_terms H s gs [0..<length cs]) X \<and> class_multi D (agg_terms H s ys [0..<length cs]) Y \<and>
      (b \<longleftrightarrow> weso_equation D X Y pf B n)"
proof -
  let ?z = "replicate (length cs) (mk_form 0 0 0)"
  obtain gs s gs' ys' B where g: "fold_res (\<lambda>tt gs. in_thread (fold_res (write_base H P D cs as)
      (thread_range (length cs) nthreads tt) gs)) [0..<nthreads] ?z = ret gs"
    and seed: "agg_seed (num_bits D) gs ys = Some (s, gs', ys')" and B: "HashPrimeFast H P s 264 [263] bi = Some B"
    using r unfolding VerifyAggProof_def Let_def
    by (auto simp only: bind_res_ret_iff lift_opt_ret_iff case_prod_conv none_not_ret ret_inject simp_thms split: if_splits) blast+
  have gs: "map_res (base_at H P D cs as) [0..<length cs] = ret gs" using g thread_bases [OF T] by blast
  have "\<exists>X Y. posdef D X \<and> posdef D Y \<and> class_multi D (agg_terms H s gs [0..<length cs]) X \<and>
      class_multi D (agg_terms H s ys [0..<length cs]) Y \<and> (b \<longleftrightarrow> weso_equation D X Y pf B n)"
    by (rule holdsD [OF verify_agg_holds [OF D G red _ T _ pf ys gs seed B, of False] r]) simp_all
  then show ?thesis using gs seed B by blast
qed

lemma class_pow_exists:
  assumes "good_disc D" and "gcdext_ok G" and f: "posdef D f"
  shows "\<exists>p. posdef D p \<and> class_pow D f n p"
proof (induction n)
  case 0
  then show ?case using identity_ok [OF assms(1,3)] by blast
next
  case (Suc n)
  then obtain p where p: "posdef D p" "class_pow D f n p" by blast
  obtain r where "posdef D r" "class_mul D f p r" using qfb_nucomp_ok [OF assms(1,2) f p(1)] by blast
  then show ?case using class_pow_Suc [OF p(2)] by blast
qed

lemma honest_weso:
  assumes D: "good_disc D" and G: "gcdext_ok G" and x: "posdef D x" and B: "0 < B"
    and pf: "posdef D pf" "class_pow D x (nat (2 ^ n div B)) pf" and y: "class_pow D x (2 ^ n) y"
  shows "weso_equation D x y pf B n"
proof -
  obtain p q where p: "posdef D p" "class_pow D pf (nat B) p" and q: "posdef D q" "class_pow D x (nat (2 ^ n mod B)) q"
    using class_pow_exists [OF D G pf(1)] class_pow_exists [OF D G x] by blast
  obtain r where r: "class_mul D p q r" using qfb_nucomp_ok [OF D G p(1) q(1)] by blast
  have "class_pow D x (2 ^ n) r" by (rule honest_weso_equation [OF D x B p q pf(2) r])
  then have "class_mul D p q y" using class_mul_same [OF r] class_pow_unique y by blast
  then show ?thesis using p q unfolding weso_equation_def by blast
qed

lemma terms_power:
  assumes "list_all2 (\<lambda>g y. class_pow D g n y) gs ys" and "set idx \<subseteq> {..<length gs}"
  shows "list_all2 (\<lambda>p q. class_pow D (fst p) n (fst q) \<and> snd p = snd q) (agg_terms H s gs idx) (agg_terms H s ys idx)"
  using assms by (force simp: agg_terms_def list_all2_conv_all_nth subset_eq)

text \<open>An aggregated proof of honest evaluations is accepted.\<close>

lemma agg_accepted:
  assumes D: "good_disc D" and G: "gcdext_ok G" and red: "reducer_sound red" "reducer_sound red'"
    and t: "t \<Longrightarrow> reducer_total red'" and T: "0 < nthreads" and tb: "t \<Longrightarrow> (nthreads - 1) * length cs < 2 ^ 31"
    and ys: "\<forall>y\<in>set ys. posdef D y" and gs: "map_res (base_at H P D cs as) [0..<length cs] = ret gs"
    and honest: "list_all2 (\<lambda>g y. class_pow D g (2 ^ n) y) gs ys"
    and r: "AggreateVdfProofs G H P red D cs ys n as = ret (pf, bi)"
  shows "holds t (\<lambda>b. b) (VerifyAggProof G H P red' D cs ys pf n nthreads as (int bi))"
proof -
  have D0: "D < 0" using D by simp
  let ?n = "length cs" and ?L = "iroot4 (- D)"
  obtain s gs' ys' B u X where seed: "agg_seed (num_bits D) gs ys = Some (s, gs', ys')"
    and hp: "HashPrimeWithIteration H P s 264 [263] = Some (B, bi)" and u: "identity D = ret u"
    and X: "fold_res (agg_step G H red D ?L s gs') [0..<?n] u = ret X"
    and pf: "PowFormWithQuotient G red X D n B ?L = ret pf"
    using r gs D0 by (auto simp: AggreateVdfProofs_def Let_def ret_iff root4_def)
  have B: "HashPrimeFast H P s 264 [263] (int bi) = Some B" using HashPrimeWithIteration_result [OF hp] by blast
  have B1: "1 < B" using HashPrimeFast_lower [OF B] by simp
  have lg: "length gs = ?n" and pg: "\<forall>g\<in>set gs. posdef D g"
    using gs base_at_posdef [OF _ D0, of H P cs as] by (force simp: map_res_ret list_all2_conv_all_nth in_set_conv_nth)+
  note ip = agg_seed_in_place [OF D0 seed pg ys]
  have pu: "posdef D u" using from_abd_posdef u D0 by (auto simp: identity_def)
  have unit: "agg_is D [] u" using unit_agg [OF D pu] u by (metis ret_inject)
  have i: "i < length gs' \<and> posdef D (gs' ! i)" if "i < ?n" for i
    using conjunct1 [OF ip] that lg by (auto simp: list_all2_conv_all_nth in_place_def)
  have Xa: "agg_is D (agg_terms H s gs' [0..<?n]) X"
    by (rule holdsD [OF single_fold_holds [OF D G red(1) _ unit i, of False] X]) simp_all
  then have pX: "posdef D X" by (simp add: agg_is_def)
  have cX: "class_multi D (agg_terms H s gs [0..<?n]) X"
    using Xa lg by (intro terms_in_place [OF conjunct1 [OF ip]]) (auto simp: agg_is_def)
  have "n < 2 ^ 31" using pf u by (auto simp: PowFormWithQuotient_def split: if_splits)
  then have ppf: "posdef D pf" "class_pow D X (nat (2 ^ n div B)) pf"
    using holdsD [OF PowFormWithQuotient_holds [OF D G pX red(1) _ B1, of False] pf] by (simp_all add: pw_def)
  show ?thesis
  proof (rule holds_mono [OF verify_agg_holds [OF D G red(2) t T tb ppf(1) ys gs seed B]])
    fix b assume "\<exists>X Y. posdef D X \<and> posdef D Y \<and> class_multi D (agg_terms H s gs [0..<?n]) X \<and>
      class_multi D (agg_terms H s ys [0..<?n]) Y \<and> (b \<longleftrightarrow> weso_equation D X Y pf B n)"
    then obtain X' Y where x: "posdef D X'" "class_multi D (agg_terms H s gs [0..<?n]) X'"
      and y: "class_multi D (agg_terms H s ys [0..<?n]) Y" and b: "b \<longleftrightarrow> weso_equation D X' Y pf B n" by blast
    have "class_pow D X' (2 ^ n) Y"
      using terms_power [OF honest, of "[0..<?n]"] lg
      by (intro class_multi_power [OF D pX _ x(2) y]) (simp add: atLeast0LessThan)
    moreover have "class_pow D X' (nat (2 ^ n div B)) pf"
      using class_multi_unique [OF cX x(2)] ppf(2) by (rule class_pow_base)
    ultimately show b using honest_weso [OF D G x(1) _ ppf(1)] B1 b by simp
  qed auto
qed


subsection \<open>Evaluation, aggregation and verification together\<close>

lemma eval_power:
  assumes D: "good_disc D" "D mod 4 = 1" and G: "gcdext_ok G" and red: "reducer_sound red"
    and r: "EvalAggVdf G H P red D c n = ret (y, k)"
  shows "\<exists>g. H_GFast H P c D (int k) = ret g \<and> posdef D g \<and> pw D g (2 ^ n) y"
proof -
  have D0: "D < 0" using D by simp
  let ?L = "iroot4 (- D)"
  obtain g where "H_G H P c D = ret (g, k)" and f: "fold_res (eval_step G red D ?L) [0..<n] g = ret y"
    using r D0 by (auto simp: EvalAggVdf_def ret_iff root4_def split: if_splits prod.splits)
  then have hg: "H_G H P c D = Some (Inr (g, k))" by (simp add: ret_def)
  have g: "posdef D g" "H_GFast H P c D (int k) = ret g" using H_G_result [OF hg D0 D(2)] by auto
  have "holds False (pw D g (2 ^ n)) (fold_res (eval_step G red D ?L) [0..<n] g)"
  proof (rule holds_fold [where P = "\<lambda>i. pw D g (2 ^ i)"])
    show "pw D g (2 ^ 0) g" using g(1) class_pow_1 [OF D(1) g(1)] by (simp add: pw_def)
    fix i x assume x: "pw D g (2 ^ i) x"
    have d: "2 ^ i + 2 ^ i = (2 :: nat) ^ Suc i" by simp
    have "holds False (pw D g (2 ^ Suc i)) (bind_res (lift_opt (nudupl_form G x D ?L)) (\<lambda>y. lift_opt (red y)))"
      by (rule holds_bind [OF nudupl_power [OF D(1) G g(1) x, unfolded d]])
        (rule holds_mono [OF finish_proof [OF D(1) red]], auto)
    then show "holds False (pw D g (2 ^ Suc i)) (eval_step G red D ?L i x)" by (simp only: eval_step_def)
  qed
  then have "pw D g (2 ^ n) y" using f by simp
  then show ?thesis using g by blast
qed

lemma evaluations_honest:
  assumes D: "good_disc D" "D mod 4 = 1" and G: "gcdext_ok G" and red: "reducer_sound red"
    and ev: "map_res (\<lambda>c. EvalAggVdf G H P red D c n) cs = ret evs"
  defines "ys \<equiv> map fst evs" and "as \<equiv> map (\<lambda>e. int (snd e)) evs"
  shows "\<exists>gs. map_res (base_at H P D cs as) [0..<length cs] = ret gs \<and> list_all2 (\<lambda>g y. class_pow D g (2 ^ n) y) gs ys
    \<and> (\<forall>y\<in>set ys. posdef D y)"
proof -
  have l: "length evs = length cs" and e: "\<And>i. i < length cs \<Longrightarrow> EvalAggVdf G H P red D (cs ! i) n = ret (evs ! i)"
    using ev by (auto simp: map_res_ret list_all2_conv_all_nth)
  have "\<exists>g. H_GFast H P (cs ! i) D (as ! i) = ret g \<and> pw D g (2 ^ n) (ys ! i)" if "i < length cs" for i
    using eval_power [OF D G red, of H P "cs ! i" n "fst (evs ! i)" "snd (evs ! i)"] e [OF that] that l
    by (auto simp: ys_def as_def)
  then obtain g where g: "\<And>i. i < length cs \<Longrightarrow> H_GFast H P (cs ! i) D (as ! i) = ret (g i) \<and> pw D (g i) (2 ^ n) (ys ! i)"
    by metis
  have len: "length as = length cs" "length ys = length cs" using l by (simp_all add: as_def ys_def)
  have "map_res (base_at H P D cs as) [0..<length cs] = ret (map g [0..<length cs])"
    using g len by (auto simp: map_res_ret list_all2_conv_all_nth base_at_def vec_at_def)
  moreover have "list_all2 (\<lambda>g y. class_pow D g (2 ^ n) y) (map g [0..<length cs]) ys"
    using g len by (auto simp: list_all2_conv_all_nth pw_def)
  moreover have "\<forall>y\<in>set ys. posdef D y" using g len by (auto simp: in_set_conv_nth pw_def)
  ultimately show ?thesis by blast
qed

lemma agg_end_to_end_holds:
  assumes D: "good_disc D" "D mod 4 = 1" and G: "gcdext_ok G" and red: "reducer_sound red" "reducer_sound red'"
    and t: "t \<Longrightarrow> reducer_total red'" and T: "0 < nthreads" and tb: "t \<Longrightarrow> (nthreads - 1) * length cs < 2 ^ 31"
    and ev: "map_res (\<lambda>c. EvalAggVdf G H P red D c n) cs = ret evs"
    and agg: "AggreateVdfProofs G H P red D cs (map fst evs) n (map (\<lambda>e. int (snd e)) evs) = ret (pf, bi)"
  shows "holds t (\<lambda>b. b) (VerifyAggProof G H P red' D cs (map fst evs) pf n nthreads (map (\<lambda>e. int (snd e)) evs) (int bi))"
proof -
  obtain gs where "map_res (base_at H P D cs (map (\<lambda>e. int (snd e)) evs)) [0..<length cs] = ret gs"
    "list_all2 (\<lambda>g y. class_pow D g (2 ^ n) y) gs (map fst evs)" "\<forall>y\<in>set (map fst evs). posdef D y"
    using evaluations_honest [OF D G red(1) ev] by blast
  then show ?thesis by (intro agg_accepted [OF D(1) G red t T tb _ _ _ agg])
qed

end
