(* ===== verification/Sha256.thy ===== *)
theory Sha256
  imports Bytes
begin

section \<open>SHA-256: \<open>picosha2.h\<close>\<close>

text \<open>
  The hash of the challenge.  \<open>word_t\<close> is a 64-bit word in which the code keeps 32-bit
  values, masking where a result may grow; the first part is that code, the second the
  32-bit algorithm of FIPS 180-4, and the third shows that they compute the same digest and
  that a message may be given in any number of pieces.
\<close>

unbundle bit_operations_syntax

subsection \<open>The code\<close>

type_synonym word_t = "64 word"

definition mask_32bit :: "word_t \<Rightarrow> word_t" where
  "mask_32bit x = x AND 0xffffffff"

definition add_constant :: "word_t list" where
  "add_constant = [
    0x428a2f98, 0x71374491, 0xb5c0fbcf, 0xe9b5dba5, 0x3956c25b, 0x59f111f1,
    0x923f82a4, 0xab1c5ed5, 0xd807aa98, 0x12835b01, 0x243185be, 0x550c7dc3,
    0x72be5d74, 0x80deb1fe, 0x9bdc06a7, 0xc19bf174, 0xe49b69c1, 0xefbe4786,
    0x0fc19dc6, 0x240ca1cc, 0x2de92c6f, 0x4a7484aa, 0x5cb0a9dc, 0x76f988da,
    0x983e5152, 0xa831c66d, 0xb00327c8, 0xbf597fc7, 0xc6e00bf3, 0xd5a79147,
    0x06ca6351, 0x14292967, 0x27b70a85, 0x2e1b2138, 0x4d2c6dfc, 0x53380d13,
    0x650a7354, 0x766a0abb, 0x81c2c92e, 0x92722c85, 0xa2bfe8a1, 0xa81a664b,
    0xc24b8b70, 0xc76c51a3, 0xd192e819, 0xd6990624, 0xf40e3585, 0x106aa070,
    0x19a4c116, 0x1e376c08, 0x2748774c, 0x34b0bcb5, 0x391c0cb3, 0x4ed8aa4a,
    0x5b9cca4f, 0x682e6ff3, 0x748f82ee, 0x78a5636f, 0x84c87814, 0x8cc70208,
    0x90befffa, 0xa4506ceb, 0xbef9a3f7, 0xc67178f2]"

definition initial_message_digest :: "word_t list" where
  "initial_message_digest = [0x6a09e667, 0xbb67ae85, 0x3c6ef372, 0xa54ff53a,
     0x510e527f, 0x9b05688c, 0x1f83d9ab, 0x5be0cd19]"

definition ch :: "word_t \<Rightarrow> word_t \<Rightarrow> word_t \<Rightarrow> word_t" where
  "ch x y z = (x AND y) XOR (NOT x AND z)"

definition maj :: "word_t \<Rightarrow> word_t \<Rightarrow> word_t \<Rightarrow> word_t" where
  "maj x y z = (x AND y) XOR (x AND z) XOR (y AND z)"

definition rotr :: "word_t \<Rightarrow> nat \<Rightarrow> word_t" where
  "rotr x n = mask_32bit (drop_bit n x OR push_bit (32 - n) x)"

definition bsig0 :: "word_t \<Rightarrow> word_t" where
  "bsig0 x = rotr x 2 XOR rotr x 13 XOR rotr x 22"

definition bsig1 :: "word_t \<Rightarrow> word_t" where
  "bsig1 x = rotr x 6 XOR rotr x 11 XOR rotr x 25"

definition shr :: "word_t \<Rightarrow> nat \<Rightarrow> word_t" where
  "shr x n = drop_bit n x"

definition ssig0 :: "word_t \<Rightarrow> word_t" where
  "ssig0 x = rotr x 7 XOR rotr x 18 XOR shr x 3"

definition ssig1 :: "word_t \<Rightarrow> word_t" where
  "ssig1 x = rotr x 17 XOR rotr x 19 XOR shr x 10"

text \<open>The message schedule: 16 words read from the block, then the recurrence.\<close>

definition read_word :: "byte list \<Rightarrow> nat \<Rightarrow> word_t" where
  "read_word blk i =
     push_bit 24 (ucast (blk ! (i * 4))) OR push_bit 16 (ucast (blk ! (i * 4 + 1))) OR
     push_bit 8 (ucast (blk ! (i * 4 + 2))) OR ucast (blk ! (i * 4 + 3))"

definition extend_step :: "word_t list \<Rightarrow> nat \<Rightarrow> word_t list" where
  "extend_step w i = w @ [mask_32bit (ssig1 (w ! (i - 2)) + w ! (i - 7) + ssig0 (w ! (i - 15)) + w ! (i - 16))]"

definition schedule :: "byte list \<Rightarrow> word_t list" where
  "schedule blk = foldl extend_step (map (read_word blk) [0..<16]) [16..<64]"

record sha_vars =
  va :: word_t
  vb :: word_t
  vc :: word_t
  vd :: word_t
  ve :: word_t
  vf :: word_t
  vg :: word_t
  vh :: word_t

definition round_step :: "word_t list \<Rightarrow> sha_vars \<Rightarrow> nat \<Rightarrow> sha_vars" where
  "round_step w s i =
     (let temp1 = vh s + bsig1 (ve s) + ch (ve s) (vf s) (vg s) + add_constant ! i + w ! i;
          temp2 = bsig0 (va s) + maj (va s) (vb s) (vc s)
      in \<lparr>va = mask_32bit (temp1 + temp2), vb = va s, vc = vb s, vd = vc s,
          ve = mask_32bit (vd s + temp1), vf = ve s, vg = vf s, vh = vg s\<rparr>)"

definition hash256_block :: "word_t list \<Rightarrow> byte list \<Rightarrow> word_t list" where
  "hash256_block md blk =
     (let w = schedule blk;
          s = foldl (round_step w)
                \<lparr>va = md ! 0, vb = md ! 1, vc = md ! 2, vd = md ! 3, ve = md ! 4, vf = md ! 5, vg = md ! 6, vh = md ! 7\<rparr>
                [0..<64]
      in map mask_32bit (map2 (+) md [va s, vb s, vc s, vd s, ve s, vf s, vg s, vh s]))"

text \<open>The hasher object: the unprocessed bytes, the length in four digits of 16 bits, and the
  digest so far.\<close>

record hasher =
  buffer :: "byte list"
  data_length_digits :: "word_t list"
  hs :: "word_t list"

definition hash_init :: hasher where
  "hash_init = \<lparr>buffer = [], data_length_digits = [0, 0, 0, 0], hs = initial_message_digest\<rparr>"

fun add_carry :: "word_t \<Rightarrow> word_t list \<Rightarrow> word_t list" where
  "add_carry carry [] = []"
| "add_carry carry (d # ds) =
     (let d' = d + carry in
      if d' \<ge> 65536 then (d' AND 65535) # add_carry (drop_bit 16 d') ds else d' # ds)"

definition add_to_data_length :: "word_t \<Rightarrow> word_t list \<Rightarrow> word_t list" where
  "add_to_data_length n ds = add_carry 0 (ds[0 := ds ! 0 + n])"

function process_blocks :: "word_t list \<Rightarrow> byte list \<Rightarrow> word_t list \<times> byte list" where
  "process_blocks h buf =
     (if 64 \<le> length buf then process_blocks (hash256_block h (take 64 buf)) (drop 64 buf) else (h, buf))"
  by pat_completeness auto
termination
  by (relation "measure (\<lambda>(h, buf). length buf)") auto

declare process_blocks.simps [simp del]

definition process :: "hasher \<Rightarrow> byte list \<Rightarrow> hasher" where
  "process s msg =
     (case process_blocks (hs s) (buffer s @ msg) of (h, rest) \<Rightarrow>
        \<lparr>buffer = rest, data_length_digits = add_to_data_length (of_nat (length msg)) (data_length_digits s), hs = h\<rparr>)"

fun bit_length_digits :: "word_t \<Rightarrow> word_t list \<Rightarrow> word_t list" where
  "bit_length_digits carry [] = []"
| "bit_length_digits carry (d # ds) =
     ((push_bit 3 d OR carry) AND 65535) # bit_length_digits (drop_bit 13 d AND 65535) ds"

definition write_data_bit_length :: "word_t list \<Rightarrow> byte list" where
  "write_data_bit_length ds =
     concat (map (\<lambda>d. [ucast (drop_bit 8 d), ucast d]) (rev (bit_length_digits 0 ds)))"

text \<open>The last block or two.  \<open>temp\<close> is a 64-byte array; the length goes to its last 8
  bytes, over the zeros the fills leave there.\<close>

definition finish :: "hasher \<Rightarrow> hasher" where
  "finish s =
     (let remains = length (buffer s);
          temp = buffer s @ 0x80 # replicate (63 - remains) 0;
          len = write_data_bit_length (data_length_digits s)
      in if remains > 55
         then s\<lparr>hs := hash256_block (hash256_block (hs s) temp) (replicate 56 0 @ len)\<rparr>
         else s\<lparr>hs := hash256_block (hs s) (take 56 temp @ len)\<rparr>)"

definition get_hash_bytes :: "hasher \<Rightarrow> byte list" where
  "get_hash_bytes s =
     concat (map (\<lambda>w. [ucast (drop_bit 24 w), ucast (drop_bit 16 w), ucast (drop_bit 8 w), ucast w]) (hs s))"

definition hash256 :: "byte list \<Rightarrow> byte list" where
  "hash256 msg = get_hash_bytes (finish (process hash_init msg))"

text \<open>The overload for input iterators hashes a buffer at a time; \<open>None\<close> for a buffer of
  size zero, which never advances.\<close>

function chunks_loop :: "nat \<Rightarrow> byte list \<Rightarrow> hasher \<Rightarrow> hasher option" where
  "chunks_loop n msg s =
     (if msg = [] then Some s
      else if n = 0 then None
      else chunks_loop n (drop n msg) (process s (take n msg)))"
  by pat_completeness auto
termination
  by (relation "measure (\<lambda>(n, msg, s). length msg)") auto

declare chunks_loop.simps [simp del]

definition hash256_stream :: "nat \<Rightarrow> byte list \<Rightarrow> byte list option" where
  "hash256_stream n msg = map_option (\<lambda>s. get_hash_bytes (finish s)) (chunks_loop n msg hash_init)"

subsection \<open>The algorithm of FIPS 180-4, on 32-bit words\<close>

definition Ch32 :: "32 word \<Rightarrow> 32 word \<Rightarrow> 32 word \<Rightarrow> 32 word" where
  "Ch32 x y z = (x AND y) XOR (NOT x AND z)"

definition Maj32 :: "32 word \<Rightarrow> 32 word \<Rightarrow> 32 word \<Rightarrow> 32 word" where
  "Maj32 x y z = (x AND y) XOR (x AND z) XOR (y AND z)"

definition Sigma0 :: "32 word \<Rightarrow> 32 word" where
  "Sigma0 x = word_rotr 2 x XOR word_rotr 13 x XOR word_rotr 22 x"

definition Sigma1 :: "32 word \<Rightarrow> 32 word" where
  "Sigma1 x = word_rotr 6 x XOR word_rotr 11 x XOR word_rotr 25 x"

definition sigma0 :: "32 word \<Rightarrow> 32 word" where
  "sigma0 x = word_rotr 7 x XOR word_rotr 18 x XOR drop_bit 3 x"

definition sigma1 :: "32 word \<Rightarrow> 32 word" where
  "sigma1 x = word_rotr 17 x XOR word_rotr 19 x XOR drop_bit 10 x"

function fips_W :: "byte list \<Rightarrow> nat \<Rightarrow> 32 word" where
  "fips_W M t =
     (if t < 16 then of_nat (be_value (take 4 (drop (4 * t) M)))
      else sigma1 (fips_W M (t - 2)) + fips_W M (t - 7) + sigma0 (fips_W M (t - 15)) + fips_W M (t - 16))"
  by pat_completeness auto
termination
  by (relation "measure snd") auto

declare fips_W.simps [simp del]

definition K32 :: "32 word list" where
  "K32 = map ucast add_constant"

type_synonym vars32 = "32 word \<times> 32 word \<times> 32 word \<times> 32 word \<times> 32 word \<times> 32 word \<times> 32 word \<times> 32 word"

definition fips_round :: "byte list \<Rightarrow> vars32 \<Rightarrow> nat \<Rightarrow> vars32" where
  "fips_round M = (\<lambda>(a, b, c, d, e, f, g, h) t.
     let T1 = h + Sigma1 e + Ch32 e f g + K32 ! t + fips_W M t;
         T2 = Sigma0 a + Maj32 a b c
     in (T1 + T2, a, b, c, d + T1, e, f, g))"

definition fips_block :: "32 word list \<Rightarrow> byte list \<Rightarrow> 32 word list" where
  "fips_block H M =
     (case foldl (fips_round M) (H ! 0, H ! 1, H ! 2, H ! 3, H ! 4, H ! 5, H ! 6, H ! 7) [0..<64] of
        (a, b, c, d, e, f, g, h) \<Rightarrow> map2 (+) H [a, b, c, d, e, f, g, h])"

fun blocks :: "byte list \<Rightarrow> byte list list" where
  "blocks xs = (if length xs < 64 then [] else take 64 xs # blocks (drop 64 xs))"

declare blocks.simps [simp del]

text \<open>The padding: a one bit, as many zeros as needed, and the bit length in eight bytes.\<close>

definition be64 :: "nat \<Rightarrow> byte list" where
  "be64 n = map (\<lambda>i. of_nat (n div 256 ^ (7 - i))) [0..<8]"

definition fips_pad :: "byte list \<Rightarrow> byte list" where
  "fips_pad msg =
     msg @ 0x80 # replicate ((119 - length msg mod 64) mod 64) 0 @ be64 (8 * length msg)"

definition fips_sha256 :: "byte list \<Rightarrow> byte list" where
  "fips_sha256 msg =
     concat (map (\<lambda>w. [ucast (drop_bit 24 w), ucast (drop_bit 16 w), ucast (drop_bit 8 w), ucast w])
       (foldl fips_block (map ucast initial_message_digest) (blocks (fips_pad msg))))"

subsection \<open>The 64-bit words hold the 32-bit ones\<close>

abbreviation up :: "32 word \<Rightarrow> word_t" where
  "up w \<equiv> ucast w"

abbreviation down :: "word_t \<Rightarrow> 32 word" where
  "down w \<equiv> ucast w"

lemma down_up [simp]: "down (up w) = w"
  by (rule bit_word_eqI) (auto simp: bit_simps)

lemma take_bit_down: "take_bit 32 (take_bit 64 x + take_bit 64 y) = take_bit 32 (x + y)" for x y :: int
proof -
  have "take_bit 32 (take_bit 64 x + take_bit 64 y) = take_bit 32 (take_bit 32 (take_bit 64 x) + take_bit 32 (take_bit 64 y))"
    by (simp only: take_bit_add)
  also have "\<dots> = take_bit 32 (take_bit 32 x + take_bit 32 y)" by simp
  finally show ?thesis by (simp only: take_bit_add)
qed

lemma down_add: "down (x + y) = down x + down y"
  by transfer (simp add: take_bit_down)

lemma mask_eq: "mask_32bit w = up (down w)"
proof -
  have m: "(0xffffffff :: word_t) = mask 32" by (simp add: mask_eq_exp_minus_1)
  show ?thesis unfolding mask_32bit_def m by (rule bit_word_eqI) (auto simp: bit_simps)
qed

lemma up_logic:
  "up x XOR up y = up (x XOR y)" "up x AND up y = up (x AND y)" "NOT (up x) AND up y = up (NOT x AND y)"
  "drop_bit n (up x) = up (drop_bit n x)"
proof -
  show "up x XOR up y = up (x XOR y)" by (rule bit_word_eqI) (auto simp: bit_simps)
  show "up x AND up y = up (x AND y)" by (rule bit_word_eqI) (auto simp: bit_simps)
  show "NOT (up x) AND up y = up (NOT x AND y)"
    by (rule bit_word_eqI) (auto simp: bit_simps dest: bit_imp_le_length)
  show "drop_bit n (up x) = up (drop_bit n x)"
    by (rule bit_word_eqI) (auto simp: bit_simps dest: bit_imp_le_length)
qed

lemma rotr_up:
  assumes "0 < n" and "n < 32"
  shows "rotr (up x) n = up (word_rotr n x)"
proof (rule bit_word_eqI)
  fix i assume "i < LENGTH(64)"
  have "bit (word_rotr n x) i \<longleftrightarrow> i < 32 \<and> bit x ((i + n) mod 32)" by (simp add: bit_word_rotr_iff)
  moreover have "bit (rotr (up x) n) i \<longleftrightarrow> i < 32 \<and> (bit x (i + n) \<or> 32 - n \<le> i \<and> bit x (i - (32 - n)))"
    unfolding rotr_def mask_eq using assms by (auto simp: bit_simps ac_simps)
  moreover have "(i + n) mod 32 = (if i + n < 32 then i + n else i - (32 - n))" if "i < 32"
    using that assms by (auto simp: mod_if)
  ultimately show "bit (rotr (up x) n) i \<longleftrightarrow> bit (up (word_rotr n x)) i"
    using assms bit_imp_le_length [of x "i + n"] by (auto simp: bit_simps split: if_splits)
qed

lemma word_functions_up:
  "ch (up x) (up y) (up z) = up (Ch32 x y z)" "maj (up x) (up y) (up z) = up (Maj32 x y z)"
  "bsig0 (up x) = up (Sigma0 x)" "bsig1 (up x) = up (Sigma1 x)"
  "ssig0 (up x) = up (sigma0 x)" "ssig1 (up x) = up (sigma1 x)"
  by (simp_all add: ch_def Ch32_def maj_def Maj32_def bsig0_def Sigma0_def bsig1_def Sigma1_def
      ssig0_def sigma0_def ssig1_def sigma1_def shr_def rotr_up up_logic)


lemma mask_add: "mask_32bit (up x + up y) = up (x + y)"
  by (simp add: mask_eq down_add)

lemma mask_up: "down w = x \<Longrightarrow> mask_32bit w = up x"
  by (simp add: mask_eq)

subsection \<open>The message schedule\<close>

lemma or_bytes:
  "push_bit 24 (ucast (a :: byte)) OR push_bit 16 (ucast (b :: byte)) OR push_bit 8 (ucast (c :: byte)) OR ucast (d :: byte)
    = (of_nat (unat d + 256 * (unat c + 256 * (unat b + 256 * unat a))) :: word_t)"
proof -
  let ?a = "ucast a :: word_t" and ?b = "ucast b :: word_t" and ?c = "ucast c :: word_t" and ?d = "ucast d :: word_t"
  have 1: "push_bit 8 ?c OR ?d = push_bit 8 ?c + ?d"
    by (rule disjunctive_add_eq_or [symmetric], rule bit_eqI) (auto simp: bit_simps dest: bit_imp_le_length)
  have 2: "push_bit 16 ?b OR (push_bit 8 ?c OR ?d) = push_bit 16 ?b + (push_bit 8 ?c OR ?d)"
    by (rule disjunctive_add_eq_or [symmetric], rule bit_eqI) (auto simp: bit_simps dest: bit_imp_le_length)
  have 3: "push_bit 24 ?a OR (push_bit 16 ?b OR (push_bit 8 ?c OR ?d)) = push_bit 24 ?a + (push_bit 16 ?b OR (push_bit 8 ?c OR ?d))"
    by (rule disjunctive_add_eq_or [symmetric], rule bit_eqI) (auto simp: bit_simps dest: bit_imp_le_length)
  have u: "ucast x = (of_nat (unat x) :: word_t)" for x :: byte by simp
  have "push_bit 24 ?a OR push_bit 16 ?b OR push_bit 8 ?c OR ?d = push_bit 24 ?a + (push_bit 16 ?b + (push_bit 8 ?c + ?d))"
    by (subst 3, subst 2, subst 1, rule refl)
  also have "\<dots> = of_nat (unat d + 256 * (unat c + 256 * (unat b + 256 * unat a)))"
    by (simp only: push_bit_eq_mult u) (simp add: algebra_simps)
  finally show ?thesis .
qed


lemma take4: "i + 4 \<le> length M \<Longrightarrow> take 4 (drop i M) = [M ! i, M ! (i + 1), M ! (i + 2), M ! (i + 3)]"
  by (rule nth_equalityI) (auto simp: less_Suc_eq numeral_eq_Suc)

lemma read_word_up:
  assumes "length M = 64" and "i < 16"
  shows "read_word M i = up (fips_W M i)"
proof -
  let ?n = "unat (M ! (4 * i + 3)) + 256 * (unat (M ! (4 * i + 2)) + 256 * (unat (M ! (4 * i + 1)) + 256 * unat (M ! (4 * i))))"
  have "be_value (take 4 (drop (4 * i) M)) = ?n"
    using take4 [of "4 * i" M] assms by (simp add: be_value_def)
  then have w: "fips_W M i = of_nat ?n" using assms by (simp add: fips_W.simps)
  have b: "unat x \<le> 255" for x :: byte using unat_byte_less [of x] by linarith
  have "?n < 2 ^ 32" using b [of "M ! (4 * i)"] b [of "M ! (4 * i + 1)"] b [of "M ! (4 * i + 2)"] b [of "M ! (4 * i + 3)"] by simp
  then have "unat (of_nat ?n :: 32 word) = ?n" by (subst unat_of_nat) (simp add: take_bit_eq_mod)
  then have "up (of_nat ?n) = of_nat ?n" by (metis of_nat_unat)
  then show ?thesis unfolding w read_word_def by (simp only: or_bytes mult.commute [of i])
qed

lemma schedule_prefix:
  assumes "length M = 64" and "16 \<le> n"
  shows "foldl extend_step (map (read_word M) [0..<16]) [16..<n] = map (\<lambda>t. up (fips_W M t)) [0..<n]"
  using assms(2)
proof (induction n rule: dec_induct)
  case base
  show ?case using read_word_up [OF assms(1)] by simp
next
  case (step n)
  let ?w = "map (\<lambda>t. up (fips_W M t)) [0..<n]"
  have "mask_32bit (ssig1 (?w ! (n - 2)) + ?w ! (n - 7) + ssig0 (?w ! (n - 15)) + ?w ! (n - 16)) = up (fips_W M n)"
    using step.hyps by (intro mask_up) (simp add: word_functions_up down_add fips_W.simps [of M n])
  then have "extend_step ?w n = map (\<lambda>t. up (fips_W M t)) [0..<Suc n]" by (simp add: extend_step_def)
  then show ?case using step by simp
qed

lemma schedule_up: "length M = 64 \<Longrightarrow> i < 64 \<Longrightarrow> schedule M ! i = up (fips_W M i)"
  unfolding schedule_def by (subst schedule_prefix) (simp_all del: upt_rec_numeral)

subsection \<open>The rounds and the blocks\<close>

definition vars_up :: "vars32 \<Rightarrow> sha_vars" where
  "vars_up = (\<lambda>(a, b, c, d, e, f, g, h). \<lparr>va = up a, vb = up b, vc = up c, vd = up d, ve = up e, vf = up f, vg = up g, vh = up h\<rparr>)"

lemma constant_up: "t < 64 \<Longrightarrow> add_constant ! t = up (K32 ! t)"
proof -
  assume t: "t < 64"
  have "\<forall>c\<in>set add_constant. up (down c) = c" unfolding add_constant_def by simp
  then show ?thesis using t by (simp add: K32_def add_constant_def [THEN arg_cong [of _ _ length]])
qed

lemma round_up:
  assumes M: "length M = 64" and t: "t < 64"
  shows "round_step (schedule M) (vars_up s) t = vars_up (fips_round M s t)"
proof -
  obtain a b c d e f g h where s: "s = (a, b, c, d, e, f, g, h)" by (cases s) auto
  show ?thesis
    unfolding s vars_up_def round_step_def fips_round_def Let_def
    by (simp add: word_functions_up constant_up [OF t] schedule_up [OF M t] mask_eq down_add)
qed

lemma rounds_up:
  assumes "length M = 64" and "n \<le> 64"
  shows "foldl (round_step (schedule M)) (vars_up s) [0..<n] = vars_up (foldl (fips_round M) s [0..<n])"
  using assms(2) by (induction n) (simp_all add: round_up [OF assms(1)])

lemma block_up:
  assumes M: "length M = 64" and H: "length H = 8"
  shows "hash256_block (map up H) M = map up (fips_block H M)" and "length (fips_block H M) = 8"
proof -
  obtain a b c d e f g h where s: "foldl (fips_round M) (H ! 0, H ! 1, H ! 2, H ! 3, H ! 4, H ! 5, H ! 6, H ! 7) [0..<64]
      = (a, b, c, d, e, f, g, h)"
    by (cases "foldl (fips_round M) (H ! 0, H ! 1, H ! 2, H ! 3, H ! 4, H ! 5, H ! 6, H ! 7) [0..<64]") (auto simp del: upt_rec_numeral)
  have "foldl (round_step (schedule M)) \<lparr>va = up (H ! 0), vb = up (H ! 1), vc = up (H ! 2), vd = up (H ! 3),
      ve = up (H ! 4), vf = up (H ! 5), vg = up (H ! 6), vh = up (H ! 7)\<rparr> [0..<64] = vars_up (a, b, c, d, e, f, g, h)"
    using rounds_up [OF M, of 64 "(H ! 0, H ! 1, H ! 2, H ! 3, H ! 4, H ! 5, H ! 6, H ! 7)"] s by (simp add: vars_up_def)
  moreover have "map mask_32bit (map2 (+) (map up H) (map up xs)) = map up (map2 (+) H xs)" for xs
    by (simp add: zip_map_map case_prod_beta mask_add)
  from this [of "[a, b, c, d, e, f, g, h]"]
  have "map mask_32bit (map2 (+) (map up H) [up a, up b, up c, up d, up e, up f, up g, up h])
      = map up (map2 (+) H [a, b, c, d, e, f, g, h])" by simp
  ultimately show "hash256_block (map up H) M = map up (fips_block H M)"
    using H by (simp only: hash256_block_def Let_def nth_map fips_block_def s) (simp add: vars_up_def)
  show "length (fips_block H M) = 8" using s H by (simp add: fips_block_def)
qed


subsection \<open>Blocks of a message\<close>

lemma process_blocks_eq:
  "process_blocks h xs = (foldl hash256_block h (blocks xs), drop (64 * (length xs div 64)) xs)"
proof (induction h xs rule: process_blocks.induct)
  case (1 h xs)
  show ?case
  proof (cases "64 \<le> length xs")
    case True
    then have "64 * ((length xs - 64) div 64) + 64 = 64 * (length xs div 64)" by (simp add: le_div_geq)
    then show ?thesis using 1 True by (simp add: process_blocks.simps [of h xs] blocks.simps [of xs])
  qed (simp add: process_blocks.simps [of h xs] blocks.simps [of xs])
qed

lemma blocks_append: "length xs mod 64 = 0 \<Longrightarrow> blocks (xs @ ys) = blocks xs @ blocks ys"
proof (induction xs rule: blocks.induct)
  case (1 xs)
  show ?case
  proof (cases "length xs < 64")
    case True
    then have "xs = []" using 1(2) by simp
    then show ?thesis by (simp add: blocks.simps [of "[]"])
  next
    case False
    then have "length (drop 64 xs) mod 64 = 0" using 1(2) by (simp add: le_mod_geq)
    then show ?thesis using 1 False by (simp add: blocks.simps [of xs] blocks.simps [of "xs @ ys"])
  qed
qed

lemma blocks_one: "length M = 64 \<Longrightarrow> blocks M = [M]"
  by (simp add: blocks.simps [of M] blocks.simps [of "[]"])

lemma blocks_prefix: "blocks (take (64 * (length xs div 64)) xs) = blocks xs"
proof -
  let ?a = "take (64 * (length xs div 64)) xs" and ?b = "drop (64 * (length xs div 64)) xs"
  have "length ?a = 64 * (length xs div 64)" by simp
  then have "blocks (?a @ ?b) = blocks ?a @ blocks ?b" by (intro blocks_append) simp
  moreover have "blocks ?b = []"
    by (simp add: blocks.simps [of ?b] minus_mult_div_eq_mod)
  ultimately show ?thesis by simp
qed

lemma block_lengths: "M \<in> set (blocks xs) \<Longrightarrow> length M = 64"
proof (induction xs rule: blocks.induct)
  case (1 xs)
  then show ?case by (auto simp: blocks.simps [of xs] split: if_splits)
qed

lemma blocks_up:
  assumes "\<forall>M\<in>set Ms. length M = 64" and "length H = 8"
  shows "foldl hash256_block (map up H) Ms = map up (foldl fips_block H Ms) \<and> length (foldl fips_block H Ms) = 8"
  using assms
proof (induction Ms arbitrary: H)
  case (Cons M Ms)
  then show ?case using block_up [of M H] by simp
qed simp

subsection \<open>The length of the message\<close>

fun digits_value :: "word_t list \<Rightarrow> nat" where
  "digits_value [] = 0"
| "digits_value (d # ds) = unat d + 65536 * digits_value ds"

definition digits_ok :: "word_t list \<Rightarrow> bool" where
  "digits_ok ds \<longleftrightarrow> length ds = 4 \<and> (\<forall>d\<in>set ds. unat d < 65536)"

lemma and_65535: "unat (w AND 65535 :: word_t) = unat w mod 65536"
proof -
  have t: "w AND 65535 = take_bit 16 w" by (simp add: take_bit_eq_mask mask_eq_exp_minus_1)
  show ?thesis unfolding t unsigned_take_bit_eq by (simp add: take_bit_eq_mod)
qed

lemma unat_word_t: "unat (w :: word_t) < 2 ^ 64"
  by (rule order.strict_trans2 [OF unsigned_less]) simp

lemma unat_drop_bit: "unat (drop_bit n w :: word_t) = unat w div 2 ^ n"
  unfolding unsigned_drop_bit_eq using unat_word_t [of w] by (simp add: drop_bit_eq_div take_bit_nat_eq_self)

lemma unat_add_small: "unat x + unat y < 2 ^ 64 \<Longrightarrow> unat (x + y :: word_t) = unat x + unat y"
  by (simp add: unat_word_ariths)

lemma add_carry_value:
  "(\<forall>d\<in>set (tl ds). unat d < 65536) \<Longrightarrow> ds \<noteq> [] \<Longrightarrow> unat (hd ds) + unat c < 2 ^ 64 \<Longrightarrow>
    digits_value (add_carry c ds) = (digits_value ds + unat c) mod 65536 ^ length ds \<and>
    length (add_carry c ds) = length ds \<and> (\<forall>d\<in>set (add_carry c ds). unat d < 65536)"
proof (induction c ds rule: add_carry.induct)
  case (2 c d ds)
  have u: "unat (d + c) = unat d + unat c" using 2(4) by (intro unat_add_small) simp
  show ?case
  proof (cases "d + c \<ge> 65536")
    case True
    let ?q = "drop_bit 16 (d + c)"
    have q: "unat ?q = (unat d + unat c) div 65536" by (simp add: unat_drop_bit u)
    have r: "unat ((d + c) AND 65535) = (unat d + unat c) mod 65536" by (simp add: and_65535 u)
    show ?thesis
    proof (cases ds)
      case Nil
      then show ?thesis using True r by simp
    next
      case (Cons e es)
      have "unat e < 65536" using 2(2) Cons by simp
      moreover have "(unat d + unat c) div 65536 < 2 ^ 48" using 2(4) by (simp add: div_less_iff_less_mult)
      ultimately have IH: "digits_value (add_carry ?q ds) = (digits_value ds + unat ?q) mod 65536 ^ length ds \<and>
          length (add_carry ?q ds) = length ds \<and> (\<forall>d\<in>set (add_carry ?q ds). unat d < 65536)"
        using 2(1) [OF refl True] 2(2) Cons q by simp
      have "digits_value (add_carry c (d # ds)) = (unat d + unat c) mod 65536 +
          65536 * ((digits_value ds + (unat d + unat c) div 65536) mod 65536 ^ length ds)"
        using True IH q r by (simp add: Let_def)
      also have "\<dots> = (unat d + unat c + 65536 * digits_value ds) mod (65536 * 65536 ^ length ds)"
        by (simp add: mod_mult2_eq [of _ 65536] add.commute)
      finally show ?thesis using True IH r by (simp add: add_ac Let_def)
    qed
  next
    case False
    then have lt: "unat d + unat c < 65536" using u by (simp add: word_le_nat_alt)
    have dv: "digits_value ds < 65536 ^ length ds" if "\<forall>d\<in>set ds. unat d < 65536" for ds :: "word_t list"
      using that
    proof (induction ds)
      case (Cons d ds)
      then have "unat d + 65536 * digits_value ds < 65536 + 65536 * digits_value ds" by simp
      also have "\<dots> = 65536 * Suc (digits_value ds)" by simp
      also have "\<dots> \<le> 65536 * 65536 ^ length ds" using Cons by (intro mult_left_mono) auto
      finally show ?case by simp
    qed simp
    have "unat d + unat c + 65536 * digits_value ds < 65536 * 65536 ^ length ds"
    proof -
      have "unat d + unat c + 65536 * digits_value ds < 65536 * Suc (digits_value ds)" using lt by simp
      also have "\<dots> \<le> 65536 * 65536 ^ length ds" using dv [of ds] 2(2) by (intro mult_left_mono) auto
      finally show ?thesis .
    qed
    then show ?thesis using False u lt 2(2) by (simp add: add_ac)
  qed
qed simp


lemma add_to_data_length_ok:
  assumes "digits_ok ds" and "unat n \<le> 2 ^ 64 - 2 ^ 16"
  shows "digits_ok (add_to_data_length n ds) \<and> digits_value (add_to_data_length n ds) = (digits_value ds + unat n) mod 2 ^ 64"
proof -
  obtain d ds' where ds: "ds = d # ds'" using assms(1) by (cases ds) (auto simp: digits_ok_def)
  have d: "unat d < 65536" "\<forall>d\<in>set ds'. unat d < 65536" "length ds' = 3" using assms(1) by (simp_all add: ds digits_ok_def)
  have u: "unat (d + n) = unat d + unat n" using d(1) assms(2) by (intro unat_add_small) simp
  have lt: "unat (d + n) < 2 ^ 64" by (rule unat_word_t)
  have "digits_value (add_carry 0 ((d + n) # ds')) = digits_value ((d + n) # ds') mod 65536 ^ 4 \<and>
      length (add_carry 0 ((d + n) # ds')) = 4 \<and> (\<forall>d\<in>set (add_carry 0 ((d + n) # ds')). unat d < 65536)"
    using add_carry_value [of "(d + n) # ds'" 0] d lt by simp
  then show ?thesis using u by (simp add: add_to_data_length_def ds digits_ok_def add_ac)
qed

lemma or_small_carry:
  assumes "unat c < 8"
  shows "push_bit 3 d OR c = push_bit 3 d + (c :: word_t)"
proof -
  have "c = take_bit 3 c"
    using assms by (simp add: word_unat_eq_iff unsigned_take_bit_eq take_bit_nat_eq_self)
  moreover have "push_bit 3 d AND take_bit 3 c = 0" by (rule bit_word_eqI) (auto simp: bit_simps)
  ultimately have "push_bit 3 d AND c = 0" by simp
  then show ?thesis by (rule disjunctive_add_eq_or [symmetric])
qed


lemma carry_mod: "0 < k \<Longrightarrow> a mod k + k * ((b + a div k) mod m) = (a + k * b) mod (k * m)" for k :: nat
  by (simp add: mod_mult2_eq add.commute)

lemma bit_length_digits_value:
  "\<forall>d\<in>set ds. unat d < 65536 \<Longrightarrow> unat c < 8 \<Longrightarrow>
    digits_value (bit_length_digits c ds) = (8 * digits_value ds + unat c) mod 65536 ^ length ds \<and>
    length (bit_length_digits c ds) = length ds \<and> (\<forall>d\<in>set (bit_length_digits c ds). unat d < 65536)"
proof (induction c ds rule: bit_length_digits.induct)
  case (2 c d ds)
  have d: "unat d < 65536" using 2(2) by simp
  have s: "unat (push_bit 3 d) = 8 * unat d"
    using d by (simp add: push_bit_eq_mult unat_word_ariths mult.commute)
  have u: "unat ((push_bit 3 d OR c) AND 65535) = (8 * unat d + unat c) mod 65536"
    using d 2(3) by (simp add: and_65535 or_small_carry unat_add_small s)
  have q: "unat (drop_bit 13 d AND 65535) = (8 * unat d + unat c) div 65536"
  proof -
    have "(8 * unat d + unat c) div 65536 = (8 * unat d + unat c) div 8 div 8192" by (simp add: div_mult2_eq [symmetric])
    also have "(8 * unat d + unat c) div 8 = unat d" using 2(3) by simp
    finally show ?thesis using d by (simp add: and_65535 unat_drop_bit div_less_iff_less_mult)
  qed
  then have "unat (drop_bit 13 d AND 65535) < 8" using d 2(3) by (simp add: div_less_iff_less_mult)
  then have IH: "digits_value (bit_length_digits (drop_bit 13 d AND 65535) ds) =
        (8 * digits_value ds + (8 * unat d + unat c) div 65536) mod 65536 ^ length ds \<and>
      length (bit_length_digits (drop_bit 13 d AND 65535) ds) = length ds \<and>
      (\<forall>d\<in>set (bit_length_digits (drop_bit 13 d AND 65535) ds). unat d < 65536)"
    using 2(1) 2(2) q by simp
  have "digits_value (bit_length_digits c (d # ds)) = (8 * unat d + unat c) mod 65536 +
      65536 * ((8 * digits_value ds + (8 * unat d + unat c) div 65536) mod 65536 ^ length ds)"
    using IH u by simp
  also have "\<dots> = (8 * unat d + unat c + 65536 * (8 * digits_value ds)) mod (65536 * 65536 ^ length ds)"
    by (rule carry_mod) simp
  finally have "digits_value (bit_length_digits c (d # ds)) =
      (8 * unat d + unat c + 65536 * (8 * digits_value ds)) mod (65536 * 65536 ^ length ds)" .
  moreover have "8 * unat d + unat c + 65536 * (8 * digits_value ds) = 8 * digits_value (d # ds) + unat c" by simp
  ultimately have "digits_value (bit_length_digits c (d # ds)) = (8 * digits_value (d # ds) + unat c) mod 65536 ^ length (d # ds)"
    by (simp only: length_Cons power_Suc)
  then show ?case using IH u by simp
qed simp

lemma two_bytes:
  assumes "unat (d :: word_t) < 65536" and "n = unat d + 65536 * q"
  shows "ucast (drop_bit 8 d) = (of_nat (n div 256) :: byte)" and "ucast d = (of_nat n :: byte)"
proof -
  have u: "unat (ucast w :: byte) = unat w mod 256" for w :: word_t
    by (simp add: unsigned_ucast_eq take_bit_eq_mod)
  have "(unat d + 65536 * q) div 256 = unat d div 256 + 256 * q"
    using div_mult_self2 [of 256 "unat d" "256 * q"] by simp
  then show "ucast (drop_bit 8 d) = (of_nat (n div 256) :: byte)"
    unfolding word_unat_eq_iff u unat_byte unat_drop_bit assms(2) by simp
  have "(unat d + 65536 * q) mod 256 = unat d mod 256"
    using mod_mult_self2 [of "unat d" 256 "256 * q"] by simp
  then show "ucast d = (of_nat n :: byte)" unfolding word_unat_eq_iff u unat_byte assms(2) by simp
qed

lemma write_digits:
  assumes "length ds = 4" and "\<forall>d\<in>set ds. unat d < 65536"
  shows "concat (map (\<lambda>d. [ucast (drop_bit 8 d), ucast d]) (rev ds)) = be64 (digits_value ds)"
proof -
  obtain d0 d1 d2 d3 where ds: "ds = [d0, d1, d2, d3]" using assms(1) by (auto simp: numeral_eq_Suc length_Suc_conv)
  have d: "unat d0 < 65536" "unat d1 < 65536" "unat d2 < 65536" "unat d3 < 65536" using assms(2) by (simp_all add: ds)
  define n3 where "n3 = unat d3 + 65536 * 0"
  define n2 where "n2 = unat d2 + 65536 * n3"
  define n1 where "n1 = unat d1 + 65536 * n2"
  define n0 where "n0 = unat d0 + 65536 * n1"
  have q: "n0 div 65536 = n1" "n1 div 65536 = n2" "n2 div 65536 = n3" using d by (simp_all add: n0_def n1_def n2_def)
  have p: "n0 div 256 ^ 0 = n0" "n0 div 256 ^ 1 = n0 div 256" "n0 div 256 ^ 2 = n1" "n0 div 256 ^ 3 = n1 div 256"
    "n0 div 256 ^ 4 = n2" "n0 div 256 ^ 5 = n2 div 256" "n0 div 256 ^ 6 = n3" "n0 div 256 ^ 7 = n3 div 256"
    unfolding q [symmetric] by (simp_all add: div_mult2_eq [symmetric])
  have v: "digits_value ds = n0" by (simp add: ds n0_def n1_def n2_def n3_def)
  have l: "[0..<8] = [0, 1, 2, 3, 4, 5, 6, 7]" by (simp add: upt_rec)
  have i: "7 - (0 :: nat) = 7" "7 - (1 :: nat) = 6" "7 - (2 :: nat) = 5" "7 - (3 :: nat) = 4" "7 - (4 :: nat) = 3"
    "7 - (5 :: nat) = 2" "7 - (6 :: nat) = 1" "7 - (7 :: nat) = 0" by simp_all
  note two = two_bytes [OF d(1) n0_def] two_bytes [OF d(2) n1_def] two_bytes [OF d(3) n2_def] two_bytes [OF d(4) n3_def]
  show ?thesis
    unfolding be64_def v l list.map i p by (simp add: ds two)
qed

lemma write_data_bit_length_be64:
  assumes "digits_ok ds"
  shows "write_data_bit_length ds = be64 ((8 * digits_value ds) mod 2 ^ 64)"
proof -
  have "digits_value (bit_length_digits 0 ds) = (8 * digits_value ds) mod 2 ^ 64"
    "length (bit_length_digits 0 ds) = 4" "\<forall>d\<in>set (bit_length_digits 0 ds). unat d < 65536"
    using bit_length_digits_value [of ds 0] assms by (simp_all add: digits_ok_def)
  then show ?thesis using write_digits [of "bit_length_digits 0 ds"] by (simp add: write_data_bit_length_def)
qed


lemma length_be64 [simp]: "length (be64 n) = 8"
  by (simp add: be64_def)

subsection \<open>The hasher's invariant\<close>

text \<open>What the hasher knows of a message: the digest of its full blocks, the bytes left over and
  its length.\<close>

abbreviation rest_of :: "byte list \<Rightarrow> byte list" where
  "rest_of msg \<equiv> drop (64 * (length msg div 64)) msg"

definition hashed :: "hasher \<Rightarrow> byte list \<Rightarrow> bool" where
  "hashed s msg \<longleftrightarrow>
     hs s = foldl hash256_block initial_message_digest (blocks msg) \<and> buffer s = rest_of msg \<and>
     digits_ok (data_length_digits s) \<and> digits_value (data_length_digits s) = length msg mod 2 ^ 64"

lemma hashed_init: "hashed hash_init []"
  by (simp add: hashed_def hash_init_def digits_ok_def blocks.simps [of "[]"])

lemma blocks_split: "blocks (a @ b) = blocks a @ blocks (rest_of a @ b)"
proof -
  have "length (take (64 * (length a div 64)) a) mod 64 = 0" by simp
  then have "blocks (take (64 * (length a div 64)) a @ rest_of a @ b) = blocks a @ blocks (rest_of a @ b)"
    unfolding blocks_prefix [of a, symmetric] by (rule blocks_append)
  moreover have "take (64 * (length a div 64)) a @ rest_of a @ b = a @ b" by (metis append_assoc append_take_drop_id)
  ultimately show ?thesis by (simp only:)
qed

lemma rest_split: "rest_of (a @ b) = rest_of (rest_of a @ b)"
proof -
  let ?q = "length a div 64" and ?c = "take (64 * (length a div 64)) a"
  have l: "length ?c = 64 * ?q" by simp
  have "a @ b = ?c @ (rest_of a @ b)" by simp
  then have "rest_of (a @ b) = drop (64 * (length (a @ b) div 64)) (?c @ (rest_of a @ b))" by metis
  moreover have "length (a @ b) = length (rest_of a @ b) + 64 * ?q" by simp
  then have "64 * (length (a @ b) div 64) = 64 * (length (rest_of a @ b) div 64) + 64 * ?q"
    by (simp only: div_mult_self2) simp
  ultimately show ?thesis using l by simp
qed

lemma hashed_process:
  assumes "hashed s a" and "length b \<le> 2 ^ 64 - 2 ^ 16"
  shows "hashed (process s b) (a @ b)"
proof -
  have n: "unat (of_nat (length b) :: word_t) = length b" using assms(2) by (simp add: unat_of_nat)
  have d: "digits_ok (add_to_data_length (of_nat (length b)) (data_length_digits s)) \<and>
      digits_value (add_to_data_length (of_nat (length b)) (data_length_digits s)) = length (a @ b) mod 2 ^ 64"
    using add_to_data_length_ok [of "data_length_digits s" "of_nat (length b)"] assms n
    by (simp add: hashed_def mod_add_left_eq)
  have p: "process s b = \<lparr>buffer = rest_of (buffer s @ b),
      data_length_digits = add_to_data_length (of_nat (length b)) (data_length_digits s),
      hs = foldl hash256_block (hs s) (blocks (buffer s @ b))\<rparr>"
    by (simp only: process_def process_blocks_eq prod.case)
  have h: "hs s = foldl hash256_block initial_message_digest (blocks a)" "buffer s = rest_of a"
    using assms(1) by (simp_all only: hashed_def)
  show ?thesis
    unfolding hashed_def p hasher.simps h rest_split [of a b, symmetric] blocks_split [of a b] foldl_append
    using d by blast
qed

text \<open>Padding and the last blocks.\<close>

lemma pad_blocks_short:
  assumes "length r \<le> 55"
  shows "blocks (r @ 0x80 # replicate ((119 - length r) mod 64) 0 @ be64 n) = [r @ 0x80 # replicate (55 - length r) 0 @ be64 n]"
proof -
  have "(119 - length r) mod 64 = 55 - length r" using assms by (simp add: mod_if)
  then show ?thesis using assms by (simp add: blocks_one)
qed

lemma pad_blocks_long:
  assumes "55 < length r" and "length r < 64"
  shows "blocks (r @ 0x80 # replicate ((119 - length r) mod 64) 0 @ be64 n) =
    [r @ 0x80 # replicate (63 - length r) 0, replicate 56 0 @ be64 n]"
proof -
  have "(119 - length r) mod 64 = (63 - length r) + 56" using assms by simp
  then have "r @ 0x80 # replicate ((119 - length r) mod 64) 0 @ be64 n =
      (r @ 0x80 # replicate (63 - length r) 0) @ (replicate 56 0 @ be64 n)"
    by (simp only: replicate_add append_assoc append_Cons)
  moreover have "length (r @ 0x80 # replicate (63 - length r) 0) = 64" using assms by simp
  ultimately show ?thesis
    using blocks_append [of "r @ 0x80 # replicate (63 - length r) 0"]
      blocks_one [of "r @ 0x80 # replicate (63 - length r) 0"] blocks_one [of "replicate 56 0 @ be64 n"] by simp
qed

lemma take_padded: "length r \<le> 55 \<Longrightarrow>
    take 56 (r @ x # replicate (63 - length r) y) = r @ x # replicate (55 - length r) y"
  by (cases "56 - length r") (auto simp: min_def)

lemma finish_digest:
  assumes h: "hashed s msg" and len: "8 * length msg < 2 ^ 64"
  shows "hs (finish s) = foldl hash256_block initial_message_digest (blocks (fips_pad msg))"
proof -
  let ?r = "rest_of msg" and ?n = "8 * length msg"
  have r: "length ?r = length msg mod 64" by (simp add: minus_mult_div_eq_mod)
  have w: "write_data_bit_length (data_length_digits s) = be64 ?n"
    using write_data_bit_length_be64 [of "data_length_digits s"] h len by (simp add: hashed_def)
  have b: "blocks (fips_pad msg) = blocks msg @ blocks (?r @ 0x80 # replicate ((119 - length ?r) mod 64) 0 @ be64 ?n)"
    unfolding fips_pad_def r by (rule blocks_split)
  have lt: "length ?r < 64" using r by simp
  show ?thesis
  proof (cases "length ?r \<le> 55")
    case True
    then have "take 56 (?r @ 0x80 # replicate (63 - length ?r) 0) = ?r @ 0x80 # replicate (55 - length ?r) 0"
      by (rule take_padded)
    then show ?thesis
      using True h w unfolding b pad_blocks_short [OF True] by (simp add: finish_def Let_def hashed_def)
  next
    case False
    then show ?thesis
      using h w lt unfolding b by (subst pad_blocks_long) (simp_all add: finish_def Let_def hashed_def)
  qed
qed

lemma initial_up: "initial_message_digest = map up (map ucast initial_message_digest)"
  unfolding initial_message_digest_def by simp

lemma get_hash_bytes_up:
  "hs s = map up H \<Longrightarrow> get_hash_bytes s =
    concat (map (\<lambda>w. [ucast (drop_bit 24 w), ucast (drop_bit 16 w), ucast (drop_bit 8 w), ucast w]) H)"
proof -
  have "(ucast (drop_bit n (up w)) :: byte) = ucast (drop_bit n w)" for n w
    by (rule bit_word_eqI) (auto simp: bit_simps dest: bit_imp_le_length)
  moreover have "(ucast (up w) :: byte) = ucast w" for w
    by (rule bit_word_eqI) (auto simp: bit_simps)
  moreover assume "hs s = map up H"
  ultimately show ?thesis by (simp add: get_hash_bytes_def comp_def del: ucast_drop_bit_eq)
qed

lemma hashed_fips:
  assumes h: "hashed s msg" and len: "8 * length msg < 2 ^ 64"
  shows "get_hash_bytes (finish s) = fips_sha256 msg"
proof -
  let ?H = "map ucast initial_message_digest :: 32 word list"
  have "hs (finish s) = foldl hash256_block (map up ?H) (blocks (fips_pad msg))"
    unfolding finish_digest [OF assms] using initial_up by simp
  also have "\<dots> = map up (foldl fips_block ?H (blocks (fips_pad msg)))"
    using blocks_up [of "blocks (fips_pad msg)" ?H] block_lengths by (simp add: initial_message_digest_def)
  finally show ?thesis unfolding fips_sha256_def by (rule get_hash_bytes_up)
qed

lemma hash256_fips_aux:
  assumes "8 * length msg < 2 ^ 64"
  shows "hash256 msg = fips_sha256 msg"
proof -
  have "hashed (process hash_init msg) msg" using hashed_process [OF hashed_init, of msg] assms by simp
  then show ?thesis unfolding hash256_def using assms by (rule hashed_fips)
qed

lemma chunks_hashed:
  assumes "0 < n"
  shows "hashed s a \<Longrightarrow> 8 * length (a @ msg) < 2 ^ 64 \<Longrightarrow> \<exists>s'. chunks_loop n msg s = Some s' \<and> hashed s' (a @ msg)"
  using assms
proof (induction n msg s arbitrary: a rule: chunks_loop.induct)
  case (1 n msg s)
  show ?case
  proof (cases "msg = []")
    case True
    then show ?thesis using 1 by (simp add: chunks_loop.simps)
  next
    case False
    have "length (take n msg) \<le> 2 ^ 64 - 2 ^ 16" using 1(3) by simp
    then have "hashed (process s (take n msg)) (a @ take n msg)" by (rule hashed_process [OF 1(2)])
    then have "\<exists>s'. chunks_loop n (drop n msg) (process s (take n msg)) = Some s' \<and> hashed s' ((a @ take n msg) @ drop n msg)"
      using 1(3,4) False by (intro 1(1)) auto
    then show ?thesis using False 1(4) by (simp add: chunks_loop.simps [of n msg])
  qed
qed

lemma hash256_stream_aux:
  assumes "8 * length msg < 2 ^ 64" and "0 < n"
  shows "hash256_stream n msg = Some (hash256 msg)"
  using chunks_hashed [OF assms(2) hashed_init, of msg] assms(1) hashed_fips hash256_fips_aux [OF assms(1)]
  by (auto simp: hash256_stream_def)

lemma length_fips: "length (fips_sha256 msg) = 32"
proof -
  let ?H = "map ucast initial_message_digest :: 32 word list"
  have "length (foldl fips_block ?H (blocks (fips_pad msg))) = 8"
    using blocks_up [of "blocks (fips_pad msg)" ?H] block_lengths by (simp add: initial_message_digest_def)
  then show ?thesis unfolding fips_sha256_def by (auto simp: length_concat comp_def sum_list_triv)
qed


subsection \<open>The constants\<close>

text \<open>FIPS 180-4 takes the constants from the first 32 bits of the fractional parts of the
  square roots and cube roots of the first primes: \<open>w\<close> is such a word for the \<open>k\<close>-th root
  of \<open>p\<close>, below an integer part of 20.\<close>

definition frac_root :: "nat \<Rightarrow> int \<Rightarrow> int \<Rightarrow> bool" where
  "frac_root k p w \<longleftrightarrow> 0 \<le> w \<and> w < 2 ^ 32 \<and>
     (\<exists>i\<in>set [0..<20]. (int i * 2 ^ 32 + w) ^ k \<le> p * 2 ^ (32 * k) \<and> p * 2 ^ (32 * k) < (int i * 2 ^ 32 + w + 1) ^ k)"

definition first_primes :: "int list" where
  "first_primes = [2, 3, 5, 7, 11, 13, 17, 19, 23, 29, 31, 37, 41, 43, 47, 53, 59, 61, 67, 71, 73, 79, 83, 89, 97,
     101, 103, 107, 109, 113, 127, 131, 137, 139, 149, 151, 157, 163, 167, 173, 179, 181, 191, 193, 197, 199,
     211, 223, 227, 229, 233, 239, 241, 251, 257, 263, 269, 271, 277, 281, 283, 293, 307, 311]"

lemma roots_square: "list_all2 (frac_root 2) (take 8 first_primes) (map uint initial_message_digest)"
  by code_simp

lemma roots_cube: "list_all2 (frac_root 3) first_primes (map uint add_constant)"
  by code_simp

end
