(* ===== verification/VdfOriginal.thy ===== *)
theory VdfOriginal
  imports ProofCommon
begin

section \<open>The original implementation: \<open>vdf_original.h\<close>\<close>

text \<open>
  The first implementation of the group law, kept in the repository as a reference for tests.
  It works on the members of \<open>class vdf_original\<close> as temporaries and returns a pointer to
  its member \<open>f3\<close>, which the next squaring reads and overwrites; the definitions follow
  the order of these assignments.  A failed assertion and a division by zero are
  \<open>None\<close>.  Squaring and reduction compute what their successors in \<open>vdf_new.h\<close> compute.
  \<open>multiply\<close>, with \<open>three_gcd\<close> and the congruence solver only it uses, is left out: it works on
  the members \<open>h\<close>, \<open>t\<close>, \<open>l\<close> and \<open>j\<close>, which the constructor does not initialise, so that no
  call of it has a defined result.
\<close>

subsection \<open>The code\<close>

definition orig_normalize :: "form \<Rightarrow> form option" where
  "orig_normalize f =
     (let negative_a = - fa f in
      if fb f > negative_a \<and> fb f \<le> fa f then Some f
      else let r = fa f - fb f; denom = fa f * 2 in
        if denom = 0 then None
        else let r = r div denom;
                 old_b = fb f;
                 ra = r * fa f;
                 b = fb f + ra;
                 b = b + ra;
                 ra = ra * r;
                 c = fc f + ra;
                 ra = r;
                 ra = ra * old_b;
                 c = c + ra
             in Some (mk_form (fa f) b c))"

definition orig_reduce_step :: "form \<Rightarrow> form option" where
  "orig_reduce_step f =
     (let s = fc f + fb f; x = fc f * 2 in
      if x = 0 then None
      else let s = s div x;
               old_a = fa f;
               old_b = fb f;
               a = fc f;
               b = - fb f;
               x = s * fc f;
               x = x * 2;
               b = b + x;
               c = fc f * s;
               c = c * s;
               x = old_b * s;
               c = c - x;
               c = c + old_a
           in Some (mk_form a b c))"

partial_function (option) orig_reduce_loop :: "form \<Rightarrow> form option" where
  "orig_reduce_loop f =
     (if fa f > fc f \<or> (fa f = fc f \<and> fb f < 0)
      then Option.bind (orig_reduce_step f) orig_reduce_loop
      else Some f)"

declare orig_reduce_loop.simps [code]

definition orig_reduce :: "form \<Rightarrow> form option" where
  "orig_reduce f = do { f \<leftarrow> orig_normalize f; f \<leftarrow> orig_reduce_loop f; orig_normalize f }"

definition orig_solve_fast :: "gcdext \<Rightarrow> int \<Rightarrow> int \<Rightarrow> int \<Rightarrow> int option" where
  "orig_solve_fast G a b m =
     (case G a m of (g, d, e) \<Rightarrow>
        if g = 0 then None
        else let q = b div g; mu = q * d in if m = 0 then None else Some (mu mod \<bar>m\<bar>))"

definition orig_square :: "gcdext \<Rightarrow> form \<Rightarrow> form option" where
  "orig_square G f1 =
     do {
       mu \<leftarrow> orig_solve_fast G (fb f1) (fc f1) (fa f1);
       let m = fb f1 * mu;
       let m = m - fc f1;
       let m = m div fa f1;
       let old_a = fa f1;
       let A = fa f1 * fa f1;
       let a = mu * old_a;
       let a = a * 2;
       let B = fb f1 - a;
       let C = mu * mu;
       let C = C - m;
       orig_reduce (mk_form A B C)
     }"

primrec orig_repeated_square :: "gcdext \<Rightarrow> form \<Rightarrow> nat \<Rightarrow> form option" where
  "orig_repeated_square G f 0 = Some f"
| "orig_repeated_square G f (Suc n) = Option.bind (orig_square G f) (\<lambda>g. orig_repeated_square G g n)"

subsection \<open>The same results as \<open>vdf_new.h\<close>\<close>

lemma orig_normalize_eq: "orig_normalize f = normalize f"
proof (cases "fb f > - fa f \<and> fb f \<le> fa f")
  case True
  then show ?thesis using normalize_idem [of f] by (simp add: orig_normalize_def normalized_def)
next
  case False
  then show ?thesis by (auto simp: orig_normalize_def normalize_def Let_def algebra_simps)
qed

lemma orig_reduce_step_eq: "orig_reduce_step f = reduce_impl f"
  by (simp add: orig_reduce_step_def reduce_impl_def Let_def algebra_simps)

lemma orig_reduce_loop_le:
  assumes "orig_reduce_loop f = Some g"
  shows "reduce_loop f = Some g"
proof (rule orig_reduce_loop.raw_induct [where P = "\<lambda>f g. reduce_loop f = Some g", OF _ assms])
  fix loop f g
  assume "\<And>f g. loop f = Some g \<Longrightarrow> reduce_loop f = Some g"
    and "(if fa f > fc f \<or> (fa f = fc f \<and> fb f < 0) then Option.bind (orig_reduce_step f) loop else Some f) = Some g"
  then show "reduce_loop f = Some g"
    by (subst reduce_loop.simps) (auto simp: reduce_cond_def orig_reduce_step_eq ret_iff split: if_splits)
qed

lemma orig_reduce_loop_ge:
  assumes "reduce_loop f = Some g"
  shows "orig_reduce_loop f = Some g"
proof (rule reduce_loop.raw_induct [where P = "\<lambda>f g. orig_reduce_loop f = Some g", OF _ assms])
  fix loop f g
  assume "\<And>f g. loop f = Some g \<Longrightarrow> orig_reduce_loop f = Some g"
    and "(if reduce_cond f then Option.bind (reduce_impl f) loop else Some f) = Some g"
  then show "orig_reduce_loop f = Some g"
    by (subst orig_reduce_loop.simps) (auto simp: reduce_cond_def orig_reduce_step_eq ret_iff split: if_splits)
qed

lemma orig_reduce_loop_eq: "orig_reduce_loop f = reduce_loop f"
  using orig_reduce_loop_le [of f] orig_reduce_loop_ge [of f]
  by (cases "orig_reduce_loop f"; cases "reduce_loop f") auto

lemma orig_reduce_eq: "orig_reduce f = reduce f"
  by (simp add: orig_reduce_def reduce_def orig_normalize_eq orig_reduce_loop_eq)

lemma orig_square_eq: "orig_square G f = square G f"
  by (auto simp: orig_square_def square_def square_impl_def orig_solve_fast_def orig_reduce_eq Let_def ac_simps
      split: prod.splits)


subsection \<open>Repeated squaring\<close>

text \<open>The discriminants in use are negated primes: no proper divisor.  Then every reduced form
  has coprime \<open>a\<close> and \<open>b\<close>, which squaring relies on.\<close>

definition prime_disc :: "int \<Rightarrow> bool" where
  "prime_disc D \<longleftrightarrow> D < 0 \<and> D \<noteq> - 1 \<and> (\<forall>g. g dvd D \<longrightarrow> \<bar>g\<bar> = 1 \<or> \<bar>g\<bar> = - D)"

lemma prime_disc_good: "prime_disc D \<Longrightarrow> good_disc D"
proof -
  assume D: "prime_disc D"
  have "\<bar>g\<bar> = 1" if g: "g * g dvd D" for g
  proof (rule ccontr)
    assume "\<bar>g\<bar> \<noteq> 1"
    moreover have "g dvd D" using g by (rule dvd_mult_left)
    ultimately have "\<bar>g\<bar> = - D" using D by (auto simp: prime_disc_def)
    then have "g * g = D * D" by (metis abs_mult_self_eq minus_mult_minus)
    then have "D * D dvd D * 1" using g by simp
    then have "D dvd 1" using D by (simp only: dvd_times_left_cancel_iff prime_disc_def) auto
    then show False using D by (auto simp: prime_disc_def)
  qed
  then show ?thesis using D by (auto simp: good_disc_def prime_disc_def)
qed

lemma prime_disc_coprime:
  assumes D: "prime_disc D" and f: "posdef D f" "is_reduced f"
  shows "coprime (fa f) (fb f)"
proof -
  let ?g = "gcd (fa f) (fb f)"
  have a: "0 < fa f" and d: "fb f * fb f - 4 * fa f * fc f = D" using f(1) by (auto simp: posdef_def disc_def)
  have d': "fb f * fb f - fa f * (4 * fc f) = D" using d by (simp add: ac_simps)
  have "?g dvd fb f * fb f - fa f * (4 * fc f)" by (intro dvd_diff dvd_mult2) simp_all
  then have "?g dvd D" unfolding d' .
  then have "?g = 1 \<or> ?g = - D" using D by (auto simp: prime_disc_def)
  moreover have "?g \<noteq> - D"
  proof
    assume "?g = - D"
    have "?g \<le> fa f" using a by (intro zdvd_imp_le) simp_all
    with \<open>?g = - D\<close> have le: "- D \<le> fa f" by (simp only:)
    have "1 \<le> fa f" using a by simp
    then have "fa f * 1 \<le> fa f * fa f" using a by (intro mult_left_mono) auto
    then show False using reduced_a_bound [OF f] le a by linarith
  qed
  ultimately show ?thesis by (simp add: coprime_iff_gcd_eq_1)
qed

lemma orig_repeated_square_power:
  assumes D: "prime_disc D" and G: "gcdext_ok G"
  shows "posdef D f \<Longrightarrow> is_reduced f \<Longrightarrow>
    \<exists>r. orig_repeated_square G f n = Some r \<and> posdef D r \<and> is_reduced r \<and> class_pow D f (2 ^ n) r"
proof (induction n arbitrary: f)
  case 0
  then show ?case using class_pow_1 [OF prime_disc_good [OF D]] by simp
next
  case (Suc n)
  note good = prime_disc_good [OF D]
  obtain g where g: "square G f = Some g" "posdef D g" "is_reduced g" "class_mul D f f g"
    using square_correct [OF good G Suc.prems(1) prime_disc_coprime [OF D Suc.prems]] by blast
  obtain r where r: "orig_repeated_square G g n = Some r" "posdef D r" "is_reduced r" "class_pow D g (2 ^ n) r"
    using Suc.IH [OF g(2,3)] by blast
  have one: "class_pow D f 1 f" by (rule class_pow_1 [OF good Suc.prems(1)])
  have two: "class_pow D f (1 + 1) g" by (rule class_pow_add [OF good Suc.prems(1) one one g(4)])
  have e: "(1 + 1) * 2 ^ n = (2::nat) ^ Suc n" by simp
  from class_pow_mult [OF good Suc.prems(1) two r(4)] have "class_pow D f (2 ^ Suc n) r" unfolding e .
  then show ?case using g r by (simp add: orig_square_eq)
qed

end
