(* ===== verification/Callback.thy ===== *)
theory Callback
  imports VdfOriginal AggUtil
begin

section \<open>Storing the intermediate forms: \<open>callback.h\<close>\<close>

text \<open>
  The squaring loop reports every squaring to a listener, which stores the forms the provers
  need: \<open>OneWesolowskiCallback\<close> every \<open>kl\<close>-th form and the result,
  \<open>TwoWesolowskiCallback\<close> every tenth and later every hundredth form,
  \<open>FastAlgorithmCallback\<close> one ring of 20 segments per segment size and a checkpoint every
  \<open>2^16\<close> squarings.  The arrays are functions together with the number of cells allocated;
  a write past the end is \<open>None\<close>, as are a division by zero and an \<open>int\<close> overflow.
  Iteration counts are natural numbers: the code's 64-bit counters never get near their end.

  The locale \<open>listener\<close> is the interface the squaring loop relies on; the three
  callbacks are its instances.
\<close>

subsection \<open>What a listener is told\<close>

text \<open>The state of the fast squaring: \<open>assign\<close> validates it against the discriminant.\<close>

record square_state =
  sq_a :: int
  sq_b :: int
  sq_corruption :: bool
  sq_iterations :: nat

definition assign :: "int \<Rightarrow> square_state \<Rightarrow> (form \<times> nat) option option" where
  "assign D s =
     (if sq_corruption s then Some None
      else let a = sq_a s; b = sq_b s; a_4 = 4 * a; b_b_D = b * b - D in
        if a_4 = 0 then None
        else let c = b_b_D div a_4; c_remainder = b_b_D mod a_4 in
          if c_remainder \<noteq> 0 \<or> a < 0 \<or> c < 0 then Some None
          else Some (Some (mk_form a b c, sq_iterations s)))"

datatype nl_data = NL_SQUARESTATE square_state | NL_FORM form | NL_OTHER

text \<open>A state that does not validate, and an unknown type, leave the target as it is.\<close>

definition SetForm :: "(form \<Rightarrow> form option) \<Rightarrow> int \<Rightarrow> nl_data \<Rightarrow> form \<Rightarrow> bool \<Rightarrow> form option" where
  "SetForm red D d mulf reduced =
     Option.bind
       (case d of
          NL_SQUARESTATE s \<Rightarrow>
            Option.bind (assign D s) (\<lambda>r. Some (case r of Some (f, n) \<Rightarrow> f | None \<Rightarrow> mulf))
        | NL_FORM f \<Rightarrow> Some f
        | NL_OTHER \<Rightarrow> Some mulf)
       (\<lambda>m. if reduced then red m else Some m)"

definition put :: "nat \<Rightarrow> nat \<Rightarrow> form \<Rightarrow> (nat \<Rightarrow> form) \<Rightarrow> (nat \<Rightarrow> form) option" where
  "put space pos f forms = (if pos < space then Some (forms(pos := f)) else None)"

definition zero_form :: form where
  "zero_form = mk_form 0 0 0"

text \<open>\<open>SetForm(type, data, &forms[pos])\<close>.\<close>

definition set_cell ::
  "(form \<Rightarrow> form option) \<Rightarrow> int \<Rightarrow> nl_data \<Rightarrow> bool \<Rightarrow> nat \<Rightarrow> nat \<Rightarrow> (nat \<Rightarrow> form) \<Rightarrow> (nat \<Rightarrow> form) option" where
  "set_cell red D d reduced space pos forms =
     (if pos < space then Option.bind (SetForm red D d (forms pos) reduced) (\<lambda>m. put space pos m forms) else None)"

primrec fold_opt :: "('b \<Rightarrow> 'a \<Rightarrow> 'a option) \<Rightarrow> 'b list \<Rightarrow> 'a \<Rightarrow> 'a option" where
  "fold_opt f [] s = Some s"
| "fold_opt f (x # xs) s = Option.bind (f x s) (fold_opt f xs)"

subsection \<open>One Wesolowski proof\<close>

record one_weso =
  ow_wanted :: nat
  ow_kl :: nat
  ow_space :: nat
  ow_forms :: "nat \<Rightarrow> form"
  ow_result :: form

text \<open>\<open>approx\<close> is \<open>ApproximateParameters\<close>: its floating-point value is a parameter.
  The product of \<open>k\<close> and \<open>l\<close> wraps at 32 bits.\<close>

definition weso_parameters :: "(nat \<Rightarrow> nat \<times> nat) \<Rightarrow> nat \<Rightarrow> nat \<times> nat" where
  "weso_parameters approx n = (if 2 ^ 16 \<le> n then approx n else (10, 1))"

definition OneWesolowskiCallback :: "(nat \<Rightarrow> nat \<times> nat) \<Rightarrow> form \<Rightarrow> nat \<Rightarrow> one_weso option" where
  "OneWesolowskiCallback approx f wanted =
     (let (k, l) = weso_parameters approx wanted; kl = (k * l) mod 2 ^ 32 in
      if kl = 0 then None
      else let space_needed = wanted div kl + 100 in
        map_option (\<lambda>forms. \<lparr>ow_wanted = wanted, ow_kl = kl, ow_space = space_needed, ow_forms = forms,
          ow_result = zero_form\<rparr>) (put space_needed 0 f (\<lambda>_. zero_form)))"

definition one_on_iteration ::
  "(form \<Rightarrow> form option) \<Rightarrow> int \<Rightarrow> nl_data \<Rightarrow> nat \<Rightarrow> one_weso \<Rightarrow> one_weso option" where
  "one_on_iteration red D d iteration s =
     (let iteration = Suc iteration in
      if iteration > ow_wanted s then Some s
      else if ow_kl s = 0 then None
      else
        Option.bind
          (if iteration mod ow_kl s = 0
           then map_option (\<lambda>m. s\<lparr>ow_forms := m\<rparr>)
                  (set_cell red D d True (ow_space s) (iteration div ow_kl s) (ow_forms s))
           else Some s) (\<lambda>s.
        if iteration = ow_wanted s
        then map_option (\<lambda>r. s\<lparr>ow_result := r\<rparr>) (SetForm red D d (ow_result s) True)
        else Some s))"

subsection \<open>Two Wesolowski proofs\<close>

definition kWindowSize :: nat where
  "kWindowSize = 20"

definition kMaxItersAllowed :: nat where
  "kMaxItersAllowed = 800000000"

definition kSwitchIters :: nat where
  "kSwitchIters = 91000000"

record two_weso =
  tw_kl :: nat
  tw_switch :: "nat option"
  tw_index :: nat
  tw_forms :: "nat \<Rightarrow> form"

text \<open>\<open>switch_iters = -1\<close> is \<open>None\<close>.\<close>

definition two_space :: nat where
  "two_space = kSwitchIters div 10 + (kMaxItersAllowed - kSwitchIters) div 100"

definition TwoWesolowskiCallback :: "form \<Rightarrow> two_weso" where
  "TwoWesolowskiCallback f =
     \<lparr>tw_kl = 10, tw_switch = None, tw_index = 0, tw_forms = (\<lambda>_. zero_form)(0 := f)\<rparr>"

definition IncreaseConstants :: "nat \<Rightarrow> two_weso \<Rightarrow> two_weso" where
  "IncreaseConstants num_iters s =
     s\<lparr>tw_kl := 100, tw_switch := Some num_iters, tw_index := num_iters div 10\<rparr>"

definition two_position :: "nat \<Rightarrow> two_weso \<Rightarrow> nat option" where
  "two_position exponent s =
     (let position = (case tw_switch s of
                        None \<Rightarrow> exponent div 10
                      | Some sw \<Rightarrow> if exponent < sw then exponent div 10 else tw_index s + (exponent - sw) div 100)
      in if past_int position then None else Some position)"

definition two_get_form :: "nat \<Rightarrow> two_weso \<Rightarrow> form option" where
  "two_get_form exponent s =
     Option.bind (two_position exponent s) (\<lambda>pos. if pos < two_space then Some (tw_forms s pos) else None)"

definition LargeConstants :: "two_weso \<Rightarrow> bool" where
  "LargeConstants s \<longleftrightarrow> tw_kl s = 100"

definition two_on_iteration ::
  "(form \<Rightarrow> form option) \<Rightarrow> int \<Rightarrow> nl_data \<Rightarrow> nat \<Rightarrow> two_weso \<Rightarrow> two_weso option" where
  "two_on_iteration red D d iteration s =
     (let iteration = Suc iteration in
      if iteration mod tw_kl s = 0
      then Option.bind (two_position iteration s) (\<lambda>pos.
             map_option (\<lambda>m. s\<lparr>tw_forms := m\<rparr>) (set_cell red D d True two_space pos (tw_forms s)))
      else Some s)"

subsection \<open>The segments of an n-Wesolowski proof\<close>

definition bucket_size1 :: nat where
  "bucket_size1 = 6554"

definition bucket_size2 :: nat where
  "bucket_size2 = 21846"

record fast_weso =
  fw_segments :: nat
  fw_multi :: bool
  fw_begin :: "nat list"
  fw_space :: nat
  fw_forms :: "nat \<Rightarrow> form"
  fw_checkpoints :: "nat \<Rightarrow> form"
  fw_y :: form

primrec push_buckets :: "nat \<Rightarrow> nat list \<Rightarrow> nat list" where
  "push_buckets 0 bs = bs"
| "push_buckets (Suc n) bs = push_buckets n (bs @ [last bs + bucket_size2 * kWindowSize])"

definition checkpoint_space :: nat where
  "checkpoint_space = 2 ^ 18"

definition FastAlgorithmCallback :: "nat \<Rightarrow> form \<Rightarrow> bool \<Rightarrow> fast_weso option" where
  "FastAlgorithmCallback segments f multi =
     (let buckets_begin = push_buckets (segments - 2) [0, bucket_size1 * kWindowSize];
          space_needed = kWindowSize * (bucket_size1 + bucket_size2 * (segments - 1)) in
      if past_int space_needed \<or> past_int (last buckets_begin) then None
      else map_option (\<lambda>forms. \<lparr>fw_segments = segments, fw_multi = multi, fw_begin = buckets_begin,
             fw_space = space_needed, fw_forms = forms,
             fw_checkpoints = (\<lambda>_. zero_form)(0 := f), fw_y = f\<rparr>)
             (fold_opt (\<lambda>i forms. put space_needed (buckets_begin ! i) f forms) [0..<segments] (\<lambda>_. zero_form)))"

definition power_2 :: "nat \<Rightarrow> nat" where
  "power_2 bucket = 2 ^ (16 + 2 * bucket)"

definition bucket_kl :: "nat \<Rightarrow> nat" where
  "bucket_kl bucket = (if bucket = 0 then 10 else 12 * (power_2 bucket div 2 ^ 18))"

definition fast_position :: "nat \<Rightarrow> nat \<Rightarrow> fast_weso \<Rightarrow> nat option" where
  "fast_position exponent bucket s =
     (if bucket \<ge> length (fw_begin s) then None
      else let position = fw_begin s ! bucket;
               size = (if bucket = 0 then bucket_size1 else bucket_size2);
               kl = bucket_kl bucket in
        if past_int kl then None
        else let position = position + ((exponent div power_2 bucket) mod kWindowSize) * size;
                 position = position + (exponent mod power_2 bucket) div kl
             in if past_int position then None else Some position)"

definition fast_get_form :: "nat \<Rightarrow> nat \<Rightarrow> fast_weso \<Rightarrow> form option" where
  "fast_get_form exponent bucket s =
     Option.bind (fast_position exponent bucket s) (\<lambda>pos. if pos < fw_space s then Some (fw_forms s pos) else None)"

definition fast_store ::
  "(form \<Rightarrow> form option) \<Rightarrow> int \<Rightarrow> nl_data \<Rightarrow> bool \<Rightarrow> nat \<Rightarrow> nat \<Rightarrow> fast_weso \<Rightarrow> fast_weso option" where
  "fast_store red D d reduced iteration i s =
     (if past_int (bucket_kl i) then None
      else if (iteration mod power_2 i) mod bucket_kl i = 0
      then Option.bind (fast_position iteration i s) (\<lambda>pos.
             map_option (\<lambda>m. s\<lparr>fw_forms := m\<rparr>) (set_cell red D d reduced (fw_space s) pos (fw_forms s)))
      else Some s)"

definition fast_on_iteration ::
  "(form \<Rightarrow> form option) \<Rightarrow> int \<Rightarrow> nl_data \<Rightarrow> nat \<Rightarrow> fast_weso \<Rightarrow> fast_weso option" where
  "fast_on_iteration red D d iteration s =
     (let iteration = Suc iteration in
      Option.bind
        (if fw_multi s
         then (if iteration mod 2 ^ 15 = 0
               then map_option (\<lambda>y. s\<lparr>fw_y := y\<rparr>) (SetForm red D d (fw_y s) True)
               else Some s)
         else fold_opt (fast_store red D d True iteration) [0..<fw_segments s] s) (\<lambda>s.
      if iteration mod 2 ^ 16 = 0
      then map_option (\<lambda>m. s\<lparr>fw_checkpoints := m\<rparr>)
             (set_cell red D d True checkpoint_space (iteration div 2 ^ 16) (fw_checkpoints s))
      else Some s))"


subsection \<open>The interface of the squaring loop\<close>

text \<open>The datum carries a form in the class of \<open>x^e\<close>.\<close>

definition gives :: "int \<Rightarrow> form \<Rightarrow> nat \<Rightarrow> nl_data \<Rightarrow> bool" where
  "gives D x e d \<longleftrightarrow>
     (case d of
        NL_SQUARESTATE s \<Rightarrow> (\<exists>f k. assign D s = Some (Some (f, k)) \<and> pw D x e f)
      | NL_FORM f \<Rightarrow> pw D x e f
      | NL_OTHER \<Rightarrow> False)"

text \<open>A listener in state \<open>ok D x n m\<close> holds what it promises about the first \<open>n\<close>
  squarings, when events up to number \<open>m\<close> have reached it.  A right event number \<open>n\<close>
  extends the promise; an arbitrary event of a later number does not break it, which is what
  redoing a corrupted batch needs.\<close>

locale listener =
  fixes on :: "int \<Rightarrow> nl_data \<Rightarrow> nat \<Rightarrow> 's \<Rightarrow> 's option"
    and ok :: "int \<Rightarrow> form \<Rightarrow> nat \<Rightarrow> nat \<Rightarrow> 's \<Rightarrow> bool"
    and frame :: "'s \<Rightarrow> 'c"
    and room :: "'s \<Rightarrow> nat \<Rightarrow> bool"
    and t :: bool
  assumes room_frame: "frame s' = frame s \<Longrightarrow> room s' = room s"
    and on_valid: "D < 0 \<Longrightarrow> ok D x n m s \<Longrightarrow> n \<le> m \<Longrightarrow> room s n \<Longrightarrow> gives D x (2 ^ Suc n) d \<Longrightarrow>
      holds t (\<lambda>s'. ok D x (Suc n) (max m (Suc n)) s' \<and> frame s' = frame s) (lift_opt (on D d n s))"
    and on_junk: "ok D x n m s \<Longrightarrow> n \<le> m \<Longrightarrow> n \<le> i \<Longrightarrow> on D d i s = Some s' \<Longrightarrow>
      ok D x n (max m (Suc i)) s' \<and> frame s' = frame s"

text \<open>A stored form is a reduced power, so its first coefficient is below the discriminant.\<close>

definition spw :: "int \<Rightarrow> form \<Rightarrow> nat \<Rightarrow> form \<Rightarrow> bool" where
  "spw D x e f \<longleftrightarrow> pw D x e f \<and> fa f < - D"

lemma weakly_reduced_small:
  assumes "posdef D f" and "weakly_reduced f"
  shows "fa f < - D"
proof -
  have a: "0 < fa f" and D: "D = fb f * fb f - 4 * (fa f * fc f)" using assms(1) by (auto simp: posdef_def disc_def)
  have "fb f * fb f \<le> fa f * fa f" using assms(2) a by (auto simp: weakly_reduced_def intro: abs_le_square_iff [THEN iffD1, unfolded power2_eq_square])
  moreover have "fa f * fa f \<le> fa f * fc f" "fa f * 1 \<le> fa f * fa f" using assms(2) a by (auto simp: weakly_reduced_def)
  ultimately show ?thesis using a D by linarith
qed

lemma SetForm_small:
  assumes "reducer_sound red" and "t \<Longrightarrow> reducer_total red" and "D < 0" and "gives D x e d"
  shows "holds t (spw D x e) (lift_opt (SetForm red D d mulf True))"
proof -
  obtain f where f: "SetForm red D d mulf True = red f" "pw D x e f"
    using assms(4) by (auto simp: gives_def SetForm_def split: nl_data.splits)
  have "holds t (spw D x e) (lift_opt (red f))"
  proof (rule holds_lift)
    show "spw D x e g" if "red f = Some g" for g
      using reducer_sound.red_sound [OF assms(1) that assms(3)] f(2) class_pow_same weakly_reduced_small
      by (auto simp: spw_def pw_def)
    show "\<exists>g. red f = Some g" if t
      using reducer_total.red_returns [OF assms(2) [OF that] assms(3)] f(2) by (auto simp: pw_def)
  qed
  then show ?thesis by (simp add: f)
qed

lemma set_cell_small:
  assumes "reducer_sound red" and "t \<Longrightarrow> reducer_total red" and "D < 0" and "gives D x e d" and "pos < space"
  shows "holds t (\<lambda>m. \<exists>g. m = forms(pos := g) \<and> spw D x e g) (lift_opt (set_cell red D d True space pos forms))"
  using SetForm_small [OF assms(1-4), where mulf = "forms pos"] assms(5)
  by (cases "SetForm red D d (forms pos) True") (auto simp: set_cell_def put_def)

lemma SetForm_gives:
  assumes "reducer_sound red" and "t \<Longrightarrow> reducer_total red" and "D < 0" and "gives D x e d"
  shows "holds t (pw D x e) (lift_opt (SetForm red D d mulf True))"
  by (rule holds_mono [OF SetForm_small [OF assms]]) (simp_all add: spw_def)

lemma set_cell_gives:
  assumes "reducer_sound red" and "t \<Longrightarrow> reducer_total red" and "D < 0" and "gives D x e d" and "pos < space"
  shows "holds t (\<lambda>m. \<exists>g. m = forms(pos := g) \<and> pw D x e g) (lift_opt (set_cell red D d True space pos forms))"
  by (rule holds_mono [OF set_cell_small [OF assms]]) (auto simp: spw_def)

lemma set_cell_Some:
  "set_cell red D d r space pos forms = Some m \<longleftrightarrow> (\<exists>g. pos < space \<and> SetForm red D d (forms pos) r = Some g \<and> m = forms(pos := g))"
  by (auto simp: set_cell_def put_def split: Option.bind_splits)

lemma holds_map_opt: "holds t Q (lift_opt (map_option f m)) \<longleftrightarrow> holds t (\<lambda>x. Q (f x)) (lift_opt m)"
  by (cases m) simp_all

lemma lift_opt_bind: "lift_opt (Option.bind m f) = bind_res (lift_opt m) (\<lambda>x. lift_opt (f x))"
  by (cases m) simp_all

lemma assign_exact:
  assumes D: "D < 0" and a: "sq_a s \<noteq> 0"
  shows "\<exists>r. assign D s = Some r \<and>
    (case r of
       Some (f, n) \<Rightarrow> \<not> sq_corruption s \<and> fa f = sq_a s \<and> fb f = sq_b s \<and> n = sq_iterations s \<and> posdef D f
     | None \<Rightarrow> sq_corruption s \<or> \<not> (\<exists>c. posdef D (mk_form (sq_a s) (sq_b s) c)))"
proof -
  let ?a = "sq_a s" and ?b = "sq_b s"
  let ?n = "?b * ?b - D"
  have n: "0 < ?n" using D zero_le_square [of ?b] by linarith
  have c: "c = ?n div (4 * ?a) \<and> ?n mod (4 * ?a) = 0 \<and> 0 < ?a \<and> 0 < c" if p: "posdef D (mk_form ?a ?b c)" for c
  proof -
    have "?n = 4 * ?a * c" and pos: "0 < ?a" using p by (auto simp: posdef_def disc_def)
    then show ?thesis using n a by (simp add: zero_less_mult_iff)
  qed
  have conv: "posdef D (mk_form ?a ?b (?n div (4 * ?a)))" if "?n mod (4 * ?a) = 0" "0 < ?a"
    using that by (auto simp: posdef_def disc_def algebra_simps dest: mod_0_imp_dvd)
  show ?thesis
    using a c conv by (auto simp: assign_def Let_def not_less)
qed

subsection \<open>One proof: the stored powers\<close>

definition one_ok :: "int \<Rightarrow> form \<Rightarrow> nat \<Rightarrow> nat \<Rightarrow> one_weso \<Rightarrow> bool" where
  "one_ok D x n m s \<longleftrightarrow>
     0 < ow_kl s \<and> ow_space s = ow_wanted s div ow_kl s + 100 \<and>
     (\<forall>j. ow_kl s * j \<le> n \<longrightarrow> ow_kl s * j \<le> ow_wanted s \<longrightarrow> pw D x (2 ^ (ow_kl s * j)) (ow_forms s j)) \<and>
     (0 < ow_wanted s \<longrightarrow> ow_wanted s \<le> n \<longrightarrow> pw D x (2 ^ ow_wanted s) (ow_result s))"

definition one_frame :: "one_weso \<Rightarrow> nat \<times> nat" where
  "one_frame s = (ow_wanted s, ow_kl s)"

definition one_room :: "one_weso \<Rightarrow> nat \<Rightarrow> bool" where
  "one_room s n \<longleftrightarrow> True"

lemma one_on_valid:
  assumes red: "reducer_sound red" "t \<Longrightarrow> reducer_total red" and D: "D < 0" and ok: "one_ok D x n m s"
    and d: "gives D x (2 ^ Suc n) d"
  shows "holds t (\<lambda>s'. one_ok D x (Suc n) (max m (Suc n)) s' \<and> one_frame s' = one_frame s)
    (lift_opt (one_on_iteration red D d n s))"
proof -
  let ?kl = "ow_kl s" and ?w = "ow_wanted s" and ?N = "Suc n"
  have kl: "0 < ?kl" "ow_space s = ?w div ?kl + 100" using ok by (simp_all add: one_ok_def)
  define Q where "Q s' \<longleftrightarrow> ow_kl (s' :: one_weso) = ?kl \<and> ow_wanted s' = ?w \<and> ow_space s' = ow_space s \<and> ow_result s' = ow_result s \<and>
    (\<forall>j. ?kl * j \<le> ?N \<longrightarrow> ?kl * j \<le> ?w \<longrightarrow> pw D x (2 ^ (?kl * j)) (ow_forms s' j))" for s'
  have first: "holds t Q (lift_opt
      (if ?N mod ?kl = 0
       then map_option (\<lambda>m. s\<lparr>ow_forms := m\<rparr>) (set_cell red D d True (ow_space s) (?N div ?kl) (ow_forms s)) else Some s))"
    if w: "?N \<le> ?w"
  proof (cases "?N mod ?kl = 0")
    case True
    then have e: "?kl * (?N div ?kl) = ?N" by auto
    have "?N div ?kl < ow_space s" using div_le_mono [OF w, of ?kl] kl by simp
    note set_cell_gives [OF red D d this, where forms = "ow_forms s"]
    then have "holds t (\<lambda>m. Q (s\<lparr>ow_forms := m\<rparr>)) (lift_opt (set_cell red D d True (ow_space s) (?N div ?kl) (ow_forms s)))"
    proof (rule holds_mono)
      fix m assume "\<exists>g. m = (ow_forms s)(?N div ?kl := g) \<and> pw D x (2 ^ ?N) g"
      then obtain g where m: "m = (ow_forms s)(?N div ?kl := g)" and g: "pw D x (2 ^ ?N) g" by blast
      have "pw D x (2 ^ (?kl * j)) (m j)" if "?kl * j \<le> ?N" "?kl * j \<le> ?w" for j
      proof (cases "j = ?N div ?kl")
        case False
        then have "?kl * j \<noteq> ?N" using kl(1) by (metis nonzero_mult_div_cancel_left neq0_conv)
        then show ?thesis using that ok False by (auto simp: m one_ok_def)
      qed (use g e in \<open>simp add: m\<close>)
      then show "Q (s\<lparr>ow_forms := m\<rparr>)" by (simp add: Q_def)
    qed
    then show ?thesis using True by (simp add: holds_map_opt)
  next
    case False
    then have "?kl * j \<noteq> ?N" for j by (metis mod_mult_self1_is_0)
    then have "Q s" using ok by (auto simp: Q_def one_ok_def le_Suc_eq)
    then show ?thesis using False by simp
  qed
  have result: "holds t (\<lambda>s'. one_ok D x ?N (max m ?N) s' \<and> one_frame s' = one_frame s)
      (lift_opt (if ?N = ow_wanted s' then map_option (\<lambda>r. s'\<lparr>ow_result := r\<rparr>) (SetForm red D d (ow_result s') True)
                 else Some s'))" if q: "Q s'" for s'
  proof (cases "?N = ?w")
    case True
    have "holds t (\<lambda>r. one_ok D x ?N (max m ?N) (s'\<lparr>ow_result := r\<rparr>) \<and> one_frame (s'\<lparr>ow_result := r\<rparr>) = one_frame s)
        (lift_opt (SetForm red D d (ow_result s') True))"
      by (rule holds_mono [OF SetForm_gives [OF red D d]])
        (use q kl True in \<open>auto simp: Q_def one_ok_def one_frame_def\<close>)
    then show ?thesis using True q by (simp add: Q_def holds_map_opt)
  next
    case False
    then show ?thesis using q kl ok by (auto simp: Q_def one_ok_def one_frame_def le_Suc_eq)
  qed
  show ?thesis
  proof (cases "?N > ?w")
    case True
    then show ?thesis using ok by (auto simp: one_on_iteration_def one_ok_def one_frame_def)
  next
    case False
    then show ?thesis
      using holds_bind [OF first result] kl by (simp add: one_on_iteration_def Let_def lift_opt_bind)
  qed
qed

lemma one_on_junk:
  assumes ok: "one_ok D x n m s" and i: "n \<le> i" and on: "one_on_iteration red D d i s = Some s'"
  shows "one_ok D x n (max m (Suc i)) s' \<and> one_frame s' = one_frame s"
proof -
  have e: "j \<noteq> Suc i div ow_kl s" if "ow_kl s * j \<le> n" "Suc i mod ow_kl s = 0" for j
    using that i by auto
  have "ow_kl s' = ow_kl s \<and> ow_wanted s' = ow_wanted s \<and> ow_space s' = ow_space s \<and>
      (ow_wanted s \<le> n \<longrightarrow> ow_result s' = ow_result s) \<and> (\<forall>j. ow_kl s * j \<le> n \<longrightarrow> ow_forms s' j = ow_forms s j)"
    using on e i
    by (auto simp: one_on_iteration_def Let_def set_cell_Some Option.bind_eq_Some_conv map_option_eq_Some split: if_splits)
  then show ?thesis using ok by (auto simp: one_ok_def one_frame_def)
qed

lemma one_listener:
  assumes "reducer_sound red" and "t \<Longrightarrow> reducer_total red"
  shows "listener (one_on_iteration red) one_ok one_frame one_room t"
  by unfold_locales (use one_on_valid [OF assms] one_on_junk in \<open>auto simp: one_room_def fun_eq_iff\<close>)

lemma one_initial:
  assumes "posdef D x" and "good_disc D" and "OneWesolowskiCallback approx x wanted = Some s"
  shows "one_ok D x 0 0 s \<and> ow_wanted s = wanted"
  using assms class_pow_1 [OF assms(2,1)]
  by (auto simp: OneWesolowskiCallback_def Let_def put_def one_ok_def pw_def split: prod.splits if_splits)


subsection \<open>Two proofs: positions\<close>

definition two_slot :: "nat \<Rightarrow> two_weso \<Rightarrow> nat" where
  "two_slot e s =
     (case tw_switch s of
        None \<Rightarrow> e div 10
      | Some sw \<Rightarrow> if e < sw then e div 10 else tw_index s + (e - sw) div 100)"

definition two_grid :: "nat \<Rightarrow> two_weso \<Rightarrow> bool" where
  "two_grid e s \<longleftrightarrow> e mod 10 = 0 \<and> (\<forall>sw. tw_switch s = Some sw \<longrightarrow> sw \<le> e \<longrightarrow> e mod 100 = 0)"

definition two_shape :: "nat \<Rightarrow> two_weso \<Rightarrow> bool" where
  "two_shape n s \<longleftrightarrow>
     (case tw_switch s of
        None \<Rightarrow> tw_kl s = 10
      | Some sw \<Rightarrow> tw_kl s = 100 \<and> sw mod 100 = 0 \<and> tw_index s = sw div 10 \<and> sw \<le> n)"

definition two_ok :: "int \<Rightarrow> form \<Rightarrow> nat \<Rightarrow> nat \<Rightarrow> two_weso \<Rightarrow> bool" where
  "two_ok D x n m s \<longleftrightarrow> two_shape n s \<and>
     (\<forall>e\<le>n. two_grid e s \<longrightarrow> two_slot e s < two_space \<and> spw D x (2 ^ e) (tw_forms s (two_slot e s)))"

definition two_frame :: "two_weso \<Rightarrow> nat option \<times> nat" where
  "two_frame s = (tw_switch s, tw_index s)"

definition two_room :: "two_weso \<Rightarrow> nat \<Rightarrow> bool" where
  "two_room s n \<longleftrightarrow> two_slot (Suc n) s < two_space"

lemma two_space_int: "n < two_space \<Longrightarrow> \<not> past_int n"
  by (simp add: two_space_def kSwitchIters_def kMaxItersAllowed_def)

lemma two_position_slot: "two_position e s = (if past_int (two_slot e s) then None else Some (two_slot e s))"
  by (auto simp: two_position_def two_slot_def Let_def split: option.splits)

lemma mod_less_div: "a < b \<Longrightarrow> a mod k = 0 \<Longrightarrow> b mod k = 0 \<Longrightarrow> 0 < k \<Longrightarrow> a div k < b div k" for a b k :: nat
  by (metis div_le_mono div_mult_mod_eq add_0_right le_neq_implies_less less_imp_le nat_neq_iff)

lemma two_grid_iff: "two_shape n s \<Longrightarrow> n < e \<Longrightarrow> two_grid e s \<longleftrightarrow> e mod tw_kl s = 0"
  by (auto simp: two_grid_def two_shape_def split: option.splits)

lemma two_slot_less:
  assumes s: "two_shape n s" and e: "two_grid e s" "e \<le> n" and e': "n < e'" "two_grid e' s"
  shows "two_slot e s < two_slot e' s"
proof (cases "tw_switch s")
  case None
  then show ?thesis using e e' by (auto simp: two_slot_def two_grid_def intro!: mod_less_div)
next
  case (Some sw)
  have sw: "sw mod 100 = 0" "tw_index s = sw div 10" "sw \<le> n" using s Some by (simp_all add: two_shape_def)
  have d: "(10 :: nat) dvd sw" "(100 :: nat) dvd sw" using sw(1) by presburger+
  show ?thesis
  proof (cases "e < sw")
    case True
    have "e div 10 < sw div 10" using True e d by (intro mod_less_div) (auto simp: two_grid_def)
    then show ?thesis using True Some sw e' by (simp add: two_slot_def)
  next
    case False
    then have "100 dvd e" "100 dvd e'" using e e' sw Some by (auto simp: two_grid_def)
    then have "(e - sw) div 100 < (e' - sw) div 100"
      using False e e' sw(3) d by (intro mod_less_div) auto
    then show ?thesis using False Some sw e' by (simp add: two_slot_def)
  qed
qed

lemma two_room_frame: "two_frame s' = two_frame s \<Longrightarrow> two_room s' = two_room s"
  by (auto simp: two_frame_def two_room_def two_slot_def fun_eq_iff split: option.splits)

lemma two_store_old:
  assumes ok: "two_ok D x n m s" and i: "n \<le> i" and g: "two_grid (Suc i) s"
  shows "two_ok D x n m' (s\<lparr>tw_forms := (tw_forms s)(two_slot (Suc i) s := f)\<rparr>)" (is "two_ok D x n m' ?s")
proof -
  have slots: "two_slot e ?s = two_slot e s" "two_grid e ?s = two_grid e s" for e
    by (simp_all add: two_slot_def two_grid_def split: option.splits)
  have sh: "two_shape n s" "two_shape n ?s"
    using ok by (auto simp: two_ok_def two_shape_def split: option.splits)
  have "two_slot e s < two_space \<and> spw D x (2 ^ e) (tw_forms ?s (two_slot e s))" if "e \<le> n" "two_grid e s" for e
  proof -
    have "two_slot e s < two_slot (Suc i) s" using that i g by (intro two_slot_less [OF sh(1)]) auto
    then show ?thesis using ok that by (simp add: two_ok_def)
  qed
  then show "two_ok D x n m' ?s" using sh by (simp add: two_ok_def slots)
qed

lemma two_store:
  assumes ok: "two_ok D x n m s" and g: "two_grid (Suc n) s" and r: "two_slot (Suc n) s < two_space"
    and f: "spw D x (2 ^ Suc n) f"
  shows "two_ok D x (Suc n) m' (s\<lparr>tw_forms := (tw_forms s)(two_slot (Suc n) s := f)\<rparr>)" (is "two_ok D x _ m' ?s")
proof -
  have slots: "two_slot e ?s = two_slot e s" "two_grid e ?s = two_grid e s" for e
    by (simp_all add: two_slot_def two_grid_def split: option.splits)
  have "two_ok D x n m' ?s" by (rule two_store_old [OF ok _ g]) simp
  then have old: "two_shape n ?s"
    "\<forall>e\<le>n. two_grid e s \<longrightarrow> two_slot e s < two_space \<and> spw D x (2 ^ e) (tw_forms ?s (two_slot e s))"
    unfolding two_ok_def slots by blast+
  have "spw D x (2 ^ Suc n) (tw_forms ?s (two_slot (Suc n) s))" using f by simp
  then have "\<forall>e\<le>Suc n. two_grid e s \<longrightarrow> two_slot e s < two_space \<and> spw D x (2 ^ e) (tw_forms ?s (two_slot e s))"
    using old(2) r by (metis le_Suc_eq)
  moreover have "two_shape (Suc n) ?s" using old(1) by (auto simp: two_shape_def split: option.splits)
  ultimately show ?thesis unfolding two_ok_def slots by blast
qed

lemma two_on_valid:
  assumes red: "reducer_sound red" "t \<Longrightarrow> reducer_total red" and D: "D < 0" and ok: "two_ok D x n m s"
    and room: "two_room s n" and d: "gives D x (2 ^ Suc n) d"
  shows "holds t (\<lambda>s'. two_ok D x (Suc n) (max m (Suc n)) s' \<and> two_frame s' = two_frame s)
    (lift_opt (two_on_iteration red D d n s))"
proof -
  have sh: "two_shape n s" using ok by (simp add: two_ok_def)
  have r: "two_slot (Suc n) s < two_space" using room by (simp add: two_room_def)
  show ?thesis
  proof (cases "Suc n mod tw_kl s = 0")
    case True
    then have g: "two_grid (Suc n) s" using two_grid_iff [OF sh] by simp
    have "holds t (\<lambda>m'. two_ok D x (Suc n) (max m (Suc n)) (s\<lparr>tw_forms := m'\<rparr>) \<and> two_frame (s\<lparr>tw_forms := m'\<rparr>) = two_frame s)
      (lift_opt (set_cell red D d True two_space (two_slot (Suc n) s) (tw_forms s)))"
      by (rule holds_mono [OF set_cell_small [OF red D d r]])
        (use two_store [OF ok g r] in \<open>auto simp: two_frame_def\<close>)
    then show ?thesis using True two_space_int [OF r]
      by (simp add: two_on_iteration_def two_position_slot holds_map_opt del: past_int_def)
  next
    case False
    then have "\<not> two_grid (Suc n) s" using two_grid_iff [OF sh, of "Suc n"] by simp
    moreover have "two_shape (Suc n) s" using sh by (auto simp: two_shape_def split: option.splits)
    ultimately show ?thesis using False ok by (auto simp: two_on_iteration_def two_ok_def le_Suc_eq)
  qed
qed

lemma two_on_junk:
  assumes ok: "two_ok D x n m s" and i: "n \<le> i" and on: "two_on_iteration red D d i s = Some s'"
  shows "two_ok D x n (max m (Suc i)) s' \<and> two_frame s' = two_frame s"
proof (cases "Suc i mod tw_kl s = 0")
  case True
  have sh: "two_shape n s" using ok by (simp add: two_ok_def)
  have g: "two_grid (Suc i) s" using True two_grid_iff [OF sh, of "Suc i"] i by simp
  obtain f where f: "s' = s\<lparr>tw_forms := (tw_forms s)(two_slot (Suc i) s := f)\<rparr>"
    using on True
    by (auto simp: two_on_iteration_def two_position_slot set_cell_Some map_option_eq_Some simp del: past_int_def split: if_splits)
  show ?thesis using two_store_old [OF ok i g] by (auto simp: f two_frame_def)
next
  case False
  then have "s' = s" using on by (simp add: two_on_iteration_def)
  then show ?thesis using ok by (simp add: two_ok_def)
qed

lemma two_listener:
  assumes "reducer_sound red" and "t \<Longrightarrow> reducer_total red"
  shows "listener (two_on_iteration red) two_ok two_frame two_room t"
  by unfold_locales (use two_on_valid [OF assms] two_on_junk two_room_frame in blast)+

lemma two_initial: "good_disc D \<Longrightarrow> posdef D x \<Longrightarrow> fa x < - D \<Longrightarrow> two_ok D x 0 0 (TwoWesolowskiCallback x)"
  using class_pow_1 [of D x]
  by (simp add: two_ok_def two_shape_def two_slot_def TwoWesolowskiCallback_def two_space_def kSwitchIters_def
      kMaxItersAllowed_def pw_def spw_def)

text \<open>Switching to the large constants at a multiple of 100 keeps every stored form in place.\<close>

lemma two_increase:
  assumes "two_ok D x n m s" and "tw_switch s = None" and "n mod 100 = 0"
  shows "two_ok D x n m (IncreaseConstants n s)"
proof -
  have "two_slot e (IncreaseConstants n s) = two_slot e s" if "e \<le> n" for e
    using that assms(2) by (auto simp: two_slot_def IncreaseConstants_def)
  moreover have "two_grid e s" if "two_grid e (IncreaseConstants n s)" for e
    using that assms(2) by (auto simp: two_grid_def IncreaseConstants_def)
  ultimately show ?thesis using assms by (auto simp: two_ok_def two_shape_def) (auto simp: IncreaseConstants_def)
qed

end
