(* ===== verification/FastCallback.thy ===== *)
theory FastCallback
  imports Callback
begin

section \<open>The rings of segments of \<open>FastAlgorithmCallback\<close>\<close>

text \<open>
  Where \<open>GetPosition\<close> puts the forms of a segment size, that positions stay inside the
  bucket and inside the array, that two stored exponents of one window never share a cell,
  and that the callback therefore keeps, for every segment that is not 20 segments behind,
  exactly the powers its prover reads.
\<close>

subsection \<open>Positions\<close>

definition begin_of :: "nat \<Rightarrow> nat" where
  "begin_of b = (if b = 0 then 0 else 20 * 6554 + (b - 1) * (20 * 21846))"

definition bucket_size :: "nat \<Rightarrow> nat" where
  "bucket_size b = (if b = 0 then 6554 else 21846)"

definition slot :: "nat \<Rightarrow> nat \<Rightarrow> nat" where
  "slot b e = begin_of b + ((e div power_2 b) mod 20) * bucket_size b + (e mod power_2 b) div bucket_kl b"

definition on_grid :: "nat \<Rightarrow> nat \<Rightarrow> bool" where
  "on_grid b e \<longleftrightarrow> (e mod power_2 b) mod bucket_kl b = 0"

lemma power_2_pos [simp]: "0 < power_2 b"
  by (simp add: power_2_def)

lemma bucket_kl_value: "bucket_kl b = (if b = 0 then 10 else 12 * 4 ^ (b - 1))"
proof (cases b)
  case (Suc c)
  have "power_2 b = 2 ^ 18 * (2 ^ 2) ^ c" by (simp add: power_2_def Suc power_add power_mult)
  then show ?thesis by (simp add: bucket_kl_def Suc)
qed (simp add: bucket_kl_def)

lemma bucket_kl_pos [simp]: "0 < bucket_kl b"
  by (simp add: bucket_kl_value)

lemma power_2_kl: "power_2 b \<le> bucket_kl b * bucket_size b"
proof (cases b)
  case (Suc c)
  have "power_2 b = 2 ^ 18 * (2 ^ 2) ^ c" by (simp add: power_2_def Suc power_add power_mult)
  then show ?thesis by (simp add: bucket_kl_value bucket_size_def Suc)
qed (simp add: bucket_kl_value bucket_size_def power_2_def)

lemma bucket_kl_int: "b \<le> 14 \<Longrightarrow> \<not> past_int (bucket_kl b)"
proof -
  assume "b \<le> 14"
  then have "(4 :: nat) ^ (b - 1) \<le> 4 ^ 13" by (intro power_increasing) auto
  then show ?thesis by (simp add: bucket_kl_value)
qed

lemma offset_in_bucket: "(e mod power_2 b) div bucket_kl b < bucket_size b"
proof -
  have "e mod power_2 b < bucket_kl b * bucket_size b" using power_2_kl [of b] by (meson le_trans mod_less_divisor not_le power_2_pos)
  then show ?thesis by (simp add: less_mult_imp_div_less mult.commute)
qed

lemma slot_in_bucket: "begin_of b \<le> slot b e \<and> slot b e < begin_of (Suc b)"
proof -
  let ?q = "(e div power_2 b) mod 20"
  have "?q * bucket_size b + (e mod power_2 b) div bucket_kl b < ?q * bucket_size b + bucket_size b"
    using offset_in_bucket by simp
  also have "\<dots> = Suc ?q * bucket_size b" by simp
  also have "\<dots> \<le> 20 * bucket_size b"
    using mod_less_divisor [of 20 "e div power_2 b"] by (intro mult_right_mono) simp_all
  also have "begin_of b + \<dots> = begin_of (Suc b)" by (cases b) (simp_all add: begin_of_def bucket_size_def)
  finally show ?thesis by (simp add: slot_def)
qed

lemma begin_of_mono: "b \<le> c \<Longrightarrow> begin_of b \<le> begin_of c"
  by (auto simp: begin_of_def)

lemma slot_bucket: "slot b e = slot c f \<Longrightarrow> b = c"
proof (rule ccontr)
  assume eq: "slot b e = slot c f" and "b \<noteq> c"
  then have "Suc b \<le> c \<or> Suc c \<le> b" by auto
  then have "begin_of (Suc b) \<le> begin_of c \<or> begin_of (Suc c) \<le> begin_of b" using begin_of_mono by blast
  then show False using slot_in_bucket [of b e] slot_in_bucket [of c f] eq by auto
qed

lemma div_mod_unique: "q * s + r = q' * s + r' \<Longrightarrow> r < s \<Longrightarrow> r' < s \<Longrightarrow> q = q' \<and> r = r'" for q r s :: nat
  by (metis div_mult_self3 div_less add_0_right mult_0 add_left_imp_eq div_mult_self_is_m mod_less mod_mult_self3 not_less_zero)

lemma slot_same:
  assumes "slot b e = slot b f" and "on_grid b e" and "on_grid b f"
  shows "(e div power_2 b) mod 20 = (f div power_2 b) mod 20 \<and> e mod power_2 b = f mod power_2 b"
proof -
  have "((e div power_2 b) mod 20) * bucket_size b + (e mod power_2 b) div bucket_kl b =
      ((f div power_2 b) mod 20) * bucket_size b + (f mod power_2 b) div bucket_kl b"
    using assms(1) by (simp add: slot_def)
  from div_mod_unique [OF this offset_in_bucket offset_in_bucket]
  have "(e div power_2 b) mod 20 = (f div power_2 b) mod 20"
    and "(e mod power_2 b) div bucket_kl b = (f mod power_2 b) div bucket_kl b" by auto
  then show ?thesis using assms(2,3) unfolding on_grid_def by (metis add.right_neutral div_mult_mod_eq)
qed

lemma mod_20_window: "p mod 20 = q mod 20 \<Longrightarrow> p \<le> q \<Longrightarrow> q < p + 20 \<Longrightarrow> p = q" for p q :: nat
  using mod_eq_dvd_iff_nat [of p q 20] dvd_imp_le [of 20 "q - p"] by fastforce

text \<open>Within a window of 20 segments the cells of one bucket are distinct.\<close>

lemma slot_window:
  assumes "slot b e = slot b f" and "on_grid b e" and "on_grid b f" and "e \<le> f" and "f < (e div power_2 b + 20) * power_2 b"
  shows "e = f"
proof -
  let ?p = "e div power_2 b" and ?q = "f div power_2 b"
  have m: "?p mod 20 = ?q mod 20" "e mod power_2 b = f mod power_2 b" using slot_same [OF assms(1-3)] by auto
  have "?q < ?p + 20" using assms(5) by (simp add: less_mult_imp_div_less)
  moreover have "?p \<le> ?q" using assms(4) by (rule div_le_mono)
  ultimately have "?p = ?q" by (rule mod_20_window [OF m(1), rotated])
  then show ?thesis using m(2) by (metis div_mult_mod_eq)
qed

subsection \<open>The constructor\<close>

lemma push_buckets_begin: "push_buckets k (map begin_of [0..<Suc (Suc n)]) = map begin_of [0..<Suc (Suc (n + k))]"
proof (induction k arbitrary: n)
  case (Suc k)
  have "map begin_of [0..<Suc (Suc n)] @ [last (map begin_of [0..<Suc (Suc n)]) + bucket_size2 * kWindowSize] =
      map begin_of [0..<Suc (Suc (Suc n))]"
    by (simp add: begin_of_def bucket_size2_def kWindowSize_def)
  then show ?case using Suc [of "Suc n"] by (simp del: upt_Suc)
qed simp

lemma first_buckets: "[0, bucket_size1 * kWindowSize] = map begin_of [0..<Suc (Suc 0)]"
  by (simp add: begin_of_def bucket_size1_def kWindowSize_def)

definition fast_shape :: "fast_weso \<Rightarrow> bool" where
  "fast_shape s \<longleftrightarrow> 0 < fw_segments s \<and> fw_segments s \<le> 15 \<and>
     fw_begin s = map begin_of [0..<max 2 (fw_segments s)] \<and> fw_space s = begin_of (fw_segments s)"

lemma begin_of_int: "b \<le> 15 \<Longrightarrow> n < begin_of b \<Longrightarrow> \<not> past_int n"
  using begin_of_mono [of b 15] by (simp add: begin_of_def split: if_splits)

lemma fast_position_slot:
  assumes s: "fast_shape s" and b: "b < fw_segments s"
  shows "fast_position e b s = Some (slot b e) \<and> slot b e < fw_space s"
proof -
  have l: "b < length (fw_begin s)" "fw_begin s ! b = begin_of b" using s b by (auto simp: fast_shape_def simp del: upt_Suc)
  have sp: "slot b e < fw_space s"
    using slot_in_bucket [of b e] begin_of_mono [of "Suc b" "fw_segments s"] s b by (auto simp: fast_shape_def)
  have "\<not> past_int (slot b e)" using s sp begin_of_int [of "fw_segments s"] by (auto simp: fast_shape_def)
  moreover have "\<not> past_int (bucket_kl b)" using s b by (intro bucket_kl_int) (simp add: fast_shape_def)
  ultimately show ?thesis using l sp
    by (simp add: fast_position_def slot_def bucket_size_def bucket_size1_def bucket_size2_def kWindowSize_def Let_def
        del: past_int_def cong: if_cong)
qed


subsection \<open>The stored powers\<close>

definition forms_ok :: "int \<Rightarrow> form \<Rightarrow> nat \<Rightarrow> nat \<Rightarrow> nat \<Rightarrow> (nat \<Rightarrow> form) \<Rightarrow> bool" where
  "forms_ok D x n m segments forms \<longleftrightarrow>
     (\<forall>b < segments. \<forall>e\<le>n. on_grid b e \<longrightarrow> m < (e div power_2 b + 20) * power_2 b \<longrightarrow> pw D x (2 ^ e) (forms (slot b e)))"

text \<open>The end of the last half segment, for the workers of \<open>FastStorage\<close>.\<close>

definition y_ok :: "int \<Rightarrow> form \<Rightarrow> nat \<Rightarrow> nat \<Rightarrow> form \<Rightarrow> bool" where
  "y_ok D x n m y \<longleftrightarrow> (\<forall>r\<le>n. r mod 2 ^ 15 = 0 \<longrightarrow> m < r + 2 ^ 15 \<longrightarrow> pw D x (2 ^ r) y)"

definition fast_ok :: "int \<Rightarrow> form \<Rightarrow> nat \<Rightarrow> nat \<Rightarrow> fast_weso \<Rightarrow> bool" where
  "fast_ok D x n m s \<longleftrightarrow> fast_shape s \<and>
     (\<not> fw_multi s \<longrightarrow> forms_ok D x n m (fw_segments s) (fw_forms s)) \<and>
     (\<forall>c. c * 2 ^ 16 \<le> n \<longrightarrow> pw D x (2 ^ (c * 2 ^ 16)) (fw_checkpoints s c)) \<and>
     (fw_multi s \<longrightarrow> y_ok D x n m (fw_y s))"

definition fast_frame :: "fast_weso \<Rightarrow> nat \<times> bool" where
  "fast_frame s = (fw_segments s, fw_multi s)"

definition fast_room :: "fast_weso \<Rightarrow> nat \<Rightarrow> bool" where
  "fast_room s n \<longleftrightarrow> Suc n < checkpoint_space * 2 ^ 16"

lemma forms_ok_mono: "forms_ok D x n m segs forms \<Longrightarrow> m \<le> m' \<Longrightarrow> forms_ok D x n m' segs forms"
  by (auto simp: forms_ok_def)

text \<open>Writing the cell of a later iteration leaves every live form alone.\<close>

lemma forms_ok_write:
  assumes ok: "forms_ok D x n m segs forms" and N: "n < N" "N \<le> m" and g: "on_grid b N"
  shows "forms_ok D x n m segs (forms(slot b N := f))"
proof -
  have "slot c e \<noteq> slot b N" if "e \<le> n" "on_grid c e" "m < (e div power_2 c + 20) * power_2 c" for c e
  proof
    assume eq: "slot c e = slot b N"
    then have "c = b" by (rule slot_bucket)
    then have "e = N" using slot_window [of b e N] eq that N g by auto
    then show False using that(1) N(1) by simp
  qed
  then show ?thesis using ok by (simp add: forms_ok_def)
qed

lemma fold_opt_res: "lift_opt (fold_opt f xs s) = fold_res (\<lambda>x s. lift_opt (f x s)) xs s"
  by (induction xs arbitrary: s) (simp_all add: lift_opt_bind)

lemma fold_opt_induct:
  assumes "fold_opt f xs s = Some s'" and "Q s"
    and "\<And>x s s'. x \<in> set xs \<Longrightarrow> Q s \<Longrightarrow> f x s = Some s' \<Longrightarrow> Q s'"
  shows "Q s'"
  using assms by (induction xs arbitrary: s) (auto simp: Option.bind_eq_Some_conv)

definition same_frame :: "fast_weso \<Rightarrow> fast_weso \<Rightarrow> bool" where
  "same_frame s s' \<longleftrightarrow> fw_segments s' = fw_segments s \<and> fw_multi s' = fw_multi s \<and> fw_begin s' = fw_begin s \<and>
     fw_space s' = fw_space s \<and> fw_checkpoints s' = fw_checkpoints s \<and> fw_y s' = fw_y s"

lemma same_frame_shape: "same_frame s s' \<Longrightarrow> fast_shape s \<Longrightarrow> fast_shape s'"
  by (simp add: same_frame_def fast_shape_def)

lemma same_frame_forms [simp]: "same_frame s (s'\<lparr>fw_forms := f\<rparr>) = same_frame s s'"
  by (simp add: same_frame_def)

lemma fast_store_Some:
  assumes "fast_store red D d r N b s = Some s'" and "fast_shape s" and "b < fw_segments s"
  shows "s' = s \<or> on_grid b N \<and> (\<exists>f. s' = s\<lparr>fw_forms := (fw_forms s)(slot b N := f)\<rparr>)"
  using assms fast_position_slot [OF assms(2,3), of N]
  by (auto simp: fast_store_def set_cell_Some on_grid_def map_option_eq_Some split: if_splits)

text \<open>All buckets of one iteration, when the event is right.\<close>

definition stored_upto :: "int \<Rightarrow> form \<Rightarrow> nat \<Rightarrow> nat \<Rightarrow> nat \<Rightarrow> fast_weso \<Rightarrow> bool" where
  "stored_upto D x n m i s \<longleftrightarrow> forms_ok D x n m (fw_segments s) (fw_forms s) \<and>
     (\<forall>b<i. on_grid b (Suc n) \<longrightarrow> pw D x (2 ^ Suc n) (fw_forms s (slot b (Suc n))))"

lemma fast_store_cell:
  assumes red: "reducer_sound red" "t \<Longrightarrow> reducer_total red" and D: "D < 0"
    and d: "gives D x (2 ^ N) d" and s: "fast_shape s" and i: "i < fw_segments s"
  shows "holds t (\<lambda>s'. (\<not> on_grid i N \<and> s' = s) \<or>
      (on_grid i N \<and> (\<exists>f. pw D x (2 ^ N) f \<and> s' = s\<lparr>fw_forms := (fw_forms s)(slot i N := f)\<rparr>)))
    (lift_opt (fast_store red D d True N i s))"
proof -
  have kl: "\<not> past_int (bucket_kl i)" using s i by (intro bucket_kl_int) (simp add: fast_shape_def)
  have p: "fast_position N i s = Some (slot i N)" "slot i N < fw_space s" using fast_position_slot [OF s i] by auto
  show ?thesis
  proof (cases "on_grid i N")
    case True
    have "holds t (\<lambda>m'. \<exists>f. pw D x (2 ^ N) f \<and> s\<lparr>fw_forms := m'\<rparr> = s\<lparr>fw_forms := (fw_forms s)(slot i N := f)\<rparr>)
        (lift_opt (set_cell red D d True (fw_space s) (slot i N) (fw_forms s)))"
      by (rule holds_mono [OF set_cell_gives [OF red D d p(2)]]) auto
    then show ?thesis using True kl p(1)
      by (simp add: fast_store_def on_grid_def holds_map_opt del: past_int_def)
  next
    case False
    then show ?thesis using kl by (simp add: fast_store_def on_grid_def del: past_int_def)
  qed
qed

lemma fast_stores:
  assumes red: "reducer_sound red" "t \<Longrightarrow> reducer_total red" and D: "D < 0"
    and d: "gives D x (2 ^ Suc n) d" and s: "fast_shape s"
    and ok: "forms_ok D x n m (fw_segments s) (fw_forms s)" and m: "Suc n \<le> m"
  shows "holds t (\<lambda>s'. same_frame s s' \<and> forms_ok D x (Suc n) m (fw_segments s) (fw_forms s'))
    (lift_opt (fold_opt (fast_store red D d True (Suc n)) [0..<fw_segments s] s))"
proof -
  let ?P = "\<lambda>i s'. same_frame s s' \<and> stored_upto D x n m i s'"
  have "holds t (?P (fw_segments s)) (fold_res (\<lambda>i s. lift_opt (fast_store red D d True (Suc n) i s)) [0..<fw_segments s] s)"
  proof (rule holds_fold)
    show "?P 0 s" using ok by (simp add: same_frame_def stored_upto_def)
    fix i s' assume i: "i < fw_segments s" and p: "?P i s'"
    have s': "fast_shape s'" "i < fw_segments s'" using p i same_frame_shape [OF _ s] by (auto simp: same_frame_def)
    show "holds t (?P (Suc i)) (lift_opt (fast_store red D d True (Suc n) i s'))"
    proof (rule holds_mono [OF fast_store_cell [OF red D d s']])
      fix u
      assume "(\<not> on_grid i (Suc n) \<and> u = s') \<or> (on_grid i (Suc n) \<and> (\<exists>f. pw D x (2 ^ Suc n) f \<and>
        u = s'\<lparr>fw_forms := (fw_forms s')(slot i (Suc n) := f)\<rparr>))"
      then consider "\<not> on_grid i (Suc n)" "u = s'" | f where "on_grid i (Suc n)" "pw D x (2 ^ Suc n) f"
        "u = s'\<lparr>fw_forms := (fw_forms s')(slot i (Suc n) := f)\<rparr>" by blast
      then show "?P (Suc i) u"
      proof cases
        case 1
        then show ?thesis using p by (auto simp: stored_upto_def less_Suc_eq)
      next
        case 2
        have "slot b (Suc n) \<noteq> slot i (Suc n)" if "b < i" for b using slot_bucket [of b _ i] that by blast
        then show ?thesis using p 2 forms_ok_write [OF _ _ m 2(1), of D x n]
          by (auto simp: stored_upto_def less_Suc_eq)
      qed
    qed
  qed
  then have "holds t (?P (fw_segments s)) (lift_opt (fold_opt (fast_store red D d True (Suc n)) [0..<fw_segments s] s))"
    by (simp only: fold_opt_res)
  then show ?thesis
    by (rule holds_mono) (auto simp: same_frame_def stored_upto_def forms_ok_def le_Suc_eq)
qed

lemma fast_stores_old:
  assumes run: "fold_opt (fast_store red D d r N) [0..<fw_segments s] s = Some s'" and s: "fast_shape s"
    and ok: "forms_ok D x n m (fw_segments s) (fw_forms s)" and N: "n < N" "N \<le> m"
  shows "same_frame s s' \<and> forms_ok D x n m (fw_segments s) (fw_forms s')"
proof (rule fold_opt_induct [where Q = "\<lambda>s'. same_frame s s' \<and> forms_ok D x n m (fw_segments s) (fw_forms s')", OF run])
  show "same_frame s s \<and> forms_ok D x n m (fw_segments s) (fw_forms s)" using ok by (simp add: same_frame_def)
  fix b u u'
  assume b: "b \<in> set [0..<fw_segments s]" and u: "same_frame s u \<and> forms_ok D x n m (fw_segments s) (fw_forms u)"
    and st: "fast_store red D d r N b u = Some u'"
  have "fast_shape u" "b < fw_segments u" using u b same_frame_shape [OF _ s] by (auto simp: same_frame_def)
  from fast_store_Some [OF st this] show "same_frame s u' \<and> forms_ok D x n m (fw_segments s) (fw_forms u')"
    using u forms_ok_write [OF _ N] by auto
qed


subsection \<open>The whole handler\<close>

definition fast_mark :: "(form \<Rightarrow> form option) \<Rightarrow> int \<Rightarrow> nl_data \<Rightarrow> nat \<Rightarrow> fast_weso \<Rightarrow> fast_weso option" where
  "fast_mark red D d N s =
     (if fw_multi s
      then (if N mod 2 ^ 15 = 0 then map_option (\<lambda>y. s\<lparr>fw_y := y\<rparr>) (SetForm red D d (fw_y s) True) else Some s)
      else fold_opt (fast_store red D d True N) [0..<fw_segments s] s)"

definition fast_checkpoint :: "(form \<Rightarrow> form option) \<Rightarrow> int \<Rightarrow> nl_data \<Rightarrow> nat \<Rightarrow> fast_weso \<Rightarrow> fast_weso option" where
  "fast_checkpoint red D d N s =
     (if N mod 2 ^ 16 = 0
      then map_option (\<lambda>m. s\<lparr>fw_checkpoints := m\<rparr>)
             (set_cell red D d True checkpoint_space (N div 2 ^ 16) (fw_checkpoints s))
      else Some s)"

lemma fast_on_iteration_split:
  "fast_on_iteration red D d n s = Option.bind (fast_mark red D d (Suc n) s) (fast_checkpoint red D d (Suc n))"
  by (simp add: fast_on_iteration_def fast_mark_def fast_checkpoint_def [abs_def] Let_def)

text \<open>The state after the first half of the handler.\<close>

definition marked :: "int \<Rightarrow> form \<Rightarrow> nat \<Rightarrow> nat \<Rightarrow> fast_weso \<Rightarrow> fast_weso \<Rightarrow> bool" where
  "marked D x n m s s' \<longleftrightarrow> fast_shape s' \<and> fast_frame s' = fast_frame s \<and> fw_checkpoints s' = fw_checkpoints s \<and>
     (\<not> fw_multi s' \<longrightarrow> forms_ok D x n m (fw_segments s') (fw_forms s')) \<and>
     (fw_multi s' \<longrightarrow> y_ok D x n m (fw_y s'))"

lemma multiple_gap: "a mod k = 0 \<Longrightarrow> b mod k = 0 \<Longrightarrow> a < b \<Longrightarrow> a + k \<le> b" for a b k :: nat
  using dvd_imp_le [of k "b - a"] by (auto simp: mod_eq_0_iff_dvd)

lemma y_ok_new:
  assumes "Suc n mod 2 ^ 15 = 0" and "Suc n \<le> m" and "pw D x (2 ^ Suc n) y"
  shows "y_ok D x (Suc n) m y"
  unfolding y_ok_def
proof (intro allI impI)
  fix r
  assume r: "r \<le> Suc n" "r mod 2 ^ 15 = 0" "m < r + 2 ^ 15"
  have "r = Suc n" using multiple_gap [OF r(2) assms(1)] r assms(2) by linarith
  then show "pw D x (2 ^ r) y" using assms(3) by (simp only:)
qed

lemma y_ok_skip:
  assumes "Suc n mod 2 ^ 15 \<noteq> 0" and "y_ok D x n m y" and "m \<le> m'"
  shows "y_ok D x (Suc n) m' y"
  unfolding y_ok_def
proof (intro allI impI)
  fix r
  assume r: "r \<le> Suc n" "r mod 2 ^ 15 = 0" "m' < r + 2 ^ 15"
  have "r \<noteq> Suc n" using r(2) assms(1) by metis
  with r(1) have "r \<le> n" by (metis le_SucE)
  moreover have "m < r + 2 ^ 15" using assms(3) r(3) by (rule le_less_trans)
  ultimately show "pw D x (2 ^ r) y" using assms(2) r(2) unfolding y_ok_def by (elim allE impE) assumption
qed

lemma y_ok_later:
  assumes "y_ok D x n m y" and "m \<le> m'"
  shows "y_ok D x n m' y"
  using assms unfolding y_ok_def by (meson le_less_trans)

lemma y_ok_junk:
  assumes "Suc i mod 2 ^ 15 = 0" and "n \<le> i" and "Suc i \<le> m"
  shows "y_ok D x n m y"
  unfolding y_ok_def
proof (intro allI impI)
  fix r
  assume r: "r \<le> n" "r mod 2 ^ 15 = 0" "m < r + 2 ^ 15"
  then show "pw D x (2 ^ r) y" using multiple_gap [OF r(2) assms(1)] assms(2,3) by linarith
qed

lemma marked_multi:
  assumes "fast_ok D x n m s" and "fw_multi s" and "y_ok D x n' m' y"
  shows "marked D x n' m' s (s\<lparr>fw_y := y\<rparr>)"
  using assms by (simp add: marked_def fast_ok_def fast_shape_def fast_frame_def)

lemma fast_ok_forms:
  "fast_ok D x n m s \<Longrightarrow> \<not> fw_multi s \<Longrightarrow> fast_shape s \<and> forms_ok D x n m (fw_segments s) (fw_forms s)"
  by (simp add: fast_ok_def)

lemma fast_mark_valid:
  assumes red: "reducer_sound red" "t \<Longrightarrow> reducer_total red" and D: "D < 0" and ok: "fast_ok D x n m s"
    and nm: "n \<le> m" and d: "gives D x (2 ^ Suc n) d"
  shows "holds t (marked D x (Suc n) (max m (Suc n)) s) (lift_opt (fast_mark red D d (Suc n) s))"
proof (cases "fw_multi s")
  case False
  have "forms_ok D x n (max m (Suc n)) (fw_segments s) (fw_forms s)"
    using fast_ok_forms [OF ok False] by (blast intro: forms_ok_mono max.cobounded1)
  from fast_stores [OF red D d _ this] ok
  have "holds t (\<lambda>s'. same_frame s s' \<and> forms_ok D x (Suc n) (max m (Suc n)) (fw_segments s) (fw_forms s'))
    (lift_opt (fold_opt (fast_store red D d True (Suc n)) [0..<fw_segments s] s))" by (simp add: fast_ok_def)
  then have "holds t (marked D x (Suc n) (max m (Suc n)) s)
    (lift_opt (fold_opt (fast_store red D d True (Suc n)) [0..<fw_segments s] s))"
    by (rule holds_mono) (use ok False same_frame_shape in \<open>auto simp: marked_def same_frame_def fast_frame_def fast_ok_def fast_shape_def\<close>)
  then show ?thesis using False by (simp add: fast_mark_def)
next
  case True
  note multi = this
  let ?M = "max m (Suc n)"
  show ?thesis
  proof (cases "Suc n mod 2 ^ 15 = 0")
    case True
    have "holds t (\<lambda>y. marked D x (Suc n) ?M s (s\<lparr>fw_y := y\<rparr>)) (lift_opt (SetForm red D d (fw_y s) True))"
      by (rule holds_mono [OF SetForm_gives [OF red D d]]) (blast intro: marked_multi [OF ok multi] y_ok_new [OF True] max.cobounded2)+
    then show ?thesis using True multi by (simp only: fast_mark_def refl if_True holds_map_opt)
  next
    case False
    have "y_ok D x n m (fw_y s)" using ok multi by (simp add: fast_ok_def)
    then have "y_ok D x (Suc n) ?M (fw_y s)" by (rule y_ok_skip [OF False]) simp
    then have "marked D x (Suc n) ?M s (s\<lparr>fw_y := fw_y s\<rparr>)" by (rule marked_multi [OF ok multi])
    then have "marked D x (Suc n) ?M s s" by simp
    then show ?thesis using False multi by (simp only: fast_mark_def if_True if_False lift_opt_simps holds_ret)
  qed
qed

lemma fast_checkpoint_valid:
  assumes red: "reducer_sound red" "t \<Longrightarrow> reducer_total red" and D: "D < 0" and ok: "fast_ok D x n m s"
    and room: "fast_room s n" and d: "gives D x (2 ^ Suc n) d" and mk: "marked D x (Suc n) (max m (Suc n)) s s'"
  shows "holds t (\<lambda>u. fast_ok D x (Suc n) (max m (Suc n)) u \<and> fast_frame u = fast_frame s)
    (lift_opt (fast_checkpoint red D d (Suc n) s'))"
proof (cases "Suc n mod 2 ^ 16 = 0")
  case True
  then have e: "Suc n div 2 ^ 16 * 2 ^ 16 = Suc n" by (metis add.right_neutral div_mult_mod_eq)
  have sp: "Suc n div 2 ^ 16 < checkpoint_space" using room by (simp add: fast_room_def less_mult_imp_div_less)
  have "fast_ok D x (Suc n) (max m (Suc n)) (s'\<lparr>fw_checkpoints := (fw_checkpoints s')(Suc n div 2 ^ 16 := g)\<rparr>)
      \<and> fast_frame (s'\<lparr>fw_checkpoints := (fw_checkpoints s')(Suc n div 2 ^ 16 := g)\<rparr>) = fast_frame s"
    if g: "pw D x (2 ^ Suc n) g" for g
  proof -
    have "pw D x (2 ^ (c * 2 ^ 16)) (((fw_checkpoints s')(Suc n div 2 ^ 16 := g)) c)" if c: "c * 2 ^ 16 \<le> Suc n" for c
    proof (cases "c = Suc n div 2 ^ 16")
      case True
      have "c * 2 ^ 16 = Suc n" unfolding True by (rule e)
      then show ?thesis using g True by (simp only: fun_upd_same)
    next
      case False
      then have "c * 2 ^ 16 \<noteq> Suc n" by (metis nonzero_mult_div_cancel_right power_not_zero zero_neq_numeral)
      then show ?thesis using c False ok mk by (simp add: fast_ok_def marked_def)
    qed
    then show ?thesis using mk unfolding fast_ok_def marked_def by (auto simp: fast_shape_def fast_frame_def)
  qed
  then have "holds t (\<lambda>m'. fast_ok D x (Suc n) (max m (Suc n)) (s'\<lparr>fw_checkpoints := m'\<rparr>) \<and>
      fast_frame (s'\<lparr>fw_checkpoints := m'\<rparr>) = fast_frame s)
    (lift_opt (set_cell red D d True checkpoint_space (Suc n div 2 ^ 16) (fw_checkpoints s')))"
    by (intro holds_mono [OF set_cell_gives [OF red D d sp]]) auto
  then show ?thesis using True by (simp only: fast_checkpoint_def refl if_True holds_map_opt)
next
  case False
  then have "c * 2 ^ 16 \<noteq> Suc n" for c by (metis mod_mult_self2_is_0)
  then have "fast_ok D x (Suc n) (max m (Suc n)) s' \<and> fast_frame s' = fast_frame s"
    using ok mk by (auto simp: fast_ok_def marked_def le_Suc_eq)
  then show ?thesis using False by (simp only: fast_checkpoint_def if_False lift_opt_simps holds_ret)
qed

lemma fast_on_valid:
  assumes red: "reducer_sound red" "t \<Longrightarrow> reducer_total red" and D: "D < 0" and ok: "fast_ok D x n m s"
    and nm: "n \<le> m" and room: "fast_room s n" and d: "gives D x (2 ^ Suc n) d"
  shows "holds t (\<lambda>s'. fast_ok D x (Suc n) (max m (Suc n)) s' \<and> fast_frame s' = fast_frame s)
    (lift_opt (fast_on_iteration red D d n s))"
proof -
  have "holds t (\<lambda>u. fast_ok D x (Suc n) (max m (Suc n)) u \<and> fast_frame u = fast_frame s)
      (bind_res (lift_opt (fast_mark red D d (Suc n) s)) (\<lambda>s. lift_opt (fast_checkpoint red D d (Suc n) s)))"
    by (rule holds_bind [OF fast_mark_valid [OF red D ok nm d]])
      (blast intro: fast_checkpoint_valid [OF red D ok room d])+
  then show ?thesis unfolding fast_on_iteration_split lift_opt_bind .
qed

lemma fast_mark_junk:
  assumes ok: "fast_ok D x n m s" and i: "n \<le> i" and run: "fast_mark red D d (Suc i) s = Some s'"
  shows "marked D x n (max m (Suc i)) s s'"
proof (cases "fw_multi s")
  case False
  have "forms_ok D x n (max m (Suc i)) (fw_segments s) (fw_forms s)"
    using fast_ok_forms [OF ok False] by (blast intro: forms_ok_mono max.cobounded1)
  from fast_stores_old [OF _ _ this, of red d True "Suc i" s'] run False ok i
  have "same_frame s s' \<and> forms_ok D x n (max m (Suc i)) (fw_segments s) (fw_forms s')"
    by (simp add: fast_mark_def fast_ok_def)
  then show ?thesis using False ok same_frame_shape by (auto simp: marked_def same_frame_def fast_frame_def fast_ok_def fast_shape_def)
next
  case True
  note multi = this
  let ?M = "max m (Suc i)"
  show ?thesis
  proof (cases "Suc i mod 2 ^ 15 = 0")
    case True
    then obtain y where "s' = s\<lparr>fw_y := y\<rparr>" using run multi by (simp only: fast_mark_def refl if_True map_option_eq_Some) blast
    then show ?thesis using marked_multi [OF ok multi y_ok_junk [OF True i max.cobounded2]] by simp
  next
    case False
    then have s': "s' = s\<lparr>fw_y := fw_y s\<rparr>" using run multi by (simp only: fast_mark_def if_True if_False) simp
    have "y_ok D x n m (fw_y s)" using ok multi by (simp add: fast_ok_def)
    then show ?thesis unfolding s' by (blast intro: marked_multi [OF ok multi] y_ok_later max.cobounded1)
  qed
qed

lemma fast_on_junk:
  assumes ok: "fast_ok D x n m s" and i: "n \<le> i" and run: "fast_on_iteration red D d i s = Some s'"
  shows "fast_ok D x n (max m (Suc i)) s' \<and> fast_frame s' = fast_frame s"
proof -
  obtain u where u: "fast_mark red D d (Suc i) s = Some u" and s': "fast_checkpoint red D d (Suc i) u = Some s'"
    using run by (auto simp: fast_on_iteration_split Option.bind_eq_Some_conv)
  note mk = fast_mark_junk [OF ok i u]
  have "c * 2 ^ 16 \<le> n \<longrightarrow> fw_checkpoints s' c = fw_checkpoints u c" for c
  proof (cases "Suc i mod 2 ^ 16 = 0")
    case True
    have "c \<noteq> Suc i div 2 ^ 16" if "c * 2 ^ 16 \<le> n"
    proof
      assume "c = Suc i div 2 ^ 16"
      then have "c * 2 ^ 16 = Suc i" using True by (metis add.right_neutral div_mult_mod_eq)
      then show False using that i by linarith
    qed
    then show ?thesis using s' True by (simp only: fast_checkpoint_def refl if_True map_option_eq_Some set_cell_Some) auto
  next
    case False
    then show ?thesis using s' by (simp only: fast_checkpoint_def if_False) simp
  qed
  moreover have "\<exists>f. s' = u\<lparr>fw_checkpoints := f\<rparr>"
  proof (cases "Suc i mod 2 ^ 16 = 0")
    case True
    then show ?thesis using s' by (simp only: fast_checkpoint_def refl if_True map_option_eq_Some) blast
  next
    case False
    then have "s' = u\<lparr>fw_checkpoints := fw_checkpoints u\<rparr>" using s' by (simp only: fast_checkpoint_def if_False) simp
    then show ?thesis by blast
  qed
  ultimately show ?thesis
    using mk ok unfolding fast_ok_def marked_def by (elim exE) (auto simp: fast_shape_def fast_frame_def)
qed

lemma fast_listener:
  assumes "reducer_sound red" and "t \<Longrightarrow> reducer_total red"
  shows "listener (fast_on_iteration red) fast_ok fast_frame fast_room t"
  by unfold_locales (use fast_on_valid [OF assms] fast_on_junk in \<open>auto simp: fast_room_def fun_eq_iff\<close>)

subsection \<open>The initial state\<close>

lemma slot_0: "slot b 0 = begin_of b"
  by (simp add: slot_def)

lemma init_cells:
  assumes "fold_opt (\<lambda>i forms. put sp (map begin_of [0..<k] ! i) x forms) [0..<n] g = Some forms" and "n \<le> k" and "b < n"
  shows "forms (begin_of b) = x"
proof -
  have "lift_opt (fold_opt (\<lambda>i forms. put sp (map begin_of [0..<k] ! i) x forms) [0..<n] g) = ret forms" using assms(1) by simp
  moreover have "holds False (\<lambda>forms. \<forall>b<n. forms (begin_of b) = x)
      (fold_res (\<lambda>i forms. lift_opt (put sp (map begin_of [0..<k] ! i) x forms)) [0..<n] g)"
  proof (rule holds_fold [where P = "\<lambda>n forms. \<forall>b<n. forms (begin_of b) = x"])
    fix i h assume "i < n" and "\<forall>b<i. h (begin_of b) = x"
    then show "holds False (\<lambda>forms. \<forall>b<Suc i. forms (begin_of b) = x) (lift_opt (put sp (map begin_of [0..<k] ! i) x h))"
      using assms(2) by (auto simp: put_def less_Suc_eq simp del: upt_Suc)
  qed simp
  ultimately show ?thesis using assms(3) by (simp add: fold_opt_res)
qed

lemma fast_initial:
  assumes D: "good_disc D" and x: "posdef D x" and seg: "0 < segments" "segments \<le> 15"
    and s: "FastAlgorithmCallback segments x multi = Some s"
  shows "fast_ok D x 0 0 s \<and> fw_segments s = segments \<and> fw_multi s = multi"
proof -
  have bs: "push_buckets (segments - 2) [0, bucket_size1 * kWindowSize] = map begin_of [0..<max 2 segments]"
    using seg unfolding first_buckets push_buckets_begin by (intro arg_cong [where f = "\<lambda>n. map begin_of [0..<n]"]) auto
  have sp: "kWindowSize * (bucket_size1 + bucket_size2 * (segments - 1)) = begin_of segments"
    using seg by (simp add: begin_of_def kWindowSize_def bucket_size1_def bucket_size2_def)
  obtain forms where f: "fold_opt (\<lambda>i forms. put (begin_of segments) (map begin_of [0..<max 2 segments] ! i) x forms)
      [0..<segments] (\<lambda>_. zero_form) = Some forms"
    and s': "s = \<lparr>fw_segments = segments, fw_multi = multi, fw_begin = map begin_of [0..<max 2 segments],
      fw_space = begin_of segments, fw_forms = forms, fw_checkpoints = (\<lambda>_. zero_form)(0 := x), fw_y = x\<rparr>"
    using s unfolding FastAlgorithmCallback_def Let_def bs sp by (auto simp del: past_int_def split: if_splits)
  have cells: "forms (begin_of b) = x" if "b < segments" for b
    using init_cells [OF f _ that] by simp
  have p: "pw D x 1 x" using class_pow_1 [OF D x] x by (simp add: pw_def)
  have "forms_ok D x 0 0 segments forms" using cells p by (simp add: forms_ok_def slot_0)
  then show ?thesis using p seg unfolding s' fast_ok_def
    by (auto simp: fast_shape_def y_ok_def)
qed

end
