(* ===== verification/Squaring.thy ===== *)
theory Squaring
  imports FastCallback
begin

section \<open>The squaring loop of \<open>vdf.h\<close>\<close>

text \<open>
  \<open>repeated_square\<close> squares in batches of \<open>checkpoint_interval\<close>, with a fast engine
  that runs generated machine code on two threads and a slow one, \<open>repeated_square_original\<close>.
  A batch the fast engine reports as corrupted is done again from its start; a batch it ends
  early is continued by one slow squaring.  After each \<open>2^15\<close> squarings the loop publishes
  its progress, hands a checkpoint to the storage workers, and, for the 2-Wesolowski
  callback, switches to the large constants or ends.

  The fast engine (\<open>repeated_square_fast\<close> over generated assembly) is the parameter
  \<open>fast\<close>: from a form, the number of squarings done so far and the size of the batch, it
  yields the data its listener calls carry, the number of squarings it reports (\<open>None\<close> for
  \<open>~0\<close>) and the form it leaves.  \<open>fast_spec\<close> states what its comments promise.
\<close>

subsection \<open>The slow engine and a batch\<close>

definition original_step ::
  "gcdext \<Rightarrow> (nl_data \<Rightarrow> nat \<Rightarrow> 's \<Rightarrow> 's option) \<Rightarrow> nat \<Rightarrow> nat \<Rightarrow> form \<times> 's \<Rightarrow> (form \<times> 's) option" where
  "original_step G on base i = (\<lambda>(f, s).
     Option.bind (orig_square G f) (\<lambda>f. map_option (\<lambda>s. (f, s)) (on (NL_FORM f) (base + i) s)))"

definition repeated_square_original ::
  "gcdext \<Rightarrow> (nl_data \<Rightarrow> nat \<Rightarrow> 's \<Rightarrow> 's option) \<Rightarrow> form \<Rightarrow> nat \<Rightarrow> nat \<Rightarrow> 's \<Rightarrow> (form \<times> 's) option" where
  "repeated_square_original G on f base iterations s =
     fold_opt (original_step G on base) [0..<iterations] (f, s)"

type_synonym fast_engine = "form \<Rightarrow> nat \<Rightarrow> nat \<Rightarrow> nl_data list \<times> nat option \<times> form"

definition notify :: "(nl_data \<Rightarrow> nat \<Rightarrow> 's \<Rightarrow> 's option) \<Rightarrow> nat \<Rightarrow> nl_data list \<Rightarrow> 's \<Rightarrow> 's option" where
  "notify on base ds s = fold_opt (\<lambda>i. on (ds ! i) (base + i)) [0..<length ds] s"

definition square_batch ::
  "gcdext \<Rightarrow> (nl_data \<Rightarrow> nat \<Rightarrow> 's \<Rightarrow> 's option) \<Rightarrow> fast_engine \<Rightarrow> nat \<Rightarrow> nat \<Rightarrow> form \<Rightarrow> 's \<Rightarrow> (nat \<times> form \<times> 's) option" where
  "square_batch G on fast num_iterations batch_size f s =
     (let (ds, actual_iterations, f) = fast f num_iterations batch_size in
      Option.bind (notify on num_iterations ds s) (\<lambda>s.
      Option.bind
        (case actual_iterations of
           None \<Rightarrow> map_option (\<lambda>(f, s). (batch_size, f, s)) (repeated_square_original G on f num_iterations batch_size s)
         | Some n \<Rightarrow> Some (n, f, s)) (\<lambda>(n, f, s).
      if n < batch_size
      then map_option (\<lambda>(f, s). (Suc n, f, s)) (repeated_square_original G on f (num_iterations + n) 1 s)
      else Some (n, f, s))))"

subsection \<open>The three callbacks\<close>

datatype weso = One one_weso | Two two_weso | Fast fast_weso

definition on_iteration :: "(form \<Rightarrow> form option) \<Rightarrow> int \<Rightarrow> nl_data \<Rightarrow> nat \<Rightarrow> weso \<Rightarrow> weso option" where
  "on_iteration red D d i w =
     (case w of
        One s \<Rightarrow> map_option One (one_on_iteration red D d i s)
      | Two s \<Rightarrow> map_option Two (two_on_iteration red D d i s)
      | Fast s \<Rightarrow> map_option Fast (fast_on_iteration red D d i s))"

subsection \<open>The loop\<close>

text \<open>\<open>rs_iterations\<close> is \<open>num_iterations\<close>, \<open>rs_reported\<close> is \<open>weso->iterations\<close>,
  \<open>rs_submitted\<close> the checkpoints handed to \<open>FastStorage\<close>, \<open>rs_events\<close> the number of
  notifications of the event loop; \<open>rs_done\<close> is the return at the maximum.  Whether
  \<open>fast_algorithm\<close> or \<open>two_weso\<close> is set is the constructor of the callback.\<close>

record rs_state =
  rs_f :: form
  rs_iterations :: nat
  rs_last :: nat
  rs_weso :: weso
  rs_reported :: nat
  rs_submitted :: "(form \<times> nat) list"
  rs_events :: nat
  rs_done :: bool

definition checkpoint_interval :: nat where
  "checkpoint_interval = 10000"

definition rs_init :: "form \<Rightarrow> weso \<Rightarrow> rs_state" where
  "rs_init f w = \<lparr>rs_f = f, rs_iterations = 0, rs_last = 0, rs_weso = w, rs_reported = 0, rs_submitted = [],
     rs_events = 0, rs_done = False\<rparr>"

definition n_weso_step :: "bool \<Rightarrow> rs_state \<Rightarrow> rs_state" where
  "n_weso_step has_storage s =
     (case rs_weso s of
        Fast w \<Rightarrow>
          if has_storage then s\<lparr>rs_submitted := rs_submitted s @ [(fw_y w, rs_last s)]\<rparr>
          else if rs_last s mod 2 ^ 16 = 0 then s\<lparr>rs_events := Suc (rs_events s)\<rparr>
          else s
      | _ \<Rightarrow> s)"

definition switch_step :: "gcdext \<Rightarrow> (form \<Rightarrow> form option) \<Rightarrow> int \<Rightarrow> two_weso \<Rightarrow> rs_state \<Rightarrow> rs_state option" where
  "switch_step G red D w s =
     (if rs_iterations s \<ge> kSwitchIters \<and> \<not> LargeConstants w
      then let round_up = (100 - rs_iterations s mod 100) mod 100 in
        Option.bind
          (if round_up > 0
           then repeated_square_original G (two_on_iteration red D) (rs_f s) (rs_iterations s) round_up w
           else Some (rs_f s, w)) (\<lambda>(f, w).
        let n = rs_iterations s + round_up in
        Some (s\<lparr>rs_f := f, rs_iterations := n, rs_weso := Two (IncreaseConstants n w), rs_reported := n\<rparr>))
      else Some s)"

definition two_weso_step :: "gcdext \<Rightarrow> (form \<Rightarrow> form option) \<Rightarrow> int \<Rightarrow> rs_state \<Rightarrow> rs_state option" where
  "two_weso_step G red D s =
     (case rs_weso s of
        Two w \<Rightarrow>
          Option.bind (switch_step G red D w s) (\<lambda>s.
          if rs_iterations s \<ge> kMaxItersAllowed - 500000 then Some (s\<lparr>rs_done := True\<rparr>) else Some s)
      | _ \<Rightarrow> Some s)"

definition square_pass ::
  "gcdext \<Rightarrow> (form \<Rightarrow> form option) \<Rightarrow> fast_engine \<Rightarrow> bool \<Rightarrow> int \<Rightarrow> rs_state \<Rightarrow> rs_state option" where
  "square_pass G red fast has_storage D s =
     Option.bind
       (square_batch G (on_iteration red D) fast (rs_iterations s) checkpoint_interval (rs_f s) (rs_weso s))
       (\<lambda>(actual_iterations, f, w).
     let s = s\<lparr>rs_f := f, rs_iterations := rs_iterations s + actual_iterations, rs_weso := w\<rparr> in
     if rs_iterations s \<ge> rs_last s
     then let s = n_weso_step has_storage (s\<lparr>rs_reported := rs_iterations s\<rparr>) in
       Option.bind (two_weso_step G red D s) (\<lambda>s.
       if rs_done s then Some s else Some (s\<lparr>rs_last := rs_last s + 2 ^ 15\<rparr>))
     else Some s)"

text \<open>The loop, stopped by another thread after a number of passes.\<close>

primrec repeated_square ::
  "gcdext \<Rightarrow> (form \<Rightarrow> form option) \<Rightarrow> fast_engine \<Rightarrow> bool \<Rightarrow> int \<Rightarrow> nat \<Rightarrow> rs_state \<Rightarrow> rs_state option" where
  "repeated_square G red fast has_storage D 0 s = Some s"
| "repeated_square G red fast has_storage D (Suc n) s =
     (if rs_done s then Some s
      else Option.bind (square_pass G red fast has_storage D s) (repeated_square G red fast has_storage D n))"

subsection \<open>What the fast engine promises\<close>

definition fast_spec :: "int \<Rightarrow> fast_engine \<Rightarrow> bool" where
  "fast_spec D fast \<longleftrightarrow> (\<forall>x f n b ds r f'.
     pw D x (2 ^ n) f \<longrightarrow> fa f < - D \<longrightarrow> fast f n b = (ds, r, f') \<longrightarrow>
     (case r of
        Some k \<Rightarrow> k \<le> b \<and> length ds = k \<and> (\<forall>i<k. gives D x (2 ^ Suc (n + i)) (ds ! i)) \<and>
          pw D x (2 ^ (n + k)) f' \<and> fa f' < - D
      | None \<Rightarrow> f' = f \<and> length ds \<le> b))"

lemma fast_spec_some:
  assumes "fast_spec D fast" and "pw D x (2 ^ n) f" and "fa f < - D" and "fast f n b = (ds, Some k, f')"
  shows "k \<le> b \<and> length ds = k \<and> (\<forall>i<k. gives D x (2 ^ Suc (n + i)) (ds ! i)) \<and> pw D x (2 ^ (n + k)) f' \<and> fa f' < - D"
  using assms(1) [unfolded fast_spec_def, rule_format, OF assms(2-4)] by simp

lemma fast_spec_none:
  assumes "fast_spec D fast" and "pw D x (2 ^ n) f" and "fa f < - D" and "fast f n b = (ds, None, f')"
  shows "f' = f \<and> length ds \<le> b"
  using assms(1) [unfolded fast_spec_def, rule_format, OF assms(2-4)] by simp

lemma prime_disc_small_coprime:
  assumes D: "prime_disc D" and f: "posdef D f" "fa f < - D"
  shows "coprime (fa f) (fb f)"
proof -
  let ?g = "gcd (fa f) (fb f)"
  have a: "0 < fa f" and d: "fb f * fb f - fa f * (4 * fc f) = D" using f(1) by (auto simp: posdef_def disc_def ac_simps)
  have "?g dvd fb f * fb f - fa f * (4 * fc f)" by (intro dvd_diff dvd_mult2) simp_all
  then have "?g dvd D" unfolding d .
  then have "?g = 1 \<or> ?g = - D" using D by (auto simp: prime_disc_def)
  moreover have "?g \<le> fa f" using a by (intro zdvd_imp_le) simp_all
  ultimately have "?g = 1" using f(2) by linarith
  then show ?thesis by (simp add: coprime_iff_gcd_eq_1)
qed

lemma orig_square_step:
  assumes D: "prime_disc D" and G: "gcdext_ok G" and x: "posdef D x" and f: "pw D x (2 ^ n) f" "fa f < - D"
  shows "\<exists>g. orig_square G f = Some g \<and> pw D x (2 ^ Suc n) g \<and> fa g < - D"
proof -
  note good = prime_disc_good [OF D]
  have pf: "posdef D f" "class_pow D x (2 ^ n) f" using f(1) by (auto simp: pw_def)
  obtain g where g: "square G f = Some g" "posdef D g" "is_reduced g" "class_mul D f f g"
    using square_correct [OF good G pf(1) prime_disc_small_coprime [OF D pf(1) f(2)]] by blast
  have e: "2 ^ n + 2 ^ n = (2 :: nat) ^ Suc n" by simp
  have "class_pow D x (2 ^ Suc n) g" using class_pow_add [OF good x pf(2) pf(2) g(4)] unfolding e .
  moreover have "fa g < - D"
  proof -
    have a: "0 < fa g" using g(2) by (simp add: posdef_def)
    then have "fa g * 1 \<le> fa g * fa g" by (intro mult_left_mono) auto
    then show ?thesis using reduced_a_bound [OF g(2,3)] a by linarith
  qed
  ultimately show ?thesis using g by (auto simp: orig_square_eq pw_def)
qed

lemma squaring_form: "prime_disc D \<Longrightarrow> posdef D x \<Longrightarrow> is_reduced x \<Longrightarrow> fa x < - D"
proof -
  assume D: "prime_disc D" and x: "posdef D x" "is_reduced x"
  have a: "0 < fa x" using x(1) by (simp add: posdef_def)
  then have "fa x * 1 \<le> fa x * fa x" by (intro mult_left_mono) auto
  then show "fa x < - D" using reduced_a_bound [OF x] a by linarith
qed

subsection \<open>A batch feeds the listener\<close>

lemma full_batch:
  "Option.bind (map_option (\<lambda>(f, s). (b, f, s)) r) (\<lambda>(n, f, s). if n < b then h n f s else Some (n, f, s)) =
     map_option (\<lambda>(f, s). (b, f, s)) r" for b :: nat
  by (cases r) auto

lemma square_batch_none:
  assumes "fast f n b = (ds, None, f)"
  shows "square_batch G on fast n b f s = Option.bind (notify on n ds s)
    (\<lambda>s'. map_option (\<lambda>(f, s). (b, f, s)) (repeated_square_original G on f n b s'))"
  unfolding square_batch_def assms Let_def case_prod_conv option.case full_batch ..

context listener
begin

definition fed :: "int \<Rightarrow> form \<Rightarrow> nat \<Rightarrow> nat \<Rightarrow> 's \<Rightarrow> form \<times> 's \<Rightarrow> bool" where
  "fed D x n m s0 = (\<lambda>(f, s). ok D x n m s \<and> pw D x (2 ^ n) f \<and> fa f < - D \<and> frame s = frame s0)"

lemma original_fed:
  assumes D: "prime_disc D" and G: "gcdext_ok G" and x: "posdef D x" and st: "fed D x n m s0 (f, s)" and nm: "n \<le> m"
    and rooms: "\<forall>i<k. room s0 (n + i)"
  shows "holds t (fed D x (n + k) (max m (n + k)) s0) (lift_opt (repeated_square_original G (on D) f n k s))"
proof -
  have D0: "D < 0" using D by (simp add: prime_disc_def)
  have "holds t (fed D x (n + k) (max m (n + k)) s0) (fold_res (\<lambda>i s. lift_opt (original_step G (on D) n i s)) [0..<k] (f, s))"
  proof (rule holds_fold [where P = "\<lambda>i. fed D x (n + i) (max m (n + i)) s0"])
    show "fed D x (n + 0) (max m (n + 0)) s0 (f, s)" using st nm by (simp add: max_def)
    fix i and p :: "form \<times> 's"
    assume i: "i < k" and p: "fed D x (n + i) (max m (n + i)) s0 p"
    obtain f s where fs: "p = (f, s)" by (cases p)
    have q: "ok D x (n + i) (max m (n + i)) s" "pw D x (2 ^ (n + i)) f" "fa f < - D" "frame s = frame s0"
      using p by (auto simp: fs fed_def)
    obtain g where g: "orig_square G f = Some g" "pw D x (2 ^ Suc (n + i)) g" "fa g < - D"
      using orig_square_step [OF D G x q(2,3)] by blast
    have "gives D x (2 ^ Suc (n + i)) (NL_FORM g)" using g(2) by (simp add: gives_def)
    note on_valid [OF D0 q(1) _ _ this]
    then have h: "holds t (\<lambda>s'. ok D x (Suc (n + i)) (max (max m (n + i)) (Suc (n + i))) s' \<and> frame s' = frame s)
        (lift_opt (on D (NL_FORM g) (n + i) s))" using rooms i room_frame [OF q(4)] by simp
    have e: "max (max m (n + i)) (Suc (n + i)) = max m (Suc (n + i))" by simp
    have "holds t (\<lambda>s'. fed D x (n + Suc i) (max m (n + Suc i)) s0 (g, s')) (lift_opt (on D (NL_FORM g) (n + i) s))"
      by (rule holds_mono [OF h [unfolded e]]) (use g q(4) in \<open>simp add: fed_def\<close>)
    then show "holds t (fed D x (n + Suc i) (max m (n + Suc i)) s0) (lift_opt (original_step G (on D) n i p))"
      by (simp add: original_step_def fs g(1) holds_map_opt)
  qed
  then show ?thesis by (simp only: repeated_square_original_def fold_opt_res)
qed

lemma notify_valid:
  assumes D: "D < 0" and st: "ok D x n n s" and ds: "\<forall>i<length ds. gives D x (2 ^ Suc (n + i)) (ds ! i)"
    and rooms: "\<forall>i<length ds. room s (n + i)"
  shows "holds t (\<lambda>s'. ok D x (n + length ds) (n + length ds) s' \<and> frame s' = frame s) (lift_opt (notify (on D) n ds s))"
proof -
  have "holds t (\<lambda>s'. ok D x (n + length ds) (n + length ds) s' \<and> frame s' = frame s)
      (fold_res (\<lambda>i s. lift_opt (on D (ds ! i) (n + i) s)) [0..<length ds] s)"
  proof (rule holds_fold [where P = "\<lambda>i s'. ok D x (n + i) (n + i) s' \<and> frame s' = frame s"])
    fix i u assume i: "i < length ds" and u: "ok D x (n + i) (n + i) u \<and> frame u = frame s"
    have "holds t (\<lambda>s'. ok D x (Suc (n + i)) (max (n + i) (Suc (n + i))) s' \<and> frame s' = frame u) (lift_opt (on D (ds ! i) (n + i) u))"
      by (rule on_valid [OF D]) (use u i ds rooms room_frame [of u s] in auto)
    then show "holds t (\<lambda>s'. ok D x (n + Suc i) (n + Suc i) s' \<and> frame s' = frame s) (lift_opt (on D (ds ! i) (n + i) u))"
      using u by simp
  qed (use st in simp)
  then show ?thesis by (simp only: notify_def fold_opt_res)
qed

lemma notify_junk:
  assumes "ok D x n n s" and "notify (on D) n ds s = Some s'"
  shows "\<exists>m. n \<le> m \<and> m \<le> n + length ds \<and> ok D x n m s' \<and> frame s' = frame s"
proof (rule fold_opt_induct [OF assms(2) [unfolded notify_def],
      where Q = "\<lambda>s'. \<exists>m. n \<le> m \<and> m \<le> n + length ds \<and> ok D x n m s' \<and> frame s' = frame s"])
  show "\<exists>m. n \<le> m \<and> m \<le> n + length ds \<and> ok D x n m s \<and> frame s = frame s" using assms(1) by (intro exI [of _ n]) simp
  fix i u u'
  assume i: "i \<in> set [0..<length ds]" and "\<exists>m. n \<le> m \<and> m \<le> n + length ds \<and> ok D x n m u \<and> frame u = frame s"
    and run: "on D (ds ! i) (n + i) u = Some u'"
  then obtain m where m: "n \<le> m" "m \<le> n + length ds" "ok D x n m u" "frame u = frame s" by blast
  have "ok D x n (max m (Suc (n + i))) u' \<and> frame u' = frame u" using on_junk [OF m(3,1) _ run] by simp
  then show "\<exists>m. n \<le> m \<and> m \<le> n + length ds \<and> ok D x n m u' \<and> frame u' = frame s"
    using m i by (intro exI [of _ "max m (Suc (n + i))"]) auto
qed

text \<open>A batch, whatever the fast engine does: at least one squaring, and the listener knows
  all of them.\<close>

lemma batch_fed:
  assumes D: "prime_disc D" and G: "gcdext_ok G" and x: "posdef D x" and fast: "fast_spec D fast"
    and t: "t \<Longrightarrow> fst (snd (fast f n b)) \<noteq> None"
    and st: "ok D x n n s" and f: "pw D x (2 ^ n) f" "fa f < - D" and rooms: "\<forall>i<b. room s (n + i)" and b: "0 < b"
  shows "holds t (\<lambda>(k, f, s'). 0 < k \<and> k \<le> b \<and> fed D x (n + k) (n + k) s (f, s'))
    (lift_opt (square_batch G (on D) fast n b f s))"
proof -
  have D0: "D < 0" using D by (simp add: prime_disc_def)
  let ?R = "\<lambda>(k, f, s'). 0 < k \<and> k \<le> b \<and> fed D x (n + k) (n + k) s (f, s')"
  obtain ds r f' where run: "fast f n b = (ds, r, f')" by (cases "fast f n b")
  show ?thesis
  proof (cases r)
    case (Some k)
    have sp: "k \<le> b" "length ds = k" "\<forall>i<k. gives D x (2 ^ Suc (n + i)) (ds ! i)" "pw D x (2 ^ (n + k)) f'" "fa f' < - D"
      using fast_spec_some [OF fast f run [unfolded Some]] by blast+
    have nv: "holds t (\<lambda>s'. ok D x (n + k) (n + k) s' \<and> frame s' = frame s) (lift_opt (notify (on D) n ds s))"
      using notify_valid [OF D0 st, of ds] sp rooms by simp
    have "holds t ?R (lift_opt (if k < b then map_option (\<lambda>(f, s). (Suc k, f, s)) (repeated_square_original G (on D) f' (n + k) 1 s')
        else Some (k, f', s')))" if s': "ok D x (n + k) (n + k) s' \<and> frame s' = frame s" for s'
    proof (cases "k < b")
      case True
      have "fed D x (n + k) (n + k) s (f', s')" using s' sp by (simp add: fed_def)
      from original_fed [OF D G x this, of 1] True rooms
      have "holds t (fed D x (n + k + 1) (max (n + k) (n + k + 1)) s) (lift_opt (repeated_square_original G (on D) f' (n + k) 1 s'))"
        by simp
      then have "holds t (\<lambda>p. ?R (case p of (f, s) \<Rightarrow> (Suc k, f, s))) (lift_opt (repeated_square_original G (on D) f' (n + k) 1 s'))"
        by (rule holds_mono) (use True in auto)
      then show ?thesis using True by (simp add: holds_map_opt)
    next
      case False
      then show ?thesis using s' sp b by (simp add: fed_def)
    qed
    from holds_bind [OF nv this] show ?thesis by (simp add: square_batch_def run Some lift_opt_bind Let_def)
  next
    case None
    have t': "\<not> t" using t by (auto simp: run None)
    have f': "f' = f" "length ds \<le> b" using fast_spec_none [OF fast f run [unfolded None]] by auto
    have nj: "holds t (\<lambda>s'. \<exists>m. n \<le> m \<and> m \<le> n + b \<and> ok D x n m s' \<and> frame s' = frame s) (lift_opt (notify (on D) n ds s))"
    proof (rule holds_lift)
      show "\<exists>m. n \<le> m \<and> m \<le> n + b \<and> ok D x n m s' \<and> frame s' = frame s" if run: "notify (on D) n ds s = Some s'" for s'
      proof -
        obtain m where m: "n \<le> m" "m \<le> n + length ds" "ok D x n m s'" "frame s' = frame s"
          using notify_junk [OF st run] by blast
        have "m \<le> n + b" using m(2) f'(2) by linarith
        then show ?thesis using m by blast
      qed
    qed (use t' in simp)
    have "holds t ?R (lift_opt (map_option (\<lambda>(f, s). (b, f, s)) (repeated_square_original G (on D) f n b s')))"
      if ex: "\<exists>m. n \<le> m \<and> m \<le> n + b \<and> ok D x n m s' \<and> frame s' = frame s" for s'
    proof -
      obtain m where m: "n \<le> m" "m \<le> n + b" "ok D x n m s'" "frame s' = frame s" using ex by blast
      have "fed D x n m s (f, s')" using m f by (simp add: fed_def)
      from original_fed [OF D G x this m(1) rooms]
      have "holds t (fed D x (n + b) (n + b) s) (lift_opt (repeated_square_original G (on D) f n b s'))"
        unfolding max_absorb2 [OF m(2)] .
      then have "holds t (\<lambda>p. ?R (case p of (f, s) \<Rightarrow> (b, f, s))) (lift_opt (repeated_square_original G (on D) f n b s'))"
        by (rule holds_mono) (use b in auto)
      then show ?thesis by (simp add: holds_map_opt)
    qed
    from holds_bind [OF nj this] have "holds t ?R (bind_res (lift_opt (notify (on D) n ds s)) (\<lambda>s'. lift_opt
        (map_option (\<lambda>(f, s). (b, f, s)) (repeated_square_original G (on D) f n b s'))))" .
    then show ?thesis unfolding square_batch_none [where fast = fast, OF run [unfolded None f'(1)]] by (simp only: lift_opt_bind)
  qed
qed

end

end
