(* ===== verification/SquareLoop.thy ===== *)
theory SquareLoop
  imports Squaring
begin

section \<open>The invariant of the squaring loop\<close>

text \<open>
  Whatever the fast engine does within \<open>fast_spec\<close>, after any number of passes the form is
  \<open>x^(2^n)\<close> for the \<open>n\<close> squarings counted, the callback holds what it promises about
  them, every checkpoint handed to the storage workers is the power of its iteration, and the
  2-Wesolowski callback has never been asked for a cell outside its array.
\<close>

subsection \<open>The callbacks as one listener\<close>

definition weso_ok :: "int \<Rightarrow> form \<Rightarrow> nat \<Rightarrow> nat \<Rightarrow> weso \<Rightarrow> bool" where
  "weso_ok D x n m w =
     (case w of One s \<Rightarrow> one_ok D x n m s | Two s \<Rightarrow> two_ok D x n m s | Fast s \<Rightarrow> fast_ok D x n m s)"

definition weso_frame :: "weso \<Rightarrow> nat \<times> nat + (nat option \<times> nat + nat \<times> bool)" where
  "weso_frame w =
     (case w of One s \<Rightarrow> Inl (one_frame s) | Two s \<Rightarrow> Inr (Inl (two_frame s)) | Fast s \<Rightarrow> Inr (Inr (fast_frame s)))"

definition weso_room :: "weso \<Rightarrow> nat \<Rightarrow> bool" where
  "weso_room w = (case w of One s \<Rightarrow> one_room s | Two s \<Rightarrow> two_room s | Fast s \<Rightarrow> fast_room s)"

lemma fast_room_frame: "fast_room s = fast_room s'"
  by (simp add: fast_room_def fun_eq_iff)

lemma one_room_frame: "one_room s = one_room s'"
  by (simp add: one_room_def fun_eq_iff)

lemma weso_listener:
  assumes red: "reducer_sound red" "t \<Longrightarrow> reducer_total red"
  shows "listener (on_iteration red) weso_ok weso_frame weso_room t"
proof
  show "weso_room w' = weso_room w" if "weso_frame w' = weso_frame w" for w w'
    using that by (cases w; cases w')
      (auto simp: weso_frame_def weso_room_def intro: two_room_frame one_room_frame fast_room_frame)
  show "holds t (\<lambda>w'. weso_ok D x (Suc n) (max m (Suc n)) w' \<and> weso_frame w' = weso_frame w) (lift_opt (on_iteration red D d n w))"
    if D: "D < 0" and ok: "weso_ok D x n m w" and nm: "n \<le> m" and room: "weso_room w n" and d: "gives D x (2 ^ Suc n) d"
    for D x n m w d
  proof (cases w)
    case (One s)
    then show ?thesis using one_on_valid [OF red D _ d, where m = m and s = s] ok
      by (simp add: weso_ok_def weso_frame_def on_iteration_def holds_map_opt)
  next
    case (Two s)
    then show ?thesis using two_on_valid [OF red D _ _ d, where m = m and s = s] ok room
      by (simp add: weso_ok_def weso_frame_def weso_room_def on_iteration_def holds_map_opt)
  next
    case (Fast s)
    then show ?thesis using fast_on_valid [OF red D _ nm _ d, where s = s] ok room
      by (simp add: weso_ok_def weso_frame_def weso_room_def on_iteration_def holds_map_opt)
  qed
  show "weso_ok D x n (max m (Suc i)) w' \<and> weso_frame w' = weso_frame w"
    if "weso_ok D x n m w" "n \<le> m" "n \<le> i" "on_iteration red D d i w = Some w'" for D x n m w d i w'
    using that one_on_junk [where n = n and m = m and i = i and d = d and red = red]
      two_on_junk [where n = n and m = m and i = i and d = d and red = red]
      fast_on_junk [where n = n and m = m and i = i and d = d and red = red]
    by (cases w) (auto simp: weso_ok_def weso_frame_def on_iteration_def map_option_eq_Some)
qed

interpretation pulmark_weso: listener "on_iteration pulmark_reduce" weso_ok weso_frame weso_room False
  by (rule weso_listener [OF pulmark.reducer_sound_axioms]) simp

interpretation exact_weso: listener "on_iteration reduce" weso_ok weso_frame weso_room True
  by (rule weso_listener; rule exact.reducer_sound_axioms exact.reducer_total_axioms)

interpretation pulmark_two: listener "two_on_iteration pulmark_reduce" two_ok two_frame two_room False
  by (rule two_listener [OF pulmark.reducer_sound_axioms]) simp

interpretation exact_two: listener "two_on_iteration reduce" two_ok two_frame two_room True
  by (rule two_listener; rule exact.reducer_sound_axioms exact.reducer_total_axioms)

subsection \<open>The array of the 2-Wesolowski callback is large enough\<close>

text \<open>The switch happens within one checkpoint of 91 million, the loop ends within one
  checkpoint of 799.5 million; both margins fit into the array.\<close>

definition switch_limit :: nat where
  "switch_limit = kSwitchIters + 2 ^ 15 + checkpoint_interval + 99"

definition two_bounds :: "nat \<Rightarrow> two_weso \<Rightarrow> bool" where
  "two_bounds lst w \<longleftrightarrow> lst < kMaxItersAllowed - 500000 + 2 ^ 15 \<and>
     (case tw_switch w of None \<Rightarrow> lst < kSwitchIters + 2 ^ 15 | Some sw \<Rightarrow> kSwitchIters \<le> sw \<and> sw \<le> switch_limit)"

lemmas two_constants = kSwitchIters_def kMaxItersAllowed_def checkpoint_interval_def switch_limit_def two_space_def

lemma two_rooms:
  assumes sh: "two_shape n w" and b: "two_bounds lst w" and n: "n \<le> lst + checkpoint_interval" and i: "i \<le> checkpoint_interval + 99"
    and near: "n \<le> lst \<or> i \<le> 99"
  shows "two_room w (n + i)"
proof (cases "tw_switch w")
  case None
  have "n + i \<le> lst + 10099" using n i near by (auto simp: two_constants)
  then have "Suc (n + i) < 92000000" using b None by (simp add: two_bounds_def two_constants)
  then have "Suc (n + i) div 10 < 16190000" by simp
  then show ?thesis using None by (simp add: two_room_def two_slot_def two_constants)
next
  case (Some sw)
  have sw: "sw \<le> 91042867" "tw_index w = sw div 10" "sw \<le> n"
    using sh b Some by (simp_all add: two_shape_def two_bounds_def two_constants)
  have "n + i \<le> lst + 10099" using n i near by (auto simp: two_constants)
  then have N: "Suc (n + i) \<le> 799542867" using b Some by (simp add: two_bounds_def two_constants)
  have "sw div 10 + (Suc (n + i) - sw) div 100 < 16190000" using sw N by linarith
  then show ?thesis using Some sw by (simp add: two_room_def two_slot_def two_constants)
qed


subsection \<open>The invariant\<close>

text \<open>The callback stays of its kind: events and switches change none of the parameters that
  the constructor fixed.\<close>

definition weso_kind :: "weso \<Rightarrow> weso \<Rightarrow> bool" where
  "weso_kind w0 w =
     (case w0 of
        One a \<Rightarrow> (\<exists>b. w = One b \<and> one_frame b = one_frame a)
      | Two a \<Rightarrow> (\<exists>b. w = Two b)
      | Fast a \<Rightarrow> (\<exists>b. w = Fast b \<and> fast_frame b = fast_frame a))"

definition loop_core :: "int \<Rightarrow> form \<Rightarrow> weso \<Rightarrow> bool \<Rightarrow> rs_state \<Rightarrow> bool" where
  "loop_core D x w0 has_storage s \<longleftrightarrow>
     weso_ok D x (rs_iterations s) (rs_iterations s) (rs_weso s) \<and>
     pw D x (2 ^ rs_iterations s) (rs_f s) \<and> fa (rs_f s) < - D \<and>
     rs_reported s \<le> rs_iterations s \<and>
     (\<forall>(y, c)\<in>set (rs_submitted s). c mod 2 ^ 15 = 0 \<and> pw D x (2 ^ c) y) \<and>
     rs_last s mod 2 ^ 15 = 0 \<and>
     (\<forall>u. rs_weso s = Two u \<longrightarrow> two_bounds (rs_last s) u) \<and>
     weso_kind w0 (rs_weso s) \<and> (has_storage \<longrightarrow> (\<exists>u. w0 = Fast u \<and> fw_multi u))"

definition loop_inv :: "int \<Rightarrow> form \<Rightarrow> weso \<Rightarrow> bool \<Rightarrow> rs_state \<Rightarrow> bool" where
  "loop_inv D x w0 has_storage s \<longleftrightarrow> loop_core D x w0 has_storage s \<and> rs_last s \<le> rs_iterations s + 2 ^ 15 \<and>
     (rs_done s \<or> rs_iterations s < rs_last s \<or> rs_iterations s = 0 \<and> rs_last s = 0)"

lemma weso_frame_cases:
  assumes "weso_frame w' = weso_frame w"
  shows "\<And>u. w' = Two u \<Longrightarrow> \<exists>v. w = Two v \<and> tw_switch u = tw_switch v \<and> tw_index u = tw_index v"
    and "weso_kind w0 w \<Longrightarrow> weso_kind w0 w'"
  using assms by (cases w; cases w'; auto simp: weso_frame_def two_frame_def fast_frame_def weso_kind_def split: weso.splits)+

definition step_bound :: "rs_state \<Rightarrow> bool" where
  "step_bound s \<longleftrightarrow> (\<forall>u. rs_weso s = Fast u \<longrightarrow> rs_iterations s + checkpoint_interval < checkpoint_space * 2 ^ 16)"

lemma loop_rooms:
  assumes inv: "loop_inv D x w0 st s" and nd: "\<not> rs_done s" and b: "step_bound s"
  shows "\<forall>i<checkpoint_interval. weso_room (rs_weso s) (rs_iterations s + i)"
proof (cases "rs_weso s")
  case (One u)
  then show ?thesis by (simp add: weso_room_def one_room_def)
next
  case (Two u)
  have sh: "two_shape (rs_iterations s) u" using inv Two by (simp add: loop_inv_def loop_core_def weso_ok_def two_ok_def)
  have bd: "two_bounds (rs_last s) u" using inv Two by (simp add: loop_inv_def loop_core_def)
  have n: "rs_iterations s \<le> rs_last s" using inv nd by (auto simp: loop_inv_def)
  show ?thesis using two_rooms [OF sh bd _ _ disjI1 [OF n]] n by (auto simp: Two weso_room_def)
next
  case (Fast u)
  then show ?thesis using b by (auto simp: weso_room_def fast_room_def step_bound_def)
qed

lemma pass_batch:
  assumes D: "prime_disc D" and G: "gcdext_ok G" and x: "posdef D x" and fast: "fast_spec D fast"
    and red: "reducer_sound red" "t \<Longrightarrow> reducer_total red"
    and t: "t \<Longrightarrow> \<forall>f n b. fst (snd (fast f n b)) \<noteq> None"
    and inv: "loop_inv D x w0 st s" and nd: "\<not> rs_done s" and b: "step_bound s"
  shows "holds t (\<lambda>(k, f, w). k \<le> checkpoint_interval \<and>
      loop_core D x w0 st (s\<lparr>rs_f := f, rs_iterations := rs_iterations s + k, rs_weso := w\<rparr>))
    (lift_opt (square_batch G (on_iteration red D) fast (rs_iterations s) checkpoint_interval (rs_f s) (rs_weso s)))"
proof -
  let ?n = "rs_iterations s" and ?w = "rs_weso s"
  have core: "weso_ok D x ?n ?n ?w" "pw D x (2 ^ ?n) (rs_f s)" "fa (rs_f s) < - D"
    using inv by (simp_all add: loop_inv_def loop_core_def)
  have c: "0 < checkpoint_interval" by (simp add: checkpoint_interval_def)
  have t': "fst (snd (fast (rs_f s) ?n checkpoint_interval)) \<noteq> None" if t using t [OF that] by blast
  have fed: "holds t (\<lambda>(k, f, w). 0 < k \<and> k \<le> checkpoint_interval \<and>
      listener.fed weso_ok weso_frame D x (?n + k) (?n + k) ?w (f, w))
    (lift_opt (square_batch G (on_iteration red D) fast ?n checkpoint_interval (rs_f s) ?w))"
    by (rule listener.batch_fed [OF weso_listener [OF red] D G x fast t' core(1,2,3) loop_rooms [OF inv nd b] c])
  show ?thesis
  proof (rule holds_mono [OF fed])
    fix p
    assume p: "case p of (k, f, w) \<Rightarrow> 0 < k \<and> k \<le> checkpoint_interval \<and>
      listener.fed weso_ok weso_frame D x (?n + k) (?n + k) ?w (f, w)"
    obtain k f w where kfw: "p = (k, f, w)" by (cases p)
    have k: "k \<le> checkpoint_interval" and "listener.fed weso_ok weso_frame D x (?n + k) (?n + k) ?w (f, w)"
      using p by (simp_all add: kfw)
    then have w: "weso_ok D x (?n + k) (?n + k) w" "pw D x (2 ^ (?n + k)) f" "fa f < - D" "weso_frame w = weso_frame ?w"
      by (auto simp: listener.fed_def [OF weso_listener [OF red]])
    have tb: "\<forall>u. ?w = Two u \<longrightarrow> two_bounds (rs_last s) u" and kd: "weso_kind w0 ?w"
      using inv by (simp_all add: loop_inv_def loop_core_def)
    have fr: "\<forall>u. w = Two u \<longrightarrow> two_bounds (rs_last s) u" "weso_kind w0 w"
      using tb weso_frame_cases(1) [OF w(4)] weso_frame_cases(2) [OF w(4) kd] by (fastforce simp: two_bounds_def)+
    have "loop_core D x w0 st (s\<lparr>rs_f := f, rs_iterations := ?n + k, rs_weso := w\<rparr>)"
      using inv w(1-3) fr by (simp add: loop_inv_def loop_core_def)
    then show "case p of (k, f, w) \<Rightarrow> k \<le> checkpoint_interval \<and>
        loop_core D x w0 st (s\<lparr>rs_f := f, rs_iterations := rs_iterations s + k, rs_weso := w\<rparr>)"
      using k by (simp add: kfw)
  qed
qed

lemma core_n_weso:
  assumes core: "loop_core D x w0 st s" and n: "rs_last s \<le> rs_iterations s" "rs_iterations s < rs_last s + 2 ^ 15"
  shows "loop_core D x w0 st (n_weso_step st s)"
proof (cases st)
  case True
  then obtain u where u: "rs_weso s = Fast u" "fw_multi u" using core by (auto simp: loop_core_def weso_kind_def fast_frame_def)
  have "y_ok D x (rs_iterations s) (rs_iterations s) (fw_y u)" using core u by (simp add: loop_core_def weso_ok_def fast_ok_def)
  moreover have "rs_last s mod 2 ^ 15 = 0" using core by (simp only: loop_core_def)
  ultimately have "pw D x (2 ^ rs_last s) (fw_y u)" using n unfolding y_ok_def by (elim allE impE) assumption
  then show ?thesis using core u True by (simp add: n_weso_step_def loop_core_def)
next
  case False
  then show ?thesis using core by (auto simp: n_weso_step_def loop_core_def split: weso.splits)
qed

lemma n_weso_fields [simp]:
  "rs_f (n_weso_step st s) = rs_f s" "rs_iterations (n_weso_step st s) = rs_iterations s"
  "rs_last (n_weso_step st s) = rs_last s" "rs_weso (n_weso_step st s) = rs_weso s"
  "rs_done (n_weso_step st s) = rs_done s" "rs_reported (n_weso_step st s) = rs_reported s"
  by (simp_all add: n_weso_step_def split: weso.splits)

lemma round_up_100: "(n + (100 - n mod 100) mod 100) mod 100 = (0 :: nat)" "(100 - n mod 100) mod 100 \<le> (99 :: nat)"
proof -
  have "n + (100 - n mod 100) = 100 * (n div 100) + 100"
    using mult_div_mod_eq [of 100 n] mod_less_divisor [of 100 n] by linarith
  then have "(n + (100 - n mod 100)) mod 100 = 0" by (metis mod_add_self2 mod_mult_self1_is_0)
  then show "(n + (100 - n mod 100) mod 100) mod 100 = 0" by (simp only: mod_add_right_eq)
  show "(100 - n mod 100) mod 100 \<le> (99 :: nat)" using mod_less_divisor [of 100 "100 - n mod 100"] by linarith
qed

lemma core_switch:
  assumes D: "prime_disc D" and G: "gcdext_ok G" and x: "posdef D x"
    and red: "reducer_sound red" "t \<Longrightarrow> reducer_total red"
    and core: "loop_core D x w0 st s" and w: "rs_weso s = Two w" and n: "rs_iterations s \<le> rs_last s + checkpoint_interval"
  shows "holds t (\<lambda>s'. loop_core D x w0 st s' \<and> rs_last s' = rs_last s \<and> rs_done s' = rs_done s \<and>
      rs_iterations s \<le> rs_iterations s' \<and> rs_iterations s' \<le> rs_iterations s + 99 \<and>
      (\<exists>u. rs_weso s' = Two u \<and> (tw_switch u = None \<longrightarrow> rs_iterations s < kSwitchIters)))
    (lift_opt (switch_step G red D w s))"
proof -
  let ?n = "rs_iterations s"
  let ?r = "(100 - ?n mod 100) mod 100"
  have c: "two_ok D x ?n ?n w" "pw D x (2 ^ ?n) (rs_f s)" "fa (rs_f s) < - D" "two_bounds (rs_last s) w"
    using core w by (simp_all add: loop_core_def weso_ok_def)
  have sh: "two_shape ?n w" using c(1) by (simp add: two_ok_def)
  show ?thesis
  proof (cases "?n \<ge> kSwitchIters \<and> \<not> LargeConstants w")
    case True
    then have sw: "tw_switch w = None" using sh by (auto simp: two_shape_def LargeConstants_def split: option.splits)
    let ?m = "if ?r > 0 then repeated_square_original G (two_on_iteration red D) (rs_f s) ?n ?r w else Some (rs_f s, w)"
    have "holds t (listener.fed two_ok two_frame D x (?n + ?r) (max ?n (?n + ?r)) w) (lift_opt
        (repeated_square_original G (two_on_iteration red D) (rs_f s) ?n ?r w))"
    proof (rule listener.original_fed [OF two_listener [OF red] D G x _ order_refl])
      show "listener.fed two_ok two_frame D x ?n ?n w (rs_f s, w)" using c by (simp add: listener.fed_def [OF two_listener [OF red]])
      show "\<forall>i<?r. two_room w (?n + i)"
        using two_rooms [OF sh c(4) n] round_up_100(2) [of ?n] by (auto simp: checkpoint_interval_def)
    qed
    then have h: "holds t (listener.fed two_ok two_frame D x (?n + ?r) (?n + ?r) w) (lift_opt ?m)"
      by (cases "?r > 0") (use c in \<open>auto simp: listener.fed_def [OF two_listener [OF red]]\<close>)
    show ?thesis
    unfolding switch_step_def if_P [OF True] Let_def lift_opt_bind
    proof (rule holds_bind [OF h])
      fix p
      assume p: "listener.fed two_ok two_frame D x (?n + ?r) (?n + ?r) w p"
      obtain f v where fv: "p = (f, v)" by (cases p)
      have v: "two_ok D x (?n + ?r) (?n + ?r) v" "pw D x (2 ^ (?n + ?r)) f" "fa f < - D" "two_frame v = two_frame w"
        using p by (auto simp: fv listener.fed_def [OF two_listener [OF red]])
      let ?u = "IncreaseConstants (?n + ?r) v"
      have sv: "tw_switch v = None" using v(4) sw by (simp add: two_frame_def)
      have ok: "two_ok D x (?n + ?r) (?n + ?r) ?u" by (rule two_increase [OF v(1) sv round_up_100(1)])
      have "rs_last s < kSwitchIters + 2 ^ 15" using c(4) sw by (simp add: two_bounds_def)
      then have "?n + ?r \<le> switch_limit" using n round_up_100(2) [of ?n] unfolding switch_limit_def by linarith
      then have "two_bounds (rs_last s) ?u" using c(4) True by (simp add: two_bounds_def IncreaseConstants_def)
      then have "loop_core D x w0 st (s\<lparr>rs_f := f, rs_iterations := ?n + ?r, rs_weso := Two ?u, rs_reported := ?n + ?r\<rparr>)"
        using ok v(2,3) core w by (auto simp: loop_core_def weso_ok_def weso_kind_def split: weso.splits)
      then show "holds t (\<lambda>s'. loop_core D x w0 st s' \<and> rs_last s' = rs_last s \<and> rs_done s' = rs_done s \<and>
          rs_iterations s \<le> rs_iterations s' \<and> rs_iterations s' \<le> rs_iterations s + 99 \<and>
          (\<exists>u. rs_weso s' = Two u \<and> (tw_switch u = None \<longrightarrow> rs_iterations s < kSwitchIters)))
        (lift_opt (case p of (f, w) \<Rightarrow>
          Some (s\<lparr>rs_f := f, rs_iterations := ?n + ?r, rs_weso := Two (IncreaseConstants (?n + ?r) w), rs_reported := ?n + ?r\<rparr>)))"
        using round_up_100(2) [of ?n] by (simp add: fv IncreaseConstants_def)
    qed
  next
    case False
    have "tw_switch w = None \<longrightarrow> ?n < kSwitchIters"
      using False sh by (auto simp: two_shape_def LargeConstants_def not_le split: option.splits)
    then show ?thesis unfolding switch_step_def if_not_P [OF False] using core w by simp
  qed
qed


lemma core_two_weso:
  assumes D: "prime_disc D" and G: "gcdext_ok G" and x: "posdef D x"
    and red: "reducer_sound red" "t \<Longrightarrow> reducer_total red"
    and core: "loop_core D x w0 st s" and nd: "\<not> rs_done s"
    and n: "rs_last s \<le> rs_iterations s" "rs_iterations s \<le> rs_last s + checkpoint_interval"
  shows "holds t (\<lambda>s'. loop_inv D x w0 st s' \<and> rs_iterations s' \<le> rs_iterations s + 99)
    (lift_opt (Option.bind (two_weso_step G red D s) (\<lambda>s. if rs_done s then Some s else Some (s\<lparr>rs_last := rs_last s + 2 ^ 15\<rparr>))))"
proof -
  have fin: "loop_inv D x w0 st (if rs_done u then u else u\<lparr>rs_last := rs_last u + 2 ^ 15\<rparr>)"
    if u: "loop_core D x w0 st u" "rs_last u = rs_last s" "rs_iterations s \<le> rs_iterations u" "rs_iterations u \<le> rs_iterations s + 99"
      "\<forall>w. rs_weso u = Two w \<longrightarrow> \<not> rs_done u \<longrightarrow> two_bounds (rs_last u + 2 ^ 15) w" for u
  proof -
    have "rs_iterations u < rs_last u + 2 ^ 15" using u n by (simp add: checkpoint_interval_def)
    moreover have "(rs_last u + 2 ^ 15) mod 2 ^ 15 = 0" using u(1) by (simp add: loop_core_def)
    ultimately show ?thesis using u n by (auto simp: loop_inv_def loop_core_def)
  qed
  have "holds t (\<lambda>u. loop_core D x w0 st u \<and> rs_last u = rs_last s \<and> rs_iterations s \<le> rs_iterations u \<and>
      rs_iterations u \<le> rs_iterations s + 99 \<and> (\<forall>w. rs_weso u = Two w \<longrightarrow> \<not> rs_done u \<longrightarrow> two_bounds (rs_last u + 2 ^ 15) w))
    (lift_opt (two_weso_step G red D s))"
  proof (cases "\<exists>w. rs_weso s = Two w")
    case False
    then have "two_weso_step G red D s = Some s" by (auto simp: two_weso_step_def split: weso.splits)
    then show ?thesis using core False by simp
  next
    case True
    then obtain w where w: "rs_weso s = Two w" by blast
    have "holds t (\<lambda>u. loop_core D x w0 st u \<and> rs_last u = rs_last s \<and> rs_iterations s \<le> rs_iterations u \<and>
        rs_iterations u \<le> rs_iterations s + 99 \<and> (\<forall>w. rs_weso u = Two w \<longrightarrow> \<not> rs_done u \<longrightarrow> two_bounds (rs_last u + 2 ^ 15) w))
      (lift_opt (if rs_iterations v \<ge> kMaxItersAllowed - 500000 then Some (v\<lparr>rs_done := True\<rparr>) else Some v))"
      if v: "loop_core D x w0 st v \<and> rs_last v = rs_last s \<and> rs_done v = rs_done s \<and>
        rs_iterations s \<le> rs_iterations v \<and> rs_iterations v \<le> rs_iterations s + 99 \<and>
        (\<exists>u. rs_weso v = Two u \<and> (tw_switch u = None \<longrightarrow> rs_iterations s < kSwitchIters))" for v
    proof -
      from v obtain u where u: "rs_weso v = Two u" "tw_switch u = None \<longrightarrow> rs_iterations s < kSwitchIters"
        by (elim conjE exE)
      have v1: "loop_core D x w0 st v" "rs_last v = rs_last s" "rs_done v = rs_done s"
        "rs_iterations s \<le> rs_iterations v" "rs_iterations v \<le> rs_iterations s + 99" using v by blast+
      have tb: "two_bounds (rs_last v) u" using v1(1) u(1) unfolding loop_core_def by blast
      have "two_bounds (rs_last v + 2 ^ 15) u" if "rs_iterations v < kMaxItersAllowed - 500000"
      proof -
        have "rs_last v < kMaxItersAllowed - 500000" using that v1 n by linarith
        moreover have "tw_switch u = None \<longrightarrow> rs_last v < kSwitchIters" using u(2) v1 n by linarith
        ultimately show ?thesis using tb by (simp add: two_bounds_def split: option.splits)
      qed
      moreover have "loop_core D x w0 st (v\<lparr>rs_done := True\<rparr>)" using v1(1) by (simp add: loop_core_def)
      ultimately show ?thesis using v1 u(1) by (cases "rs_iterations v < kMaxItersAllowed - 500000") (simp_all add: not_le)
    qed
    from holds_bind [OF core_switch [OF D G x red core w n(2)] this] show ?thesis
      by (simp add: two_weso_step_def w lift_opt_bind)
  qed
  then have "holds t (\<lambda>s'. loop_inv D x w0 st s' \<and> rs_iterations s' \<le> rs_iterations s + 99)
    (bind_res (lift_opt (two_weso_step G red D s)) (\<lambda>u. lift_opt (Some (if rs_done u then u else u\<lparr>rs_last := rs_last u + 2 ^ 15\<rparr>))))"
  proof (rule holds_bind)
    fix u
    assume u: "loop_core D x w0 st u \<and> rs_last u = rs_last s \<and> rs_iterations s \<le> rs_iterations u \<and>
      rs_iterations u \<le> rs_iterations s + 99 \<and> (\<forall>w. rs_weso u = Two w \<longrightarrow> \<not> rs_done u \<longrightarrow> two_bounds (rs_last u + 2 ^ 15) w)"
    have "loop_inv D x w0 st (if rs_done u then u else u\<lparr>rs_last := rs_last u + 2 ^ 15\<rparr>)" by (rule fin) (use u in blast)+
    then show "holds t (\<lambda>s'. loop_inv D x w0 st s' \<and> rs_iterations s' \<le> rs_iterations s + 99)
        (lift_opt (Some (if rs_done u then u else u\<lparr>rs_last := rs_last u + 2 ^ 15\<rparr>)))"
      using u by (cases "rs_done u") (simp_all only: if_True if_False lift_opt_simps holds_ret, simp_all)
  qed
  then show ?thesis by (simp add: lift_opt_bind if_distrib [of Some] cong: if_cong)
qed

lemma pass_inv:
  assumes D: "prime_disc D" and G: "gcdext_ok G" and x: "posdef D x" and fast: "fast_spec D fast"
    and red: "reducer_sound red" "t \<Longrightarrow> reducer_total red"
    and t: "t \<Longrightarrow> \<forall>f n b. fst (snd (fast f n b)) \<noteq> None"
    and inv: "loop_inv D x w0 st s" and nd: "\<not> rs_done s" and b: "step_bound s"
  shows "holds t (\<lambda>s'. loop_inv D x w0 st s' \<and> rs_iterations s' \<le> rs_iterations s + checkpoint_interval + 99)
    (lift_opt (square_pass G red fast st D s))"
  unfolding square_pass_def lift_opt_bind Let_def
proof (rule holds_bind [OF pass_batch [OF D G x fast red t inv nd b]])
  fix p :: "nat \<times> form \<times> weso"
  assume p: "case p of (k, f, w) \<Rightarrow> k \<le> checkpoint_interval \<and>
      loop_core D x w0 st (s\<lparr>rs_f := f, rs_iterations := rs_iterations s + k, rs_weso := w\<rparr>)"
  obtain k f w where kfw: "p = (k, f, w)" by (cases p)
  let ?u = "s\<lparr>rs_f := f, rs_iterations := rs_iterations s + k, rs_weso := w\<rparr>"
  have k: "k \<le> checkpoint_interval" and core: "loop_core D x w0 st ?u" using p by (simp_all add: kfw)
  have n: "rs_iterations s \<le> rs_last s" "rs_last s \<le> rs_iterations s + 2 ^ 15" using inv nd by (auto simp: loop_inv_def)
  let ?v = "n_weso_step st (?u\<lparr>rs_reported := rs_iterations ?u\<rparr>)"
  show "holds t (\<lambda>s'. loop_inv D x w0 st s' \<and> rs_iterations s' \<le> rs_iterations s + checkpoint_interval + 99)
    (lift_opt (case p of (k, f, w) \<Rightarrow>
       if rs_last (s\<lparr>rs_f := f, rs_iterations := rs_iterations s + k, rs_weso := w\<rparr>)
          \<le> rs_iterations (s\<lparr>rs_f := f, rs_iterations := rs_iterations s + k, rs_weso := w\<rparr>)
       then Option.bind (two_weso_step G red D (n_weso_step st
              (s\<lparr>rs_f := f, rs_iterations := rs_iterations s + k, rs_weso := w,
                 rs_reported := rs_iterations (s\<lparr>rs_f := f, rs_iterations := rs_iterations s + k, rs_weso := w\<rparr>)\<rparr>)))
              (\<lambda>s. if rs_done s then Some s else Some (s\<lparr>rs_last := rs_last s + 2 ^ 15\<rparr>))
       else Some (s\<lparr>rs_f := f, rs_iterations := rs_iterations s + k, rs_weso := w\<rparr>)))"
  proof (cases "rs_last s \<le> rs_iterations s + k")
    case True
    have c: "loop_core D x w0 st ?v"
    proof (rule core_n_weso)
      show "loop_core D x w0 st (?u\<lparr>rs_reported := rs_iterations ?u\<rparr>)" using core by (simp add: loop_core_def)
    qed (use True n k in \<open>simp_all add: checkpoint_interval_def\<close>)
    have "holds t (\<lambda>s'. loop_inv D x w0 st s' \<and> rs_iterations s' \<le> rs_iterations ?v + 99)
      (lift_opt (Option.bind (two_weso_step G red D ?v) (\<lambda>s. if rs_done s then Some s else Some (s\<lparr>rs_last := rs_last s + 2 ^ 15\<rparr>))))"
      by (rule core_two_weso [OF D G x red c]) (use nd True n k in simp_all)
    then have "holds t (\<lambda>s'. loop_inv D x w0 st s' \<and> rs_iterations s' \<le> rs_iterations s + checkpoint_interval + 99)
      (lift_opt (Option.bind (two_weso_step G red D ?v) (\<lambda>s. if rs_done s then Some s else Some (s\<lparr>rs_last := rs_last s + 2 ^ 15\<rparr>))))"
      by (rule holds_mono) (use k in auto)
    then show ?thesis using True by (simp add: kfw)
  next
    case False
    then have "loop_inv D x w0 st ?u" using core n nd by (auto simp: loop_inv_def)
    then show ?thesis using False k by (simp add: kfw)
  qed
qed


lemma repeated_square_within:
  assumes D: "prime_disc D" and G: "gcdext_ok G" and x: "posdef D x" and fast: "fast_spec D fast"
    and red: "reducer_sound red" "t \<Longrightarrow> reducer_total red"
    and t: "t \<Longrightarrow> \<forall>f n b. fst (snd (fast f n b)) \<noteq> None"
    and inv: "loop_inv D x w0 st s" and b: "rs_iterations s + p * (checkpoint_interval + 99) + checkpoint_interval < checkpoint_space * 2 ^ 16"
  shows "holds t (\<lambda>s. loop_inv D x w0 st s \<and> rs_iterations s < checkpoint_space * 2 ^ 16) (lift_opt (repeated_square G red fast st D p s))"
  using inv b
proof (induction p arbitrary: s)
  case 0
  then show ?case by simp
next
  case (Suc p)
  show ?case
  proof (cases "rs_done s")
    case True
    then show ?thesis using Suc.prems by simp
  next
    case False
    let ?Q = "\<lambda>s. loop_inv D x w0 st s \<and> rs_iterations s < checkpoint_space * 2 ^ 16"
    have "step_bound s" using Suc.prems(2) unfolding step_bound_def by (auto intro: le_less_trans [rotated])
    note ps = pass_inv [OF D G x fast red t Suc.prems(1) False this]
    have "holds t ?Q (bind_res (lift_opt (square_pass G red fast st D s))
        (\<lambda>s. lift_opt (repeated_square G red fast st D p s)))"
    proof (rule holds_bind [OF ps])
      fix s'
      assume s': "loop_inv D x w0 st s' \<and> rs_iterations s' \<le> rs_iterations s + checkpoint_interval + 99"
      then have "rs_iterations s' + p * (checkpoint_interval + 99) + checkpoint_interval < checkpoint_space * 2 ^ 16"
        using Suc.prems(2) by simp
      then show "holds t ?Q (lift_opt (repeated_square G red fast st D p s'))"
        using Suc.IH s' by blast
    qed
    then show ?thesis using False by (simp add: lift_opt_bind)
  qed
qed

lemma repeated_square_inv:
  assumes "prime_disc D" and "gcdext_ok G" and "posdef D x" and "fast_spec D fast"
    and "reducer_sound red" "t \<Longrightarrow> reducer_total red" and "t \<Longrightarrow> \<forall>f n b. fst (snd (fast f n b)) \<noteq> None"
    and "loop_inv D x w0 st s" and "rs_iterations s + p * (checkpoint_interval + 99) + checkpoint_interval < checkpoint_space * 2 ^ 16"
  shows "holds t (loop_inv D x w0 st) (lift_opt (repeated_square G red fast st D p s))"
  by (rule holds_mono [OF repeated_square_within [OF assms]]) simp_all

text \<open>The state the loop starts in.\<close>

lemma loop_start:
  assumes D: "prime_disc D" and x: "posdef D x" "is_reduced x" and ok: "weso_ok D x 0 0 w"
    and two: "\<forall>u. w = Two u \<longrightarrow> tw_switch u = None" and st: "st \<longrightarrow> (\<exists>u. w = Fast u \<and> fw_multi u)"
  shows "loop_inv D x w st (rs_init x w)"
proof -
  have p: "pw D x (2 ^ 0) x" using class_pow_1 [OF prime_disc_good [OF D] x(1)] x(1) by (simp add: pw_def)
  have k: "weso_kind w w" by (auto simp: weso_kind_def split: weso.splits)
  have tb: "\<forall>u. w = Two u \<longrightarrow> two_bounds 0 u" using two by (simp add: two_bounds_def two_constants)
  show ?thesis
    unfolding loop_inv_def loop_core_def using p ok k tb st squaring_form [OF D x] by (simp add: rs_init_def)
qed

lemma two_start: "good_disc D \<Longrightarrow> posdef D x \<Longrightarrow> fa x < - D \<Longrightarrow> weso_ok D x 0 0 (Two (TwoWesolowskiCallback x)) \<and>
    tw_switch (TwoWesolowskiCallback x) = None"
  using two_initial by (simp add: weso_ok_def TwoWesolowskiCallback_def)

text \<open>The callbacks the clients build: \<open>st\<close> says whether there are storage workers, which
  only the n-Wesolowski client with many processors starts.\<close>

definition new_callback :: "(nat \<Rightarrow> nat \<times> nat) \<Rightarrow> form \<Rightarrow> bool \<Rightarrow> weso \<Rightarrow> bool" where
  "new_callback approx x st w \<longleftrightarrow>
     (\<exists>wanted s. \<not> st \<and> OneWesolowskiCallback approx x wanted = Some s \<and> w = One s) \<or>
     (\<not> st \<and> w = Two (TwoWesolowskiCallback x)) \<or>
     (\<exists>segments s. 0 < segments \<and> segments \<le> 15 \<and> FastAlgorithmCallback segments x st = Some s \<and> w = Fast s)"

lemma callback_start:
  assumes D: "prime_disc D" and x: "posdef D x" "is_reduced x" and new: "new_callback approx x st w"
  shows "loop_inv D x w st (rs_init x w)"
proof (rule loop_start [OF D x])
  note good = prime_disc_good [OF D]
  show "weso_ok D x 0 0 w"
    using new one_initial [OF x(1) good] two_start [OF good x(1) squaring_form [OF D x]] fast_initial [OF good x(1)]
    by (auto simp: new_callback_def weso_ok_def)
  show "\<forall>u. w = Two u \<longrightarrow> tw_switch u = None" using new two_start [OF good x(1) squaring_form [OF D x]] by (auto simp: new_callback_def)
  show "st \<longrightarrow> (\<exists>u. w = Fast u \<and> fw_multi u)" using new fast_initial [OF good x(1)] by (auto simp: new_callback_def)
qed

lemma loop_init_bound:
  "p * (checkpoint_interval + 99) + checkpoint_interval < checkpoint_space * 2 ^ 16 \<Longrightarrow>
     rs_iterations (rs_init x w) + p * (checkpoint_interval + 99) + checkpoint_interval < checkpoint_space * 2 ^ 16"
  by (simp add: rs_init_def)

text \<open>The cells a batch writes exist, whatever the engine reports.\<close>

lemma two_batch_cells:
  assumes inv: "loop_inv D x w0 st s" and nd: "\<not> rs_done s" and w: "rs_weso s = Two u" and i: "i < checkpoint_interval"
  shows "\<exists>pos<two_space. two_position (Suc (rs_iterations s + i)) u = Some pos"
proof -
  have "step_bound s" by (simp add: step_bound_def w)
  from loop_rooms [OF inv nd this] i w have "two_slot (Suc (rs_iterations s + i)) u < two_space"
    by (simp add: weso_room_def two_room_def)
  then show ?thesis using two_space_int by (simp add: two_position_slot del: past_int_def)
qed

lemma corrupted_batch:
  assumes D: "prime_disc D" and G: "gcdext_ok G" and x: "posdef D x" and fast: "fast_spec D fast" and red: "reducer_sound red"
    and run: "fast f n b = (ds, None, f')" and st: "weso_ok D x n n w" and f: "pw D x (2 ^ n) f" "fa f < - D"
    and rooms: "\<forall>i<b. weso_room w (n + i)" and b: "0 < b"
    and r: "square_batch G (on_iteration red D) fast n b f w = Some (k, g, w')"
  shows "k = b \<and> pw D x (2 ^ (n + b)) g \<and> weso_ok D x (n + b) (n + b) w'"
proof -
  have l: "listener (on_iteration red) weso_ok weso_frame weso_room False" by (rule weso_listener [OF red]) simp
  have f': "f' = f" using fast_spec_none [OF fast f run] by blast
  have k: "k = b" using r unfolding square_batch_none [where fast = fast, OF run [unfolded f']]
    by (auto simp: Option.bind_eq_Some_conv map_option_eq_Some)
  have "holds False (\<lambda>(k, f, s'). 0 < k \<and> k \<le> b \<and> listener.fed weso_ok weso_frame D x (n + k) (n + k) w (f, s'))
      (lift_opt (square_batch G (on_iteration red D) fast n b f w))"
    by (rule listener.batch_fed [OF l D G x fast _ st f rooms b]) simp
  then show ?thesis using k by (simp add: r listener.fed_def [OF l])
qed

end
