(* ===== verification/FastStorage.thy ===== *)
theory FastStorage
  imports FastCallback Provers AggVdf
begin

section \<open>The storage workers of \<open>fast_storage.h\<close>\<close>

text \<open>
  On a machine with many processors the squaring loop stores nothing but every \<open>2^15\<close>-th form.
  \<open>FastStorage\<close> takes these forms, redoes the squarings of the half segment behind each in
  one of six threads and stores the forms the provers read; it marks each finished half, and
  tells the event loop how far all halves are finished.  The array of forms is shared by the
  workers without a lock.  The model interleaves the workers at single iterations, in any
  order, and records how far a worker has ever lagged behind another; nothing in the code bounds
  this lag, and what is stored is right as long as it stays within 19 small segments.  \<open>None\<close> is undefined behaviour, the error \<open>Stopped\<close> a return at \<open>stopped\<close>.
\<close>

subsection \<open>The state\<close>

text \<open>A worker holds the begin of its half segment, its iteration and its form.\<close>

record fast_storage =
  fs_weso :: fast_weso
  fs_stored :: "nat \<Rightarrow> bool"
  fs_pending :: "(nat \<times> form) list"
  fs_workers :: "(nat \<times> nat \<times> form) list"
  fs_iter :: nat
  fs_event :: bool

definition FastStorage_init :: "fast_weso \<Rightarrow> fast_storage" where
  "FastStorage_init w = \<lparr>fs_weso = w, fs_stored = (\<lambda>_. False), fs_pending = [], fs_workers = [], fs_iter = 0,
     fs_event = False\<rparr>"

definition intermediates_threads :: nat where
  "intermediates_threads = 6"

definition stored_space :: nat where
  "stored_space = 2 ^ 19"

subsection \<open>The operations\<close>

definition AddIntermediates :: "nat \<Rightarrow> fast_storage \<Rightarrow> fast_storage option" where
  "AddIntermediates iter s =
     (let bucket = iter div 2 ^ 16; subbucket = (if iter mod 2 ^ 16 \<noteq> 0 then 1 else 0) in
      if 2 * bucket + subbucket \<ge> stored_space then None
      else let stored = (fs_stored s)(2 * bucket + subbucket := True);
               has_event = (stored (2 * bucket) \<and> stored (2 * bucket + 1)) in
        Some (s\<lparr>fs_stored := stored, fs_event := (fs_event s \<or> has_event)\<rparr>))"

text \<open>\<open>pending_intermediates[iter] = y\<close> on a \<open>std::map\<close>, smallest key first.\<close>

primrec map_assign :: "nat \<Rightarrow> form \<Rightarrow> (nat \<times> form) list \<Rightarrow> (nat \<times> form) list" where
  "map_assign k v [] = [(k, v)]"
| "map_assign k v (p # ps) =
     (if k < fst p then (k, v) # p # ps else if k = fst p then (k, v) # ps else p # map_assign k v ps)"

definition SubmitCheckpoint :: "form \<Rightarrow> nat \<Rightarrow> fast_storage \<Rightarrow> fast_storage" where
  "SubmitCheckpoint y_ret iteration s = s\<lparr>fs_pending := map_assign iteration y_ret (fs_pending s)\<rparr>"

text \<open>The search of \<open>GetFinishedSegment\<close>; past the array it is undefined.\<close>

function finished_from :: "(nat \<Rightarrow> bool) \<Rightarrow> nat \<Rightarrow> nat option" where
  "finished_from stored iter =
     (if 2 * (iter div 2 ^ 16) \<ge> stored_space then None
      else if stored (2 * (iter div 2 ^ 16)) \<and> stored (2 * (iter div 2 ^ 16) + 1)
      then finished_from stored (iter + 2 ^ 16)
      else Some iter)"
  by pat_completeness auto
termination
  by (relation "measure (\<lambda>(stored, iter). stored_space - iter div 2 ^ 16)") auto

declare finished_from.simps [simp del]

definition GetFinishedSegment :: "fast_storage \<Rightarrow> (nat \<times> fast_storage) option" where
  "GetFinishedSegment s = map_option (\<lambda>n. (n, s\<lparr>fs_iter := n\<rparr>)) (finished_from (fs_stored s) (fs_iter s))"

text \<open>One round of the loop over the segment sizes, and one iteration.\<close>

definition store_bucket ::
  "(form \<Rightarrow> form option) \<Rightarrow> int \<Rightarrow> (nat \<Rightarrow> nat \<Rightarrow> bool) \<Rightarrow> form \<Rightarrow> nat \<Rightarrow> nat \<Rightarrow> fast_weso \<Rightarrow> fast_weso res" where
  "store_bucket red D stop y iteration i w =
     (if \<not> past_int (bucket_kl i) \<and> (iteration mod power_2 i) mod bucket_kl i = 0 \<and> stop iteration i
      then Some (Inl Stopped)
      else lift_opt (fast_store red D (NL_FORM y) False iteration i w))"

definition inner_step ::
  "gcdext \<Rightarrow> (form \<Rightarrow> form option) \<Rightarrow> int \<Rightarrow> (nat \<Rightarrow> nat \<Rightarrow> bool) \<Rightarrow> nat \<Rightarrow> form \<times> fast_weso \<Rightarrow>
   (form \<times> fast_weso) res" where
  "inner_step G red D stop iteration = (\<lambda>(y, w).
     bind_res (fold_res (store_bucket red D stop y iteration) [0..<fw_segments w] w) (\<lambda>w.
     bind_res (lift_opt (nudupl_form G y D (iroot4 (- D)))) (\<lambda>y.
     bind_res (lift_opt (red y)) (\<lambda>y. ret (y, w)))))"

definition CalculateIntermediatesInner ::
  "gcdext \<Rightarrow> (form \<Rightarrow> form option) \<Rightarrow> int \<Rightarrow> (nat \<Rightarrow> nat \<Rightarrow> bool) \<Rightarrow> form \<Rightarrow> nat \<Rightarrow> fast_storage \<Rightarrow>
   fast_storage res" where
  "CalculateIntermediatesInner G red D stop y iter_begin s =
     bind_res (fold_res (inner_step G red D stop) [iter_begin..<iter_begin + 2 ^ 15] (y, fs_weso s)) (\<lambda>(y, w).
       lift_opt (AddIntermediates iter_begin (s\<lparr>fs_weso := w\<rparr>)))"

text \<open>\<open>CalculateIntermediatesThread\<close> takes the smallest pending form.\<close>

definition take_pending :: "fast_storage \<Rightarrow> fast_storage option" where
  "take_pending s =
     (case fs_pending s of
        [] \<Rightarrow> None
      | (iter_begin, y) # ps \<Rightarrow>
          Some (s\<lparr>fs_pending := ps, fs_workers := fs_workers s @ [(iter_begin, iter_begin, y)]\<rparr>))"

definition drop_worker :: "nat \<Rightarrow> fast_storage \<Rightarrow> fast_storage" where
  "drop_worker i s = s\<lparr>fs_workers := take i (fs_workers s) @ drop (Suc i) (fs_workers s)\<rparr>"

subsection \<open>The system\<close>

text \<open>The first index is the largest iteration any worker has stored, the second the most a worker
  has ever been behind it when it stored a form: history of the run, not state of the program.
  The squaring loop goes on, and submits powers of its multiples of \<open>2^15\<close>.\<close>

inductive storage_reachable ::
  "gcdext \<Rightarrow> (form \<Rightarrow> form option) \<Rightarrow> int \<Rightarrow> form \<Rightarrow> fast_weso \<Rightarrow> nat \<Rightarrow> nat \<Rightarrow> fast_storage \<Rightarrow> bool"
  for G :: gcdext and red :: "form \<Rightarrow> form option" and D :: int and x :: form and w0 :: fast_weso where
  start: "storage_reachable G red D x w0 0 0 (FastStorage_init w0)"
| square: "storage_reachable G red D x w0 m lag s \<Longrightarrow> fast_on_iteration red D d n (fs_weso s) = Some w \<Longrightarrow>
    storage_reachable G red D x w0 m lag (s\<lparr>fs_weso := w\<rparr>)"
| submit: "storage_reachable G red D x w0 m lag s \<Longrightarrow> c mod 2 ^ 15 = 0 \<Longrightarrow> pw D x (2 ^ c) y \<Longrightarrow>
    storage_reachable G red D x w0 m lag (SubmitCheckpoint y c s)"
| take: "storage_reachable G red D x w0 m lag s \<Longrightarrow> length (fs_workers s) < intermediates_threads \<Longrightarrow>
    take_pending s = Some s' \<Longrightarrow> storage_reachable G red D x w0 m lag s'"
| work: "storage_reachable G red D x w0 m lag s \<Longrightarrow> i < length (fs_workers s) \<Longrightarrow> fs_workers s ! i = (c, n, y) \<Longrightarrow>
    n < c + 2 ^ 15 \<Longrightarrow> inner_step G red D (\<lambda>_ _. False) n (y, fs_weso s) = ret (y', w) \<Longrightarrow>
    storage_reachable G red D x w0 (max m n) (max lag (m - n))
      (s\<lparr>fs_weso := w, fs_workers := (fs_workers s)[i := (c, Suc n, y')]\<rparr>)"
| finish: "storage_reachable G red D x w0 m lag s \<Longrightarrow> i < length (fs_workers s) \<Longrightarrow> fs_workers s ! i = (c, n, y) \<Longrightarrow>
    n = c + 2 ^ 15 \<Longrightarrow> AddIntermediates c (drop_worker i s) = Some s' \<Longrightarrow> storage_reachable G red D x w0 m lag s'"
| finished: "storage_reachable G red D x w0 m lag s \<Longrightarrow> GetFinishedSegment s = Some (n, s') \<Longrightarrow>
    storage_reachable G red D x w0 m lag s'"

definition worker_window :: nat where
  "worker_window = 19 * 2 ^ 16"

subsection \<open>What is stored\<close>

text \<open>The exponents whose forms have been written: those of marked halves, and those a worker has
  passed.\<close>

definition passed :: "fast_storage \<Rightarrow> nat \<Rightarrow> bool" where
  "passed s e \<longleftrightarrow> fs_stored s (e div 2 ^ 15) \<or> (\<exists>(c, n, y)\<in>set (fs_workers s). c \<le> e \<and> e < n)"

definition forms_in :: "int \<Rightarrow> form \<Rightarrow> (nat \<Rightarrow> bool) \<Rightarrow> nat \<Rightarrow> nat \<Rightarrow> (nat \<Rightarrow> form) \<Rightarrow> bool" where
  "forms_in D x S m segments forms \<longleftrightarrow>
     (\<forall>b < segments. \<forall>e. S e \<longrightarrow> on_grid b e \<longrightarrow> m < (e div power_2 b + 20) * power_2 b \<longrightarrow> pw D x (2 ^ e) (forms (slot b e)))"

lemma forms_in_mono: "forms_in D x S m segs forms \<Longrightarrow> m \<le> m' \<Longrightarrow> (\<And>e. S' e \<Longrightarrow> S e) \<Longrightarrow> forms_in D x S' m' segs forms"
  unfolding forms_in_def by (meson le_less_trans)

lemma power_2_ge: "2 ^ 16 \<le> power_2 b"
  unfolding power_2_def by (intro power_increasing) simp_all

text \<open>Writing the right form of iteration \<open>N\<close> keeps what is stored: an older form in the same
  cell has left the window, a newer one cannot be there while no worker lags.\<close>

lemma forms_in_write:
  assumes ok: "forms_in D x S m segs forms" and g: "on_grid b N" and N: "N \<le> m" "m \<le> N + 19 * 2 ^ 16"
    and S: "\<And>e. S e \<Longrightarrow> e \<le> m" and y: "pw D x (2 ^ N) y"
  shows "forms_in D x S m segs (forms(slot b N := y))"
proof -
  have "e = N \<and> c = b" if "S e" "on_grid c e" "m < (e div power_2 c + 20) * power_2 c" "slot c e = slot b N" for c e
  proof -
    have c: "c = b" using that(4) by (rule slot_bucket)
    have "e = N"
    proof (cases "e \<le> N")
      case True
      then show ?thesis using slot_window [of b e N] that N g unfolding c by simp
    next
      case False
      let ?p = "power_2 b"
      have "N < N div ?p * ?p + ?p" using div_mult_mod_eq [of N ?p] mod_less_divisor [of ?p N] power_2_pos [of b] by linarith
      moreover have "(N div ?p + 20) * ?p = N div ?p * ?p + 20 * ?p" by (rule add_mult_distrib)
      ultimately have "e < (N div ?p + 20) * ?p" using S [OF that(1)] N(2) power_2_ge [of b] by linarith
      then show ?thesis using slot_window [of b N e] that g False unfolding c by simp
    qed
    then show ?thesis using c by simp
  qed
  then show ?thesis using ok y unfolding forms_in_def by (auto simp: fun_upd_def)
qed

lemma fast_store_form:
  assumes s: "fast_shape s" and i: "i < fw_segments s"
  shows "fast_store red D (NL_FORM y) False N i s =
    Some (if on_grid i N then s\<lparr>fw_forms := (fw_forms s)(slot i N := y)\<rparr> else s)"
proof -
  have "\<not> past_int (bucket_kl i)" using s i by (intro bucket_kl_int) (simp add: fast_shape_def)
  then show ?thesis using fast_position_slot [OF s i, of N]
    by (simp add: fast_store_def on_grid_def set_cell_def SetForm_def put_def del: past_int_def)
qed

text \<open>All buckets of one iteration.\<close>

lemma store_buckets:
  assumes s: "fast_shape s" and k: "k \<le> fw_segments s"
    and ok: "forms_in D x S m (fw_segments s) (fw_forms s)" and N: "N \<le> m" "m \<le> N + 19 * 2 ^ 16"
    and S: "\<And>e. S e \<Longrightarrow> e \<le> m" and y: "pw D x (2 ^ N) y" and stop: "t \<Longrightarrow> \<forall>i. \<not> stop N i"
  shows "holds t (\<lambda>s'. same_frame s s' \<and> forms_in D x S m (fw_segments s) (fw_forms s') \<and>
      (\<forall>b<k. on_grid b N \<longrightarrow> pw D x (2 ^ N) (fw_forms s' (slot b N))))
    (fold_res (store_bucket red D stop y N) [0..<k] s)"
proof (rule holds_fold)
  fix i u
  assume i: "i < k" and u: "same_frame s u \<and> forms_in D x S m (fw_segments s) (fw_forms u) \<and>
      (\<forall>b<i. on_grid b N \<longrightarrow> pw D x (2 ^ N) (fw_forms u (slot b N)))"
  have u': "fast_shape u" "i < fw_segments u" using u i k same_frame_shape [OF _ s] by (auto simp: same_frame_def)
  let ?u = "if on_grid i N then u\<lparr>fw_forms := (fw_forms u)(slot i N := y)\<rparr> else u"
  have "slot b N \<noteq> slot i N" if "b < i" for b using slot_bucket [of b N i N] that by blast
  then have "same_frame s ?u \<and> forms_in D x S m (fw_segments s) (fw_forms ?u) \<and>
      (\<forall>b<Suc i. on_grid b N \<longrightarrow> pw D x (2 ^ N) (fw_forms ?u (slot b N)))"
    using u y forms_in_write [OF _ _ N S y, where segs = "fw_segments s" and forms = "fw_forms u" and b = i] by (auto simp: less_Suc_eq)
  then show "holds t (\<lambda>s'. same_frame s s' \<and> forms_in D x S m (fw_segments s) (fw_forms s') \<and>
      (\<forall>b<Suc i. on_grid b N \<longrightarrow> pw D x (2 ^ N) (fw_forms s' (slot b N)))) (store_bucket red D stop y N i u)"
    using stop unfolding store_bucket_def fast_store_form [OF u'] by (auto simp del: past_int_def)
qed (use ok in \<open>simp add: same_frame_def\<close>)

lemma squared_form:
  assumes D: "good_disc D" and G: "gcdext_ok G" and x: "posdef D x" and red: "reducer_sound red"
    and t: "t \<Longrightarrow> reducer_total red" and y: "pw D x (2 ^ i) y"
  shows "holds t (pw D x (2 ^ Suc i)) (bind_res (lift_opt (nudupl_form G y D L)) (\<lambda>y. lift_opt (red y)))"
proof -
  have yp: "posdef D y" "class_pow D x (2 ^ i) y" using y by (simp_all add: pw_def)
  obtain z where z: "qfb_nudupl G y D L = Some z" "posdef D z" "class_mul D y y z"
    using qfb_nudupl_ok [OF D G yp(1)] by blast
  have "class_pow D x (2 ^ i + 2 ^ i) z" by (rule class_pow_add [OF D x yp(2,2) z(3)])
  then have "pw D x (2 ^ Suc i) z" using z(2) by (simp add: pw_def mult_2)
  then have "holds t (\<lambda>p. pw D x (2 ^ Suc i) p \<and> weakly_reduced p) (lift_opt (red z))"
    using finish_proof [OF D red] t by blast
  then show ?thesis using z(1) by (simp add: nudupl_form_def) (rule holds_mono, assumption, simp)
qed

lemma inner_step_ok:
  assumes D: "good_disc D" and G: "gcdext_ok G" and x: "posdef D x" and red: "reducer_sound red"
    and t: "t \<Longrightarrow> reducer_total red \<and> (\<forall>i. \<not> stop N i)" and w: "fast_shape w"
    and ok: "forms_in D x S m (fw_segments w) (fw_forms w)" and N: "N \<le> m" "m \<le> N + 19 * 2 ^ 16"
    and S: "\<And>e. S e \<Longrightarrow> e \<le> m" and y: "pw D x (2 ^ N) y"
  shows "holds t (\<lambda>(y', w'). pw D x (2 ^ Suc N) y' \<and> same_frame w w' \<and>
      forms_in D x (\<lambda>e. S e \<or> e = N) m (fw_segments w) (fw_forms w')) (inner_step G red D stop N (y, w))"
proof -
  let ?Q = "\<lambda>s'. same_frame w s' \<and> forms_in D x S m (fw_segments w) (fw_forms s') \<and>
      (\<forall>b<fw_segments w. on_grid b N \<longrightarrow> pw D x (2 ^ N) (fw_forms s' (slot b N)))"
  have q: "same_frame w u \<and> forms_in D x (\<lambda>e. S e \<or> e = N) m (fw_segments w) (fw_forms u)" if "?Q u" for u
    using that unfolding forms_in_def by blast
  have "holds t ?Q (fold_res (store_bucket red D stop y N) [0..<fw_segments w] w)"
    using store_buckets [OF w order_refl ok N S y] t by blast
  then have "holds t (\<lambda>(y', w'). pw D x (2 ^ Suc N) y' \<and> ?Q w')
      (bind_res (fold_res (store_bucket red D stop y N) [0..<fw_segments w] w) (\<lambda>w.
       bind_res (bind_res (lift_opt (nudupl_form G y D (iroot4 (- D)))) (\<lambda>y. lift_opt (red y))) (\<lambda>y. ret (y, w))))"
  proof (rule holds_bind)
    fix u assume u: "?Q u"
    show "holds t (\<lambda>(y', w'). pw D x (2 ^ Suc N) y' \<and> ?Q w')
        (bind_res (bind_res (lift_opt (nudupl_form G y D (iroot4 (- D)))) (\<lambda>y. lift_opt (red y))) (\<lambda>y. ret (y, u)))"
      by (rule holds_bind [OF squared_form [OF D G x red _ y]]) (use t u in auto)
  qed
  then have "holds t (\<lambda>(y', w'). pw D x (2 ^ Suc N) y' \<and> ?Q w') (inner_step G red D stop N (y, w))"
    by (simp add: inner_step_def bind_res_assoc)
  then show ?thesis by (rule holds_mono) (use q in auto)
qed

subsection \<open>The invariant of the system\<close>

definition worker_ok :: "int \<Rightarrow> form \<Rightarrow> nat \<times> nat \<times> form \<Rightarrow> bool" where
  "worker_ok D x = (\<lambda>(c, n, y). c mod 2 ^ 15 = 0 \<and> c \<le> n \<and> n \<le> c + 2 ^ 15 \<and> pw D x (2 ^ n) y)"

definition storage_inv :: "int \<Rightarrow> form \<Rightarrow> nat \<Rightarrow> fast_storage \<Rightarrow> bool" where
  "storage_inv D x m s \<longleftrightarrow> fast_shape (fs_weso s) \<and> fw_multi (fs_weso s) \<and>
     (\<forall>(c, y)\<in>set (fs_pending s). c mod 2 ^ 15 = 0 \<and> pw D x (2 ^ c) y) \<and>
     (\<forall>p\<in>set (fs_workers s). worker_ok D x p) \<and> length (fs_workers s) \<le> intermediates_threads \<and>
     (\<forall>e. passed s e \<longrightarrow> e \<le> m) \<and>
     forms_in D x (passed s) m (fw_segments (fs_weso s)) (fw_forms (fs_weso s)) \<and>
     fs_iter s mod 2 ^ 16 = 0 \<and> (\<forall>e<fs_iter s. fs_stored s (e div 2 ^ 15))"

lemma map_assign_set: "set (map_assign k v ps) \<subseteq> insert (k, v) (set ps)"
  by (induction ps) auto

lemma storage_half_index:
  fixes c :: nat
  assumes "c mod 2 ^ 15 = 0"
  shows "2 * (c div 2 ^ 16) + (if c mod 2 ^ 16 \<noteq> 0 then 1 else 0) = c div 2 ^ 15"
proof -
  obtain k where c: "c = 2 ^ 15 * k" using assms by (auto simp: mod_eq_0_iff_dvd)
  have e: "(2 :: nat) ^ 16 = 2 ^ 15 * 2" by simp
  have d: "c div 2 ^ 16 = k div 2" unfolding c e by (rule div_mult_mult1) simp
  have m: "c mod 2 ^ 16 = 2 ^ 15 * (k mod 2)" unfolding c e by (rule mod_mult_mult1)
  have "(c mod 2 ^ 16 \<noteq> 0) = (k mod 2 \<noteq> 0)" unfolding m by simp
  moreover have "c div 2 ^ 15 = k" unfolding c by simp
  moreover have "2 * (k div 2) + (if k mod 2 \<noteq> 0 then 1 else 0) = k" by presburger
  ultimately show ?thesis unfolding d by (simp only:)
qed

lemma half_of:
  fixes c e a :: nat
  assumes "c mod a = 0" and "0 < a"
  shows "c \<le> e \<and> e < c + a \<longleftrightarrow> e div a = c div a"
proof -
  obtain k where c: "c = a * k" using assms by (auto simp: mod_eq_0_iff_dvd)
  then have k: "c div a = k" using assms(2) by simp
  show ?thesis
  proof
    assume "c \<le> e \<and> e < c + a"
    then have "e div a = k" using c by (intro div_nat_eqI) simp_all
    then show "e div a = c div a" using k by simp
  next
    assume e: "e div a = c div a"
    have "e = a * k + e mod a" using k e div_mult_mod_eq [of e a] by (simp add: mult.commute)
    then show "c \<le> e \<and> e < c + a" using mod_less_divisor [OF assms(2), of e] c by linarith
  qed
qed

lemma AddIntermediates_marks:
  assumes "c mod 2 ^ 15 = 0" and "AddIntermediates c s = Some s'"
  shows "\<exists>ev. s' = s\<lparr>fs_stored := (fs_stored s)(c div 2 ^ 15 := True), fs_event := ev\<rparr>"
  using assms(2) unfolding AddIntermediates_def Let_def storage_half_index [OF assms(1)] by (auto split: if_splits)

lemma fast_on_multi:
  assumes "fast_on_iteration red D d n w = Some w'" and "fw_multi w"
  shows "fw_forms w' = fw_forms w \<and> fw_segments w' = fw_segments w \<and> fw_multi w' = fw_multi w \<and> fw_begin w' = fw_begin w \<and>
    fw_space w' = fw_space w"
  using assms unfolding fast_on_iteration_def Let_def
  by (auto simp: Option.bind_eq_Some_conv map_option_eq_Some simp del: past_int_def split: if_splits)

lemma storage_inv_start:
  assumes "good_disc D" and "posdef D x" and "0 < segments" and "segments \<le> 15"
    and "FastAlgorithmCallback segments x True = Some w"
  shows "storage_inv D x 0 (FastStorage_init w)"
  using fast_initial [OF assms]
  by (simp add: storage_inv_def FastStorage_init_def passed_def forms_in_def fast_ok_def intermediates_threads_def)

lemma storage_square:
  assumes inv: "storage_inv D x m s" and "fast_on_iteration red D d n (fs_weso s) = Some w"
  shows "storage_inv D x m (s\<lparr>fs_weso := w\<rparr>)"
proof -
  have "fw_multi (fs_weso s)" using inv by (simp add: storage_inv_def)
  note w = fast_on_multi [OF assms(2) this]
  have "passed (s\<lparr>fs_weso := w\<rparr>) = passed s" by (simp add: passed_def fun_eq_iff)
  then show ?thesis using inv w by (simp add: storage_inv_def fast_shape_def)
qed

lemma storage_submit:
  assumes inv: "storage_inv D x m s" and c: "c mod 2 ^ 15 = 0" "pw D x (2 ^ c) y"
  shows "storage_inv D x m (SubmitCheckpoint y c s)"
proof -
  have "passed (SubmitCheckpoint y c s) = passed s" by (simp add: passed_def fun_eq_iff SubmitCheckpoint_def)
  moreover have "\<forall>(c, y)\<in>set (map_assign c y (fs_pending s)). c mod 2 ^ 15 = 0 \<and> pw D x (2 ^ c) y"
    using map_assign_set [of c y "fs_pending s"] inv c by (fastforce simp: storage_inv_def)
  ultimately show ?thesis using inv by (simp add: storage_inv_def SubmitCheckpoint_def)
qed

lemma storage_take:
  assumes inv: "storage_inv D x m s" and l: "length (fs_workers s) < intermediates_threads" and t: "take_pending s = Some s'"
  shows "storage_inv D x m s'"
proof -
  obtain c y ps where p: "fs_pending s = (c, y) # ps"
    and s': "s' = s\<lparr>fs_pending := ps, fs_workers := fs_workers s @ [(c, c, y)]\<rparr>"
    using t by (auto simp: take_pending_def split: list.splits prod.splits)
  have "passed s' = passed s" by (auto simp: passed_def fun_eq_iff s')
  moreover have "worker_ok D x (c, c, y)" using inv p by (simp add: storage_inv_def worker_ok_def)
  ultimately show ?thesis using inv l p by (simp add: storage_inv_def s')
qed

lemma in_set_update: "i < length xs \<Longrightarrow> p \<in> set (xs[i := v]) \<Longrightarrow> p = v \<or> p \<in> set xs"
  using set_update_subset_insert [of xs i v] by auto

lemma bex_set_nth: "(\<exists>p\<in>set xs. P p) \<longleftrightarrow> (\<exists>j<length xs. P (xs ! j))"
  by (metis in_set_conv_nth)

lemma passed_work:
  assumes i: "i < length (fs_workers s)" "fs_workers s ! i = (c, n, y)" and n: "c \<le> n"
  shows "passed (s\<lparr>fs_weso := w, fs_workers := (fs_workers s)[i := (c, Suc n, y')]\<rparr>) e \<longleftrightarrow> passed s e \<or> e = n"
proof -
  define P :: "nat \<times> nat \<times> form \<Rightarrow> bool" where "P = (\<lambda>(c, n, y). c \<le> e \<and> e < n)"
  let ?ws = "fs_workers s" and ?us = "(fs_workers s)[i := (c, Suc n, y')]"
  have new: "P (?us ! i) \<longleftrightarrow> P (?ws ! i) \<or> e = n" using i n by (auto simp: P_def)
  have old: "P (?us ! j) = P (?ws ! j)" if "j \<noteq> i" for j using that by simp
  have "(\<exists>j<length ?ws. P (?us ! j)) \<longleftrightarrow> (\<exists>j<length ?ws. P (?ws ! j)) \<or> e = n"
    using new old i(1) by metis
  then have "(\<exists>p\<in>set ?us. P p) \<longleftrightarrow> (\<exists>p\<in>set ?ws. P p) \<or> e = n" unfolding bex_set_nth by simp
  then show ?thesis unfolding passed_def P_def by simp
qed

lemma storage_work:
  assumes D: "good_disc D" and G: "gcdext_ok G" and x: "posdef D x" and red: "reducer_sound red"
    and inv: "storage_inv D x m s" and i: "i < length (fs_workers s)" "fs_workers s ! i = (c, n, y)"
    and n: "n < c + 2 ^ 15" and m: "m \<le> n + 19 * 2 ^ 16"
    and r: "inner_step G red D (\<lambda>_ _. False) n (y, fs_weso s) = ret (y', w)"
  shows "storage_inv D x (max m n) (s\<lparr>fs_weso := w, fs_workers := (fs_workers s)[i := (c, Suc n, y')]\<rparr>)"
proof -
  have "(c, n, y) \<in> set (fs_workers s)" using i nth_mem by metis
  then have wk: "c mod 2 ^ 15 = 0" "c \<le> n" "pw D x (2 ^ n) y" using inv by (auto simp: storage_inv_def worker_ok_def)
  have sh: "fast_shape (fs_weso s)" using inv by (simp add: storage_inv_def)
  have le: "passed s e \<Longrightarrow> e \<le> max m n" for e using inv by (auto simp: storage_inv_def max_def)
  have "forms_in D x (passed s) m (fw_segments (fs_weso s)) (fw_forms (fs_weso s))" using inv by (simp add: storage_inv_def)
  then have ok: "forms_in D x (passed s) (max m n) (fw_segments (fs_weso s)) (fw_forms (fs_weso s))"
    by (rule forms_in_mono) simp_all
  have "holds False (\<lambda>(y', w'). pw D x (2 ^ Suc n) y' \<and> same_frame (fs_weso s) w' \<and>
      forms_in D x (\<lambda>e. passed s e \<or> e = n) (max m n) (fw_segments (fs_weso s)) (fw_forms w'))
      (inner_step G red D (\<lambda>_ _. False) n (y, fs_weso s))"
    by (rule inner_step_ok [OF D G x red _ sh ok _ _ le wk(3)]) (use m in simp_all)
  then have w: "pw D x (2 ^ Suc n) y'" "same_frame (fs_weso s) w"
      "forms_in D x (\<lambda>e. passed s e \<or> e = n) (max m n) (fw_segments (fs_weso s)) (fw_forms w)"
    unfolding r by simp_all
  let ?s = "s\<lparr>fs_weso := w, fs_workers := (fs_workers s)[i := (c, Suc n, y')]\<rparr>"
  have p: "passed ?s = (\<lambda>e. passed s e \<or> e = n)" using passed_work [OF i wk(2)] by blast
  have "worker_ok D x (c, Suc n, y')" using wk n w(1) by (simp add: worker_ok_def)
  moreover have "\<forall>p\<in>set (fs_workers s). worker_ok D x p" using inv by (simp add: storage_inv_def)
  ultimately have "\<forall>p\<in>set (fs_workers ?s). worker_ok D x p" using in_set_update [OF i(1)] by simp blast
  moreover have "fast_shape w" "fw_multi w" "fw_segments w = fw_segments (fs_weso s)"
    using w(2) same_frame_shape [OF w(2) sh] inv by (simp_all add: same_frame_def storage_inv_def)
  moreover have "\<forall>e. passed ?s e \<longrightarrow> e \<le> max m n" unfolding p using le by auto
  ultimately show ?thesis using inv w(3) unfolding storage_inv_def p by simp
qed

lemma set_drop_nth: "i < length xs \<Longrightarrow> set xs = insert (xs ! i) (set (take i xs @ drop (Suc i) xs))"
  using id_take_nth_drop [of i xs] by (metis Un_insert_right list.simps(15) set_append)

lemma storage_finish:
  assumes inv: "storage_inv D x m s" and i: "i < length (fs_workers s)" "fs_workers s ! i = (c, n, y)"
    and n: "n = c + 2 ^ 15" and r: "AddIntermediates c (drop_worker i s) = Some s'"
  shows "storage_inv D x m s'"
proof -
  let ?ws = "take i (fs_workers s) @ drop (Suc i) (fs_workers s)"
  have ws: "set (fs_workers s) = insert (c, n, y) (set ?ws)" using set_drop_nth [OF i(1)] unfolding i(2) .
  then have c: "c mod 2 ^ 15 = 0" using inv by (simp add: storage_inv_def worker_ok_def)
  obtain ev where s': "s' = (drop_worker i s)\<lparr>fs_stored := (fs_stored s)(c div 2 ^ 15 := True), fs_event := ev\<rparr>"
    using AddIntermediates_marks [OF c r] by (auto simp: drop_worker_def)
  have half: "c \<le> e \<and> e < n \<longleftrightarrow> e div 2 ^ 15 = c div 2 ^ 15" for e unfolding n by (rule half_of [OF c]) simp
  have p: "passed s' e \<longleftrightarrow> passed s e" for e
  proof -
    have "passed s e \<longleftrightarrow> fs_stored s (e div 2 ^ 15) \<or> (c \<le> e \<and> e < n) \<or> (\<exists>(c, n, y)\<in>set ?ws. c \<le> e \<and> e < n)"
      unfolding passed_def ws by simp
    moreover have "passed s' e \<longleftrightarrow> ((fs_stored s)(c div 2 ^ 15 := True)) (e div 2 ^ 15) \<or> (\<exists>(c, n, y)\<in>set ?ws. c \<le> e \<and> e < n)"
      by (simp add: passed_def s' drop_worker_def)
    ultimately show ?thesis unfolding half by auto
  qed
  have "length ?ws \<le> length (fs_workers s)" by simp
  then have "length ?ws \<le> intermediates_threads" using inv unfolding storage_inv_def by linarith
  moreover have "\<forall>p\<in>set ?ws. worker_ok D x p" using inv ws by (simp add: storage_inv_def)
  moreover have "passed s' = passed s" using p by blast
  ultimately show ?thesis using inv unfolding storage_inv_def by (simp add: s' drop_worker_def)
qed

text \<open>What \<open>GetFinishedSegment\<close> finds.\<close>

lemma finished_from_more:
  assumes "finished_from stored it = Some n" and "stored (2 * (it div 2 ^ 16)) \<and> stored (2 * (it div 2 ^ 16) + 1)"
  shows "\<not> stored_space \<le> 2 * (it div 2 ^ 16) \<and> finished_from stored (it + 2 ^ 16) = Some n"
  using assms(1) unfolding finished_from.simps [of stored it] if_P [OF assms(2)] by (simp split: if_splits)

lemma finished_from_end:
  assumes "finished_from stored it = Some n" and "\<not> (stored (2 * (it div 2 ^ 16)) \<and> stored (2 * (it div 2 ^ 16) + 1))"
  shows "n = it"
  using assms(1) unfolding finished_from.simps [of stored it] if_not_P [OF assms(2)] by (simp split: if_splits)

lemma finished_from_all:
  assumes "finished_from stored it = Some n" and "it mod 2 ^ 16 = 0" and "\<forall>e<it. stored (e div 2 ^ 15)"
  shows "n mod 2 ^ 16 = 0 \<and> (\<forall>e<n. stored (e div 2 ^ 15)) \<and>
    \<not> (stored (2 * (n div 2 ^ 16)) \<and> stored (2 * (n div 2 ^ 16) + 1))"
  using assms
proof (induction stored it rule: finished_from.induct)
  case (1 stored it)
  show ?case
  proof (cases "stored (2 * (it div 2 ^ 16)) \<and> stored (2 * (it div 2 ^ 16) + 1)")
    case True
    obtain q where q: "it = 2 ^ 16 * q" using 1(3) by (auto simp: mod_eq_0_iff_dvd)
    have d: "it div 2 ^ 16 = q" unfolding q by simp
    have all: "stored (e div 2 ^ 15)" if "e < it + 2 ^ 16" for e
    proof (cases "e < it")
      case False
      then have "2 * q \<le> e div 2 ^ 15" using div_le_mono [of it e "2 ^ 15"] unfolding q by simp
      moreover have "e div 2 ^ 15 < 2 * q + 2" using that unfolding q by (intro less_mult_imp_div_less) simp
      ultimately have "e div 2 ^ 15 = 2 * q \<or> e div 2 ^ 15 = 2 * q + 1" by linarith
      then show ?thesis using True unfolding d by metis
    qed (use 1(4) in blast)
    have m: "(it + 2 ^ 16) mod 2 ^ 16 = 0" using 1(3) by (simp only: mod_add_self2)
    note next_it = finished_from_more [OF 1(2) True]
    show ?thesis by (rule 1(1) [OF conjunct1 [OF next_it] True conjunct2 [OF next_it] m]) (use all in blast)
  next
    case False
    then have "n = it" by (rule finished_from_end [OF 1(2)])
    then show ?thesis using 1(3,4) False by (simp only:) simp
  qed
qed

lemma storage_collect:
  assumes "storage_inv D x m s" and "GetFinishedSegment s = Some (n, s')"
  shows "storage_inv D x m s' \<and> (\<forall>e<n. passed s e)"
proof -
  have f: "finished_from (fs_stored s) (fs_iter s) = Some n" "s' = s\<lparr>fs_iter := n\<rparr>"
    using assms(2) by (auto simp: GetFinishedSegment_def)
  note all = finished_from_all [OF f(1)]
  have "n mod 2 ^ 16 = 0 \<and> (\<forall>e<n. fs_stored s (e div 2 ^ 15))" using all assms(1) by (simp add: storage_inv_def)
  moreover have "passed s' = passed s" by (simp add: passed_def fun_eq_iff f(2))
  ultimately show ?thesis using assms(1) by (simp add: storage_inv_def f(2)) (simp add: passed_def)
qed

lemma storage_reachable_inv:
  assumes "storage_reachable G red D x w0 m lag s"
    and D: "good_disc D" and G: "gcdext_ok G" and x: "posdef D x" and red: "reducer_sound red"
    and w0: "0 < segments" "segments \<le> 15" "FastAlgorithmCallback segments x True = Some w0"
    and "lag \<le> worker_window"
  shows "storage_inv D x m s"
  using assms(1,9)
proof induction
  case start
  show ?case by (rule storage_inv_start [OF D x w0])
next
  case (square m lag s d n w)
  show ?case by (rule storage_square [OF square.IH [OF square.prems] square(2)])
next
  case (submit m lag s c y)
  show ?case by (rule storage_submit [OF submit.IH [OF submit.prems] submit(2,3)])
next
  case (take m lag s s')
  show ?case by (rule storage_take [OF take.IH [OF take.prems] take(2,3)])
next
  case (work m lag s i c n y y' w)
  have "lag \<le> worker_window" "m \<le> n + 19 * 2 ^ 16" using work.prems by (auto simp: worker_window_def)
  then show ?case using storage_work [OF D G x red work.IH work(2-4) _ work(5)] by blast
next
  case (finish m lag s i c n y s')
  show ?case by (rule storage_finish [OF finish.IH [OF finish.prems] finish(2-5)])
next
  case (finished m lag s n s')
  show ?case using storage_collect [OF finished.IH [OF finished.prems] finished(2)] by blast
qed

text \<open>A form that has been stored, and whose cell is not yet reused, can be read.\<close>

lemma passed_readable:
  assumes inv: "storage_inv D x m s" and e: "passed s e" "on_grid b e" and b: "b < fw_segments (fs_weso s)"
    and m: "m < (e div power_2 b + 20) * power_2 b"
  shows "\<exists>f. fast_get_form e b (fs_weso s) = Some f \<and> pw D x (2 ^ e) f"
proof -
  have "pw D x (2 ^ e) (fw_forms (fs_weso s) (slot b e))" using inv e b m by (simp add: storage_inv_def forms_in_def)
  moreover have "fast_shape (fs_weso s)" using inv by (simp add: storage_inv_def)
  ultimately show ?thesis using fast_position_slot [OF _ b] by (auto simp: fast_get_form_def)
qed

end
