(* ===== verification/PrimeTest.thy ===== *)
theory PrimeTest
  imports Bytes Complex_Main
begin

section \<open>The primality test of \<open>primetest.h\<close>\<close>

text \<open>
  \<open>is_prime_bpsw\<close>, which decides every challenge prime: trial division by products of small
  primes, one round of Miller-Rabin with base 2, and the Lucas-V test.  \<open>mpz_powm\<close> is a power
  modulo \<open>n\<close>; \<open>mpz_jacobi\<close> is the parameter \<open>J\<close>.  \<open>None\<close> is undefined behaviour.
  Shown: the doubling of \<open>find_lucas_v\<close> computes the term \<open>V_e\<close> of the Lucas sequence, and no
  prime above 500 outside the table of small primes is declared composite.
\<close>

subsection \<open>The table\<close>

definition pprods :: "int list" where
  "pprods = [
    0xe221f97c30e94e1d, 0x6329899ea9f2714b, 0x58edcb4c9ed39c8b, 0x9966ff94fd516fb, 0x3bd7632c1f36eb51, 0xfd14b3c90d88a9,
    0x2ad3dbe0cca85ff, 0x787f9a02c3388a7, 0x1113c5cc6d101657, 0x2456c94f936bdb15, 0x4236a30b85ffe139, 0x805437b38eada69d,
    0x723e97bddcd2af, 0xa5a792ee239667, 0xe451352ebca269, 0x13a7955f14b7805, 0x1d37cbd653b06ff, 0x288fe4eca4d7cdf,
    0x39fddb60d3af63d, 0x4cd73f19080fb03, 0x639c390b9313f05, 0x8a1c420d25d388f, 0xb4b5322977db499, 0xe94c170a802ee29,
    0x11f6a0e8356100df, 0x166c8898f7b3d683, 0x1babda0a0afd724b, 0x2471b07c44024abf, 0x2d866dbc2558ad71, 0x3891410d45fb47df,
    0x425d5866b049e263, 0x51f767298e2cf13b, 0x6d9f9ece5fc74f13, 0x7f5ffdb0f56ee64d, 0x943740d46a1bc71f, 0xaf2d7ca25cec848f,
    0xcec010484e4ad877, 0xef972c3cfafbcd25, 0x2a442c1ebb3be5, 0x303fa164bdc919, 0x36521ca14fd8e7, 0x3ca3241ed069e3,
    0x43885d3035c59b, 0x4e1aee1fa9d559, 0x54469dbe5d6c77, 0x5e49791f7429a1, 0x6b2ceda4198e53, 0x7339d26e3d1ce3,
    0x7e2ee3b8aa6bf3, 0x8ae9bb5cda9301, 0x96e917373cdca7, 0xa211e4fecdf953, 0xb8ff2efb3033cf, 0xcbaca970bdfe31,
    0xdb2c9f75b49027, 0xed9fb524fe759d, 0x1007595a2312fc7, 0x111eccd0898675f, 0x12546177b06c0bf, 0x13e5b450710a16f,
    0x164d74c38c8e863, 0x1836887063c20bb, 0x1ab250719364c7b, 0x1d1d99745c88d5b, 0x1ec730b953d1a27, 0x2021f7b6341a9ab,
    0x21e792f0d4ca61d, 0x249015c16a93885, 0x26f0f9a480c48e5, 0x29bc3143b9a5a89, 0x2d26abb44109333, 0x30a7492f008069d,
    0x343b19b9edc33a7, 0x385a3fb2c68b433, 0x3c555b3dbe9ef83, 0x411e43a3a8d394b, 0x4775710b7a55833, 0x4b76972a22d55a1,
    0x507bfe226ee0079, 0x56a838dee32fff3, 0x5ac8589165200e9, 0x5f667749eb2f963, 0x65dd3fc17e3c099, 0x6e031d955a9fef9,
    0x742ec64b53bfdff, 0x7a5cbcb6bae243d, 0x7f7fcb28a3d7137, 0x86be427bf5de82d, 0x8d9ca434d0399a5, 0x9638c123bcab351,
    0x9db5cdd2505eabd, 0xa7882ea2d1e207f, 0xb1a70a51fba0b75, 0xbbabeb6f4cc2177, 0xc68a56113938121, 0xce86607deddbe4b,
    0xdaca6d46347064f, 0xe6f9cb2334ec11f, 0xf25ac800485a171, 0xff8f0253a89a32d, 0x10ccedf304c329c1, 0x11bab365a0306ad1,
    0x12bc79f95534c5d9, 0x136918855651cae7, 0x1441022b5202f195, 0x1597271595caf351, 0x16d6d391503c0abb, 0x180c60c57c2aa2eb,
    0x1931ed2425952793, 0x1a4ad806a56da143, 0x1bab1dcc65ac15db, 0x1d309fb6e722f0e1, 0x1e414485a1b107bf, 0x1f9aa68df17c076b,
    0x212b81780b580e97, 0x23006478f7a04647, 0x244664b9e9752837, 0x26cb4c8923562f31, 0x2885c6c7b07c160f, 0x29cdb8dbe624c3c1,
    0x2b4a321722f3b1ef, 0x2ca3b94e7373f36d, 0x2efa302d0838fad3, 0x30b3fdb20c872a5b, 0x33591223fefd974b, 0x35c12a863f50eaa9,
    0x383533808bd74477, 0x3ac02a15fc89c54d, 0x3e12cc83606624f3, 0x405f92575cd90b87, 0x42211307d533e619, 0x44b8a22c7f3df3c3,
    0x46d3dca711bbaec5, 0x49a4f62f2bee3201, 0x4d746a3fda9d6ec3, 0x5024bb19621ceac3, 0x528d8d1989f23337, 0x55b4c3f0688fa659,
    0x599291b29311407f, 0x5cc7a1b4f6df9823, 0x5f42cbfa215ab3fd, 0x616db4fe760c22b9, 0x65ad151b5817da41, 0x6c2e75f079f3deef,
    0x706dd813a4085937, 0x73edc48854faa299, 0x77f1e576ffed49b9, 0x7cc13fe542982693, 0x80cedb56d0c02049, 0x858f4783e6ff5cf3,
    0x892e6d86008f82e3, 0x8d040c52d7c6ab79, 0x90b53592209da955, 0x954fb9d96ab9ea1d, 0x9caf15af4ce7fcf7, 0xa47dbf171698939f,
    0xa9712f0456e54591, 0xaeed828a42377403, 0xb68603f5eadb8545, 0xbb2bd5d42428b71d, 0xc165b45b4e412e49, 0xc8348a8471e75ca3,
    0xce5ab711e7179571, 0xd4287981935f5b7f, 0xdb9c1eff1b938a91, 0xe2e20afc369136ff, 0xe78c749d7a119695, 0xedfa86764fa767e1,
    0xf7780828d01fcef9, 0x9311da8eb3ea1, 0x96fc1b51999b5, 0x99d2dc5aa820b, 0x9c18c1a21f755, 0xa019a0d84ce05,
    0xa3837104af50b, 0xa74ba276e925b, 0xad0c05b3ae661, 0xb0da5211cc3e7, 0xb36ca8c3991af, 0xb6694790c60df,
    0xb89a345c48d7d, 0xbb02a8b8a132b, 0xbd6468bb171ff, 0xc17671b548641, 0xc57f07d496e1b, 0xc814b88200ac3,
    0xcb958ba8e9259, 0xcfaa956d67517, 0xd56380a0e8273, 0xd9c8b65d94f5b, 0xdc90a482debcb, 0xe0ac9922e6235,
    0xe4aa6969c4449, 0xeb0ca4d2b0965, 0xf08c969789d43, 0xf3c97c77c730f, 0xf7aa31273931b, 0xfd32e0bae7a77,
    0x102419fda6cc01, 0x1058b57cd1fec9, 0x10a468ac696a55, 0x10d824894d6521, 0x1131219641c957, 0x1186346cb9c4a7,
    0x11e75887c6bcbf, 0x1226c3d8919ad3, 0x12ae54ca9118b3, 0x12f2143ddeb927, 0x13522200caeeb3, 0x13a21ad000a461,
    0x13ef7c7f69a93d, 0x1436a05ef17841, 0x147142f4cc4c17, 0x14b887295ec96d, 0x1501b9fe3efaad, 0x156d3ebd5cfffb,
    0x15af86361077ad, 0x15fc898c07b90f, 0x167c836a7cdf2b, 0x16db56bc574209, 0x174097de2edf3b, 0x178dbdb0cfb9fb,
    0x17e109fd2af3fb, 0x18716adbb946f7, 0x18d7bc2e97eaef, 0x192e69d59ba8db, 0x198a3cddb561c9, 0x19e876c274e4fd,
    0x1a63555c2e680b, 0x1ad58f177dacbb, 0x1b29f0db4b3395, 0x1ba4b691e66139, 0x1bfc87fc12613d, 0x1c3e250dac9d87,
    0x1c944c9149df3b, 0x1cff79f4c205cd, 0x1d75566cb1adb3, 0x1e3cd7b5975575, 0x1e92a4033b7417, 0x1f0502cb33d8c7,
    0x1f8943169b2d87, 0x1ffcaebc1a4bad, 0x20730086c8cb89, 0x20d7b89585d217, 0x2147bfe14a8231, 0x21ae6440d699bf,
    0x22306f8188c6fb, 0x22a5af39a69703, 0x235eedc5de5805, 0x2441e04ba35085, 0x24b8a97a3a59a5, 0x252362655a4d67,
    0x25ab86b8cc3567, 0x260aea245bc247, 0x26b855f8b70077, 0x2750993dd1e65b, 0x27bafa8c9f7853, 0x28402b9d2d22dd,
    0x28a66d2d4fc087, 0x298166c0739b53, 0x2a40d5220cbed9, 0x2ab7670bbab197, 0x2b5b38f61706df, 0x2c3429fa1e037f,
    0x2ceda9fa3b4a9f, 0x2d7b4d561f2739, 0x2e05d3caae9813, 0x2eb7851a14c29b, 0x2f3e1d077d25cf, 0x3010f41dbeb6ed,
    0x311729b61dd159, 0x318dceb77a5837, 0x321cd33785cdf1, 0x32fdf49691bc63, 0x33b1c5f5f30ced, 0x34a6c59cb6d8d7,
    0x355c9029e55dd3, 0x35fb2d1ac371b7, 0x36b44bc2249a47, 0x3750e273f3b60f, 0x385ce9399c0f85, 0x391ecbd93a9e67,
    0x39cd91131ee8e5, 0x3a887d9033256b, 0x3b77f83e7b7b77, 0x3c5f7ed2eca1bf, 0x3d367feec26269, 0x3debdb2f48a479,
    0x3eab0afe5d537b, 0x3fd435f4d431e7, 0x40b45ff452cb31, 0x420775fbceaf6d, 0x42c7627aefc08d, 0x43e44dcc615d67,
    0x44c330cdfdeb7d, 0x456af335c23b75, 0x4610d2c7c0027b, 0x47384e9bf4bfad, 0x47fa259c013ba3, 0x48950fc7f50b43,
    0x4956836a576163, 0x4a7b8c3c557b65, 0x4b771e5db917ef, 0x4c5834105e9dfb, 0x4d37df06ec25d9, 0x4e3707bf47eca5,
    0x4f77e5a59ceea7, 0x503ced574122d5, 0x50f93a4e9e43e9, 0x5242764cb96dbf, 0x5373ff17a4f379, 0x544ac8e491c7d9,
    0x5534b35cc8f027, 0x56405cd1d8f29b, 0x56ee39496a06dd, 0x57cf4552f1e303, 0x58b59c4b50c127, 0x59a507c3dbf24b,
    0x5a92a6fbea27b9, 0x5b7e66124ac799, 0x5cab65d44446ef, 0x5de6905c90b503, 0x5f37e803c461fd, 0x60383597fe3f4f,
    0x61e147bd94922b, 0x62cb93e709f30f, 0x63bb5109ddbb39, 0x64b4ccd52a2a97, 0x65a00fb544939d, 0x66bd48d7520557,
    0x684ac380bf1aaf, 0x6975d3e0fb99e1, 0x6a96fad34eb5c9, 0x6b9092527de0b5, 0x6cfda2f8b38f6f, 0x6e72811aacaeab,
    0x6fd5b0d3d77ca9, 0x710c5f58855659, 0x72c045f81a9571, 0x740178628c8d1f, 0x7518d8f35a1ee9, 0x76a24bc5928fc9,
    0x788a7d5fa3bc21, 0x7a0a454ddc12d9, 0x7b9b6dbf0acbfb, 0x7cb724b29c97e9, 0x7d80316c3aea0b, 0x7e9f02956774f9,
    0x7fd78ff30e55dd, 0x8176f93dcdee1b, 0x83328f181f37ff, 0x844c85844f1ec7, 0x854fb5954cd2e9, 0x871ee1f72316ed,
    0x88f30d5a797dc9, 0x8a8f2c1377c21d, 0x8c01286e805837, 0x8e7712e261c25d, 0x8ffb253ef4179f, 0x921fbe50feef75,
    0x948a2d689dccf3, 0x95ffe36390e923, 0x98301d5150c82f, 0x9965ca922eda71, 0x9a81df9eec8585, 0x9c4ff7ceb26e9d,
    0x9e7b7d2e8d6945, 0x9f6c20cfec7617, 0xa1123741d60349, 0xa2d85d546633e9, 0xa4576a38b2e863, 0xa67b26cfff14d5,
    0xa7a939b6101c2d, 0xa8bb9c6b89238b, 0xaa21a4d7b7405d, 0xabdd00ad8a3843, 0xad89beafbcecf3, 0xaf157a9999de1f,
    0xb1110edec9a5e7]"

subsection \<open>Miller-Rabin\<close>

text \<open>\<open>mpz_scan1(n, 1)\<close>, which for \<open>n = 1\<close> finds no bit.\<close>

function trailing :: "nat \<Rightarrow> nat" where
  "trailing m = (if m = 0 \<or> odd m then 0 else Suc (trailing (m div 2)))"
  by pat_completeness auto
termination
  by (relation "measure id") auto

declare trailing.simps [simp del]

definition scan1_from_1 :: "int \<Rightarrow> nat option" where
  "scan1_from_1 n = (let m = nat n div 2 in if m = 0 then None else Some (Suc (trailing m)))"

text \<open>The loop; the counter is \<open>s - r\<close>.\<close>

primrec mr_loop :: "nat \<Rightarrow> int \<Rightarrow> int \<Rightarrow> bool" where
  "mr_loop 0 n b = False"
| "mr_loop (Suc k) n b = (if b + 1 = n then True else if k = 0 then False else mr_loop k n (b ^ 2 mod n))"

definition miller_rabin :: "int \<Rightarrow> int \<Rightarrow> bool option" where
  "miller_rabin n b =
     (if n \<le> 0 then None
      else case scan1_from_1 n of
        None \<Rightarrow> if 1 mod n = 1 \<or> 1 mod n + 1 = n then Some True else None
      | Some s \<Rightarrow> (let d = n div 2 ^ s; b = b ^ nat d mod n in Some (if b = 1 then True else mr_loop s n b)))"

subsection \<open>The Lucas test\<close>

definition VPRP_MAX_D :: int where
  "VPRP_MAX_D = 1000"

function find_pq_loop :: "(int \<Rightarrow> int \<Rightarrow> int) \<Rightarrow> int \<Rightarrow> int \<Rightarrow> (int \<times> int) option" where
  "find_pq_loop J n d =
     (if \<not> d < VPRP_MAX_D then None
      else let d = (if d mod 4 = 1 then d else - d) in
        if J d n = - 1 then Some (if d = 5 then (5, 5) else (1, tdiv (1 - d) 4))
        else find_pq_loop J n (\<bar>d\<bar> + 2))"
  by pat_completeness auto
termination
  by (relation "measure (\<lambda>(J, n, d). nat (VPRP_MAX_D - d))") (auto simp: VPRP_MAX_D_def)

declare find_pq_loop.simps [simp del]

definition find_pq :: "(int \<Rightarrow> int \<Rightarrow> int) \<Rightarrow> int \<Rightarrow> (int \<times> int) option" where
  "find_pq J n = find_pq_loop J n 5"

definition addmul_si :: "int \<Rightarrow> int \<Rightarrow> int \<Rightarrow> int" where
  "addmul_si p a b = (if b < 0 then p - a * (- b) else p + a * b)"

definition lucas_step :: "int \<Rightarrow> int \<Rightarrow> int \<Rightarrow> int \<Rightarrow> nat \<Rightarrow> int \<times> int \<Rightarrow> int \<times> int" where
  "lucas_step e m p q i = (\<lambda>(u1, u2).
     let tmp2 = u2 * u1; u2 = u2 * u2; u1 = u1 * u1;
         (u1, u2) =
           (if bit e i
            then let u1 = u1 * q; u1 = u2 - u1; u2 = (if p \<noteq> 1 then u2 * p else u2) in (u1, addmul_si u2 tmp2 (- 2 * q))
            else let u2 = addmul_si u2 u1 (- q); tmp2 = tmp2 * 2 in
              (if p \<noteq> 1 then tmp2 - u1 * p else tmp2 - u1, u2))
     in (tmod u1 m, tmod u2 m))"

definition find_lucas_v :: "int \<Rightarrow> int \<Rightarrow> int \<Rightarrow> int \<Rightarrow> int" where
  "find_lucas_v e m p q =
     (let (u1, u2) = fold (lucas_step e m p q) (rev [0..<sizeinbase2 e - 1]) (1, p) in u2 * 2 - u1 * p)"

definition is_vprp :: "(int \<Rightarrow> int \<Rightarrow> int) \<Rightarrow> int \<Rightarrow> bool" where
  "is_vprp J n =
     (case find_pq J n of
        None \<Rightarrow> False
      | Some (p, q) \<Rightarrow>
          let e = n + 1; v = find_lucas_v e n p q; v = (if q < 0 then - ((- v) mod n) else v mod n) in v = 2 * q)"

subsection \<open>The whole test\<close>

definition n_pprods :: "int \<Rightarrow> nat" where
  "n_pprods n =
     (let mp_size = (sizeinbase2 n + 63) div 64; min_pprods = 5; n_pprods = length pprods in
      if mp_size < 16
      then let size_cube = mp_size * mp_size * mp_size in
        min_pprods + (n_pprods - min_pprods) * size_cube div (16 * 16 * 16)
      else n_pprods)"

definition is_prime_bpsw :: "(int \<Rightarrow> int \<Rightarrow> int) \<Rightarrow> int \<Rightarrow> int option" where
  "is_prime_bpsw J n =
     (if even n \<and> n \<noteq> 2 then Some 0
      else if n < 0 then None
      else if \<exists>p\<in>set (take (n_pprods n) pprods). gcd n p \<noteq> 1 then Some 0
      else Option.bind (miller_rabin n 2) (\<lambda>r. Some (if r \<and> is_vprp J n then 2 else 0)))"

subsection \<open>Lucas sequences\<close>

fun lucas_u :: "int \<Rightarrow> int \<Rightarrow> nat \<Rightarrow> int" where
  "lucas_u p q 0 = 0"
| "lucas_u p q (Suc 0) = 1"
| "lucas_u p q (Suc (Suc n)) = p * lucas_u p q (Suc n) - q * lucas_u p q n"

fun lucas_v :: "int \<Rightarrow> int \<Rightarrow> nat \<Rightarrow> int" where
  "lucas_v p q 0 = 2"
| "lucas_v p q (Suc 0) = p"
| "lucas_v p q (Suc (Suc n)) = p * lucas_v p q (Suc n) - q * lucas_v p q n"

lemma lucas_v_u: "lucas_v p q n = 2 * lucas_u p q (Suc n) - p * lucas_u p q n"
proof (induction p q n rule: lucas_v.induct)
  case (3 p q n)
  show ?case unfolding lucas_v.simps(3) 3 unfolding lucas_u.simps(3) by (simp only: right_diff_distrib mult.left_commute)
qed simp_all

lemma lucas_u_add: "lucas_u p q (Suc (m + n)) = lucas_u p q (Suc m) * lucas_u p q (Suc n) - q * (lucas_u p q m * lucas_u p q n)"
proof (induction p q m rule: lucas_u.induct)
  case (3 p q m)
  have "lucas_u p q (Suc (Suc (Suc m) + n)) = p * lucas_u p q (Suc (Suc m + n)) - q * lucas_u p q (Suc (m + n))" by simp
  also have "\<dots> = (p * lucas_u p q (Suc (Suc m)) - q * lucas_u p q (Suc m)) * lucas_u p q (Suc n) -
      q * ((p * lucas_u p q (Suc m) - q * lucas_u p q m) * lucas_u p q n)"
    unfolding 3 by (simp only: right_diff_distrib left_diff_distrib) (simp only: mult.assoc mult.left_commute)
  also have "\<dots> = lucas_u p q (Suc (Suc (Suc m))) * lucas_u p q (Suc n) - q * (lucas_u p q (Suc (Suc m)) * lucas_u p q n)"
    by (simp only: lucas_u.simps(3))
  finally show ?case .
qed simp_all

lemma lucas_u_odd: "lucas_u p q (Suc (2 * n)) = lucas_u p q (Suc n) ^ 2 - q * lucas_u p q n ^ 2"
  using lucas_u_add [of p q n n] by (simp only: mult_2 power2_eq_square)

lemma lucas_u_even_Suc: "lucas_u p q (Suc (Suc (2 * n))) = p * lucas_u p q (Suc n) ^ 2 - 2 * q * (lucas_u p q n * lucas_u p q (Suc n))"
proof -
  have "Suc (Suc (2 * n)) = Suc (Suc n + n)" by simp
  then have "lucas_u p q (Suc (Suc (2 * n))) = lucas_u p q (Suc (Suc n)) * lucas_u p q (Suc n) - q * (lucas_u p q (Suc n) * lucas_u p q n)"
    using lucas_u_add [of p q "Suc n" n] by (simp only:)
  also have "\<dots> = p * lucas_u p q (Suc n) ^ 2 - 2 * q * (lucas_u p q n * lucas_u p q (Suc n))"
    unfolding lucas_u.simps(3) power2_eq_square by (simp only: left_diff_distrib mult_2) (simp add: algebra_simps)
  finally show ?thesis .
qed

lemma lucas_u_even: "lucas_u p q (2 * n) = 2 * (lucas_u p q n * lucas_u p q (Suc n)) - p * lucas_u p q n ^ 2"
proof (cases n)
  case (Suc k)
  have "lucas_u p q (2 * n) = lucas_u p q (Suc (Suc (2 * k)))" by (simp add: Suc)
  also have "\<dots> = p * lucas_u p q (Suc k) ^ 2 - 2 * q * (lucas_u p q k * lucas_u p q (Suc k))" by (rule lucas_u_even_Suc)
  also have "\<dots> = 2 * (lucas_u p q n * lucas_u p q (Suc n)) - p * lucas_u p q n ^ 2"
    unfolding Suc lucas_u.simps(3) power2_eq_square by (simp only: right_diff_distrib mult_2) (simp add: algebra_simps)
  finally show ?thesis .
qed simp

subsection \<open>The doubling computes the sequence\<close>

lemma tmod_dvd: "m dvd tmod a m - a"
  by (simp add: tmod_def)

lemma lucas_step_eq:
  "lucas_step e m p q i (u1, u2) =
     (if bit e i then (tmod (u2 ^ 2 - q * u1 ^ 2) m, tmod (p * u2 ^ 2 - 2 * q * (u1 * u2)) m)
      else (tmod (2 * (u1 * u2) - p * u1 ^ 2) m, tmod (u2 ^ 2 - q * u1 ^ 2) m))"
  by (cases "bit e i"; cases "p = 1") (simp_all add: lucas_step_def addmul_si_def Let_def power2_eq_square mult.commute mult.left_commute)

definition lucas_pair :: "int \<Rightarrow> int \<Rightarrow> int \<Rightarrow> nat \<Rightarrow> int \<times> int \<Rightarrow> bool" where
  "lucas_pair m p q k u \<longleftrightarrow> m dvd fst u - lucas_u p q k \<and> m dvd snd u - lucas_u p q (Suc k)"

lemma dvd_cong_mult: "m dvd a - b \<Longrightarrow> m dvd c - d \<Longrightarrow> m dvd a * c - b * d" for m a b c d :: int
proof -
  assume "m dvd a - b" "m dvd c - d"
  then have "m dvd (a - b) * c + b * (c - d)" by simp
  then show ?thesis by (simp add: algebra_simps)
qed

lemma dvd_cong_comb: "m dvd a - b \<Longrightarrow> m dvd c - d \<Longrightarrow> m dvd (x * a - y * c) - (x * b - y * d)" for m a b c d :: int
proof -
  assume "m dvd a - b" "m dvd c - d"
  then have "m dvd x * (a - b) - y * (c - d)" by simp
  then show ?thesis by (simp add: algebra_simps)
qed

lemma dvd_cong_tmod: "m dvd a - b \<Longrightarrow> m dvd tmod a m - b"
  for m a b :: int
proof -
  assume "m dvd a - b"
  then have "m dvd (tmod a m - a) + (a - b)" using tmod_dvd by (rule dvd_add [rotated])
  then show ?thesis by simp
qed

lemma lucas_pair_step:
  assumes u: "lucas_pair m p q k u"
  shows "lucas_pair m p q (2 * k + of_bool (bit e i)) (lucas_step e m p q i u)"
proof -
  obtain u1 u2 where u12: "u = (u1, u2)" by (cases u)
  let ?U = "lucas_u p q k" and ?W = "lucas_u p q (Suc k)"
  have 1: "m dvd u1 - ?U" and 2: "m dvd u2 - ?W" using u by (simp_all add: u12 lucas_pair_def)
  note sq = dvd_cong_mult [OF 1 1, folded power2_eq_square] dvd_cong_mult [OF 2 2, folded power2_eq_square] dvd_cong_mult [OF 1 2]
  have a: "m dvd (u2 ^ 2 - q * u1 ^ 2) - (?W ^ 2 - q * ?U ^ 2)" using dvd_cong_comb [OF sq(2,1), of 1 q] by simp
  have b: "m dvd (p * u2 ^ 2 - 2 * q * (u1 * u2)) - (p * ?W ^ 2 - 2 * q * (?U * ?W))" by (rule dvd_cong_comb [OF sq(2,3)])
  have c: "m dvd (2 * (u1 * u2) - p * u1 ^ 2) - (2 * (?U * ?W) - p * ?U ^ 2)" by (rule dvd_cong_comb [OF sq(3,1)])
  show ?thesis
  proof (cases "bit e i")
    case True
    then show ?thesis using dvd_cong_tmod [OF a] dvd_cong_tmod [OF b]
      by (simp add: u12 lucas_pair_def lucas_step_eq lucas_u_odd lucas_u_even_Suc del: lucas_u.simps)
  next
    case False
    then show ?thesis using dvd_cong_tmod [OF c] dvd_cong_tmod [OF a]
      by (simp add: u12 lucas_pair_def lucas_step_eq lucas_u_odd lucas_u_even del: lucas_u.simps)
  qed
qed

lemma lucas_loop:
  assumes "lucas_pair m p q (nat e div 2 ^ i) u" and "0 \<le> e"
  shows "lucas_pair m p q (nat e) (fold (lucas_step e m p q) (rev [0..<i]) u)"
  using assms(1)
proof (induction i arbitrary: u)
  case (Suc i)
  have d: "nat e div 2 ^ Suc i = nat e div 2 ^ i div 2" by (metis div_mult2_eq power_Suc2)
  have "e = int (nat e)" using assms(2) by simp
  then have "bit e i = bit (nat e) i" by (metis bit_of_nat_iff_bit)
  then have "bit e i = odd (nat e div 2 ^ i)" by (simp add: bit_iff_odd)
  then have "2 * (nat e div 2 ^ Suc i) + of_bool (bit e i) = nat e div 2 ^ i" unfolding d by simp
  then show ?case using Suc.IH [of "lucas_step e m p q i u"] lucas_pair_step [OF Suc.prems, of e i] by simp
qed simp

lemma top_bit:
  assumes "0 < e"
  shows "nat e div 2 ^ (sizeinbase2 e - 1) = 1"
proof -
  have l: "0 < sizeinbase2 e" using assms by (simp add: sizeinbase2_def bit_length.simps [of e])
  have "2 ^ (sizeinbase2 e - 1) \<le> e" "e < 2 ^ sizeinbase2 e"
    using bit_length_lower [OF assms] sizeinbase2_bound [of e] assms by (simp_all add: sizeinbase2_def)
  then have b: "2 ^ (sizeinbase2 e - 1) \<le> nat e" "nat e < 2 ^ sizeinbase2 e"
    by (simp_all add: le_nat_iff nat_less_iff)
  have "(2 :: nat) ^ sizeinbase2 e = 2 ^ (sizeinbase2 e - 1) * 2" using l by (metis Suc_diff_1 power_Suc2)
  then show ?thesis using b by (intro div_nat_eqI) simp_all
qed

lemma find_lucas_v_correct:
  assumes "0 < e"
  shows "m dvd find_lucas_v e m p q - lucas_v p q (nat e)"
proof -
  let ?l = "sizeinbase2 e - 1"
  have "nat e div 2 ^ ?l = 1" using assms by (rule top_bit)
  then have "lucas_pair m p q (nat e div 2 ^ ?l) (1, p)" by (simp add: lucas_pair_def)
  from lucas_loop [OF this] assms
  have "lucas_pair m p q (nat e) (fold (lucas_step e m p q) (rev [0..<?l]) (1, p))" by simp
  then obtain u1 u2 where u: "fold (lucas_step e m p q) (rev [0..<?l]) (1, p) = (u1, u2)"
    "m dvd u1 - lucas_u p q (nat e)" "m dvd u2 - lucas_u p q (Suc (nat e))"
    by (cases "fold (lucas_step e m p q) (rev [0..<?l]) (1, p)") (simp add: lucas_pair_def)
  have "find_lucas_v e m p q = 2 * u2 - p * u1" unfolding find_lucas_v_def u(1) by simp
  then show ?thesis using dvd_cong_comb [OF u(3,2), of 2 p] by (simp only: lucas_v_u)
qed

subsection \<open>Binomial sums modulo a prime\<close>

definition prime_number :: "int \<Rightarrow> bool" where
  "prime_number n \<longleftrightarrow> 1 < n \<and> (\<forall>d. d dvd n \<longrightarrow> \<bar>d\<bar> = 1 \<or> \<bar>d\<bar> = n)"

lemma prime_coprime:
  assumes "prime_number n" and "\<not> n dvd a"
  shows "coprime n a"
proof -
  have "\<bar>gcd n a\<bar> = 1 \<or> \<bar>gcd n a\<bar> = n"
    using assms(1) gcd_dvd1 [of n a] unfolding prime_number_def by blast
  moreover have "\<bar>gcd n a\<bar> \<noteq> n" using assms(2) by (metis abs_gcd_int gcd_dvd2)
  ultimately show ?thesis by (simp add: coprime_iff_gcd_eq_1)
qed

lemma prime_dvd_mult: "prime_number n \<Longrightarrow> n dvd a * b \<Longrightarrow> n dvd a \<or> n dvd b"
  using prime_coprime coprime_dvd_mult_right_iff by blast

lemma prime_dvd_binomial:
  assumes p: "prime_number (int n)" and k: "0 < k" "k < n"
  shows "int n dvd int (n choose k)"
proof -
  have "k * (n choose k) = n * ((n - 1) choose (k - 1))" using times_binomial_minus1_eq [OF k(1), of n] .
  then have "int n dvd int k * int (n choose k)" by (metis dvd_triv_left of_nat_mult)
  moreover have "\<not> int n dvd int k" using k by (auto dest: zdvd_imp_le)
  ultimately show ?thesis using prime_dvd_mult [OF p] by blast
qed

definition bsum :: "int \<Rightarrow> nat \<Rightarrow> (nat \<Rightarrow> int) \<Rightarrow> int" where
  "bsum p n f = (\<Sum>k\<le>n. int (n choose k) * p ^ (n - k) * f k)"

lemma bsum_Suc: "bsum p (Suc n) f = p * bsum p n f + bsum p n (\<lambda>k. f (Suc k))"
proof -
  have e: "p ^ (Suc n - k) = p * p ^ (n - k)" if "k \<le> n" for k using that by (simp add: Suc_diff_le)
  have "bsum p (Suc n) f = p ^ Suc n * f 0 + (\<Sum>k\<le>n. int (Suc n choose Suc k) * p ^ (n - k) * f (Suc k))"
    unfolding bsum_def by (subst sum.atMost_Suc_shift) simp
  also have "(\<Sum>k\<le>n. int (Suc n choose Suc k) * p ^ (n - k) * f (Suc k)) =
      bsum p n (\<lambda>k. f (Suc k)) + (\<Sum>k\<le>n. int (n choose Suc k) * p ^ (n - k) * f (Suc k))"
    by (simp add: bsum_def sum.distrib [symmetric] algebra_simps)
  also have "p ^ Suc n * f 0 + (bsum p n (\<lambda>k. f (Suc k)) + (\<Sum>k\<le>n. int (n choose Suc k) * p ^ (n - k) * f (Suc k))) =
      (\<Sum>k\<le>Suc n. int (n choose k) * p ^ (Suc n - k) * f k) + bsum p n (\<lambda>k. f (Suc k))"
    by (subst sum.atMost_Suc_shift) simp
  also have "(\<Sum>k\<le>Suc n. int (n choose k) * p ^ (Suc n - k) * f k) = p * bsum p n f"
    by (simp add: bsum_def sum_distrib_left e mult.left_commute mult.assoc)
  finally show ?thesis .
qed

lemma bsum_0 [simp]: "bsum p 0 f = f 0"
  by (simp add: bsum_def)

lemma bsum_scale: "bsum p n (\<lambda>k. c * f k) = c * bsum p n f"
  by (simp add: bsum_def sum_distrib_left mult.left_commute)

lemma bsum_prime:
  assumes p: "prime_number (int n)"
  shows "int n dvd bsum a n f - (a ^ n * f 0 + f n)"
proof -
  let ?t = "\<lambda>k. int (n choose k) * a ^ (n - k) * f k"
  have n: "1 < n" using p by (simp add: prime_number_def)
  then obtain m where m: "n = Suc (Suc m)" by (metis Suc_lessD less_imp_Suc_add add_0 One_nat_def plus_nat.simps)
  have "bsum a n f = ?t 0 + (\<Sum>k\<le>m. ?t (Suc k)) + ?t n"
    unfolding bsum_def m by (subst sum.atMost_Suc, subst sum.atMost_Suc_shift) simp
  moreover have "int n dvd (\<Sum>k\<le>m. ?t (Suc k))"
  proof (rule dvd_sum)
    fix k assume "k \<in> {..m}"
    then have "int n dvd int (n choose Suc k)" by (intro prime_dvd_binomial [OF p]) (simp_all add: m)
    then show "int n dvd ?t (Suc k)" by simp
  qed
  ultimately show ?thesis by simp
qed

subsection \<open>Fermat\<close>

lemma bsum_one: "bsum p n (\<lambda>_. 1) = (p + 1) ^ n"
  by (induction n) (simp_all add: bsum_Suc algebra_simps)

lemma fermat_nat: "prime_number (int n) \<Longrightarrow> int n dvd int a ^ n - int a"
proof (induction a)
  case 0
  then have "0 < n" by (simp add: prime_number_def)
  then show ?case by (cases n) simp_all
next
  case (Suc a)
  have "int n dvd bsum (int a) n (\<lambda>_. 1) - (int a ^ n * 1 + 1)" by (rule bsum_prime [OF Suc.prems])
  then have "int n dvd ((int a + 1) ^ n - (int a ^ n + 1)) + (int a ^ n - int a)"
    using Suc by (intro dvd_add) (simp_all only: bsum_one mult_1_right)
  then show ?case by (simp add: algebra_simps)
qed

lemma fermat:
  assumes n: "prime_number n" and a: "0 < a" "\<not> n dvd a"
  shows "n dvd a ^ (nat n - 1) - 1"
proof -
  have p: "prime_number (int (nat n))" "n = int (nat n)" "0 < nat n" using n by (simp_all add: prime_number_def)
  have "n dvd a ^ nat n - a" using fermat_nat [OF p(1), of "nat a"] a(1) p(2) by simp
  moreover have "a ^ nat n = a * a ^ (nat n - 1)" using p(3) by (metis power_Suc Suc_diff_1)
  ultimately have "n dvd a * (a ^ (nat n - 1) - 1)" by (simp add: right_diff_distrib)
  then show ?thesis using prime_dvd_mult [OF n] a(2) by blast
qed

subsection \<open>Miller-Rabin accepts primes\<close>

lemma mr_loop_prime:
  assumes n: "prime_number n"
  shows "0 < b \<Longrightarrow> b < n \<Longrightarrow> b \<noteq> 1 \<Longrightarrow> n dvd b ^ (2 ^ k) - 1 \<Longrightarrow> mr_loop k n b"
proof (induction k arbitrary: b)
  case 0
  then have "n dvd b - 1" "0 < b - 1" by simp_all
  then show ?case using zdvd_imp_le [of n "b - 1"] 0 by simp
next
  case (Suc k)
  show ?case
  proof (cases "b + 1 = n")
    case False
    let ?c = "b ^ 2 mod n"
    have n0: "0 < n" using n by (simp add: prime_number_def)
    have nb: "\<not> n dvd b" using Suc.prems zdvd_imp_le [of n b] by auto
    have c: "n dvd b ^ 2 - ?c" by (simp add: mod_eq_dvd_iff [symmetric])
    have "\<not> n dvd b ^ 2" using nb prime_dvd_mult [OF n, of b b] by (auto simp: power2_eq_square)
    then have c0: "0 < ?c" "?c < n" using n0 by (simp_all add: dvd_eq_mod_eq_0 order_le_neq_trans)
    have "?c \<noteq> 1"
    proof
      assume "?c = 1"
      then have "n dvd (b - 1) * (b + 1)" using c by (simp add: power2_eq_square algebra_simps)
      then have "n dvd b - 1 \<or> n dvd b + 1" by (rule prime_dvd_mult [OF n])
      then show False using zdvd_imp_le [of n "b - 1"] zdvd_imp_le [of n "b + 1"] Suc.prems False by auto
    qed
    moreover have "(b ^ 2) ^ (2 ^ k) = b ^ (2 ^ Suc k)" by (simp add: power_mult [symmetric])
    then have "n dvd ?c ^ (2 ^ k) - 1"
      using Suc.prems(4) by (metis mod_eq_dvd_iff power_mod)
    ultimately have l: "mr_loop k n ?c" using Suc.IH c0 by blast
    then have "k \<noteq> 0" by (cases k) simp_all
    then show ?thesis using l by simp
  qed simp
qed

lemma trailing_spec: "0 < m \<Longrightarrow> 2 ^ trailing m dvd m \<and> odd (m div 2 ^ trailing m)"
proof (induction m rule: trailing.induct)
  case (1 m)
  show ?case
  proof (cases "odd m")
    case False
    then have "even m" by simp
    then obtain k where k: "m = 2 * k" by (elim evenE)
    have "0 < k" "\<not> (m = 0 \<or> odd m)" using 1(2) k by simp_all
    then show ?thesis using 1(1) by (simp add: trailing.simps [of "2 * k"] k)
  qed (simp add: trailing.simps [of m])
qed

lemma miller_rabin_prime:
  assumes n: "prime_number n" and odd: "odd n"
  shows "miller_rabin n 2 = Some True"
proof -
  obtain m where m: "n = 2 * m + 1" using odd by (elim oddE)
  have n1: "1 < n" using n by (simp add: prime_number_def)
  let ?m = "nat m" and ?s = "Suc (trailing (nat m))"
  have m0: "0 < ?m" and nm: "nat n div 2 = ?m" using m n1 by (simp_all add: nat_add_distrib nat_mult_distrib)
  have sc: "scan1_from_1 n = Some ?s" using m0 by (simp add: scan1_from_1_def nm)
  let ?d = "?m div 2 ^ trailing ?m"
  have dm: "?m = ?d * 2 ^ trailing ?m" using trailing_spec [OF m0] by simp
  have "n div 2 ^ ?s = n div 2 div 2 ^ trailing ?m" by (simp add: zdiv_zmult2_eq [symmetric])
  also have "n div 2 = int ?m" using m n1 by simp
  also have "int ?m div 2 ^ trailing ?m = int ?d" by (simp only: zdiv_int of_nat_power of_nat_numeral)
  finally have d: "nat (n div 2 ^ ?s) = ?d" by simp
  have e: "nat n - 1 = ?d * 2 ^ ?s" using dm m n1 by (simp add: nat_add_distrib nat_mult_distrib)
  have "n \<noteq> 2" using odd by auto
  then have n2: "\<not> n dvd 2" using zdvd_imp_le [of n 2] n1 by auto
  have "n dvd 2 ^ (?d * 2 ^ ?s) - 1" using fermat [OF n _ n2] unfolding e by simp
  let ?b = "2 ^ ?d mod n"
  have b0: "0 < ?b" "?b < n"
  proof -
    have "\<not> n dvd 2 ^ j" for j using n2 n1 prime_dvd_mult [OF n] by (induction j) (auto dest: zdvd_imp_le)
    then show "0 < ?b" "?b < n" using n1 by (simp_all add: dvd_eq_mod_eq_0 order_le_neq_trans)
  qed
  have "n dvd ?b ^ (2 ^ ?s) - 1"
    using \<open>n dvd 2 ^ (?d * 2 ^ ?s) - 1\<close> by (metis mod_eq_dvd_iff power_mod power_mult)
  then have "?b = 1 \<or> mr_loop ?s n ?b" using mr_loop_prime [OF n b0] by blast
  then show ?thesis using n1 unfolding miller_rabin_def sc option.case Let_def d by (auto simp del: mr_loop.simps)
qed

subsection \<open>The Lucas test accepts primes\<close>

lemma lucas_v_next: "2 * lucas_v p q (Suc n) = p * lucas_v p q n + (p ^ 2 - 4 * q) * lucas_u p q n"
  unfolding lucas_v_u lucas_u.simps(3) power2_eq_square by (simp only: right_diff_distrib left_diff_distrib mult_2) (simp add: algebra_simps)

lemma lucas_u_next: "2 * lucas_u p q (Suc n) = lucas_v p q n + p * lucas_u p q n"
  by (simp add: lucas_v_u)

text \<open>The real and the irrational part of the powers of \<open>p + \<close> the root of \<open>D\<close>.\<close>

definition even_part :: "int \<Rightarrow> nat \<Rightarrow> int" where
  "even_part D k = (if even k then D ^ (k div 2) else 0)"

definition odd_part :: "int \<Rightarrow> nat \<Rightarrow> int" where
  "odd_part D k = (if odd k then D ^ (k div 2) else 0)"

lemma parts_Suc: "even_part D (Suc k) = D * odd_part D k" "odd_part D (Suc k) = even_part D k"
  by (auto simp: even_part_def odd_part_def elim!: oddE)

lemma lucas_parts:
  assumes D: "D = p ^ 2 - 4 * q"
  shows "2 ^ n * lucas_v p q n = 2 * bsum p n (even_part D) \<and> 2 ^ n * lucas_u p q n = 2 * bsum p n (odd_part D)"
proof (induction n)
  case 0
  show ?case by (simp add: even_part_def odd_part_def)
next
  case (Suc n)
  let ?A = "bsum p n (even_part D)" and ?B = "bsum p n (odd_part D)"
  have A: "2 ^ n * lucas_v p q n = 2 * ?A" and B: "2 ^ n * lucas_u p q n = 2 * ?B" using Suc by simp_all
  have "2 ^ Suc n * lucas_v p q (Suc n) = 2 ^ n * (2 * lucas_v p q (Suc n))" by simp
  also have "\<dots> = p * (2 ^ n * lucas_v p q n) + D * (2 ^ n * lucas_u p q n)"
    unfolding lucas_v_next D [symmetric] by (simp only: distrib_left mult.left_commute)
  also have "\<dots> = 2 * bsum p (Suc n) (even_part D)"
    unfolding A B bsum_Suc parts_Suc bsum_scale by (simp only: distrib_left mult.left_commute)
  finally have 1: "2 ^ Suc n * lucas_v p q (Suc n) = 2 * bsum p (Suc n) (even_part D)" .
  have "2 ^ Suc n * lucas_u p q (Suc n) = 2 ^ n * (2 * lucas_u p q (Suc n))" by simp
  also have "\<dots> = 2 ^ n * lucas_v p q n + p * (2 ^ n * lucas_u p q n)"
    unfolding lucas_u_next by (simp only: distrib_left mult.left_commute)
  also have "\<dots> = 2 * bsum p (Suc n) (odd_part D)"
    unfolding A B bsum_Suc parts_Suc by (simp only: distrib_left mult.left_commute add.commute)
  finally show ?case using 1 by blast
qed

lemma lucas_prime:
  assumes n: "prime_number n" and odd: "odd n" and D: "D = p ^ 2 - 4 * q" and J: "n dvd D ^ (nat n div 2) + 1"
  shows "n dvd lucas_v p q (nat (n + 1)) - 2 * q"
proof -
  have n1: "1 < n" using n by (simp add: prime_number_def)
  define N where "N = nat n"
  have N: "n = int N" "prime_number (int N)" "odd N" using n n1 odd by (simp_all add: N_def even_nat_iff)
  have c2: "coprime n 2" using odd by (simp add: coprime_right_2_iff_odd)
  have cancel: "n dvd x" if "n dvd 2 * x" for x using that coprime_dvd_mult_right_iff [OF c2] by simp
  have "n \<noteq> 2" using odd by auto
  then have "\<not> n dvd 2" using zdvd_imp_le [of n 2] n1 by auto
  then have "n dvd 2 ^ (nat n - 1) - 1" using fermat [OF n] by simp
  then have "n dvd 2 * (2 ^ (nat n - 1) - 1)" by (rule dvd_mult)
  moreover have "(2 :: int) * 2 ^ (nat n - 1) = 2 ^ N" using n1 by (simp add: N_def power_Suc [symmetric] del: power_Suc)
  ultimately have two: "n dvd 2 ^ N - 2" by (simp add: right_diff_distrib)
  have pp: "n dvd p ^ N - p"
  proof (cases "0 \<le> p")
    case True
    then show ?thesis using fermat_nat [OF N(2), of "nat p"] N(1) by simp
  next
    case False
    then have "n dvd (- p) ^ N - (- p)" using fermat_nat [OF N(2), of "nat (- p)"] N(1) by simp
    then have "n dvd - (p ^ N - p)" using N(3) by simp
    then show ?thesis by (simp only: dvd_minus_iff)
  qed
  have A: "n dvd bsum p N (even_part D) - p ^ N" and B: "n dvd bsum p N (odd_part D) - D ^ (N div 2)"
    using bsum_prime [OF N(2), of p "even_part D"] bsum_prime [OF N(2), of p "odd_part D"] N(1,3)
    by (simp_all add: even_part_def odd_part_def)
  have v: "n dvd lucas_v p q N - p"
  proof (rule cancel)
    have "n dvd 2 * ((bsum p N (even_part D) - p ^ N) + (p ^ N - p)) - (2 ^ N - 2) * lucas_v p q N"
      by (rule dvd_diff [OF dvd_mult [OF dvd_add [OF A pp]] dvd_mult2 [OF two]])
    then show "n dvd 2 * (lucas_v p q N - p)" using lucas_parts [OF D, of N] by (simp add: algebra_simps)
  qed
  have u: "n dvd lucas_u p q N + 1"
  proof (rule cancel)
    have "n dvd 2 * ((bsum p N (odd_part D) - D ^ (N div 2)) + (D ^ (N div 2) + 1)) - (2 ^ N - 2) * lucas_u p q N"
      by (rule dvd_diff [OF dvd_mult [OF dvd_add [OF B J [folded N_def]]] dvd_mult2 [OF two]])
    then show "n dvd 2 * (lucas_u p q N + 1)" using lucas_parts [OF D, of N] by (simp add: algebra_simps)
  qed
  have "nat (n + 1) = Suc N" by (simp add: N(1))
  moreover have "n dvd lucas_v p q (Suc N) - 2 * q"
  proof (rule cancel)
    have "n dvd p * (lucas_v p q N - p) + D * (lucas_u p q N + 1)" using u v by simp
    moreover have "p * (lucas_v p q N - p) + D * (lucas_u p q N + 1) = 2 * lucas_v p q (Suc N) - p ^ 2 + D"
      unfolding lucas_v_next D [symmetric] by (simp add: algebra_simps power2_eq_square)
    moreover have "2 * (lucas_v p q (Suc N) - 2 * q) = 2 * lucas_v p q (Suc N) - p ^ 2 + D" by (simp add: D)
    ultimately show "n dvd 2 * (lucas_v p q (Suc N) - 2 * q)" by (simp only:)
  qed
  ultimately show ?thesis by simp
qed

text \<open>What \<open>find_pq\<close> returns.\<close>

lemma find_pq_loop_spec:
  assumes "find_pq_loop J n d = Some (p, q)" and "0 < d" and "odd d"
  shows "J (p ^ 2 - 4 * q) n = - 1 \<and> \<bar>2 * q\<bar> \<le> 500"
  using assms
proof (induction J n d rule: find_pq_loop.induct)
  case (1 J n d)
  let ?d = "if d mod 4 = 1 then d else - d"
  have lt: "d < 1000" using 1(2) unfolding find_pq_loop.simps [of J n d] by (auto simp: VPRP_MAX_D_def split: if_splits)
  then have max: "\<not> \<not> d < VPRP_MAX_D" by (simp add: VPRP_MAX_D_def)
  have m: "?d mod 4 = 1"
  proof -
    have "d mod 4 = 1 \<or> d mod 4 = 3" using 1(4) by presburger
    then show ?thesis by (auto simp: zmod_zminus1_eq_if)
  qed
  show ?case
  proof (cases "J ?d n = - 1")
    case True
    have pq: "(p, q) = (if ?d = 5 then (5, 5) else (1, tdiv (1 - ?d) 4))"
      using 1(2) True max unfolding find_pq_loop.simps [of J n d] Let_def by (simp split: if_splits)
    show ?thesis
    proof (cases "?d = 5")
      case False
      have "4 dvd 1 - x" if "x mod 4 = 1" for x :: int using that by presburger
      from this [OF m] have "4 dvd 1 - ?d" .
      then obtain k where k: "1 - ?d = 4 * k" by (elim dvdE)
      have "tdiv (4 * k) 4 = k" by (simp add: tdiv_def sgn_mult abs_mult mult_sgn_abs)
      then have "p = 1" "q = k" using pq False unfolding k by simp_all
      moreover have "\<bar>?d\<bar> < 1000" using lt 1(3) by simp
      then have "\<bar>4 * k\<bar> \<le> 1000" unfolding k [symmetric] by linarith
      then have "\<bar>2 * k\<bar> \<le> 500" by linarith
      moreover have "1 - 4 * k = ?d" using k by linarith
      ultimately show ?thesis using True by simp
    qed (use pq True in auto)
  next
    case False
    have "find_pq_loop J n (\<bar>?d\<bar> + 2) = Some (p, q)"
      using 1(2) False max unfolding find_pq_loop.simps [of J n d] Let_def by (simp split: if_splits)
    moreover have "odd (\<bar>?d\<bar> + 2)" using 1(4) by simp
    ultimately show ?thesis using 1(1) [OF max refl False] by simp
  qed
qed

lemma find_pq_spec: "find_pq J n = Some (p, q) \<Longrightarrow> J (p ^ 2 - 4 * q) n = - 1 \<and> \<bar>2 * q\<bar> \<le> 500"
  using find_pq_loop_spec [of J n 5 p q] by (simp add: find_pq_def)

lemma find_pq_first: "J 5 n = - 1 \<Longrightarrow> find_pq J n = Some (5, 5)"
  by (simp add: find_pq_def find_pq_loop.simps [of _ _ 5] VPRP_MAX_D_def)

text \<open>For an odd prime the Jacobi symbol is the Legendre symbol, by Euler's criterion a power.\<close>

definition legendre_ok :: "(int \<Rightarrow> int \<Rightarrow> int) \<Rightarrow> int \<Rightarrow> bool" where
  "legendre_ok J n \<longleftrightarrow> (\<forall>a. J a n = - 1 \<longrightarrow> n dvd a ^ (nat n div 2) + 1)"

lemma is_vprp_prime:
  assumes n: "prime_number n" "odd n" "500 < n" and J: "legendre_ok J n" and pq: "find_pq J n = Some (p, q)"
  shows "is_vprp J n"
proof -
  note fp = find_pq_spec [OF pq]
  let ?v = "find_lucas_v (n + 1) n p q"
  have j: "n dvd (p ^ 2 - 4 * q) ^ (nat n div 2) + 1" using J fp unfolding legendre_ok_def by blast
  have e: "0 < n + 1" using n(3) by simp
  have "n dvd (?v - lucas_v p q (nat (n + 1))) + (lucas_v p q (nat (n + 1)) - 2 * q)"
    by (rule dvd_add [OF find_lucas_v_correct [OF e] lucas_prime [OF n(1,2) refl j]])
  then have "n dvd ?v - 2 * q" by (simp only: add_diff_eq diff_add_cancel)
  then have v: "?v mod n = 2 * q mod n" by (rule mod_eq_dvd_iff [THEN iffD2])
  show ?thesis
  proof (cases "q < 0")
    case True
    have "(- ?v) mod n = (- (2 * q)) mod n" using v by (simp only: mod_minus_eq [symmetric, of ?v] mod_minus_eq [symmetric, of "2 * q"])
    moreover have "(- (2 * q)) mod n = - (2 * q)" using True fp n(3) by (intro mod_pos_pos_trivial) auto
    ultimately have "(- ?v) mod n = - (2 * q)" by simp
    then show ?thesis using True by (simp add: is_vprp_def pq Let_def)
  next
    case False
    then show ?thesis using v fp n(3) by (simp add: is_vprp_def pq Let_def)
  qed
qed

lemma is_prime_bpsw_prime:
  assumes n: "prime_number n" "500 < n" and t: "\<forall>p\<in>set (take (n_pprods n) pprods). \<not> n dvd p"
    and J: "legendre_ok J n" and pq: "find_pq J n \<noteq> None"
  shows "is_prime_bpsw J n = Some 2"
proof -
  have o: "odd n"
  proof
    assume "even n"
    then have "\<bar>2\<bar> = (1 :: int) \<or> \<bar>2\<bar> = n" using n(1) unfolding prime_number_def by blast
    then show False using n(2) by simp
  qed
  have g: "\<not> (\<exists>p\<in>set (take (n_pprods n) pprods). gcd n p \<noteq> 1)"
    using t prime_coprime [OF n(1)] by (auto simp: coprime_iff_gcd_eq_1)
  obtain p q where "find_pq J n = Some (p, q)" using pq by auto
  then have "is_vprp J n" by (rule is_vprp_prime [OF n(1) o n(2) J])
  moreover note miller_rabin_prime [OF n(1) o]
  ultimately show ?thesis unfolding is_prime_bpsw_def if_not_P [OF g] using o n(2) by simp
qed

text \<open>Small primes are declared composite: 2 by Miller-Rabin, the odd ones by the table.\<close>

lemma small_primes_composite:
  assumes "n \<in> {2, 3, 5, 7}"
  shows "is_prime_bpsw J n = Some 0"
proof (cases "n = 2")
  case True
  have "\<not> (\<exists>p\<in>set (take (n_pprods 2) pprods). gcd 2 p \<noteq> 1)" by code_simp
  moreover have "miller_rabin 2 2 = Some False" by code_simp
  ultimately show ?thesis unfolding True is_prime_bpsw_def by simp
next
  case False
  have "list_all (\<lambda>n. odd n \<and> (\<exists>p\<in>set (take (n_pprods n) pprods). gcd n p \<noteq> 1)) [3, 5, 7]"
    by code_simp
  moreover have "n \<in> set [3, 5, 7]" using assms False by simp
  ultimately have p: "odd n" "\<exists>p\<in>set (take (n_pprods n) pprods). gcd n p \<noteq> 1" unfolding list_all_iff by blast+
  have "\<not> n < 0" using assms by auto
  then show ?thesis unfolding is_prime_bpsw_def if_P [OF p(2)] using p(1) by simp
qed

end
