(* ===== verification/ProofBlob.thy ===== *)
theory ProofBlob
  imports EndToEnd
begin

section \<open>The bytes of an n-Wesolowski proof\<close>

text \<open>
  The end of \<open>ProverManager::Prove\<close>: the serialized result, the proof of the last segment,
  and, for every earlier segment from the last to the first, its length, its challenge and its
  proof.  Its counterpart is the loop of \<open>CheckProofOfTimeNWesolowski\<close>, which reads the blob
  from its end.  A chain of honest segments is accepted, whatever the form representatives
  along it are: both sides reduce before they hash.
\<close>

subsection \<open>Writing the blob\<close>

text \<open>One \<open>[iters, B, proof]\<close>.\<close>

definition segment_bytes ::
  "(byte list \<Rightarrow> byte list) \<Rightarrow> (int \<Rightarrow> bool) \<Rightarrow> int \<Rightarrow> nat \<Rightarrow> segment \<Rightarrow> byte list option" where
  "segment_bytes H P D d_bits s =
     Option.bind (get_B H P D (seg_x s) (seg_y s)) (\<lambda>(B, x', y').
     map_option (\<lambda>(p, p'). Int64ToBytes (seg_length s) @ to_bytes B @ p) (serialize_form (seg_proof s) d_bits))"

primrec segments_bytes ::
  "(byte list \<Rightarrow> byte list) \<Rightarrow> (int \<Rightarrow> bool) \<Rightarrow> int \<Rightarrow> nat \<Rightarrow> segment list \<Rightarrow> byte list option" where
  "segments_bytes H P D d_bits [] = Some []"
| "segments_bytes H P D d_bits (s # ss) =
     Option.bind (segment_bytes H P D d_bits s) (\<lambda>b. map_option (\<lambda>bs. b @ bs) (segments_bytes H P D d_bits ss))"

definition proof_blob ::
  "(byte list \<Rightarrow> byte list) \<Rightarrow> (int \<Rightarrow> bool) \<Rightarrow> int \<Rightarrow> form \<Rightarrow> segment list \<Rightarrow> wproof option" where
  "proof_blob H P D y proof_segments =
     (let d_bits = num_bits D in
      Option.bind (serialize_form y d_bits) (\<lambda>(y_serialized, y').
      if proof_segments = [] then None
      else Option.bind (serialize_form (seg_proof (last proof_segments)) d_bits) (\<lambda>(p, p').
      map_option (\<lambda>rest. \<lparr>proof_y = y_serialized, proof_proof = p @ rest,
          proof_witness_type = (length proof_segments - 1) mod 256\<rparr>)
        (segments_bytes H P D d_bits (rev (butlast proof_segments))))))"

subsection \<open>Honest segments\<close>

definition seg_len :: "segment \<Rightarrow> nat" where
  "seg_len s = unat (seg_length s)"

text \<open>A segment whose end is the right power, for which a challenge is found, and whose proof is the
  power by the quotient.\<close>

definition honest_segment :: "(byte list \<Rightarrow> byte list) \<Rightarrow> (int \<Rightarrow> bool) \<Rightarrow> int \<Rightarrow> segment \<Rightarrow> bool" where
  "honest_segment H P D s \<longleftrightarrow> posdef D (seg_x s) \<and> posdef D (seg_y s) \<and> posdef D (seg_proof s) \<and>
     class_pow D (seg_x s) (2 ^ seg_len s) (seg_y s) \<and>
     (\<exists>B x' y'. get_B H P D (seg_x s) (seg_y s) = Some (B, x', y') \<and>
        class_pow D (seg_x s) (nat (2 ^ seg_len s div B)) (seg_proof s))"

text \<open>Each segment starts in the class where the one before it ends.\<close>

fun honest_chain :: "(byte list \<Rightarrow> byte list) \<Rightarrow> (int \<Rightarrow> bool) \<Rightarrow> int \<Rightarrow> form \<Rightarrow> segment list \<Rightarrow> form \<Rightarrow> bool" where
  "honest_chain H P D x [] y \<longleftrightarrow> same_class D x y"
| "honest_chain H P D x (s # ss) y \<longleftrightarrow>
     same_class D x (seg_x s) \<and> honest_segment H P D s \<and> honest_chain H P D (seg_y s) ss y"

lemma honest_chain_append:
  "honest_chain H P D x (ss @ [s]) y \<longleftrightarrow>
     (\<exists>z. honest_chain H P D x ss z \<and> same_class D z (seg_x s) \<and> honest_segment H P D s \<and> same_class D (seg_y s) y)"
proof (induction ss arbitrary: x)
  case Nil
  have "same_class D x (seg_x s) \<longleftrightarrow> (\<exists>z. same_class D x z \<and> same_class D z (seg_x s))"
    by (metis same_class_trans same_class_sym)
  then show ?case by auto
next
  case (Cons a ss)
  then show ?case by auto
qed

lemma honest_chain_start: "same_class D x x' \<Longrightarrow> honest_chain H P D x ss y \<Longrightarrow> honest_chain H P D x' ss y"
  by (cases ss) (auto intro: same_class_trans same_class_sym)

subsection \<open>The challenge depends on the classes only\<close>

lemma reduce_same_class:
  assumes "D < 0" and "posdef D f" and "posdef D g" and "same_class D f g"
  shows "reduce f = reduce g"
proof -
  obtain f' where f: "reduce f = Some f'" "posdef D f'" "is_reduced f'" "same_class D f f'"
    using reduce_returns [OF assms(2,1)] by blast
  obtain g' where g: "reduce g = Some g'" "posdef D g'" "is_reduced g'" "same_class D g g'"
    using reduce_returns [OF assms(3,1)] by blast
  have "same_class D f' g'" using f(4) g(4) assms(4) by (meson same_class_sym same_class_trans)
  then have "f' = g'" by (rule reduced_unique [OF assms(1) f(2,3) g(2,3)])
  then show ?thesis using f g by simp
qed

lemma serialize_same_class:
  assumes "D < 0" and "posdef D f" and "posdef D g" and "same_class D f g"
  shows "serialize_form f d = serialize_form g d"
  using reduce_same_class [OF assms] by (simp add: serialize_form_def)

lemma get_B_same_class:
  assumes "D < 0" and "posdef D x" "posdef D u" "same_class D x u" and "posdef D y" "posdef D v" "same_class D y v"
  shows "get_B H P D x y = get_B H P D u v"
  using serialize_same_class [OF assms(1-4)] serialize_same_class [OF assms(1,5-7)] by (simp add: get_B_def)

lemma length_to_bytes_B:
  assumes "2 ^ 263 \<le> B" and "B < 2 ^ 264"
  shows "length (to_bytes B) = 33 \<and> integer_of_bytes (to_bytes B) = B"
proof -
  have "integer_of_bytes (to_bytes B) = B" using to_bytes_round_trip [of B] assms(1) by simp
  moreover have "length (to_bytes B) = 33"
  proof -
    let ?n = "nat \<bar>B\<bar>"
    have B: "int ?n = B" using assms(1) by simp
    have l: "length (be_bytes ?n) \<le> k \<longleftrightarrow> ?n < 256 ^ k" for k using length_le_bytes by (simp add: be_bytes_def)
    have "?n < 256 ^ 33" using assms B by (simp add: nat_less_iff)
    then have "length (be_bytes ?n) \<le> 33" by (simp only: l)
    moreover have "\<not> ?n < 256 ^ 32" using assms(1) B by (simp add: nat_less_iff)
    then have "\<not> length (be_bytes ?n) \<le> 32" by (simp only: l not_False_eq_True)
    ultimately have e: "length (be_bytes ?n) = 33" by linarith
    have "sizeinbase2 B \<le> 264" using assms sizeinbase2_bound by (simp add: sizeinbase2_def bit_length_le)
    then have "(sizeinbase2 B + 7) div 8 - 33 = 0" by simp
    then show ?thesis using e by (simp add: to_bytes_def Let_def)
  qed
  ultimately show ?thesis by blast
qed

subsection \<open>One segment, from its bytes to its verdict\<close>

lemma read_back_segment:
  assumes D: "good_disc D" and G: "gcdext_ok G" "gcdext_small G" and ser: "serializable D"
    and h: "honest_segment H P D s" and b: "segment_bytes H P D (num_bits D) s = Some b"
  shows "length b = 141 \<and> (\<exists>B x' y' p. get_B H P D (seg_x s) (seg_y s) = Some (B, x', y') \<and> posdef D p \<and>
      same_class D (seg_proof s) p \<and> read_segment G D (pre @ b @ post) (int (length pre)) = ret (seg_len s, B, p))"
proof -
  have D0: "D < 0" using D by simp
  have ps: "posdef D (seg_x s)" "posdef D (seg_y s)" "posdef D (seg_proof s)" using h by (simp_all add: honest_segment_def)
  obtain B x' y' c p where B: "get_B H P D (seg_x s) (seg_y s) = Some (B, x', y')"
    and c: "serialize_form (seg_proof s) (num_bits D) = Some (c, p)" and b': "b = Int64ToBytes (seg_length s) @ to_bytes B @ c"
    using b by (auto simp: segment_bytes_def Option.bind_eq_Some_conv)
  note rb = serialize_form_reads_back [OF D G ser ps(3) c]
  have sh: "prime_shape P 264 [263] B" using get_B_reduced(9) [OF B D0 ps(1,2)] .
  have Bb: "length (to_bytes B) = 33" "integer_of_bytes (to_bytes B) = B"
    using length_to_bytes_B challenge_pos [OF sh] sh by (auto simp: prime_shape_def)
  have l: "length b = 141" using rb Bb by (simp add: b')
  let ?blob = "pre @ b @ post" and ?i = "int (length pre)"
  have "Option.bind (blob_at ?blob ?i) BytesToInt64 = Some (seg_length s)"
    using Int64_round_trip_aux by (simp add: blob_at_def b')
  moreover have "blob_integer ?blob (?i + 8) B_bytes = Some B"
    using Bb rb by (simp add: blob_integer_def blob_at_def b' nat_add_distrib)
  moreover have "deserialize_at G D ?blob (?i + 8 + int B_bytes) = ret p"
    using rb deserialize_form_extend [of G D c p post] Bb
    by (simp add: deserialize_at_def blob_at_def b' nat_add_distrib)
  ultimately have "read_segment G D ?blob ?i = ret (seg_len s, B, p)"
    by (simp add: read_segment_def seg_len_def)
  then show ?thesis using l B rb by blast
qed

lemma verify_segment_honest:
  assumes red: "reducer_sound red" and t: "t \<Longrightarrow> reducer_total red" and D: "good_disc D" and G: "gcdext_ok G"
    and h: "honest_segment H P D s"
    and B: "get_B H P D (seg_x s) (seg_y s) = Some (B, x', y')" and x: "posdef D x" "same_class D x (seg_x s)"
    and p: "posdef D p" "same_class D (seg_proof s) p"
  shows "settles t (\<lambda>(status, z). status = 0 \<and> posdef D z \<and> same_class D (seg_y s) z)
    (VerifyWesoSegment G H P red D x p B (seg_len s))"
  unfolding VerifyWesoSegment_def
proof (rule settles_bind)
  have D0: "D < 0" using D by simp
  have hs: "posdef D (seg_x s)" "posdef D (seg_y s)" "class_pow D (seg_x s) (2 ^ seg_len s) (seg_y s)"
    "class_pow D (seg_x s) (nat (2 ^ seg_len s div B)) (seg_proof s)"
    using h B by (auto simp: honest_segment_def)
  have B0: "0 < B" using challenge_pos [OF get_B_reduced(9) [OF B D0 hs(1,2)]] by simp
  show "settles t (\<lambda>u. posdef D u \<and> is_reduced u \<and> weso_equation D x u p B (seg_len s)) (weso_product G red D x p B (seg_len s))"
    by (rule weso_product_settles [OF red t D G x(1) p(1) B0])
  have px: "class_pow D x (nat (2 ^ seg_len s div B)) p" "class_pow D x (2 ^ seg_len s) (seg_y s)"
    using class_pow_base [OF same_class_sym [OF x(2)]] hs(3,4) class_pow_same p(2) by blast+
  fix u assume u: "posdef D u \<and> is_reduced u \<and> weso_equation D x u p B (seg_len s)"
  then have "same_class D (seg_y s) u" using honest_product [OF D x(1) B0 px(2,1)] by blast
  then have "get_B H P D x u = Some (B, x', y')"
    using get_B_same_class [OF D0 x(1) hs(1) x(2) _ hs(2) same_class_sym, of u] u B by simp
  then show "settles t (\<lambda>(status, z). status = 0 \<and> posdef D z \<and> same_class D (seg_y s) z)
      (bind_res (lift_opt (get_B H P D x u)) (\<lambda>(B', x', out_y'). ret (if B = B' then 0 else - 1, out_y')))"
    using get_B_reduced(4,6) [OF B D0 hs(1,2)] by simp
qed

subsection \<open>The loop over a chain\<close>

definition total_len :: "segment list \<Rightarrow> nat" where
  "total_len ss = sum_list (map seg_len ss)"

lemma segments_bytes_append:
  "segments_bytes H P D d (ss @ [s]) = Some bs \<longleftrightarrow>
     (\<exists>as b. segments_bytes H P D d ss = Some as \<and> segment_bytes H P D d s = Some b \<and> bs = as @ b)"
  by (induction ss arbitrary: bs) (auto simp: Option.bind_eq_Some_conv)

lemma segments_bytes_length:
  assumes "good_disc D" and "gcdext_ok G" "gcdext_small G" and "serializable D"
    and "\<forall>s\<in>set ss. honest_segment H P D s" and "segments_bytes H P D (num_bits D) ss = Some bs"
  shows "length bs = 141 * length ss"
  using assms(5,6)
  by (induction ss arbitrary: bs)
    (auto simp: Option.bind_eq_Some_conv dest: read_back_segment [OF assms(1-4)])

lemma honest_chain_all: "honest_chain H P D x ss y \<Longrightarrow> \<forall>s\<in>set ss. honest_segment H P D s"
  by (induction ss arbitrary: x) auto

text \<open>The verifier's loop reads a chain from the end of the blob: it never says no or throws, and
  leaves the form it started from moved to the end of the chain.\<close>

lemma segment_loop_honest:
  assumes red: "reducer_sound red" and t: "t \<Longrightarrow> reducer_total red" and D: "good_disc D"
    and G: "gcdext_ok G" "gcdext_small G" and ser: "serializable D"
  shows "honest_chain H P D x ss y \<Longrightarrow> posdef D x \<Longrightarrow> length front = 200 \<Longrightarrow>
    segments_bytes H P D (num_bits D) (rev ss) = Some bs \<Longrightarrow> total_len ss \<le> T \<Longrightarrow>
    settles t (\<lambda>r. \<exists>z. r = Some (z, T - total_len ss) \<and> posdef D z \<and> same_class D z y)
      (segment_loop G H P red D (front @ bs @ post) (2 * form_size) False (200 + 141 * int (length ss) - segment_len) x T)"
proof (induction ss arbitrary: x bs post T)
  case Nil
  then show ?case by (auto simp: segment_loop.simps total_len_def)
next
  case (Cons s ss)
  obtain as b where as: "segments_bytes H P D (num_bits D) (rev ss) = Some as"
    and b: "segment_bytes H P D (num_bits D) s = Some b" and bs: "bs = as @ b"
    using Cons.prems(4) by (auto simp: segments_bytes_append)
  have h: "honest_segment H P D s" "same_class D x (seg_x s)" "honest_chain H P D (seg_y s) ss y"
    using Cons.prems(1) by simp_all
  have l: "length as = 141 * length ss"
    using segments_bytes_length [OF D G ser _ as] honest_chain_all [OF h(3)] by simp
  obtain B x' y' p where B: "get_B H P D (seg_x s) (seg_y s) = Some (B, x', y')" and p: "posdef D p" "same_class D (seg_proof s) p"
    and rd: "read_segment G D ((front @ as) @ b @ post) (int (length (front @ as))) = ret (seg_len s, B, p)"
    using read_back_segment [OF D G ser h(1) b] by blast
  have i: "200 + 141 * int (length (s # ss)) - segment_len = int (length (front @ as))" using l Cons.prems(3) by simp
  have le: "seg_len s \<le> T" "total_len ss \<le> T - seg_len s" using Cons.prems(5) by (simp_all add: total_len_def)
  let ?blob = "front @ bs @ post" and ?i = "200 + 141 * int (length (s # ss)) - segment_len"
  let ?Q = "\<lambda>r. \<exists>z. r = Some (z, T - total_len (s # ss)) \<and> posdef D z \<and> same_class D z y"
  let ?next = "\<lambda>r. case r of None \<Rightarrow> ret None
      | Some xnew \<Rightarrow> if seg_len s > T then ret None
          else segment_loop G H P red D ?blob (2 * form_size) False (?i - segment_len) xnew (T - seg_len s)"
  have rd': "read_segment G D ?blob ?i = ret (seg_len s, B, p)" using rd unfolding i bs by simp
  have ge: "\<not> ?i < 2 * form_size" "\<not> ?i < 0" by simp_all
  have loop: "segment_loop G H P red D ?blob (2 * form_size) False ?i x T =
      bind_res (bind_res (VerifyWesoSegment G H P red D x p B (seg_len s))
        (\<lambda>(status, xnew). ret (if status \<noteq> 0 then None else Some xnew))) ?next"
    unfolding segment_loop.simps [where i = ?i] rd' using ge by simp
  have step: "settles t ?Q (?next (Some z))" if z: "posdef D z" "same_class D (seg_y s) z" for z
  proof -
    have e: "?i - segment_len = 200 + 141 * int (length ss) - segment_len" by simp
    have "settles t (\<lambda>r. \<exists>w. r = Some (w, T - seg_len s - total_len ss) \<and> posdef D w \<and> same_class D w y)
        (segment_loop G H P red D (front @ as @ (b @ post)) (2 * form_size) False (200 + 141 * int (length ss) - segment_len) z
          (T - seg_len s))"
      by (rule Cons.IH [OF honest_chain_start [OF z(2) h(3)] z(1) Cons.prems(3) as le(2)])
    then show ?thesis using le(1) unfolding e bs by (simp add: total_len_def not_less)
  qed
  have "settles t (\<lambda>r. \<exists>z. r = Some z \<and> posdef D z \<and> same_class D (seg_y s) z)
      (bind_res (VerifyWesoSegment G H P red D x p B (seg_len s)) (\<lambda>(status, xnew). ret (if status \<noteq> 0 then None else Some xnew)))"
    by (rule settles_bind [OF verify_segment_honest [OF red t D G(1) h(1) B Cons.prems(2) h(2) p]]) auto
  then show ?case unfolding loop by (rule settles_bind) (use step in blast)
qed

lemma chain_end_posdef: "honest_chain H P D x ss y \<Longrightarrow> posdef D x \<Longrightarrow> ss \<noteq> [] \<Longrightarrow> posdef D (seg_y (last ss))"
  by (induction ss arbitrary: x) (auto simp: honest_segment_def)

lemma honest_blob_settles:
  assumes red: "reducer_sound red" and t: "t \<Longrightarrow> reducer_total red" and D: "good_disc D"
    and G: "gcdext_ok G" "gcdext_small G" and ser: "serializable D"
    and x: "posdef D x" "serialize_form x (num_bits D) = Some (xs, x)"
    and chain: "honest_chain H P D x segs y" and py: "posdef D y" and T: "total_len segs = T"
    and blob: "proof_blob H P D y segs = Some pr" and fits: "length segs \<le> 2 ^ 23"
  shows "settles t (\<lambda>b. b) (CheckProofOfTimeNWesolowski G H P red D xs (proof_y pr @ proof_proof pr)
      (int (length (proof_y pr @ proof_proof pr))) T (int (length segs) - 1))"
proof -
  have D0: "D < 0" using D by simp
  obtain ys y' ps p' rest where ne: "segs \<noteq> []" and ys: "serialize_form y (num_bits D) = Some (ys, y')"
    and ps: "serialize_form (seg_proof (last segs)) (num_bits D) = Some (ps, p')"
    and rest: "segments_bytes H P D (num_bits D) (rev (butlast segs)) = Some rest"
    and pr: "proof_y pr = ys" "proof_proof pr = ps @ rest"
    using blob by (auto simp: proof_blob_def Option.bind_eq_Some_conv Let_def split: if_splits)
  define s where "s = last segs"
  define m where "m = length (butlast segs)"
  have sg: "segs = butlast segs @ [s]" using ne by (simp add: s_def)
  have n: "length segs = Suc m" using ne by (cases segs rule: rev_cases) (auto simp: m_def)
  obtain z where ch: "honest_chain H P D x (butlast segs) z" and zs: "same_class D z (seg_x s)" and hs: "honest_segment H P D s"
    and sy: "same_class D (seg_y s) y"
    using chain sg honest_chain_append by metis
  have hp: "posdef D (seg_proof s)" "posdef D (seg_x s)" "posdef D (seg_y s)" using hs by (simp_all add: honest_segment_def)
  note ry = serialize_form_reads_back [OF D G ser py ys] and rp = serialize_form_reads_back [OF D G ser hp(1) ps [folded s_def]]
    and rx = serialize_form_reads_back [OF D G ser x]
  have lr: "length rest = 141 * m"
    using segments_bytes_length [OF D G ser _ rest] honest_chain_all [OF ch] by (simp add: m_def)
  have d0: "deserialize_at G D (ys @ ps @ rest) 0 = ret y'"
    using ry deserialize_form_extend by (simp add: deserialize_at_def blob_at_def)
  have d1: "deserialize_at G D (ys @ ps @ rest) form_size = ret p'"
    using ry rp deserialize_form_extend by (simp add: deserialize_at_def blob_at_def)
  have "total_len segs = total_len (butlast segs) + seg_len s" by (subst sg) (simp add: total_len_def)
  then have tl: "total_len (butlast segs) \<le> T" "T - total_len (butlast segs) = seg_len s" using T by simp_all
  let ?N = "200 + 141 * int m"
  let ?loop = "segment_loop G H P red D (ys @ ps @ rest) (2 * form_size) False (?N - segment_len) x T"
  let ?rest = "\<lambda>q. case q of None \<Rightarrow> ret False | Some (x, iterations) \<Rightarrow>
    bind_res (deserialize_at G D (ys @ ps @ rest) 0) (\<lambda>y. bind_res (deserialize_at G D (ys @ ps @ rest) form_size) (\<lambda>p.
      VerifyWesolowskiProof G H P red D x y p iterations))"
  have len: "int (length (ys @ ps @ rest)) = ?N" using ry rp lr by simp
  have bl: "blob_length 2 (int (length segs) - 1) = Some ?N" using fits by (simp add: blob_length_def n)
  have check: "CheckProofOfTimeNWesolowski G H P red D xs (proof_y pr @ proof_proof pr)
      (int (length (proof_y pr @ proof_proof pr))) T (int (length segs) - 1) = bind_res ?loop ?rest"
    unfolding CheckProofOfTimeNWesolowski_def pr append_assoc len bl using rx by simp
  have last: "settles t (\<lambda>b. b) (VerifyWesolowskiProof G H P red D w y' p' (seg_len s))"
    if w: "posdef D w" "same_class D w z" for w
  proof -
    have wx: "same_class D (seg_x s) w" using w(2) zs by (meson same_class_sym same_class_trans)
    have yy: "posdef D y'" "same_class D (seg_y s) y'" using ry same_class_trans [OF sy] by auto
    obtain B a b where B: "get_B H P D (seg_x s) (seg_y s) = Some (B, a, b)"
      and pw: "class_pow D (seg_x s) (2 ^ seg_len s) (seg_y s)" "class_pow D (seg_x s) (nat (2 ^ seg_len s div B)) (seg_proof s)"
      using hs by (auto simp: honest_segment_def)
    have B': "get_B H P D w y' = Some (B, a, b)"
      using B get_B_same_class [OF D0 hp(2) w(1) wx hp(3) yy] by simp
    have "class_pow D w (2 ^ seg_len s) y'" "class_pow D w (nat (2 ^ seg_len s div B)) p'"
      using pw class_pow_base [OF wx] class_pow_same yy(2) rp by blast+
    then show ?thesis using verify_honest_settles [OF red t D G(1) w(1) yy(1) _ B'] rp by blast
  qed
  have "length (ys @ ps) = 200" using ry rp by simp
  from segment_loop_honest [OF red t D G ser ch x(1) this rest tl(1), where t = t and post = "[]", unfolded m_def [symmetric] tl(2)]
  have "settles t (\<lambda>r. \<exists>w. r = Some (w, seg_len s) \<and> posdef D w \<and> same_class D w z) ?loop" by simp
  then show ?thesis unfolding check by (rule settles_bind) (use last d0 d1 in auto)
qed

text \<open>As the two facts the properties state.\<close>

lemma honest_blob_accepted:
  assumes "good_disc D" and "gcdext_ok G" "gcdext_small G" and "serializable D"
    and "posdef D x" "serialize_form x (num_bits D) = Some (xs, x)"
    and "honest_chain H P D x segs y" and "posdef D y" and "total_len segs = T"
    and "proof_blob H P D y segs = Some pr" and "length segs \<le> 2 ^ 23"
  shows "CheckProofOfTimeNWesolowski G H P reduce D xs (proof_y pr @ proof_proof pr)
      (int (length (proof_y pr @ proof_proof pr))) T (int (length segs) - 1) = ret True"
    and "CheckProofOfTimeNWesolowski G H P pulmark_reduce D xs (proof_y pr @ proof_proof pr)
      (int (length (proof_y pr @ proof_proof pr))) T (int (length segs) - 1) \<in> {None, ret True}"
  using settles_total [OF honest_blob_settles [OF exact.reducer_sound_axioms _ assms, of True]] exact.reducer_total_axioms
    settles_partial [OF honest_blob_settles [OF pulmark.reducer_sound_axioms _ assms, of False]]
  by auto

end
