(* ===== verification/ProverThread.thy ===== *)
theory ProverThread
  imports Forms
begin

section \<open>The thread of an \<open>InterruptableProver\<close>\<close>

text \<open>
  The shared flags of an \<open>InterruptableProver\<close> and the two threads that use them: the worker,
  which runs \<open>GenerateProof\<close>, and the event loop, which pauses, resumes and finally stops it.
  A step is one access to a flag, or one section under the mutex.  The worker is at
  \<open>Starting\<close> until it has built the identity form; when that throws, \<open>GenerateProof\<close> catches
  the exception and returns, and the thread leaves without \<open>OnFinish\<close>.  It is at \<open>Working\<close> between two calls of \<open>PerformExtraStep\<close>; \<open>Checked\<close> is past its test of
  \<open>is_finished\<close>, waiting for the condition variable; the last four stand for the end of
  \<open>GenerateProof\<close> and for \<open>OnFinish\<close>.  \<open>Quitting\<close> and \<open>Joining\<close> are the event
  loop inside \<open>stop\<close>.
\<close>

subsection \<open>Flags and program counters\<close>

datatype worker_pc = Starting | Working | Checked | Stored | Finishing | Signalled | Exited

datatype control_pc = Controlling | Quitting | Joining | Joined

record thread_state =
  is_finished :: bool
  is_paused :: bool
  is_fully_finished :: bool
  new_event :: bool
  worker :: worker_pc
  control :: control_pc
  thread_proof :: "form option"

text \<open>The constructor and \<open>start\<close>.\<close>

definition thread_start :: thread_state where
  "thread_start = \<lparr>is_finished = False, is_paused = False, is_fully_finished = False, new_event = False,
     worker = Starting, control = Controlling, thread_proof = None\<rparr>"

subsection \<open>The worker\<close>

text \<open>\<open>PerformExtraStep\<close>, in two steps; answering false, it ends \<open>GenerateProof\<close>.\<close>

definition check_finished :: "thread_state \<Rightarrow> thread_state" where
  "check_finished s = (if is_finished s then s\<lparr>worker := Exited\<rparr> else s\<lparr>worker := Checked\<rparr>)"

definition IsRunning :: "thread_state \<Rightarrow> bool" where
  "IsRunning s \<longleftrightarrow> \<not> is_paused s"

text \<open>\<open>proof = x\<close>, then the three steps of \<open>OnFinish\<close>.\<close>

definition store_proof :: "form \<Rightarrow> thread_state \<Rightarrow> thread_state" where
  "store_proof x s = s\<lparr>thread_proof := Some x, worker := Stored\<rparr>"

definition finish_flag :: "thread_state \<Rightarrow> thread_state" where
  "finish_flag s = s\<lparr>is_finished := True, worker := Finishing\<rparr>"

definition signal_event :: "thread_state \<Rightarrow> thread_state" where
  "signal_event s =
     (if is_fully_finished s then s\<lparr>worker := Exited\<rparr> else s\<lparr>new_event := True, worker := Signalled\<rparr>)"

definition fully_flag :: "thread_state \<Rightarrow> thread_state" where
  "fully_flag s = s\<lparr>is_fully_finished := True, worker := Exited\<rparr>"

inductive worker_step :: "thread_state \<Rightarrow> thread_state \<Rightarrow> bool" where
  identity_ready: "worker s = Starting \<Longrightarrow> worker_step s (s\<lparr>worker := Working\<rparr>)"
| identity_throws: "worker s = Starting \<Longrightarrow> worker_step s (s\<lparr>worker := Exited\<rparr>)"
| extra_step: "worker s = Working \<Longrightarrow> worker_step s (check_finished s)"
| wake: "worker s = Checked \<Longrightarrow> IsRunning s \<Longrightarrow> worker_step s (s\<lparr>worker := Working\<rparr>)"
| computed: "worker s = Working \<Longrightarrow> worker_step s (store_proof x s)"
| finish: "worker s = Stored \<Longrightarrow> worker_step s (finish_flag s)"
| signal: "worker s = Finishing \<Longrightarrow> worker_step s (signal_event s)"
| fully: "worker s = Signalled \<Longrightarrow> worker_step s (fully_flag s)"

subsection \<open>The event loop\<close>

definition pause :: "thread_state \<Rightarrow> thread_state" where
  "pause s = s\<lparr>is_paused := True\<rparr>"

definition resume :: "thread_state \<Rightarrow> thread_state" where
  "resume s = s\<lparr>is_paused := False\<rparr>"

text \<open>\<open>stop\<close>: the two flags and the pause under the mutex, which the worker reads without
  it, then the join, which needs the worker to have returned.\<close>

definition stop_finished :: "thread_state \<Rightarrow> thread_state" where
  "stop_finished s = s\<lparr>is_finished := True, control := Quitting\<rparr>"

definition stop_fully :: "thread_state \<Rightarrow> thread_state" where
  "stop_fully s = s\<lparr>is_fully_finished := True, is_paused := False, control := Joining\<rparr>"

inductive control_step :: "thread_state \<Rightarrow> thread_state \<Rightarrow> bool" where
  pause: "control s = Controlling \<Longrightarrow> control_step s (pause s)"
| resume: "control s = Controlling \<Longrightarrow> control_step s (resume s)"
| take_event: "control s = Controlling \<Longrightarrow> control_step s (s\<lparr>new_event := False\<rparr>)"
| stop1: "control s = Controlling \<Longrightarrow> control_step s (stop_finished s)"
| stop2: "control s = Quitting \<Longrightarrow> control_step s (stop_fully s)"
| join: "control s = Joining \<Longrightarrow> worker s = Exited \<Longrightarrow> control_step s (s\<lparr>control := Joined\<rparr>)"

inductive thread_reachable :: "thread_state \<Rightarrow> bool" where
  start: "thread_reachable thread_start"
| work: "thread_reachable s \<Longrightarrow> worker_step s s' \<Longrightarrow> thread_reachable s'"
| command: "thread_reachable s \<Longrightarrow> control_step s s' \<Longrightarrow> thread_reachable s'"

inductive_cases worker_stepE: "worker_step s s'"
inductive_cases control_stepE: "control_step s s'"
inductive_simps worker_step_iff: "worker_step s s'"

lemmas thread_defs = thread_start_def check_finished_def store_proof_def finish_flag_def signal_event_def fully_flag_def
  pause_def resume_def stop_finished_def stop_fully_def IsRunning_def

subsection \<open>The invariant\<close>

text \<open>Until \<open>stop\<close> is called the flags tell how far the worker has come: a finished prover
  has its proof, a fully finished one has left; the event is raised only after the proof is
  there; a thread that has left without being fully finished has no proof: its identity form
  failed, and nothing tells the event loop.  The join happens after the worker's last step.\<close>

definition thread_inv :: "thread_state \<Rightarrow> bool" where
  "thread_inv s \<longleftrightarrow>
     (worker s \<in> {Stored, Finishing, Signalled} \<longrightarrow> thread_proof s \<noteq> None) \<and>
     (worker s \<in> {Finishing, Signalled} \<longrightarrow> is_finished s) \<and>
     (new_event s \<longrightarrow> is_finished s \<and> thread_proof s \<noteq> None) \<and>
     (is_fully_finished s \<longrightarrow> is_finished s) \<and>
     (control s = Controlling \<longrightarrow>
        (is_finished s \<longrightarrow> thread_proof s \<noteq> None) \<and>
        (is_finished s \<longrightarrow> worker s \<in> {Finishing, Signalled, Exited}) \<and>
        (is_fully_finished s \<longrightarrow> worker s = Exited) \<and>
        (worker s = Exited \<longrightarrow> is_fully_finished s \<or> \<not> is_finished s \<and> thread_proof s = None)) \<and>
     (worker s = Starting \<longrightarrow> thread_proof s = None) \<and>
     (control s \<noteq> Controlling \<longrightarrow> is_finished s) \<and>
     (control s \<in> {Joining, Joined} \<longrightarrow> is_fully_finished s \<and> \<not> is_paused s) \<and>
     (control s = Joined \<longrightarrow> worker s = Exited)"

lemma thread_inv_start: "thread_inv thread_start"
  by (simp add: thread_inv_def thread_defs)

lemma thread_inv_worker: "worker_step s s' \<Longrightarrow> thread_inv s \<Longrightarrow> thread_inv s'"
  by (cases "control s"; elim worker_stepE; auto simp: thread_inv_def thread_defs)

lemma thread_inv_control: "control_step s s' \<Longrightarrow> thread_inv s \<Longrightarrow> thread_inv s'"
  by (elim control_stepE; auto simp: thread_inv_def thread_defs)

lemma thread_reachable_inv: "thread_reachable s \<Longrightarrow> thread_inv s"
  by (induction rule: thread_reachable.induct) (blast intro: thread_inv_start thread_inv_worker thread_inv_control)+

subsection \<open>Stopping ends the worker\<close>

fun worker_rank :: "worker_pc \<Rightarrow> nat" where
  "worker_rank Starting = 5"
| "worker_rank Checked = 5"
| "worker_rank Working = 4"
| "worker_rank Stored = 3"
| "worker_rank Finishing = 2"
| "worker_rank Signalled = 1"
| "worker_rank Exited = 0"

lemma worker_step_stopped:
  assumes "thread_inv s" and "control s = Joining" and "worker_step s s'"
  shows "control s' = Joining \<and> worker_rank (worker s') < worker_rank (worker s)"
  using assms by (elim worker_stepE) (auto simp: thread_inv_def thread_defs)

lemma worker_step_enabled:
  assumes "thread_inv s" and "control s = Joining" and "worker s \<noteq> Exited"
  shows "\<exists>s'. worker_step s s'"
proof -
  have "IsRunning s" using assms(1,2) by (simp add: thread_inv_def IsRunning_def)
  then show ?thesis using assms(3) worker_step.intros by (cases "worker s") blast+
qed

lemma worker_steps_stopped:
  assumes "(worker_step ^^ n) s s'" and "thread_inv s" and "control s = Joining"
  shows "thread_inv s' \<and> control s' = Joining \<and> n + worker_rank (worker s') \<le> worker_rank (worker s)"
  using assms
proof (induction n arbitrary: s')
  case (Suc n)
  then obtain u where u: "(worker_step ^^ n) s u" "worker_step u s'" by auto
  with Suc have "thread_inv u" "control u = Joining" "n + worker_rank (worker u) \<le> worker_rank (worker s)" by auto
  then show ?case using worker_step_stopped [OF _ _ u(2)] thread_inv_worker [OF u(2)] by fastforce
qed simp

lemma worker_rank_5: "worker_rank p \<le> 5"
  by (cases p) simp_all

text \<open>A paused worker goes no further than its next extra step.\<close>

lemma paused_waits: "is_paused s \<Longrightarrow> worker s = Checked \<Longrightarrow> \<not> worker_step s s'"
  by (auto simp: IsRunning_def elim: worker_stepE)

end
