(* ===== verification/Interruptible.thy ===== *)
theory Interruptible
  imports SquareLoop ProofBlob Provers FastStorage
begin

section \<open>The prover classes of \<open>provers.h\<close>\<close>

text \<open>
  \<open>OneWesolowskiProver\<close>, \<open>TwoWesolowskiProver\<close> and \<open>InterruptableProver\<close> give the
  proof generator its parameters \<open>k\<close> and \<open>l\<close> and its source of stored forms.  The last
  one runs in a thread of its own, which the event loop pauses, resumes and stops: its
  flags and its thread are a step relation, the worker's steps being the reads and writes of
  the shared flags.
\<close>

subsection \<open>Parameters and stored forms\<close>

definition OneWesolowskiProver ::
  "gcdext \<Rightarrow> (byte list \<Rightarrow> byte list) \<Rightarrow> (int \<Rightarrow> bool) \<Rightarrow> (form \<Rightarrow> form option) \<Rightarrow> (nat \<Rightarrow> nat \<times> nat) \<Rightarrow>
   (nat \<Rightarrow> bool) \<Rightarrow> (nat \<Rightarrow> form) \<Rightarrow> segment \<Rightarrow> int \<Rightarrow> form res" where
  "OneWesolowskiProver G H P red approx go intermediates segm D =
     (let (k, l) = weso_parameters approx (unat (seg_length segm)) in
      GenerateProof G H P red go intermediates segm D k l)"

definition two_weso_l :: "nat \<Rightarrow> nat" where
  "two_weso_l len = (if len < 10000000 then 1 else 10)"

text \<open>\<open>W e\<close> is the state of the callback when exponent \<open>e\<close> is read: the squaring loop
  goes on while the prover works.  A cell outside the array reads as the zero form; the
  lemma \<open>two_snapshot_form\<close> shows that none is read.\<close>

definition two_prover_form :: "(nat \<Rightarrow> two_weso) \<Rightarrow> nat \<Rightarrow> nat \<Rightarrow> nat \<Rightarrow> nat \<Rightarrow> form" where
  "two_prover_form W done k l i =
     (let e = done + i * k * l in case two_get_form e (W e) of Some f \<Rightarrow> f | None \<Rightarrow> zero_form)"

definition TwoWesolowskiProver ::
  "gcdext \<Rightarrow> (byte list \<Rightarrow> byte list) \<Rightarrow> (int \<Rightarrow> bool) \<Rightarrow> (form \<Rightarrow> form option) \<Rightarrow>
   (nat \<Rightarrow> bool) \<Rightarrow> (nat \<Rightarrow> two_weso) \<Rightarrow> segment \<Rightarrow> int \<Rightarrow> form res" where
  "TwoWesolowskiProver G H P red go W segm D =
     (let k = 10; l = two_weso_l (unat (seg_length segm)) in
      GenerateProof G H P red go (two_prover_form W (unat (seg_start segm)) k l) segm D k l)"

definition interruptable_k :: "nat \<Rightarrow> nat" where
  "interruptable_k len = (if len \<le> 2 ^ 16 then 10 else 12)"

definition interruptable_l :: "nat \<Rightarrow> nat" where
  "interruptable_l len = (if len \<le> 2 ^ 18 then 1 else len div 2 ^ 18)"

definition interruptable_form :: "(nat \<Rightarrow> fast_weso) \<Rightarrow> nat \<Rightarrow> nat \<Rightarrow> nat \<Rightarrow> nat \<Rightarrow> nat \<Rightarrow> form" where
  "interruptable_form W done bucket k l i =
     (let e = done + i * k * l in case fast_get_form e bucket (W e) of Some f \<Rightarrow> f | None \<Rightarrow> zero_form)"

definition InterruptableProver ::
  "gcdext \<Rightarrow> (byte list \<Rightarrow> byte list) \<Rightarrow> (int \<Rightarrow> bool) \<Rightarrow> (form \<Rightarrow> form option) \<Rightarrow>
   (nat \<Rightarrow> bool) \<Rightarrow> (nat \<Rightarrow> fast_weso) \<Rightarrow> segment \<Rightarrow> int \<Rightarrow> form res" where
  "InterruptableProver G H P red go W segm D =
     (let (bucket, segm) = GetSegmentBucket segm; len = unat (seg_length segm);
          k = interruptable_k len; l = interruptable_l len in
      GenerateProof G H P red go (interruptable_form W (unat (seg_start segm)) bucket k l) segm D k l)"

subsection \<open>What they read are powers of the start of the segment\<close>

text \<open>A state of the 2-Wesolowski callback in which exponent \<open>e\<close> can be read.\<close>

definition two_snapshot :: "int \<Rightarrow> form \<Rightarrow> nat \<Rightarrow> two_weso \<Rightarrow> bool" where
  "two_snapshot D x e w \<longleftrightarrow> (\<exists>n m. e \<le> n \<and> two_ok D x n m w) \<and> (\<forall>sw. tw_switch w = Some sw \<longrightarrow> kSwitchIters \<le> sw)"

lemma two_snapshot_form:
  assumes w: "two_snapshot D x e w" and e: "e mod 10 = 0" "e < kSwitchIters \<or> e mod 100 = 0"
  shows "\<exists>f. two_get_form e w = Some f \<and> pw D x (2 ^ e) f \<and> fa f < - D"
proof -
  obtain n m where ok: "e \<le> n" "two_ok D x n m w" and sw: "\<forall>sw. tw_switch w = Some sw \<longrightarrow> kSwitchIters \<le> sw"
    using w by (auto simp: two_snapshot_def)
  have "two_grid e w" using e sw by (fastforce simp: two_grid_def)
  then have c: "two_slot e w < two_space" "spw D x (2 ^ e) (tw_forms w (two_slot e w))"
    using ok by (simp_all add: two_ok_def)
  then show ?thesis using two_space_int by (simp add: two_get_form_def two_position_slot spw_def del: past_int_def)
qed

lemma pw_power_exists:
  assumes D: "good_disc D" and y: "posdef D y"
  shows "\<exists>g. pw D y (2 ^ b) g"
proof (induction b)
  case 0
  show ?case using class_pow_1 [OF D y] y by (auto simp: pw_def)
next
  case (Suc b)
  then obtain g where g: "posdef D g" "class_pow D y (2 ^ b) g" by (auto simp: pw_def)
  obtain r where r: "posdef D r" "class_mul D g g r" using qfb_nudupl_ok [OF D gcdext_min_ok(1) g(1), of 1] by blast
  have "class_pow D y (2 ^ b + 2 ^ b) r" by (rule class_pow_add [OF D y g(2,2) r(2)])
  then show ?case using r(1) by (auto simp: pw_def mult_2)
qed

lemma pw_shift:
  assumes D: "good_disc D" and x: "posdef D x" and y: "pw D x (2 ^ a) y" and f: "pw D x (2 ^ (a + b)) f"
  shows "pw D y (2 ^ b) f"
proof -
  have yp: "posdef D y" "class_pow D x (2 ^ a) y" using y by (simp_all add: pw_def)
  obtain g where g: "pw D y (2 ^ b) g" using pw_power_exists [OF D yp(1)] by blast
  then have "class_pow D x (2 ^ a * 2 ^ b) g" using class_pow_mult [OF D x yp(2)] by (simp add: pw_def)
  then have "same_class D g f" using f class_pow_unique by (simp add: pw_def power_add)
  then show ?thesis using g f class_pow_same by (auto simp: pw_def)
qed

lemma one_stored_powers:
  assumes ok: "one_ok D x n m s" and kl: "ow_kl s = k * l" and n: "T \<le> n" "T \<le> ow_wanted s"
  shows "stored_powers D x k l T (ow_forms s)"
  using ok n by (auto simp: stored_powers_def one_ok_def kl)

text \<open>The two parameters agree: the callback stored what the prover reads.\<close>

definition weso_approx_ok :: "(nat \<Rightarrow> nat \<times> nat) \<Rightarrow> bool" where
  "weso_approx_ok approx \<longleftrightarrow> (\<forall>n. let (k, l) = approx n in 0 < k \<and> k \<le> 30 \<and> 0 < l \<and> k * l < 2 ^ 32)"

lemma weso_parameters_ok:
  assumes "weso_approx_ok approx" and "weso_parameters approx n = (k, l)"
  shows "0 < k \<and> k \<le> 30 \<and> 0 < l \<and> k * l mod 2 ^ 32 = k * l"
  using assms by (auto simp: weso_parameters_def weso_approx_ok_def Let_def split: if_splits prod.splits)

lemma two_stored_powers:
  assumes D: "good_disc D" and x: "posdef D x" and start: "pw D x (2 ^ done) y"
    and W: "\<forall>e. done \<le> e \<longrightarrow> e \<le> done + T \<longrightarrow> two_snapshot D x e (W e)"
    and al: "done mod 100 = 0" and l: "l = two_weso_l T" "l = 1 \<longrightarrow> done + T \<le> kSwitchIters"
  shows "stored_powers D y 10 l T (two_prover_form W done 10 l)"
proof -
  have "pw D y (2 ^ (10 * l * i)) (two_prover_form W done 10 l i)" if i: "10 * l * i < T" for i
  proof -
    let ?e = "done + i * 10 * l"
    have e: "?e = done + 10 * l * i" by simp
    obtain d where d: "done = 100 * d" using al by (auto simp: mod_eq_0_iff_dvd)
    have m: "?e mod 10 = 0" by (simp add: d mod_eq_0_iff_dvd)
    have sw: "?e < kSwitchIters \<or> ?e mod 100 = 0"
    proof (cases "l = 1")
      case True
      then show ?thesis using i l(2) by simp
    next
      case False
      then have "l = 10" using l(1) by (auto simp: two_weso_l_def split: if_splits)
      then show ?thesis by (simp add: d mod_eq_0_iff_dvd)
    qed
    have "two_snapshot D x ?e (W ?e)" using W i by (simp add: e)
    from two_snapshot_form [OF this m sw]
    obtain f where f: "two_get_form ?e (W ?e) = Some f" "pw D x (2 ^ ?e) f" by (elim exE conjE)
    have "pw D y (2 ^ (10 * l * i)) f" by (rule pw_shift [OF D x start]) (use f(2) in \<open>simp add: e\<close>)
    then show ?thesis by (simp add: two_prover_form_def Let_def f(1))
  qed
  then show ?thesis by (simp add: stored_powers_def)
qed

lemma interruptable_kl:
  assumes "len = 2 ^ (16 + 2 * b)"
  shows "interruptable_k len * interruptable_l len = bucket_kl b" and "interruptable_k len \<le> 30"
    and "0 < interruptable_k len" and "0 < interruptable_l len"
proof -
  have mono: "(2 :: nat) ^ (16 + 2 * b) \<le> 2 ^ n \<longleftrightarrow> 16 + 2 * b \<le> n" for n
    by (rule power_increasing_iff) simp
  have k: "interruptable_k len = (if b = 0 then 10 else 12)" unfolding interruptable_k_def assms mono by (cases "b = 0") simp_all
  have l: "interruptable_l len = (if b \<le> 1 then 1 else 4 ^ (b - 1))"
  proof (cases "b \<le> 1")
    case False
    then obtain c where c: "b = Suc (Suc c)" using False that [of "b - 2"] by simp
    have "(2 :: nat) ^ (16 + 2 * b) = 4 ^ (b - 1) * 2 ^ 18" by (simp add: c power_add power_mult)
    then show ?thesis using False unfolding interruptable_l_def assms mono by simp
  next
    case True
    then show ?thesis unfolding interruptable_l_def assms mono by simp
  qed
  show "interruptable_k len * interruptable_l len = bucket_kl b" by (auto simp: k l bucket_kl_value)
  show "interruptable_k len \<le> 30" "0 < interruptable_k len" "0 < interruptable_l len" by (simp_all add: k l)
qed

text \<open>A state of the n-Wesolowski callback in which exponent \<open>e\<close> of bucket \<open>b\<close> can be
  read: \<open>e\<close> is one of the stored exponents \<open>S\<close>, and nothing 20 segments further has been
  written.  The squaring loop produces such states, and so do the storage workers.\<close>

definition fast_snapshot :: "int \<Rightarrow> form \<Rightarrow> nat \<Rightarrow> nat \<Rightarrow> fast_weso \<Rightarrow> bool" where
  "fast_snapshot D x b e w \<longleftrightarrow> fast_shape w \<and> b < fw_segments w \<and>
     (\<exists>S m. forms_in D x S m (fw_segments w) (fw_forms w) \<and> S e \<and> m < (e div power_2 b + 20) * power_2 b)"

lemma fast_snapshot_form:
  assumes w: "fast_snapshot D x b e w" and e: "on_grid b e"
  shows "\<exists>f. fast_get_form e b w = Some f \<and> pw D x (2 ^ e) f"
proof -
  have "pw D x (2 ^ e) (fw_forms w (slot b e))" using w e by (auto simp: fast_snapshot_def forms_in_def)
  moreover have "fast_shape w" "b < fw_segments w" using w by (simp_all add: fast_snapshot_def)
  ultimately show ?thesis using fast_position_slot by (auto simp: fast_get_form_def)
qed

lemma storage_snapshot:
  assumes "storage_inv D x m s" and "passed s e" and "b < fw_segments (fs_weso s)" and "m < (e div power_2 b + 20) * power_2 b"
  shows "fast_snapshot D x b e (fs_weso s)"
  using assms unfolding fast_snapshot_def storage_inv_def by blast

lemma interruptable_stored_powers:
  assumes D: "good_disc D" and x: "posdef D x" and T: "T = power_2 b" "done mod power_2 b = 0"
    and start: "pw D x (2 ^ done) y"
    and W: "\<forall>e. done \<le> e \<longrightarrow> e < done + T \<longrightarrow> fast_snapshot D x b e (W e)"
    and kl: "k * l = bucket_kl b"
  shows "stored_powers D y k l T (interruptable_form W done b k l)"
proof -
  have "pw D y (2 ^ (k * l * i)) (interruptable_form W done b k l i)" if i: "k * l * i < T" for i
  proof -
    let ?e = "done + i * k * l"
    have e: "?e = done + bucket_kl b * i" by (simp add: kl [symmetric] ac_simps)
    have i': "bucket_kl b * i < power_2 b" using i T kl by simp
    obtain q where "done = power_2 b * q" using T(2) by (auto simp: mod_eq_0_iff_dvd)
    then have "?e mod power_2 b = bucket_kl b * i" using i' unfolding e by simp
    then have g: "on_grid b ?e" by (simp add: on_grid_def)
    have "fast_snapshot D x b ?e (W ?e)" using W i' T(1) by (simp add: e)
    from fast_snapshot_form [OF this g]
    obtain f where f: "fast_get_form ?e b (W ?e) = Some f" "pw D x (2 ^ ?e) f" by (elim exE conjE)
    have "pw D y (2 ^ (k * l * i)) f"
      by (rule pw_shift [OF D x start]) (use f(2) in \<open>simp add: e kl\<close>)
    then show ?thesis by (simp add: interruptable_form_def Let_def f(1))
  qed
  then show ?thesis by (simp add: stored_powers_def)
qed

subsection \<open>A segment proved from stored forms is honest\<close>

lemma proved_segment:
  assumes D: "good_disc D" and G: "gcdext_ok G" and red: "reducer_sound red"
    and x: "posdef D (seg_x s)" and y: "pw D (seg_x s) (2 ^ seg_len s) (seg_y s)"
    and kl: "0 < k" "0 < l" "k \<le> 30" and fit: "indices_fit k l (seg_len s)" and st: "stored_powers D (seg_x s) k l (seg_len s) gf"
    and p: "GenerateProof G H P red go gf s D k l = ret p"
  shows "honest_segment H P D (s\<lparr>seg_proof := p\<rparr>)"
proof -
  have yp: "posdef D (seg_y s)" using y by (simp add: pw_def)
  obtain B x' y' where B: "get_B H P D (seg_x s) (seg_y s) = Some (B, x', y')"
    using p by (auto simp: GenerateProof_def ret_iff)
  have "holds False (\<lambda>p. posdef D p \<and> weakly_reduced p \<and> class_pow D (seg_x s) (nat (2 ^ unat (seg_length s) div B)) p)
      (GenerateProof G H P red go gf s D k l)"
    by (rule GenerateProof_correct [OF D G x yp red _ kl fit [unfolded seg_len_def] B st [unfolded seg_len_def]]) simp
  then have "posdef D p" "class_pow D (seg_x s) (nat (2 ^ seg_len s div B)) p" using p by (simp_all add: seg_len_def)
  then show ?thesis using x y yp B by (auto simp: honest_segment_def pw_def seg_len_def)
qed

end
