(* ===== verification/Timelord.thy ===== *)
theory Timelord
  imports Interruptible
begin

section \<open>The simple and the 2-Wesolowski prover of \<open>vdf.h\<close>\<close>

text \<open>
  \<open>ProveOneWesolowski\<close> and \<open>ProveTwoWeso\<close> run beside the squaring loop: they wait until it
  has passed the iterations they need, prove one segment, or three nested ones, and write the
  bytes of the proof.  The model starts where a wait ends; \<open>stop\<close> tells whether the flag is
  set there, the oracles \<open>go\<close> answer the calls of \<open>PerformExtraStep\<close>.  The theorems compose
  the squaring loop, the provers and the verifier: what comes out is accepted.
\<close>

subsection \<open>One segment\<close>

definition empty_proof :: wproof where
  "empty_proof = \<lparr>proof_y = [], proof_proof = [], proof_witness_type = 0\<rparr>"

text \<open>A prover that was stopped never sets \<open>is_finished\<close>: the wait for it does not end.\<close>

definition wait_finished :: "form res \<Rightarrow> form option" where
  "wait_finished r = (case r of Some (Inr p) \<Rightarrow> Some p | _ \<Rightarrow> None)"

definition ProveOneWesolowski ::
  "gcdext \<Rightarrow> (byte list \<Rightarrow> byte list) \<Rightarrow> (int \<Rightarrow> bool) \<Rightarrow> (form \<Rightarrow> form option) \<Rightarrow> (nat \<Rightarrow> nat \<times> nat) \<Rightarrow>
   (nat \<Rightarrow> bool) \<Rightarrow> bool \<Rightarrow> 64 word \<Rightarrow> int \<Rightarrow> form \<Rightarrow> one_weso \<Rightarrow> wproof option" where
  "ProveOneWesolowski G H P red approx go stopped iters D f weso =
     (if stopped then Some empty_proof
      else let sg = \<lparr>seg_start = 0, seg_length = iters, seg_x = f, seg_y = ow_result weso,
                     seg_proof = zero_form, seg_empty = False\<rparr> in
        Option.bind (wait_finished (OneWesolowskiProver G H P red approx go (ow_forms weso) sg D)) (\<lambda>proof_form.
        let d_bits = num_bits D in
        Option.bind (serialize_form (ow_result weso) d_bits) (\<lambda>(y_serialized, y').
        Option.bind (serialize_form proof_form d_bits) (\<lambda>(proof_serialized, p').
        Some \<lparr>proof_y = y_serialized, proof_proof = proof_serialized, proof_witness_type = 0\<rparr>))))"

lemma wait_finished_iff: "wait_finished r = Some p \<longleftrightarrow> r = ret p"
  by (auto simp: wait_finished_def ret_def split: option.splits sum.splits)

lemma prove_one_blob:
  assumes "ProveOneWesolowski G H P red approx go False iters D f weso = Some pr"
  shows "\<exists>p. OneWesolowskiProver G H P red approx go (ow_forms weso)
        \<lparr>seg_start = 0, seg_length = iters, seg_x = f, seg_y = ow_result weso, seg_proof = zero_form, seg_empty = False\<rparr> D
      = ret p \<and>
    proof_blob H P D (ow_result weso)
      [\<lparr>seg_start = 0, seg_length = iters, seg_x = f, seg_y = ow_result weso, seg_proof = p, seg_empty = False\<rparr>] = Some pr"
  using assms
  by (auto simp: ProveOneWesolowski_def Let_def Option.bind_eq_Some_conv wait_finished_iff proof_blob_def)

lemma prove_one_accepted:
  assumes red: "reducer_sound red" and D: "good_disc D" and G: "gcdext_ok G" "gcdext_small G"
    and ser: "serializable D" and x: "posdef D x" "serialize_form x (num_bits D) = Some (xs, x)"
    and ok: "one_ok D x n m weso" and w: "ow_wanted weso = unat iters" "unat iters \<le> n" "iters \<noteq> 0" "unat iters < 2 ^ 63"
    and ap: "weso_approx_ok approx" and kl: "ow_kl weso = (let (k, l) = weso_parameters approx (unat iters) in (k * l) mod 2 ^ 32)"
    and r: "ProveOneWesolowski G H P red approx go False iters D x weso = Some pr"
  shows "CheckProofOfTimeNWesolowski G H P reduce D xs (proof_y pr @ proof_proof pr)
      (int (length (proof_y pr @ proof_proof pr))) (unat iters) (int (proof_witness_type pr)) = ret True"
    and "CheckProofOfTimeNWesolowski G H P pulmark_reduce D xs (proof_y pr @ proof_proof pr)
      (int (length (proof_y pr @ proof_proof pr))) (unat iters) (int (proof_witness_type pr)) \<in> {None, ret True}"
proof -
  let ?s = "\<lambda>p. \<lparr>seg_start = 0, seg_length = iters, seg_x = x, seg_y = ow_result weso, seg_proof = p, seg_empty = False\<rparr>"
  obtain p where p: "OneWesolowskiProver G H P red approx go (ow_forms weso) (?s zero_form) D = ret p"
    and blob: "proof_blob H P D (ow_result weso) [?s p] = Some pr"
    using prove_one_blob [OF r] by blast
  have i: "0 < unat iters" using w(3) by (simp add: unat_gt_0)
  have y: "pw D x (2 ^ unat iters) (ow_result weso)" using ok w i by (simp add: one_ok_def)
  obtain k l where k: "weso_parameters approx (unat iters) = (k, l)" by fastforce
  note par = weso_parameters_ok [OF ap k]
  have st: "stored_powers D x k l (unat iters) (ow_forms weso)"
    by (rule one_stored_powers [OF ok _ w(2)]) (use par kl k w(1) in simp_all)
  have gp: "GenerateProof G H P red go (ow_forms weso) (?s zero_form) D k l = ret p"
    using p by (simp add: OneWesolowskiProver_def k)
  have fit: "indices_fit k l (unat iters)"
    by (rule indices_fitI) (use weso_parameters_ok [OF ap k] w(4) in auto)
  have "honest_segment H P D ((?s zero_form)\<lparr>seg_proof := p\<rparr>)"
    by (rule proved_segment [OF D G(1) red _ _ _ _ _ _ _ gp]) (use x y par st fit in \<open>simp_all add: seg_len_def\<close>)
  then have h: "honest_chain H P D x [?s p] (ow_result weso)" by (simp add: same_class_refl)
  have wt: "int (length [?s p]) - 1 = int (proof_witness_type pr)"
    using blob by (auto simp: proof_blob_def Let_def Option.bind_eq_Some_conv)
  have e: "posdef D (ow_result weso)" "total_len [?s p] = unat iters" "length [?s p] \<le> 2 ^ 23"
    using y by (simp_all add: pw_def total_len_def seg_len_def)
  note acc = honest_blob_accepted [OF D G ser x h e(1,2) blob e(3), unfolded wt]
  show "CheckProofOfTimeNWesolowski G H P reduce D xs (proof_y pr @ proof_proof pr)
      (int (length (proof_y pr @ proof_proof pr))) (unat iters) (int (proof_witness_type pr)) = ret True"
    by (rule acc(1))
  show "CheckProofOfTimeNWesolowski G H P pulmark_reduce D xs (proof_y pr @ proof_proof pr)
      (int (length (proof_y pr @ proof_proof pr))) (unat iters) (int (proof_witness_type pr)) \<in> {None, ret True}"
    by (rule acc(2))
qed

subsection \<open>Three nested segments\<close>

definition two_segment :: "nat \<Rightarrow> nat \<Rightarrow> form \<Rightarrow> form \<Rightarrow> segment" where
  "two_segment done iters x y =
     \<lparr>seg_start = of_nat done, seg_length = of_nat iters, seg_x = x, seg_y = y, seg_proof = zero_form, seg_empty = False\<rparr>"

text \<open>The last segment, at depth 2.  Its end is recomputed from the last stored form, without a
  listener.\<close>

definition ProveTwoWeso_last ::
  "gcdext \<Rightarrow> (byte list \<Rightarrow> byte list) \<Rightarrow> (int \<Rightarrow> bool) \<Rightarrow> (form \<Rightarrow> form option) \<Rightarrow>
   (nat \<Rightarrow> bool) \<Rightarrow> (nat \<Rightarrow> bool) \<Rightarrow> int \<Rightarrow> form \<Rightarrow> nat \<Rightarrow> nat \<Rightarrow> (nat \<Rightarrow> two_weso) \<Rightarrow> wproof option" where
  "ProveTwoWeso_last G H P red stop go D x iters done W =
     (if stop 0 then Some empty_proof
      else let checkpoint = (done + iters) - (done + iters) mod 100 in
        Option.bind (two_get_form checkpoint (W checkpoint)) (\<lambda>y.
        Option.bind (repeated_square_original G (\<lambda>_ _. Some) y 0 ((done + iters) mod 100) ()) (\<lambda>(y, _).
        if stop 1 then Some empty_proof
        else Option.bind (wait_finished (TwoWesolowskiProver G H P red go W (two_segment done iters x y) D)) (\<lambda>proof.
          let d_bits = num_bits D in
          Option.bind (serialize_form y d_bits) (\<lambda>(y_bytes, y').
          Option.bind (serialize_form proof d_bits) (\<lambda>(proof_bytes, p').
          Some \<lparr>proof_y = y_bytes, proof_proof = proof_bytes, proof_witness_type = 0\<rparr>))))))"

text \<open>The recursion counts \<open>2 - depth\<close>; \<open>stop\<close> and \<open>go\<close> are indexed by it.\<close>

primrec ProveTwoWeso ::
  "gcdext \<Rightarrow> (byte list \<Rightarrow> byte list) \<Rightarrow> (int \<Rightarrow> bool) \<Rightarrow> (form \<Rightarrow> form option) \<Rightarrow>
   (nat \<Rightarrow> nat \<Rightarrow> bool) \<Rightarrow> (nat \<Rightarrow> nat \<Rightarrow> bool) \<Rightarrow> int \<Rightarrow> nat \<Rightarrow> form \<Rightarrow> nat \<Rightarrow> nat \<Rightarrow> (nat \<Rightarrow> two_weso) \<Rightarrow>
   wproof option" where
  "ProveTwoWeso G H P red stop go D 0 x iters done W = ProveTwoWeso_last G H P red (stop 0) (go 0) D x iters done W"
| "ProveTwoWeso G H P red stop go D (Suc d) x iters done W =
     (let iterations1 = (iters * 2 mod 2 ^ 64) div 3;
          iterations1 = iterations1 - iterations1 mod 100;
          iterations2 = iters - iterations1 in
      if stop (Suc d) 0 then Some empty_proof
      else Option.bind (two_get_form (done + iterations1) (W (done + iterations1))) (\<lambda>y1.
        let sg = two_segment done iterations1 x y1 in
        Option.bind (ProveTwoWeso G H P red stop go D d y1 iterations2 (done + iterations1) W) (\<lambda>proof2.
        if stop (Suc d) 1 then Some empty_proof
        else Option.bind (wait_finished (TwoWesolowskiProver G H P red (go (Suc d)) W sg D)) (\<lambda>proof.
          let d_bits = num_bits D in
          Option.bind (get_B H P D x y1) (\<lambda>(B, x', y1').
          Option.bind (serialize_form proof d_bits) (\<lambda>(p, p').
          Some \<lparr>proof_y = proof_y proof2,
             proof_proof = proof_proof proof2 @ Int64ToBytes (of_nat iterations1) @ to_bytes B @ p,
             proof_witness_type = (if d = 1 then 2 else 0)\<rparr>))))))"

subsection \<open>The end of the last segment\<close>

interpretation silent: listener "\<lambda>_ _ _. Some" "\<lambda>_ _ _ _ _. True" "\<lambda>_ :: unit. ()" "\<lambda>_ _. True" True
  by unfold_locales auto

lemma silent_base:
  "repeated_square_original G (\<lambda>_ _. Some) f base n () = repeated_square_original G (\<lambda>_ _. Some) f 0 n ()"
proof -
  have "original_step G (\<lambda>_ _. Some) base = original_step G (\<lambda>_ _. Some :: unit \<Rightarrow> unit option) 0"
    by (simp add: original_step_def fun_eq_iff)
  then show ?thesis by (simp add: repeated_square_original_def)
qed

lemma silent_squares:
  assumes D: "prime_disc D" and G: "gcdext_ok G" and x: "posdef D x" and f: "pw D x (2 ^ c) f" "fa f < - D"
  shows "\<exists>g. repeated_square_original G (\<lambda>_ _. Some) f 0 k () = Some (g, ()) \<and> pw D x (2 ^ (c + k)) g"
proof -
  have "silent.fed D x c c () (f, ())" using f by (simp add: silent.fed_def)
  from silent.original_fed [OF D G x this, of k]
  have "holds True (silent.fed D x (c + k) (c + k) ()) (lift_opt (repeated_square_original G (\<lambda>_ _. Some) f c k ()))" by simp
  from holds_total [OF this] show ?thesis by (auto simp: silent_base [of G f c] silent.fed_def lift_opt_ret_iff)
qed

subsection \<open>The three segments form an honest chain\<close>

lemma two_segment_simps [simp]:
  "done < 2 ^ 64 \<Longrightarrow> unat (seg_start (two_segment done iters x y)) = done"
  "iters < 2 ^ 64 \<Longrightarrow> unat (seg_length (two_segment done iters x y)) = iters"
  "seg_x (two_segment done iters x y) = x" "seg_y (two_segment done iters x y) = y"
  by (simp_all add: two_segment_def unat_of_nat take_bit_nat_eq_self)

lemma two_segment_honest:
  assumes D: "good_disc D" and G: "gcdext_ok G" and red: "reducer_sound red" and x0: "posdef D x0"
    and x: "pw D x0 (2 ^ done) x" and y: "pw D x0 (2 ^ (done + iters)) y" and N: "done + iters < 2 ^ 63"
    and W: "\<forall>e\<le>done + iters. two_snapshot D x0 e (W e)" and al: "done mod 100 = 0"
    and sw: "done + iters \<le> kSwitchIters \<or> 10000000 \<le> iters"
    and p: "TwoWesolowskiProver G H P red go W (two_segment done iters x y) D = ret p"
  shows "honest_segment H P D ((two_segment done iters x y)\<lparr>seg_proof := p\<rparr>)"
proof -
  let ?l = "two_weso_l iters"
  have n: "done < 2 ^ 64" "iters < 2 ^ 64" using N by simp_all
  have fit: "indices_fit 10 ?l iters" by (rule indices_fitI) (use N in \<open>simp_all add: two_weso_l_def\<close>)
  have l: "0 < ?l" "?l = 1 \<longrightarrow> done + iters \<le> kSwitchIters" using sw by (auto simp: two_weso_l_def)
  have st: "stored_powers D x 10 ?l iters (two_prover_form W done 10 ?l)"
    by (rule two_stored_powers [OF D x0 x _ al refl l(2)]) (use W in simp)
  have gp: "GenerateProof G H P red go (two_prover_form W done 10 ?l) (two_segment done iters x y) D 10 ?l = ret p"
    using p n by (simp add: TwoWesolowskiProver_def Let_def)
  show ?thesis
    by (rule proved_segment [OF D G red _ _ _ l(1) _ _ _ gp])
      (use x pw_shift [OF D x0 x y] st n fit in \<open>simp_all add: pw_def seg_len_def\<close>)
qed

lemma iterations_split:
  fixes iters :: nat
  assumes "iters < 2 ^ 63"
  defines "i1 \<equiv> (iters * 2 mod 2 ^ 64) div 3 - (iters * 2 mod 2 ^ 64) div 3 mod 100"
  shows "i1 mod 100 = 0" and "i1 \<le> iters" and "10000000 * 3 ^ Suc d \<le> iters \<Longrightarrow> 10000000 \<le> i1 \<and> 10000000 * 3 ^ d \<le> iters - i1"
proof -
  have m: "iters * 2 mod 2 ^ 64 = iters * 2" using assms(1) by simp
  define q where "q = iters * 2 div 3"
  have i1: "i1 = q - q mod 100" by (simp only: i1_def m q_def)
  then show "i1 mod 100 = 0" by (metis minus_mod_eq_mult_div mod_mult_self1_is_0)
  have q: "3 * q \<le> 2 * iters" "2 * iters < 3 * q + 3" unfolding q_def by linarith+
  have r: "q mod 100 < 100" by simp
  show "i1 \<le> iters" using i1 q by linarith
  show "10000000 \<le> i1 \<and> 10000000 * 3 ^ d \<le> iters - i1" if "10000000 * 3 ^ Suc d \<le> iters"
  proof -
    have t: "3 * (10000000 * 3 ^ d) \<le> iters" using that by simp
    have "(1 :: nat) \<le> 3 ^ d" by simp
    then have "(10000000 :: nat) \<le> 10000000 * 3 ^ d" by simp
    then have "30000000 \<le> iters" using t by linarith
    then show ?thesis using t i1 q r by linarith
  qed
qed

lemma proof_blob_Cons:
  assumes b: "proof_blob H P D y segs = Some b" and s: "segment_bytes H P D (num_bits D) s = Some sb"
  shows "\<exists>b'. proof_blob H P D y (s # segs) = Some b' \<and> proof_y b' = proof_y b \<and> proof_proof b' = proof_proof b @ sb"
proof -
  have ne: "segs \<noteq> []" using b by (auto simp: proof_blob_def Let_def Option.bind_eq_Some_conv split: if_splits)
  then show ?thesis using b s
    by (auto simp: proof_blob_def Let_def Option.bind_eq_Some_conv segments_bytes_append)
qed

lemma hundred_10: "(10 :: nat) dvd 100"
  by (rule dvdI [of _ _ 10]) simp

lemma prove_last_parts:
  assumes "ProveTwoWeso_last G H P red stop go D x iters done W = Some pr" and "\<not> stop 0" and "\<not> stop 1"
  defines "c \<equiv> (done + iters) - (done + iters) mod 100"
  shows "\<exists>y0 y p. two_get_form c (W c) = Some y0 \<and>
      repeated_square_original G (\<lambda>_ _. Some) y0 0 ((done + iters) mod 100) () = Some (y, ()) \<and>
      TwoWesolowskiProver G H P red go W (two_segment done iters x y) D = ret p \<and>
      proof_blob H P D y [(two_segment done iters x y)\<lparr>seg_proof := p\<rparr>] = Some pr"
  using assms(1-3) unfolding ProveTwoWeso_last_def Let_def c_def [symmetric]
  by (auto simp: Option.bind_eq_Some_conv wait_finished_iff proof_blob_def Let_def)

lemma prove_step_parts:
  assumes "ProveTwoWeso G H P red stop go D (Suc d) x iters done W = Some pr"
    and "\<not> stop (Suc d) 0" and "\<not> stop (Suc d) 1"
  defines "i1 \<equiv> (iters * 2 mod 2 ^ 64) div 3 - (iters * 2 mod 2 ^ 64) div 3 mod 100"
  shows "\<exists>y1 pr2 p B x' y1' pb p'. two_get_form (done + i1) (W (done + i1)) = Some y1 \<and>
      ProveTwoWeso G H P red stop go D d y1 (iters - i1) (done + i1) W = Some pr2 \<and>
      TwoWesolowskiProver G H P red (go (Suc d)) W (two_segment done i1 x y1) D = ret p \<and>
      get_B H P D x y1 = Some (B, x', y1') \<and> serialize_form p (num_bits D) = Some (pb, p') \<and>
      proof_y pr = proof_y pr2 \<and> proof_proof pr = proof_proof pr2 @ Int64ToBytes (of_nat i1) @ to_bytes B @ pb \<and>
      proof_witness_type pr = (if d = 1 then 2 else 0)"
  using assms(1-3) unfolding ProveTwoWeso.simps(2) Let_def i1_def [symmetric]
  by (auto simp: Option.bind_eq_Some_conv wait_finished_iff simp del: ProveTwoWeso.simps)

lemma two_weso_chain:
  assumes D: "prime_disc D" and G: "gcdext_ok G" and red: "reducer_sound red" and x0: "posdef D x0"
    and ns: "\<forall>d i. \<not> stop d i" and W: "\<forall>e\<le>N. two_snapshot D x0 e (W e)" and N: "N < 2 ^ 63"
  shows "ProveTwoWeso G H P red stop go D d x iters done W = Some pr \<Longrightarrow> pw D x0 (2 ^ done) x \<Longrightarrow> done mod 100 = 0 \<Longrightarrow>
    done + iters = N \<Longrightarrow> N \<le> kSwitchIters \<or> 10000000 * 3 ^ d \<le> iters \<Longrightarrow>
    \<exists>segs y b. proof_blob H P D y segs = Some b \<and> proof_y b = proof_y pr \<and> proof_proof b = proof_proof pr \<and>
      honest_chain H P D x segs y \<and> posdef D y \<and> total_len segs = iters \<and> length segs = Suc d"
proof (induction d arbitrary: x iters "done" pr)
  case 0
  note good = prime_disc_good [OF D]
  let ?c = "N - N mod 100"
  have N': "done + iters = N" using 0(4) .
  have "ProveTwoWeso_last G H P red (stop 0) (go 0) D x iters done W = Some pr" using 0(1) by simp
  from prove_last_parts [OF this] ns obtain y0 y p where y0: "two_get_form ?c (W ?c) = Some y0"
    and y: "repeated_square_original G (\<lambda>_ _. Some) y0 0 (N mod 100) () = Some (y, ())"
    and p: "TwoWesolowskiProver G H P red (go 0) W (two_segment done iters x y) D = ret p"
    and pr: "proof_blob H P D y [(two_segment done iters x y)\<lparr>seg_proof := p\<rparr>] = Some pr"
    unfolding N' by blast
  have c: "?c mod 100 = 0" by (metis minus_mod_eq_mult_div mod_mult_self1_is_0)
  then have c10: "?c mod 10 = 0" by (metis dvd_trans mod_0_imp_dvd dvd_imp_mod_0 hundred_10)
  have "two_snapshot D x0 ?c (W ?c)" using W by simp
  from two_snapshot_form [OF this c10 disjI2 [OF c]] y0 have f: "pw D x0 (2 ^ ?c) y0" "fa y0 < - D" by simp_all
  have yp: "pw D x0 (2 ^ N) y" using silent_squares [OF D G x0 f, of "N mod 100"] y by simp
  have h: "honest_segment H P D ((two_segment done iters x y)\<lparr>seg_proof := p\<rparr>)"
    by (rule two_segment_honest [OF good G red x0 0(2) _ _ _ 0(3) _ p]) (use 0 W N yp in auto)
  show ?case
    by (rule exI [of _ "[(two_segment done iters x y)\<lparr>seg_proof := p\<rparr>]"], rule exI [of _ y],
        rule exI [of _ pr])
      (use pr h yp 0 N in \<open>simp add: same_class_refl pw_def total_len_def seg_len_def\<close>)
next
  case (Suc d)
  note good = prime_disc_good [OF D]
  define i1 where "i1 = (iters * 2 mod 2 ^ 64) div 3 - (iters * 2 mod 2 ^ 64) div 3 mod 100"
  have it: "iters < 2 ^ 63" using Suc.prems N by simp
  note i = iterations_split [OF it, folded i1_def]
  from prove_step_parts [OF Suc.prems(1), folded i1_def] ns
  obtain y1 pr2 p B x' y1' pb p' where y1: "two_get_form (done + i1) (W (done + i1)) = Some y1"
    and rec: "ProveTwoWeso G H P red stop go D d y1 (iters - i1) (done + i1) W = Some pr2"
    and p: "TwoWesolowskiProver G H P red (go (Suc d)) W (two_segment done i1 x y1) D = ret p"
    and B: "get_B H P D x y1 = Some (B, x', y1')" and pb: "serialize_form p (num_bits D) = Some (pb, p')"
    and pr: "proof_y pr = proof_y pr2" "proof_proof pr = proof_proof pr2 @ Int64ToBytes (of_nat i1) @ to_bytes B @ pb"
    by (elim exE conjE meta_impE) blast+
  have al: "(done + i1) mod 100 = 0" using Suc.prems(3) i(1) by (simp add: mod_add_eq [symmetric])
  then have al10: "(done + i1) mod 10 = 0" by (metis dvd_trans mod_0_imp_dvd dvd_imp_mod_0 hundred_10)
  have "two_snapshot D x0 (done + i1) (W (done + i1))" using W i(2) Suc.prems(4) by simp
  from two_snapshot_form [OF this al10 disjI2 [OF al]] y1 have y1p: "pw D x0 (2 ^ (done + i1)) y1" by simp
  let ?s = "(two_segment done i1 x y1)\<lparr>seg_proof := p\<rparr>"
  have h: "honest_segment H P D ?s"
    by (rule two_segment_honest [OF good G red x0 Suc.prems(2) y1p _ _ Suc.prems(3) _ p]) (use Suc.prems i W N in auto)
  obtain segs y b where b: "proof_blob H P D y segs = Some b" "proof_y b = proof_y pr2" "proof_proof b = proof_proof pr2"
    and ch: "honest_chain H P D y1 segs y" "posdef D y" "total_len segs = iters - i1" "length segs = Suc d"
    using Suc.IH [OF rec y1p al] Suc.prems i by auto
  have sb: "segment_bytes H P D (num_bits D) ?s = Some (Int64ToBytes (of_nat i1) @ to_bytes B @ pb)"
    using B pb by (simp add: segment_bytes_def two_segment_def)
  obtain b' where b': "proof_blob H P D y (?s # segs) = Some b'" "proof_y b' = proof_y pr" "proof_proof b' = proof_proof pr"
    using proof_blob_Cons [OF b(1) sb] b(2,3) pr by auto
  have "honest_chain H P D x (?s # segs) y" using h ch(1) by (simp add: same_class_refl)
  moreover have "total_len (?s # segs) = iters" using ch(3) i(2) it by (simp add: total_len_def seg_len_def)
  ultimately show ?case using b' ch by (intro exI [of _ "?s # segs"] exI [of _ y] exI [of _ b']) simp
qed

lemma two_weso_accepted:
  assumes D: "prime_disc D" and G: "gcdext_ok G" "gcdext_small G" and ser: "serializable D"
    and red: "reducer_sound red" and x: "posdef D x" "serialize_form x (num_bits D) = Some (xs, x)"
    and ns: "\<forall>d i. \<not> stop d i" and W: "\<forall>e\<le>N. two_snapshot D x e (W e)" and N: "N < 2 ^ 63"
    and r: "ProveTwoWeso G H P red stop go D 2 x N 0 W = Some pr"
  shows "CheckProofOfTimeNWesolowski G H P reduce D xs (proof_y pr @ proof_proof pr)
      (int (length (proof_y pr @ proof_proof pr))) N (int (proof_witness_type pr)) = ret True"
    and "CheckProofOfTimeNWesolowski G H P pulmark_reduce D xs (proof_y pr @ proof_proof pr)
      (int (length (proof_y pr @ proof_proof pr))) N (int (proof_witness_type pr)) \<in> {None, ret True}"
proof -
  have p: "pw D x (2 ^ 0) x" using class_pow_1 [OF prime_disc_good [OF D] x(1)] x(1) by (simp add: pw_def)
  have big: "N \<le> kSwitchIters \<or> 10000000 * 3 ^ 2 \<le> N"
    by (cases "N \<le> 91000000") (simp_all add: kSwitchIters_def)
  from two_weso_chain [OF D G(1) red x(1) ns W N r p mod_0 add_0 big]
  obtain segs y b where b: "proof_blob H P D y segs = Some b" "proof_y b = proof_y pr" "proof_proof b = proof_proof pr"
    and ch: "honest_chain H P D x segs y" "posdef D y" "total_len segs = N" "length segs = Suc 2"
    by (elim exE conjE)
  have r1: "ProveTwoWeso G H P red stop go D (Suc 1) x N 0 W = Some pr" using r unfolding Suc_1 .
  have s1: "\<not> stop (Suc 1) 0" "\<not> stop (Suc 1) 1" using ns by blast+
  from prove_step_parts [OF r1 s1] have "proof_witness_type pr = (if (1 :: nat) = 1 then 2 else 0)" by (elim exE conjE)
  then have wt: "int (length segs) - 1 = int (proof_witness_type pr)" using ch(4) by simp
  have le: "length segs \<le> 2 ^ 23" using ch(4) by simp
  note acc = honest_blob_accepted [OF prime_disc_good [OF D] G ser x ch(1-3) b(1) le, unfolded wt b(2,3)]
  show "CheckProofOfTimeNWesolowski G H P reduce D xs (proof_y pr @ proof_proof pr)
      (int (length (proof_y pr @ proof_proof pr))) N (int (proof_witness_type pr)) = ret True"
    by (rule acc(1))
  show "CheckProofOfTimeNWesolowski G H P pulmark_reduce D xs (proof_y pr @ proof_proof pr)
      (int (length (proof_y pr @ proof_proof pr))) N (int (proof_witness_type pr)) \<in> {None, ret True}"
    by (rule acc(2))
qed

subsection \<open>The states of the squaring loop serve the provers\<close>

lemma loop_two_snapshot:
  assumes "loop_inv D x w0 st s" and "rs_weso s = Two u" and "e \<le> rs_iterations s"
  shows "two_snapshot D x e u"
  using assms by (auto simp: loop_inv_def loop_core_def weso_ok_def two_snapshot_def two_bounds_def)

lemma loop_one_ok:
  assumes inv: "loop_inv D x (One a) st s" and c: "OneWesolowskiCallback approx x wanted = Some a"
  shows "\<exists>u. rs_weso s = One u \<and> one_ok D x (rs_iterations s) (rs_iterations s) u \<and> ow_wanted u = wanted \<and>
    ow_kl u = (let (k, l) = weso_parameters approx wanted in (k * l) mod 2 ^ 32)"
proof -
  obtain u where u: "rs_weso s = One u" "one_frame u = one_frame a"
    using inv by (auto simp: loop_inv_def loop_core_def weso_kind_def)
  moreover have "ow_wanted a = wanted" "ow_kl a = (let (k, l) = weso_parameters approx wanted in (k * l) mod 2 ^ 32)"
    using c by (auto simp: OneWesolowskiCallback_def Let_def split: prod.splits if_splits)
  ultimately show ?thesis using inv by (auto simp: loop_inv_def loop_core_def weso_ok_def one_frame_def)
qed

lemma loop_fast_snapshot:
  assumes "loop_inv D x w0 st s" and "rs_weso s = Fast u" and "\<not> fw_multi u" and "b < fw_segments u"
    and "e \<le> rs_iterations s" and "rs_iterations s < (e div power_2 b + 20) * power_2 b"
  shows "fast_snapshot D x b e u"
proof -
  let ?n = "rs_iterations s"
  have ok: "fast_ok D x ?n ?n u" using assms(1,2) by (simp add: loop_inv_def loop_core_def weso_ok_def)
  then have "forms_in D x (\<lambda>e. e \<le> ?n) ?n (fw_segments u) (fw_forms u)"
    using assms(3) by (simp add: fast_ok_def forms_ok_def forms_in_def)
  then show ?thesis using ok assms(4-6) unfolding fast_snapshot_def fast_ok_def by blast
qed

end
