(* ===== verification/Manager.thy ===== *)
theory Manager
  imports Timelord ProverThread
begin

section \<open>The prover manager of \<open>vdf.h\<close>\<close>

text \<open>
  \<open>ProverManager\<close> proves the run in segments of the sizes \<open>2^16, 2^18, ...\<close>.  An event loop
  stores finished segments, computes how far they reach, queues the segments the squaring loop
  has passed, and gives the best candidates the proving threads; \<open>Prove\<close> glues finished
  segments and one recomputed rest into an n-Wesolowski proof.  The state is a record; the
  provers appear in it with the flags of their threads.  The steps of the event loop are
  functions in the order of its body.  Condition variables only decide when a step runs, and
  do not appear.  Iterations are natural numbers; \<open>None\<close> is undefined behaviour.
\<close>

subsection \<open>The state\<close>

definition empty_segment :: segment where
  "empty_segment = \<lparr>seg_start = 0, seg_length = 0, seg_x = zero_form, seg_y = zero_form, seg_proof = zero_form,
     seg_empty = True\<rparr>"

record manager =
  mg_max_threads :: nat
  mg_provers :: "(thread_state \<times> segment) list"
  mg_pending :: "segment list list"
  mg_last_appended :: "nat list"
  mg_done :: "segment list list"
  mg_pending_iters :: "nat list"
  mg_pending_last :: "nat list"
  mg_max_proving :: nat
  mg_vdf_iteration :: nat
  mg_increased :: bool

definition ProverManager :: "nat \<Rightarrow> nat \<Rightarrow> manager" where
  "ProverManager segment_count max_proving_threads =
     \<lparr>mg_max_threads = max_proving_threads, mg_provers = [], mg_pending = replicate segment_count [],
      mg_last_appended = replicate segment_count 0, mg_done = replicate segment_count [], mg_pending_iters = [],
      mg_pending_last = [], mg_max_proving = 0, mg_vdf_iteration = 0, mg_increased = False\<rparr>"

definition segment_size :: "nat \<Rightarrow> nat" where
  "segment_size i = 2 ^ (16 + 2 * i)"

lemma segment_size_pos [simp]: "0 < segment_size i"
  by (simp add: segment_size_def)

text \<open>A \<open>std::set\<close> of iterations, smallest first.\<close>

definition set_insert :: "nat \<Rightarrow> nat list \<Rightarrow> nat list" where
  "set_insert n ns = (if n \<in> set ns then ns else insort n ns)"

definition floor_16 :: "nat \<Rightarrow> nat" where
  "floor_16 n = n - n mod 2 ^ 16"

subsection \<open>Finished provers\<close>

text \<open>\<open>GetProof\<close> of a prover that never stored one yields the default form.\<close>

definition GetProof :: "thread_state \<Rightarrow> form" where
  "GetProof t = (case thread_proof t of Some p \<Rightarrow> p | None \<Rightarrow> zero_form)"

definition store_done :: "nat \<Rightarrow> segment \<Rightarrow> segment list \<Rightarrow> segment list" where
  "store_done position s ds = (ds @ replicate (Suc position - length ds) empty_segment)[position := s]"

definition finish_segment :: "segment \<Rightarrow> segment list list \<Rightarrow> segment list list option" where
  "finish_segment s done =
     (let (index, s) = GetSegmentBucket s; position = unat (seg_start s) div unat (seg_length s) in
      if seg_length s = 0 \<or> index \<ge> length done \<or> past_int position then None
      else Some (done[index := store_done position s (done ! index)]))"

primrec collect_finished ::
  "(thread_state \<times> segment) list \<Rightarrow> segment list list \<Rightarrow> bool \<Rightarrow>
   ((thread_state \<times> segment) list \<times> segment list list \<times> bool) option" where
  "collect_finished [] done small = Some ([], done, small)"
| "collect_finished (p # ps) done small =
     (let (t, s) = p in
      if is_finished t
      then let s = s\<lparr>seg_proof := GetProof t\<rparr>; small = small \<or> seg_length s = 2 ^ 16 in
        Option.bind (finish_segment s done) (\<lambda>done.
        map_option (\<lambda>(ps, done, small). (if is_fully_finished t then ps else (t, s) # ps, done, small))
          (collect_finished ps done small))
      else map_option (\<lambda>(ps, done, small). ((t, s) # ps, done, small)) (collect_finished ps done small))"

subsection \<open>How far the finished segments reach\<close>

fun walk_done :: "nat \<Rightarrow> segment list \<Rightarrow> nat \<times> nat \<Rightarrow> nat \<times> nat" where
  "walk_done sz [] r = r"
| "walk_done sz (s # ss) (reached, blobs) =
     (if seg_empty s then (reached, blobs)
      else if Suc blobs = 63 then (reached + sz, Suc blobs)
      else walk_done sz ss (reached + sz, Suc blobs))"

definition reach_bucket :: "segment list list \<Rightarrow> nat \<Rightarrow> nat \<times> nat \<Rightarrow> nat \<times> nat" where
  "reach_bucket done i = (\<lambda>(reached, blobs).
     let sz = segment_size i in
     if blobs \<ge> 63 \<or> reached mod sz \<noteq> 0 then (reached, blobs)
     else walk_done sz (drop (reached div sz) (done ! i)) (reached, blobs))"

definition max_proving :: "segment list list \<Rightarrow> nat" where
  "max_proving done = fst (fold (reach_bucket done) (rev [0..<length done]) (0, 0))"

definition advance :: "bool \<Rightarrow> manager \<Rightarrow> manager" where
  "advance small m =
     (let ds = mg_done m ! 0;
          expected_proving_iters = (if ds = [] then 0 else unat (seg_start (last ds)) + unat (seg_length (last ds)))
      in case mg_pending_iters m of
           best_pending_iter # _ \<Rightarrow>
             if small \<and> expected_proving_iters \<ge> floor_16 best_pending_iter
             then m\<lparr>mg_max_proving := max_proving (mg_done m)\<rparr> else m
         | [] \<Rightarrow> m)"

subsection \<open>Segments the squaring loop has passed\<close>

text \<open>The array of checkpoints has \<open>checkpoint_space\<close> cells; nothing in the event loop or in
  \<open>Prove\<close> checks an index.\<close>

definition checkpoint :: "(nat \<Rightarrow> form) \<Rightarrow> nat \<Rightarrow> form option" where
  "checkpoint checkpoints index = (if index < checkpoint_space then Some (checkpoints index) else None)"

definition new_segment :: "(nat \<Rightarrow> form) \<Rightarrow> nat \<Rightarrow> nat \<Rightarrow> segment option" where
  "new_segment checkpoints start len =
     Option.bind (checkpoint checkpoints (start div 2 ^ 16)) (\<lambda>x.
     Option.bind (checkpoint checkpoints ((start + len) div 2 ^ 16)) (\<lambda>y.
     Some \<lparr>seg_start = of_nat start, seg_length = of_nat len, seg_x = x, seg_y = y, seg_proof = zero_form,
       seg_empty = False\<rparr>))"

text \<open>The inner loop for one size: it appends while a whole segment lies below \<open>iter\<close>.\<close>

function append_segments :: "(nat \<Rightarrow> form) \<Rightarrow> nat \<Rightarrow> nat \<Rightarrow> nat \<Rightarrow> segment list \<Rightarrow> (segment list \<times> nat) option" where
  "append_segments checkpoints i iter start pending =
     (if start + segment_size i \<le> iter
      then case new_segment checkpoints start (segment_size i) of
          None \<Rightarrow> None
        | Some s \<Rightarrow> append_segments checkpoints i iter (start + segment_size i) (pending @ [s])
      else Some (pending, start))"
  by pat_completeness auto
termination
proof (relation "measure (\<lambda>(checkpoints, i, iter, start, pending). iter - start)")
  fix i iter start :: nat and checkpoints :: "nat \<Rightarrow> form" and pending :: "segment list" and s :: segment
  assume "start + segment_size i \<le> iter"
  then have "start < iter" using segment_size_pos [of i] by linarith
  then show "((checkpoints, i, iter, start + segment_size i, pending @ [s]),
      (checkpoints, i, iter, start, pending)) \<in> measure (\<lambda>(checkpoints, i, iter, start, pending). iter - start)"
    by (simp add: diff_less_mono2)
qed simp

declare append_segments.simps [simp del]

definition arrive_bucket :: "(nat \<Rightarrow> form) \<Rightarrow> nat \<Rightarrow> nat \<Rightarrow> manager \<Rightarrow> manager option" where
  "arrive_bucket checkpoints iter i m =
     map_option (\<lambda>(pending, start).
         m\<lparr>mg_pending := (mg_pending m)[i := pending], mg_last_appended := (mg_last_appended m)[i := start]\<rparr>)
       (append_segments checkpoints i iter (mg_last_appended m ! i) (mg_pending m ! i))"

definition arrivals :: "(nat \<Rightarrow> form) \<Rightarrow> nat \<Rightarrow> manager \<Rightarrow> manager option" where
  "arrivals checkpoints iter m = fold_opt (arrive_bucket checkpoints iter) [0..<length (mg_done m)] m"

subsection \<open>Giving the threads to the best segments\<close>

datatype candidate = Paused nat | Pending nat

definition pick_prover :: "(thread_state \<times> segment) list \<Rightarrow> nat \<Rightarrow> segment \<times> candidate option \<Rightarrow> segment \<times> candidate option" where
  "pick_prover ps i = (\<lambda>(best, c).
     if \<not> IsRunning (fst (ps ! i)) \<and> IsWorseThan best (snd (ps ! i)) then (snd (ps ! i), Some (Paused i)) else (best, c))"

definition pick_pending :: "segment list list \<Rightarrow> nat \<Rightarrow> segment \<times> candidate option \<Rightarrow> segment \<times> candidate option" where
  "pick_pending pending i = (\<lambda>(best, c).
     case pending ! i of
       [] \<Rightarrow> (best, c)
     | s # _ \<Rightarrow> if IsWorseThan best s then (s, Some (Pending i)) else (best, c))"

definition best_candidate :: "manager \<Rightarrow> segment \<times> candidate option" where
  "best_candidate m =
     fold (pick_pending (mg_pending m)) [0..<length (mg_pending m)]
       (fold (pick_prover (mg_provers m)) [0..<length (mg_provers m)] (empty_segment, None))"

definition pick_worst :: "(thread_state \<times> segment) list \<Rightarrow> nat \<Rightarrow> segment \<times> nat option \<Rightarrow> segment \<times> nat option" where
  "pick_worst ps i = (\<lambda>(worst, j).
     if IsRunning (fst (ps ! i)) \<and> (seg_empty worst \<or> IsWorseThan (snd (ps ! i)) worst) then (snd (ps ! i), Some i)
     else (worst, j))"

definition worst_running :: "manager \<Rightarrow> segment \<times> nat option" where
  "worst_running m = fold (pick_worst (mg_provers m)) [0..<length (mg_provers m)] (empty_segment, None)"

definition map_prover :: "(thread_state \<Rightarrow> thread_state) \<Rightarrow> nat \<Rightarrow> manager \<Rightarrow> manager" where
  "map_prover f i m = m\<lparr>mg_provers := (mg_provers m)[i := apfst f (mg_provers m ! i)]\<rparr>"

definition spawn :: "segment \<Rightarrow> candidate \<Rightarrow> manager \<Rightarrow> manager" where
  "spawn best c m =
     (case c of
        Paused i \<Rightarrow> map_prover resume i m
      | Pending i \<Rightarrow> m\<lparr>mg_provers := mg_provers m @ [(thread_start, best)],
                       mg_pending := (mg_pending m)[i := tl (mg_pending m ! i)]\<rparr>)"

text \<open>One round of the loop; the inner \<open>None\<close> is its \<open>break\<close>.  Without a running prover
  \<open>worst_index\<close> is not initialised.\<close>

definition schedule_step :: "manager \<Rightarrow> nat \<Rightarrow> (manager \<times> nat) option option" where
  "schedule_step m active_provers =
     (let (best, c) = best_candidate m in
      if seg_empty best then Some None
      else case c of
        None \<Rightarrow> None
      | Some c \<Rightarrow>
          if active_provers < mg_max_threads m then Some (Some (spawn best c m, Suc active_provers))
          else let (worst, j) = worst_running m in
            if IsWorseThan worst best
            then (case j of None \<Rightarrow> None | Some j \<Rightarrow> Some (Some (spawn best c (map_prover pause j m), active_provers)))
            else Some None)"

partial_function (option) schedule :: "manager \<Rightarrow> nat \<Rightarrow> manager option" where
  "schedule m active_provers =
     Option.bind (schedule_step m active_provers) (\<lambda>r.
       case r of None \<Rightarrow> Some m | Some (m, active_provers) \<Rightarrow> schedule m active_provers)"

definition active_provers :: "manager \<Rightarrow> nat" where
  "active_provers m = length (filter (\<lambda>p. IsRunning (fst p)) (mg_provers m))"

subsection \<open>One round of the event loop\<close>

definition more_threads :: "bool \<Rightarrow> manager \<Rightarrow> manager" where
  "more_threads multi_proc_machine m =
     (if mg_vdf_iteration m \<ge> 500000000 \<and> \<not> mg_increased m \<and> multi_proc_machine
      then m\<lparr>mg_max_threads := mg_max_threads m + 2, mg_increased := True\<rparr> else m)"

definition event_step :: "bool \<Rightarrow> (nat \<Rightarrow> form) \<Rightarrow> nat \<Rightarrow> nat \<Rightarrow> manager \<Rightarrow> manager option" where
  "event_step multi_proc_machine checkpoints iterations intermediates_iter m =
     (let m = more_threads multi_proc_machine (m\<lparr>mg_vdf_iteration := iterations\<rparr>) in
      Option.bind (collect_finished (mg_provers m) (mg_done m) False) (\<lambda>(provers, done, small).
      Option.bind (arrivals checkpoints intermediates_iter (advance small (m\<lparr>mg_provers := provers, mg_done := done\<rparr>))) (\<lambda>m.
      schedule m (active_provers m))))"

subsection \<open>The proof of a number of iterations\<close>

definition request :: "nat \<Rightarrow> manager \<Rightarrow> manager" where
  "request iteration m = m\<lparr>mg_pending_iters := set_insert iteration (mg_pending_iters m),
     mg_pending_last := set_insert (floor_16 iteration) (mg_pending_last m)\<rparr>"

text \<open>The last segment, recomputed from its checkpoint; \<open>slow_step\<close> is the same loop body as
  in \<open>prover_slow.h\<close>, for every tenth form, in a buffer of \<open>r / 10 + 100\<close> forms.  An inner \<open>None\<close> is an early stop.\<close>

definition last_segment ::
  "gcdext \<Rightarrow> (byte list \<Rightarrow> byte list) \<Rightarrow> (int \<Rightarrow> bool) \<Rightarrow> (form \<Rightarrow> form option) \<Rightarrow> (nat \<Rightarrow> nat \<times> nat) \<Rightarrow> (nat \<Rightarrow> bool) \<Rightarrow>
   (nat \<Rightarrow> form) \<Rightarrow> int \<Rightarrow> nat \<Rightarrow> (form \<times> segment list) option option" where
  "last_segment G H P red approx go checkpoints D iteration =
     Option.bind (checkpoint checkpoints (iteration div 2 ^ 16)) (\<lambda>x. let r = iteration mod 2 ^ 16 in
      if r = 0 then Some (Some (x, []))
      else if D > 0 then None
      else case fold_res (slow_step G red D (iroot4 (- D)) 10 (r div 10 + 100)) [0..<r] (x, []) of
        Some (Inr (y, intermediates)) \<Rightarrow>
          (let sg = \<lparr>seg_start = of_nat (iteration - r), seg_length = of_nat r, seg_x = x,
                     seg_y = y, seg_proof = zero_form, seg_empty = False\<rparr> in
           case OneWesolowskiProver G H P red approx go ((!) intermediates) sg D of
             Some (Inr p) \<Rightarrow> Some (Some (y, [sg\<lparr>seg_proof := p\<rparr>]))
           | Some (Inl e) \<Rightarrow> Some None
           | None \<Rightarrow> None)
      | _ \<Rightarrow> None)"

fun take_segments :: "nat \<Rightarrow> nat \<Rightarrow> segment list \<Rightarrow> segment list \<times> nat \<Rightarrow> segment list \<times> nat" where
  "take_segments sz iteration [] r = r"
| "take_segments sz iteration (s # ss) (segs, proved) =
     (if proved + sz \<le> iteration then take_segments sz iteration ss (segs @ [s], proved + sz) else (segs, proved))"

definition take_bucket :: "nat \<Rightarrow> segment list list \<Rightarrow> nat \<Rightarrow> segment list \<times> nat \<Rightarrow> segment list \<times> nat" where
  "take_bucket iteration done i r =
     take_segments (segment_size i) iteration (drop (snd r div segment_size i) (done ! i)) r"

definition collect_segments :: "segment list list \<Rightarrow> nat \<Rightarrow> segment list \<times> nat" where
  "collect_segments done iteration = fold (take_bucket iteration done) (rev [0..<length done]) ([], 0)"

text \<open>One attempt; \<open>None\<close> waits and tries again.  \<open>attempts\<close> are the finished segments at
  the successive attempts.\<close>

definition prove_attempt :: "nat \<Rightarrow> segment list list \<Rightarrow> segment list option" where
  "prove_attempt iteration done =
     (let (segs, proved) = collect_segments done iteration in
      if length segs > 63 \<or> proved < floor_16 iteration then None else Some segs)"

primrec prove_loop :: "nat \<Rightarrow> segment list list list \<Rightarrow> segment list option" where
  "prove_loop iteration [] = None"
| "prove_loop iteration (done # attempts) =
     (case prove_attempt iteration done of Some segs \<Rightarrow> Some segs | None \<Rightarrow> prove_loop iteration attempts)"

definition Prove ::
  "gcdext \<Rightarrow> (byte list \<Rightarrow> byte list) \<Rightarrow> (int \<Rightarrow> bool) \<Rightarrow> (form \<Rightarrow> form option) \<Rightarrow> (nat \<Rightarrow> nat \<times> nat) \<Rightarrow> (nat \<Rightarrow> bool) \<Rightarrow>
   (nat \<Rightarrow> form) \<Rightarrow> int \<Rightarrow> nat \<Rightarrow> segment list list list \<Rightarrow> wproof option" where
  "Prove G H P red approx go checkpoints D iteration attempts =
     Option.bind (last_segment G H P red approx go checkpoints D iteration) (\<lambda>l.
       case l of
         None \<Rightarrow> Some empty_proof
       | Some (y, rest) \<Rightarrow>
           Option.bind (prove_loop iteration attempts) (\<lambda>segs. proof_blob H P D y (segs @ rest)))"

end
