(* ===== verification/Scheduling.thy ===== *)
theory Scheduling
  imports Manager
begin

section \<open>The scheduler of the prover manager\<close>

text \<open>
  \<open>IsWorseThan\<close> compares segments by a number, so the loop that hands out proving threads
  has a measure: it starts one more prover, or replaces the worst running one by a better
  one.  It therefore returns, and where it stops the running segments are the best ones.
\<close>

subsection \<open>The order of segments as a number\<close>

definition badness :: "segment \<Rightarrow> nat" where
  "badness s = (if seg_empty s then 2 ^ 128 else unat (seg_length s) * 2 ^ 64 + unat (seg_start s))"

lemma pair_less:
  fixes a b c d m :: nat
  assumes "b < m" and "d < m"
  shows "a * m + b < c * m + d \<longleftrightarrow> a < c \<or> a = c \<and> b < d"
proof -
  have "a * m + b < c * m + d" if "a < c"
  proof -
    have "Suc a * m \<le> c * m" using that by (intro mult_right_mono) auto
    then show ?thesis using assms by simp
  qed
  moreover have "\<not> a * m + b < c * m + d" if "c < a"
  proof -
    have "Suc c * m \<le> a * m" using that by (intro mult_right_mono) auto
    then show ?thesis using assms by simp
  qed
  ultimately show ?thesis by (cases a c rule: linorder_cases) auto
qed

lemma word64_bound: "unat (w :: 64 word) < 2 ^ 64"
  using unsigned_less [of w] by simp

lemma badness_bound: "\<not> seg_empty s \<Longrightarrow> badness s < 2 ^ 128"
proof -
  assume "\<not> seg_empty s"
  moreover have "unat (seg_length s) * 2 ^ 64 + unat (seg_start s) < (2 ^ 64 :: nat) * 2 ^ 64 + 0"
    by (subst pair_less) (use word64_bound in \<open>auto simp del: power_numeral\<close>)
  ultimately show ?thesis by (simp add: badness_def)
qed

lemma IsWorseThan_badness:
  assumes "\<not> seg_empty t"
  shows "IsWorseThan s t \<longleftrightarrow> badness t < badness s"
proof (cases "seg_empty s")
  case True
  then show ?thesis using assms badness_bound [OF assms] by (simp add: IsWorseThan_def badness_def)
next
  case False
  have "badness t < badness s \<longleftrightarrow> unat (seg_length t) < unat (seg_length s) \<or>
      unat (seg_length t) = unat (seg_length s) \<and> unat (seg_start t) < unat (seg_start s)"
    using False assms by (simp only: badness_def if_False) (rule pair_less [OF word64_bound word64_bound])
  then show ?thesis using False by (auto simp: IsWorseThan_def word_less_nat_alt word_unat_eq_iff not_less)
qed

subsection \<open>Sums over the running provers\<close>

definition run_sum :: "(segment \<Rightarrow> nat) \<Rightarrow> (thread_state \<times> segment) list \<Rightarrow> nat" where
  "run_sum w ps = sum_list (map (\<lambda>p. if IsRunning (fst p) then w (snd p) else 0) ps)"

lemma run_sum_append [simp]: "run_sum w (ps @ qs) = run_sum w ps + run_sum w qs"
  by (simp add: run_sum_def)

lemma active_sum: "active_provers m = run_sum (\<lambda>_. 1) (mg_provers m)"
proof -
  have "length (filter (\<lambda>p. IsRunning (fst p)) ps) = run_sum (\<lambda>_. 1) ps" for ps
    by (induction ps) (simp_all add: run_sum_def)
  then show ?thesis by (simp add: active_provers_def)
qed

lemma run_sum_update:
  assumes "i < length ps"
  shows "run_sum w (ps[i := p]) + (if IsRunning (fst (ps ! i)) then w (snd (ps ! i)) else 0) =
    run_sum w ps + (if IsRunning (fst p) then w (snd p) else 0)"
proof -
  have "ps = take i ps @ ps ! i # drop (Suc i) ps" using assms by (rule id_take_nth_drop)
  then have "run_sum w ps = run_sum w (take i ps) + run_sum w [ps ! i] + run_sum w (drop (Suc i) ps)"
    by (metis run_sum_append append_Cons append_Nil add.assoc)
  moreover have "run_sum w (ps[i := p]) = run_sum w (take i ps) + run_sum w [p] + run_sum w (drop (Suc i) ps)"
    using assms by (simp add: upd_conv_take_nth_drop run_sum_def)
  ultimately show ?thesis by (simp add: run_sum_def)
qed

subsection \<open>The candidates\<close>

lemma fold_upt_induct:
  assumes "P 0 s" and "\<And>i s. i < n \<Longrightarrow> P i s \<Longrightarrow> P (Suc i) (f i s)"
  shows "P n (fold f [0..<n] s)"
  using assms by (induction n) simp_all

lemma filter_by_index: "f ` {x \<in> set xs. P x} = (\<lambda>i. f (xs ! i)) ` {i. i < length xs \<and> P (xs ! i)}"
proof -
  have "{x \<in> set xs. P x} = (!) xs ` {i. i < length xs \<and> P (xs ! i)}" by (auto simp: in_set_conv_nth)
  then show ?thesis by (simp add: image_image)
qed

definition waiting :: "manager \<Rightarrow> segment set" where
  "waiting m = snd ` {p \<in> set (mg_provers m). \<not> IsRunning (fst p)} \<union> hd ` {ss \<in> set (mg_pending m). ss \<noteq> []}"

definition running :: "manager \<Rightarrow> segment set" where
  "running m = snd ` {p \<in> set (mg_provers m). IsRunning (fst p)}"

text \<open>No segment of a manager is an empty one.\<close>

definition all_segments :: "manager \<Rightarrow> segment set" where
  "all_segments m = snd ` set (mg_provers m) \<union> \<Union> (set ` set (mg_pending m))"

definition live :: "manager \<Rightarrow> bool" where
  "live m \<longleftrightarrow> (\<forall>s\<in>all_segments m. \<not> seg_empty s)"

definition candidate_ok :: "manager \<Rightarrow> segment \<Rightarrow> candidate \<Rightarrow> bool" where
  "candidate_ok m best c =
     (case c of
        Paused i \<Rightarrow> i < length (mg_provers m) \<and> \<not> IsRunning (fst (mg_provers m ! i)) \<and> best = snd (mg_provers m ! i)
      | Pending i \<Rightarrow> i < length (mg_pending m) \<and> mg_pending m ! i \<noteq> [] \<and> best = hd (mg_pending m ! i))"

lemma candidate_live: "live m \<Longrightarrow> candidate_ok m best c \<Longrightarrow> \<not> seg_empty best \<and> best \<in> all_segments m"
proof -
  assume m: "live m" and c: "candidate_ok m best c"
  have "best \<in> all_segments m"
  proof (cases c)
    case (Paused i)
    then show ?thesis using c by (simp add: candidate_ok_def all_segments_def)
  next
    case (Pending i)
    then have "best \<in> set (mg_pending m ! i)" "mg_pending m ! i \<in> set (mg_pending m)" using c by (simp_all add: candidate_ok_def)
    then show ?thesis by (auto simp: all_segments_def)
  qed
  then show ?thesis using m by (simp add: live_def)
qed

text \<open>What a scan over candidates has found: the best of those seen, or nothing.\<close>

definition found :: "manager \<Rightarrow> segment set \<Rightarrow> segment \<times> candidate option \<Rightarrow> bool" where
  "found m seen = (\<lambda>(best, c).
     (case c of None \<Rightarrow> best = empty_segment \<and> seen = {} | Some c \<Rightarrow> candidate_ok m best c \<and> (\<forall>s\<in>seen. badness best \<le> badness s)))"

lemma found_insert:
  assumes m: "live m" and r: "found m seen (best, c)" and s: "candidate_ok m s c'"
  shows "found m (insert s seen) (if IsWorseThan best s then (s, Some c') else (best, c))"
proof -
  have ns: "\<not> seg_empty s" using candidate_live [OF m s] by blast
  show ?thesis
  proof (cases c)
    case None
    then have "IsWorseThan best s" using r ns by (simp add: found_def empty_segment_def IsWorseThan_def)
    then show ?thesis using None r s by (simp add: found_def)
  next
    case (Some d)
    then show ?thesis using r s by (auto simp: found_def IsWorseThan_badness [OF ns] not_less intro: less_imp_le order_trans)
  qed
qed

lemma best_candidate_found:
  assumes m: "live m"
  shows "found m (waiting m) (best_candidate m)"
proof -
  let ?ps = "mg_provers m" and ?qs = "mg_pending m"
  define A where "A n = (\<lambda>i. snd (?ps ! i)) ` {i. i < n \<and> \<not> IsRunning (fst (?ps ! i))}" for n
  define B where "B n = (\<lambda>i. hd (?qs ! i)) ` {i. i < n \<and> ?qs ! i \<noteq> []}" for n
  have SA: "A (Suc n) = (if IsRunning (fst (?ps ! n)) then A n else insert (snd (?ps ! n)) (A n))" for n
    by (auto simp: A_def less_Suc_eq)
  have SB: "B (Suc n) = (if ?qs ! n = [] then B n else insert (hd (?qs ! n)) (B n))" for n
    by (auto simp: B_def less_Suc_eq)
  have a: "found m (A (length ?ps)) (fold (pick_prover ?ps) [0..<length ?ps] (empty_segment, None))"
  proof (rule fold_upt_induct [where P = "\<lambda>n. found m (A n)"])
    show "found m (A 0) (empty_segment, None)" by (simp add: found_def A_def)
    fix i r assume i: "i < length ?ps" and r: "found m (A i) r"
    obtain best c where bc: "r = (best, c)" by (cases r)
    show "found m (A (Suc i)) (pick_prover ?ps i r)"
    proof (cases "IsRunning (fst (?ps ! i))")
      case False
      have "candidate_ok m (snd (?ps ! i)) (Paused i)" using i False by (simp add: candidate_ok_def)
      from found_insert [OF m r [unfolded bc] this] show ?thesis using False by (simp add: SA bc pick_prover_def)
    qed (use r in \<open>simp add: SA bc pick_prover_def\<close>)
  qed
  have b: "found m (A (length ?ps) \<union> B (length ?qs)) (best_candidate m)"
    unfolding best_candidate_def
  proof (rule fold_upt_induct [where P = "\<lambda>n. found m (A (length ?ps) \<union> B n)"])
    show "found m (A (length ?ps) \<union> B 0) (fold (pick_prover ?ps) [0..<length ?ps] (empty_segment, None))"
      using a by (simp add: B_def)
    fix i r assume i: "i < length ?qs" and r: "found m (A (length ?ps) \<union> B i) r"
    obtain best c where bc: "r = (best, c)" by (cases r)
    show "found m (A (length ?ps) \<union> B (Suc i)) (pick_pending ?qs i r)"
    proof (cases "?qs ! i")
      case (Cons s ss)
      have "candidate_ok m s (Pending i)" using i Cons by (simp add: candidate_ok_def)
      from found_insert [OF m r [unfolded bc] this] show ?thesis using Cons by (simp add: SB bc pick_pending_def)
    qed (use r in \<open>simp add: SB bc pick_pending_def\<close>)
  qed
  have "A (length ?ps) \<union> B (length ?qs) = waiting m"
    by (simp only: A_def B_def waiting_def filter_by_index)
  then show ?thesis using b by simp
qed

definition worst_found :: "manager \<Rightarrow> segment set \<Rightarrow> segment \<times> nat option \<Rightarrow> bool" where
  "worst_found m seen = (\<lambda>(worst, j).
     (case j of
        None \<Rightarrow> worst = empty_segment \<and> seen = {}
      | Some j \<Rightarrow> j < length (mg_provers m) \<and> IsRunning (fst (mg_provers m ! j)) \<and> worst = snd (mg_provers m ! j) \<and>
          (\<forall>s\<in>seen. badness s \<le> badness worst)))"

lemma worst_running_found:
  assumes m: "live m"
  shows "worst_found m (running m) (worst_running m)"
proof -
  let ?ps = "mg_provers m"
  define A where "A n = (\<lambda>i. snd (?ps ! i)) ` {i. i < n \<and> IsRunning (fst (?ps ! i))}" for n
  have SA: "A (Suc n) = (if IsRunning (fst (?ps ! n)) then insert (snd (?ps ! n)) (A n) else A n)" for n
    by (auto simp: A_def less_Suc_eq)
  have ne: "\<not> seg_empty (snd (?ps ! i))" if "i < length ?ps" for i
    using m nth_mem [OF that] unfolding live_def all_segments_def by blast
  have "worst_found m (A (length ?ps)) (worst_running m)"
    unfolding worst_running_def
  proof (rule fold_upt_induct [where P = "\<lambda>n. worst_found m (A n)"])
    show "worst_found m (A 0) (empty_segment, None)" by (simp add: worst_found_def A_def)
    fix i r assume i: "i < length ?ps" and r: "worst_found m (A i) r"
    obtain worst j where wj: "r = (worst, j)" by (cases r)
    show "worst_found m (A (Suc i)) (pick_worst ?ps i r)"
    proof (cases "IsRunning (fst (?ps ! i))")
      case run: True
      show ?thesis
      proof (cases j)
        case None
        then show ?thesis using r run i by (simp add: SA wj worst_found_def pick_worst_def empty_segment_def)
      next
        case (Some k)
        then have w: "k < length ?ps" "worst = snd (?ps ! k)" "\<forall>s\<in>A i. badness s \<le> badness worst"
          using r by (auto simp: wj worst_found_def)
        have "\<not> seg_empty worst" using ne w by simp
        then show ?thesis using r run i Some w
          by (auto simp: SA wj worst_found_def pick_worst_def IsWorseThan_badness not_less intro: less_imp_le order_trans)
      qed
    next
      case False
      then show ?thesis using r by (simp add: SA wj pick_worst_def)
    qed
  qed
  moreover have "A (length ?ps) = running m" by (simp only: A_def running_def filter_by_index)
  ultimately show ?thesis by simp
qed

subsection \<open>What one round changes\<close>

lemma map_prover_simps [simp]:
  "mg_pending (map_prover f i m) = mg_pending m" "mg_max_threads (map_prover f i m) = mg_max_threads m"
  "mg_done (map_prover f i m) = mg_done m" "mg_last_appended (map_prover f i m) = mg_last_appended m"
  "length (mg_provers (map_prover f i m)) = length (mg_provers m)"
  by (simp_all add: map_prover_def)

lemma spawn_simps [simp]:
  "mg_max_threads (spawn best c m) = mg_max_threads m" "mg_done (spawn best c m) = mg_done m"
  "mg_last_appended (spawn best c m) = mg_last_appended m"
  by (simp_all add: spawn_def split: candidate.splits)

lemma thread_flags [simp]: "IsRunning (resume t)" "\<not> IsRunning (pause t)" "IsRunning thread_start"
  by (simp_all add: thread_defs)

lemma spawn_sum:
  assumes "candidate_ok m best c"
  shows "run_sum w (mg_provers (spawn best c m)) = run_sum w (mg_provers m) + w best"
proof (cases c)
  case (Paused i)
  then show ?thesis using assms run_sum_update [of i "mg_provers m" w "apfst resume (mg_provers m ! i)"]
    by (simp add: candidate_ok_def spawn_def map_prover_def)
next
  case (Pending i)
  then show ?thesis by (simp add: spawn_def run_sum_def)
qed

lemma pause_sum:
  assumes "j < length (mg_provers m)" and "IsRunning (fst (mg_provers m ! j))"
  shows "run_sum w (mg_provers (map_prover pause j m)) + w (snd (mg_provers m ! j)) = run_sum w (mg_provers m)"
  using assms run_sum_update [of j "mg_provers m" w "apfst pause (mg_provers m ! j)"] by (simp add: map_prover_def)

lemma pause_candidate:
  assumes "candidate_ok m best c" and "IsRunning (fst (mg_provers m ! j))"
  shows "candidate_ok (map_prover pause j m) best c"
proof (cases c)
  case (Paused i)
  then have "i \<noteq> j" using assms by (auto simp: candidate_ok_def)
  then show ?thesis using assms Paused by (simp add: candidate_ok_def map_prover_def nth_list_update)
qed (use assms in \<open>simp add: candidate_ok_def\<close>)

lemma map_prover_segments:
  assumes "i < length (mg_provers m)"
  shows "map snd (mg_provers (map_prover f i m)) = map snd (mg_provers m)"
  using assms by (simp add: map_prover_def map_update list_update_same_conv)

lemma segments_by_map: "all_segments m = set (map snd (mg_provers m)) \<union> \<Union> (set ` set (mg_pending m))"
  by (simp add: all_segments_def)

lemma pause_live: "i < length (mg_provers m) \<Longrightarrow> live (map_prover f i m) = live m"
  by (simp add: live_def segments_by_map map_prover_segments del: set_map)

lemma spawn_live:
  assumes m: "live m" and c: "candidate_ok m best c"
  shows "live (spawn best c m)"
proof (cases c)
  case (Paused i)
  then show ?thesis using m c pause_live [of i m resume] by (simp add: spawn_def candidate_ok_def)
next
  case (Pending i)
  have i: "i < length (mg_pending m)" using c Pending by (simp add: candidate_ok_def)
  have "set (tl (mg_pending m ! i)) \<subseteq> set (mg_pending m ! i)" by (cases "mg_pending m ! i") auto
  moreover have "mg_pending m ! i \<in> set (mg_pending m)" using i by simp
  moreover have "ss \<in> set (mg_pending m) \<or> ss = tl (mg_pending m ! i)"
    if "ss \<in> set ((mg_pending m)[i := tl (mg_pending m ! i)])" for ss
    using set_update_subset_insert [of "mg_pending m" i "tl (mg_pending m ! i)"] that by blast
  ultimately have "all_segments (spawn best c m) \<subseteq> insert best (all_segments m)"
    by (fastforce simp: all_segments_def spawn_def Pending)
  then show ?thesis using m candidate_live [OF m c] by (auto simp: live_def)
qed

text \<open>The best segments run: nothing waits, or every thread is taken and no running segment
  is worse than a waiting one.\<close>

definition well_scheduled :: "manager \<Rightarrow> bool" where
  "well_scheduled m \<longleftrightarrow> waiting m = {} \<or>
     mg_max_threads m \<le> active_provers m \<and> (\<forall>r\<in>running m. \<forall>s\<in>waiting m. \<not> IsWorseThan r s)"

definition sched_measure :: "manager \<Rightarrow> nat \<times> nat" where
  "sched_measure m = (mg_max_threads m - active_provers m, run_sum badness (mg_provers m))"

definition sched_move :: "manager \<Rightarrow> manager \<Rightarrow> bool" where
  "sched_move m m' \<longleftrightarrow> (\<exists>best c. candidate_ok m best c \<and>
     (active_provers m < mg_max_threads m \<and> m' = spawn best c m \<or>
      (\<exists>j < length (mg_provers m). IsRunning (fst (mg_provers m ! j)) \<and> IsWorseThan (snd (mg_provers m ! j)) best \<and>
        mg_max_threads m \<le> active_provers m \<and> m' = spawn best c (map_prover pause j m))))"

lemma waiting_segments: "waiting m \<subseteq> all_segments m"
proof
  fix s assume "s \<in> waiting m"
  then consider "s \<in> snd ` set (mg_provers m)" | ss where "ss \<in> set (mg_pending m)" "s = hd ss" "ss \<noteq> []"
    by (auto simp: waiting_def)
  then show "s \<in> all_segments m"
  proof cases
    case 2
    then show ?thesis using hd_in_set [of ss] unfolding all_segments_def by blast
  qed (simp add: all_segments_def)
qed

lemma waiting_live: "live m \<Longrightarrow> s \<in> waiting m \<Longrightarrow> \<not> seg_empty s"
  using waiting_segments unfolding live_def by blast

lemma schedule_step_shape:
  assumes m: "live m" and thr: "0 < mg_max_threads m"
  shows "schedule_step m (active_provers m) = Some None \<and> well_scheduled m \<or>
    (\<exists>m'. schedule_step m (active_provers m) = Some (Some (m', active_provers m')) \<and> sched_move m m')"
proof -
  obtain best c where bc: "best_candidate m = (best, c)" by (cases "best_candidate m")
  have f: "found m (waiting m) (best, c)" using best_candidate_found [OF m] bc by simp
  show ?thesis
  proof (cases c)
    case None
    then show ?thesis using f bc by (simp add: found_def schedule_step_def empty_segment_def well_scheduled_def)
  next
    case (Some d)
    then have ok: "candidate_ok m best d" and least: "\<forall>s\<in>waiting m. badness best \<le> badness s" using f by (simp_all add: found_def)
    have ne: "\<not> seg_empty best" using candidate_live [OF m ok] by blast
    show ?thesis
    proof (cases "active_provers m < mg_max_threads m")
      case True
      have "active_provers (spawn best d m) = Suc (active_provers m)"
        using spawn_sum [OF ok, of "\<lambda>_. 1"] by (simp add: active_sum)
      then have "schedule_step m (active_provers m) = Some (Some (spawn best d m, active_provers (spawn best d m)))"
        using True ne bc Some by (simp add: schedule_step_def)
      moreover have "sched_move m (spawn best d m)" using True ok by (auto simp: sched_move_def)
      ultimately show ?thesis by blast
    next
      case False
      obtain worst j where wj: "worst_running m = (worst, j)" by (cases "worst_running m")
      have g: "worst_found m (running m) (worst, j)" using worst_running_found [OF m] wj by simp
      have "running m \<noteq> {}"
      proof
        assume "running m = {}"
        then have "active_provers m = 0" by (auto simp: running_def active_provers_def filter_empty_conv)
        then show False using False thr by simp
      qed
      then obtain k where k: "j = Some k" "k < length (mg_provers m)" "IsRunning (fst (mg_provers m ! k))"
          "worst = snd (mg_provers m ! k)" "\<forall>s\<in>running m. badness s \<le> badness worst"
        using g by (auto simp: worst_found_def split: option.splits)
      show ?thesis
      proof (cases "IsWorseThan worst best")
        case True
        let ?m = "spawn best d (map_prover pause k m)"
        have ok': "candidate_ok (map_prover pause k m) best d" by (rule pause_candidate [OF ok k(3)])
        have "active_provers ?m = active_provers m"
          using spawn_sum [OF ok', of "\<lambda>_. 1"] pause_sum [OF k(2,3), of "\<lambda>_. 1"] by (simp add: active_sum)
        then have "schedule_step m (active_provers m) = Some (Some (?m, active_provers ?m))"
          using False True ne bc Some wj k(1) by (simp add: schedule_step_def)
        moreover have "sched_move m ?m"
          unfolding sched_move_def using ok k True False by (intro exI [of _ best] exI [of _ d]) auto
        ultimately show ?thesis by blast
      next
        case nw: False
        have "\<not> IsWorseThan r s" if "r \<in> running m" "s \<in> waiting m" for r s
        proof -
          have "badness worst \<le> badness best" using nw IsWorseThan_badness [OF ne] by (simp add: not_less)
          then have "badness r \<le> badness s" using k(5) least that by (meson order_trans)
          then show ?thesis using IsWorseThan_badness [OF waiting_live [OF m that(2)]] by (simp add: not_less)
        qed
        then have "well_scheduled m" using False by (simp add: well_scheduled_def)
        then show ?thesis using False nw ne bc Some wj by (simp add: schedule_step_def)
      qed
    qed
  qed
qed

lemma sched_move_live: "sched_move m m' \<Longrightarrow> live m \<Longrightarrow> live m' \<and> mg_max_threads m' = mg_max_threads m"
  using pause_live spawn_live pause_candidate by (fastforce simp: sched_move_def)

lemma sched_move_measure:
  assumes mv: "sched_move m m'" and m: "live m"
  shows "(sched_measure m', sched_measure m) \<in> less_than <*lex*> less_than"
proof -
  obtain best c where ok: "candidate_ok m best c" and
    alt: "active_provers m < mg_max_threads m \<and> m' = spawn best c m \<or>
      (\<exists>j < length (mg_provers m). IsRunning (fst (mg_provers m ! j)) \<and> IsWorseThan (snd (mg_provers m ! j)) best \<and>
        mg_max_threads m \<le> active_provers m \<and> m' = spawn best c (map_prover pause j m))"
    using mv by (auto simp: sched_move_def)
  from alt show ?thesis
  proof (elim disjE exE conjE)
    assume a: "active_provers m < mg_max_threads m" "m' = spawn best c m"
    then have "active_provers m' = Suc (active_provers m)" using spawn_sum [OF ok, of "\<lambda>_. 1"] by (simp add: active_sum)
    then show ?thesis using a diff_less_mono2 [of "active_provers m" "Suc (active_provers m)" "mg_max_threads m"]
      by (simp add: sched_measure_def)
  next
    fix j
    assume j: "j < length (mg_provers m)" "IsRunning (fst (mg_provers m ! j))" "IsWorseThan (snd (mg_provers m ! j)) best"
      and m': "m' = spawn best c (map_prover pause j m)"
    have ok': "candidate_ok (map_prover pause j m) best c" by (rule pause_candidate [OF ok j(2)])
    note sums = spawn_sum [OF ok'] pause_sum [OF j(1,2)]
    have "badness best < badness (snd (mg_provers m ! j))"
      using j(3) IsWorseThan_badness candidate_live [OF m ok] by simp
    then have "run_sum badness (mg_provers m') < run_sum badness (mg_provers m)"
      using sums [of badness] by (simp add: m')
    moreover have "active_provers m' = active_provers m" using sums [of "\<lambda>_. 1"] by (simp add: m' active_sum)
    ultimately show ?thesis by (simp add: sched_measure_def m')
  qed
qed

text \<open>The loop returns; any property its moves keep holds at its end.\<close>

lemma schedule_returns:
  assumes "live m" and "0 < mg_max_threads m"
  shows "\<exists>m'. schedule m (active_provers m) = Some m' \<and> sched_move\<^sup>*\<^sup>* m m' \<and> live m' \<and> well_scheduled m' \<and>
    mg_max_threads m' = mg_max_threads m"
proof -
  have "wf (inv_image (less_than <*lex*> less_than) sched_measure)" by (intro wf_inv_image wf_lex_prod wf_less_than)
  then show ?thesis using assms
  proof (induction m rule: wf_induct_rule)
    case (less m)
    from schedule_step_shape [OF less.prems] show ?case
    proof (elim disjE exE conjE)
      assume "schedule_step m (active_provers m) = Some None" "well_scheduled m"
      then show ?thesis using less.prems by (simp add: schedule.simps [of m])
    next
      fix m1
      assume st: "schedule_step m (active_provers m) = Some (Some (m1, active_provers m1))" and mv: "sched_move m m1"
      have m1: "live m1" "mg_max_threads m1 = mg_max_threads m" using sched_move_live [OF mv less.prems(1)] by blast+
      have "(m1, m) \<in> inv_image (less_than <*lex*> less_than) sched_measure"
        using sched_move_measure [OF mv less.prems(1)] by (simp add: inv_image_def)
      from less.IH [OF this m1(1)] m1(2) less.prems(2)
      obtain m' where m': "schedule m1 (active_provers m1) = Some m'" "sched_move\<^sup>*\<^sup>* m1 m'" "live m'" "well_scheduled m'"
          "mg_max_threads m' = mg_max_threads m" by auto
      have "schedule m (active_provers m) = Some m'" using st m'(1) by (simp add: schedule.simps [of m])
      moreover have "sched_move\<^sup>*\<^sup>* m m'" by (rule converse_rtranclp_into_rtranclp [OF mv m'(2)])
      ultimately show ?thesis using m' by blast
    qed
  qed
qed

lemma active_bound:
  assumes "sched_move m m'" and "active_provers m \<le> mg_max_threads m"
  shows "active_provers m' \<le> mg_max_threads m'"
  using assms spawn_sum [where w = "\<lambda>_. 1"] pause_sum [where w = "\<lambda>_. 1"] pause_candidate
  by (fastforce simp: sched_move_def active_sum)

end
