(* ===== verification/ManagerInv.thy ===== *)
theory ManagerInv
  imports Scheduling
begin

section \<open>The invariant of the prover manager\<close>

text \<open>
  Whatever the interleaving of the event loop, the proving threads and the callers of
  \<open>Prove\<close>: every whole segment the squaring loop has passed is queued, or being proved, or
  finished; and every finished segment carries the right proof.
\<close>

subsection \<open>Segments by bucket and position\<close>

definition seg_of :: "(nat \<Rightarrow> form) \<Rightarrow> nat \<Rightarrow> nat \<Rightarrow> segment" where
  "seg_of cp i p =
     \<lparr>seg_start = of_nat (p * segment_size i), seg_length = of_nat (segment_size i),
      seg_x = cp (p * segment_size i div 2 ^ 16), seg_y = cp ((p + 1) * segment_size i div 2 ^ 16),
      seg_proof = zero_form, seg_empty = False\<rparr>"

text \<open>The last iteration whose checkpoint lies in the array.\<close>

definition run_limit :: nat where
  "run_limit = checkpoint_space * 2 ^ 16 - 1"

definition is_segment :: "(nat \<Rightarrow> form) \<Rightarrow> nat \<Rightarrow> nat \<Rightarrow> segment \<Rightarrow> bool" where
  "is_segment cp i p s \<longleftrightarrow> s = (seg_of cp i p)\<lparr>seg_proof := seg_proof s\<rparr> \<and> i \<le> 14 \<and> (p + 1) * segment_size i \<le> run_limit"

lemma run_limit_value: "run_limit = 2 ^ 34 - 1"
  by (simp add: run_limit_def checkpoint_space_def)

lemma run_limit_index: "n \<le> run_limit \<Longrightarrow> n div 2 ^ 16 < checkpoint_space"
  by (rule less_mult_imp_div_less) (simp add: run_limit_def checkpoint_space_def)

lemma checkpoint_within: "n \<le> run_limit \<Longrightarrow> checkpoint cp (n div 2 ^ 16) = Some (cp (n div 2 ^ 16))"
  using run_limit_index by (simp add: checkpoint_def)

lemma segment_size_14: "i \<le> 14 \<Longrightarrow> segment_size i \<le> 2 ^ 44"
  unfolding segment_size_def by (rule power_increasing) auto

lemma unat_small: "n < 2 ^ 64 \<Longrightarrow> unat (of_nat n :: 64 word) = n"
  by (simp add: unat_of_nat take_bit_nat_eq_self)

lemma segment_size_nz [simp]: "segment_size i \<noteq> 0"
  using segment_size_pos [of i] by simp

lemma is_segment_fields:
  assumes "is_segment cp i p s"
  shows "unat (seg_start s) = p * segment_size i" "unat (seg_length s) = segment_size i" "\<not> seg_empty s"
    "seg_x s = cp (p * segment_size i div 2 ^ 16)" "seg_y s = cp ((p + 1) * segment_size i div 2 ^ 16)"
    "seg_start s = of_nat (p * segment_size i)" "seg_length s = of_nat (segment_size i)"
proof -
  have s: "s = (seg_of cp i p)\<lparr>seg_proof := seg_proof s\<rparr>" and b: "(p + 1) * segment_size i \<le> run_limit" and i: "i \<le> 14"
    using assms by (simp_all add: is_segment_def)
  have c: "p * segment_size i < 2 ^ 64" using b by (simp add: run_limit_value)
  have d: "segment_size i < 2 ^ 64" using segment_size_14 [OF i] by (rule le_less_trans) simp
  have f: "seg_start s = of_nat (p * segment_size i)" "seg_length s = of_nat (segment_size i)"
    "seg_x s = cp (p * segment_size i div 2 ^ 16)" "seg_y s = cp ((p + 1) * segment_size i div 2 ^ 16)" "\<not> seg_empty s"
    by (subst s, simp add: seg_of_def)+
  show "unat (seg_start s) = p * segment_size i" by (simp only: f(1) unat_small [OF c])
  show "unat (seg_length s) = segment_size i" by (simp only: f(2) unat_small [OF d])
  show "\<not> seg_empty s" "seg_x s = cp (p * segment_size i div 2 ^ 16)" "seg_y s = cp ((p + 1) * segment_size i div 2 ^ 16)"
    "seg_start s = of_nat (p * segment_size i)" "seg_length s = of_nat (segment_size i)" by (rule f)+
qed

lemma is_segment_proof [simp]: "is_segment cp i p (s\<lparr>seg_proof := f\<rparr>) = is_segment cp i p s"
proof -
  have "s\<lparr>seg_proof := f\<rparr> = (seg_of cp i p)\<lparr>seg_proof := f\<rparr> \<longleftrightarrow> s = (seg_of cp i p)\<lparr>seg_proof := seg_proof s\<rparr>"
    by (cases s; cases "seg_of cp i p") auto
  then show ?thesis by (simp add: is_segment_def)
qed

lemma segment_bucket: "is_segment cp i p s \<Longrightarrow> GetSegmentBucket s = (i, s)"
  using is_segment_fields(2) by (intro segment_bucket_aux) (auto simp: is_segment_def segment_size_def)

lemma new_segment_of:
  assumes "(p + 1) * segment_size i \<le> run_limit"
  shows "new_segment cp (p * segment_size i) (segment_size i) = Some (seg_of cp i p)"
proof -
  have "p * segment_size i \<le> run_limit" "p * segment_size i + segment_size i \<le> run_limit" using assms by simp_all
  then show ?thesis using checkpoint_within by (simp add: new_segment_def seg_of_def add.commute)
qed

lemma seg_of_is_segment: "i \<le> 14 \<Longrightarrow> (p + 1) * segment_size i \<le> run_limit \<Longrightarrow> is_segment cp i p (seg_of cp i p)"
  by (simp add: is_segment_def)

subsection \<open>Finished segments\<close>

definition has :: "segment list list \<Rightarrow> nat \<Rightarrow> nat \<Rightarrow> bool" where
  "has done i p \<longleftrightarrow> p < length (done ! i) \<and> \<not> seg_empty (done ! i ! p)"

text \<open>\<open>good s\<close> says that the proof in \<open>s\<close> is right.\<close>

definition done_ok :: "(segment \<Rightarrow> bool) \<Rightarrow> (nat \<Rightarrow> form) \<Rightarrow> nat \<Rightarrow> segment list list \<Rightarrow> bool" where
  "done_ok good cp count done \<longleftrightarrow> length done = count \<and>
     (\<forall>i<count. \<forall>p. has done i p \<longrightarrow> is_segment cp i p (done ! i ! p) \<and> good (done ! i ! p))"

definition prover_ok :: "(segment \<Rightarrow> bool) \<Rightarrow> (nat \<Rightarrow> form) \<Rightarrow> nat \<Rightarrow> thread_state \<times> segment \<Rightarrow> bool" where
  "prover_ok good cp count = (\<lambda>(t, s).
     thread_inv t \<and> control t = Controlling \<and> (\<exists>i<count. \<exists>p. is_segment cp i p s) \<and>
     (\<forall>f. thread_proof t = Some f \<longrightarrow> good (s\<lparr>seg_proof := f\<rparr>)))"

lemma store_done_nth:
  "q < max (length ds) (Suc p) \<Longrightarrow> store_done p s ds ! q = (if q = p then s else if q < length ds then ds ! q else empty_segment)"
  "length (store_done p s ds) = max (length ds) (Suc p)"
  by (auto simp: store_done_def nth_list_update nth_append)

lemma has_store:
  assumes "i < length done" and "\<not> seg_empty s"
  shows "has (done[i := store_done p s (done ! i)]) j q \<longleftrightarrow> has done j q \<or> j = i \<and> q = p"
    and "has (done[i := store_done p s (done ! i)]) j q \<Longrightarrow>
      done[i := store_done p s (done ! i)] ! j ! q = (if j = i \<and> q = p then s else done ! j ! q)"
proof -
  have e: "seg_empty empty_segment" by (simp add: empty_segment_def)
  show "has (done[i := store_done p s (done ! i)]) j q \<longleftrightarrow> has done j q \<or> j = i \<and> q = p"
  proof (cases "j = i \<and> q < max (length (done ! i)) (Suc p)")
    case True
    then show ?thesis using assms e store_done_nth(1) [of q "done ! i" p s]
      by (cases "q = p"; cases "q < length (done ! i)") (simp_all add: has_def store_done_nth(2))
  next
    case False
    then show ?thesis using assms by (cases "j = i") (auto simp: has_def store_done_nth(2))
  qed
  show "done[i := store_done p s (done ! i)] ! j ! q = (if j = i \<and> q = p then s else done ! j ! q)"
    if h: "has (done[i := store_done p s (done ! i)]) j q"
  proof (cases "j = i")
    case True
    then have "q < max (length (done ! i)) (Suc p)" "\<not> seg_empty (store_done p s (done ! i) ! q)"
      using h assms by (simp_all add: has_def store_done_nth(2))
    then show ?thesis using True assms e store_done_nth(1) [of q "done ! i" p s]
      by (cases "q = p"; cases "q < length (done ! i)") simp_all
  qed (use assms in simp)
qed

lemma finish_segment_ok:
  assumes d: "done_ok good cp count done" and i: "i < count" and s: "is_segment cp i p s" and g: "good s"
  shows "\<exists>done'. finish_segment s done = Some done' \<and> done_ok good cp count done' \<and>
    (\<forall>j q. has done' j q \<longleftrightarrow> has done j q \<or> j = i \<and> q = p)"
proof -
  note f = is_segment_fields [OF s]
  have l: "length done = count" using d by (simp add: done_ok_def)
  have p: "unat (seg_start s) div unat (seg_length s) = p" by (simp add: f(1,2))
  have "p * 2 ^ 16 \<le> p * segment_size i" by (intro mult_le_mono2) (simp add: segment_size_def power_add)
  also have "\<dots> \<le> 2 ^ 18 * 2 ^ 16" using s by (simp add: is_segment_def run_limit_value)
  finally have "p \<le> 2 ^ 18" by simp
  then have pi: "\<not> past_int p" by simp
  have nz: "seg_length s \<noteq> 0" using f(2) segment_size_pos [of i] by (metis less_irrefl unat_0)
  let ?d = "done[i := store_done p s (done ! i)]"
  have "finish_segment s done = Some ?d"
    using i l nz pi by (simp add: finish_segment_def segment_bucket [OF s] Let_def p del: past_int_def)
  moreover have h: "has ?d j q \<longleftrightarrow> has done j q \<or> j = i \<and> q = p" for j q using has_store(1) [OF _ f(3)] i l by simp
  moreover have "done_ok good cp count ?d"
  proof -
    have "is_segment cp j q (?d ! j ! q) \<and> good (?d ! j ! q)" if "j < count" "has ?d j q" for j q
      using that h has_store(2) [OF _ f(3) that(2)] d i l s g by (auto simp: done_ok_def)
    then show ?thesis using l by (simp add: done_ok_def)
  qed
  ultimately show ?thesis by blast
qed

lemma finished_proof: "prover_ok good cp count (t, s) \<Longrightarrow> is_finished t \<Longrightarrow> good (s\<lparr>seg_proof := GetProof t\<rparr>)"
  by (auto simp: prover_ok_def thread_inv_def GetProof_def split: option.splits)

text \<open>No segment is lost when the event loop clears away finished provers.\<close>

lemma collect_finished_ok:
  assumes "done_ok good cp count done" and "\<forall>x\<in>set ps. prover_ok good cp count x"
  shows "\<exists>ps' done' small'. collect_finished ps done small = Some (ps', done', small') \<and> done_ok good cp count done' \<and>
    (\<forall>x\<in>set ps'. prover_ok good cp count x) \<and> (\<forall>j q. has done j q \<longrightarrow> has done' j q) \<and>
    (\<forall>x\<in>set ps. \<forall>i<count. \<forall>p. is_segment cp i p (snd x) \<longrightarrow> has done' i p \<or> (\<exists>y\<in>set ps'. is_segment cp i p (snd y)))"
  using assms
proof (induction ps arbitrary: "done" small)
  case (Cons x ps)
  obtain t s where x: "x = (t, s)" by (cases x)
  have ok: "prover_ok good cp count (t, s)" and rest: "\<forall>x\<in>set ps. prover_ok good cp count x" using Cons.prems x by auto
  show ?case
  proof (cases "is_finished t")
    case False
    from Cons.IH [OF Cons.prems(1) rest, of small]
    show ?thesis using ok False by (fastforce simp: x)
  next
    case True
    let ?s = "s\<lparr>seg_proof := GetProof t\<rparr>"
    obtain i p where ip: "i < count" "is_segment cp i p s" using ok by (auto simp: prover_ok_def)
    have g: "good ?s" by (rule finished_proof [OF ok True])
    have ok': "prover_ok good cp count (t, ?s)" using ok ip by (auto simp: prover_ok_def)
    obtain d where d: "finish_segment ?s done = Some d" "done_ok good cp count d" "\<forall>j q. has d j q \<longleftrightarrow> has done j q \<or> j = i \<and> q = p"
      using finish_segment_ok [OF Cons.prems(1) ip(1) _ g, of p] ip(2) by auto
    from Cons.IH [OF d(2) rest, of "small \<or> seg_length ?s = 2 ^ 16"]
    obtain ps' done' small' where r: "collect_finished ps d (small \<or> seg_length ?s = 2 ^ 16) = Some (ps', done', small')"
        "done_ok good cp count done'" "\<forall>x\<in>set ps'. prover_ok good cp count x" "\<forall>j q. has d j q \<longrightarrow> has done' j q"
        "\<forall>x\<in>set ps. \<forall>i<count. \<forall>p. is_segment cp i p (snd x) \<longrightarrow> has done' i p \<or> (\<exists>y\<in>set ps'. is_segment cp i p (snd y))"
      by blast
    have run: "collect_finished (x # ps) done small =
        Some (if is_fully_finished t then ps' else (t, ?s) # ps', done', small')"
      using True d(1) r(1) by (simp add: x)
    have uniq: "has done' j q" if "j < count" "is_segment cp j q s" for j q
    proof -
      have "j = i" using segment_bucket [OF that(2)] segment_bucket [OF ip(2)] by simp
      moreover have "q = p" using is_segment_fields(1) [OF that(2)] is_segment_fields(1) [OF ip(2)] by (simp add: \<open>j = i\<close>)
      ultimately show ?thesis using d(3) r(4) by blast
    qed
    let ?ps = "if is_fully_finished t then ps' else (t, ?s) # ps'"
    have all: "\<forall>y\<in>set (x # ps). \<forall>i<count. \<forall>p. is_segment cp i p (snd y) \<longrightarrow> has done' i p \<or> (\<exists>z\<in>set ?ps. is_segment cp i p (snd z))"
    proof (intro ballI allI impI)
      fix y j q assume y: "y \<in> set (x # ps)" "j < count" "is_segment cp j q (snd y)"
      have sub: "set ps' \<subseteq> set ?ps" by auto
      show "has done' j q \<or> (\<exists>z\<in>set ?ps. is_segment cp j q (snd z))"
      proof (cases "y = x")
        case True
        then show ?thesis using uniq y by (simp add: x)
      next
        case False
        then show ?thesis using r(5) y sub by (meson set_ConsD subsetD)
      qed
    qed
    have ps: "\<forall>z\<in>set ?ps. prover_ok good cp count z" using r(3) ok' by simp
    have mono: "\<forall>j q. has done j q \<longrightarrow> has done' j q" using r(4) d(3) by blast
    show ?thesis using run r(2) ps mono all by blast
  qed
qed auto

subsection \<open>The invariant\<close>

definition accounted :: "(nat \<Rightarrow> form) \<Rightarrow> manager \<Rightarrow> nat \<Rightarrow> nat \<Rightarrow> bool" where
  "accounted cp m i p \<longleftrightarrow> has (mg_done m) i p \<or> (\<exists>x\<in>set (mg_provers m). is_segment cp i p (snd x))"

text \<open>One bucket: the queue holds the segments from the first one not yet handed to a prover
  to the last one passed.\<close>

definition bucket_ok :: "(nat \<Rightarrow> form) \<Rightarrow> manager \<Rightarrow> nat \<Rightarrow> bool" where
  "bucket_ok cp m i \<longleftrightarrow> (\<exists>q n. q \<le> n \<and> n * segment_size i \<le> run_limit \<and> mg_last_appended m ! i = n * segment_size i \<and>
     mg_pending m ! i = map (seg_of cp i) [q..<n] \<and> (\<forall>p<q. accounted cp m i p))"

definition manager_inv :: "(segment \<Rightarrow> bool) \<Rightarrow> (nat \<Rightarrow> form) \<Rightarrow> nat \<Rightarrow> manager \<Rightarrow> bool" where
  "manager_inv good cp count m \<longleftrightarrow> count \<le> 15 \<and> 0 < mg_max_threads m \<and>
     length (mg_pending m) = count \<and> length (mg_last_appended m) = count \<and> done_ok good cp count (mg_done m) \<and>
     (\<forall>x\<in>set (mg_provers m). prover_ok good cp count x) \<and> (\<forall>i<count. bucket_ok cp m i)"

lemma manager_inv_start:
  "count \<le> 15 \<Longrightarrow> 0 < threads \<Longrightarrow> manager_inv good cp count (ProverManager count threads)"
  by (auto simp: manager_inv_def ProverManager_def done_ok_def has_def bucket_ok_def)

lemma manager_inv_live:
  assumes "manager_inv good cp count m"
  shows "live m"
proof -
  have "\<not> seg_empty s" if s: "s \<in> all_segments m" for s
  proof -
    from s consider x where "x \<in> set (mg_provers m)" "s = snd x" | i where "i < count" "s \<in> set (mg_pending m ! i)"
      using assms by (auto simp: all_segments_def manager_inv_def in_set_conv_nth [of _ "mg_pending m"])
    then show ?thesis
    proof cases
      case 1
      then have "prover_ok good cp count (fst x, s)" using assms by (simp add: manager_inv_def)
      then show ?thesis using is_segment_fields(3) by (auto simp: prover_ok_def)
    next
      case 2
      then have "bucket_ok cp m i" using assms by (simp add: manager_inv_def)
      then show ?thesis using 2 by (auto simp: bucket_ok_def seg_of_def)
    qed
  qed
  then show ?thesis by (simp add: live_def)
qed

text \<open>Only the set of segments the provers work on matters for a bucket.\<close>

lemma bucket_ok_mono:
  assumes "bucket_ok cp m i" and "mg_last_appended m' ! i = mg_last_appended m ! i" and "mg_pending m' ! i = mg_pending m ! i"
    and "\<And>p. accounted cp m i p \<Longrightarrow> accounted cp m' i p"
  shows "bucket_ok cp m' i"
  using assms by (fastforce simp: bucket_ok_def)

lemma append_segments_eq:
  assumes "iter \<le> run_limit"
  shows "start = n * segment_size i \<Longrightarrow> \<exists>k\<ge>n. append_segments cp i iter start pending =
     Some (pending @ map (seg_of cp i) [n..<k], k * segment_size i) \<and> (k * segment_size i \<le> iter \<or> k = n) \<and> iter < (k + 1) * segment_size i"
  using assms
proof (induction cp i iter start pending arbitrary: n rule: append_segments.induct)
  case (1 cp i iter start pending)
  show ?case
  proof (cases "start + segment_size i \<le> iter")
    case True
    have new: "new_segment cp start (segment_size i) = Some (seg_of cp i n)"
      unfolding 1(2) by (rule new_segment_of) (use True 1(2,3) in simp)
    have n: "start + segment_size i = Suc n * segment_size i" using 1(2) by simp
    from 1(1) [OF True new n 1(3)] obtain k where k: "k \<ge> Suc n" "append_segments cp i iter (start + segment_size i)
        (pending @ [seg_of cp i n]) = Some ((pending @ [seg_of cp i n]) @ map (seg_of cp i) [Suc n..<k], k * segment_size i)"
        "k * segment_size i \<le> iter \<or> k = Suc n" "iter < (k + 1) * segment_size i" by blast
    have "[n..<k] = n # [Suc n..<k]" using k(1) by (simp add: upt_conv_Cons)
    then have "append_segments cp i iter start pending = Some (pending @ map (seg_of cp i) [n..<k], k * segment_size i)"
      using True k(2) new unfolding append_segments.simps [of cp i iter start] by simp
    then show ?thesis using k True n by (intro exI [of _ k]) auto
  next
    case False
    then have "append_segments cp i iter start pending = Some (pending, start)"
      unfolding append_segments.simps [of cp i iter start] by simp
    then show ?thesis using False 1(2) by (intro exI [of _ n]) simp
  qed
qed

lemma arrive_bucket_other:
  assumes "arrive_bucket cp iter i m = Some m'"
  shows "j \<noteq> i \<Longrightarrow> mg_pending m' ! j = mg_pending m ! j"
    and "j \<noteq> i \<Longrightarrow> mg_last_appended m' ! j = mg_last_appended m ! j"
    and "mg_done m' = mg_done m" "mg_provers m' = mg_provers m" "mg_max_threads m' = mg_max_threads m"
    and "length (mg_pending m') = length (mg_pending m)" "length (mg_last_appended m') = length (mg_last_appended m)"
  using assms by (auto simp: arrive_bucket_def)

text \<open>One bucket: the queue grows by whole segments until the next one ends above \<open>iter\<close>.\<close>

lemma arrive_bucket_inv:
  assumes m: "manager_inv good cp count m" and i: "i < count" and iter: "iter \<le> run_limit"
  shows "\<exists>m'. arrive_bucket cp iter i m = Some m' \<and> manager_inv good cp count m' \<and>
    iter < mg_last_appended m' ! i + segment_size i"
proof -
  have b: "bucket_ok cp m j" if "j < count" for j using m that by (simp add: manager_inv_def)
  obtain q n where qn: "q \<le> n" "n * segment_size i \<le> run_limit" "mg_last_appended m ! i = n * segment_size i"
    "mg_pending m ! i = map (seg_of cp i) [q..<n]" "\<forall>p<q. accounted cp m i p"
    using b [OF i] by (auto simp: bucket_ok_def)
  obtain k where k: "k \<ge> n" "append_segments cp i iter (mg_last_appended m ! i) (mg_pending m ! i) =
      Some (mg_pending m ! i @ map (seg_of cp i) [n..<k], k * segment_size i)" "k * segment_size i \<le> iter \<or> k = n"
      "iter < (k + 1) * segment_size i"
    using append_segments_eq [OF iter qn(3), of cp "mg_pending m ! i"] by blast
  obtain m' where m': "arrive_bucket cp iter i m = Some m'" using k(2) by (simp add: arrive_bucket_def)
  note other = arrive_bucket_other [OF m']
  have acc: "accounted cp m j p \<Longrightarrow> accounted cp m' j p" for j p by (simp add: accounted_def other)
  have "map (seg_of cp i) [q..<n] @ map (seg_of cp i) [n..<k] = map (seg_of cp i) [q..<k]"
    using qn(1) k(1) by (metis le_Suc_ex map_append upt_add_eq_append)
  moreover have "i < length (mg_pending m)" "i < length (mg_last_appended m)" using m i by (simp_all add: manager_inv_def)
  ultimately have upd: "mg_last_appended m' ! i = k * segment_size i" "mg_pending m' ! i = map (seg_of cp i) [q..<k]"
    using k(2) qn(4) m' by (auto simp: arrive_bucket_def)
  moreover have "k * segment_size i \<le> run_limit" using k(3) qn(2) iter by auto
  ultimately have bi: "bucket_ok cp m' i"
    unfolding bucket_ok_def using qn(1,5) k(1) acc by (intro exI [of _ q] exI [of _ k]) auto
  have "bucket_ok cp m' j" if "j < count" for j
    using bi bucket_ok_mono [OF b [OF that]] acc by (cases "j = i") (simp_all add: other)
  then have "manager_inv good cp count m'" using m by (simp add: manager_inv_def other)
  then show ?thesis using m' upd(1) k(4) by (auto simp: add.commute)
qed

text \<open>After the buckets every whole segment below the stored iterations has been queued.\<close>

lemma arrivals_inv:
  assumes m: "manager_inv good cp count m" and iter: "iter \<le> run_limit"
  shows "\<exists>m'. arrivals cp iter m = Some m' \<and> manager_inv good cp count m' \<and>
    (\<forall>i<count. iter < mg_last_appended m' ! i + segment_size i)"
proof -
  have l: "length (mg_done m) = count" using m by (simp add: manager_inv_def done_ok_def)
  define P where "P n m' \<longleftrightarrow> manager_inv good cp count m' \<and> (\<forall>i<n. iter < mg_last_appended m' ! i + segment_size i)" for n m'
  have step: "holds True (P (Suc i)) (lift_opt (arrive_bucket cp iter i m'))" if i: "i < count" and p: "P i m'" for i m'
  proof -
    have m': "manager_inv good cp count m'" "\<forall>j<i. iter < mg_last_appended m' ! j + segment_size j"
      using p by (simp_all add: P_def)
    obtain m'' where a: "arrive_bucket cp iter i m' = Some m''" "manager_inv good cp count m''"
        "iter < mg_last_appended m'' ! i + segment_size i"
      using arrive_bucket_inv [OF m'(1) i iter] by blast
    then have "P (Suc i) m''" using m'(2) arrive_bucket_other(2) [OF a(1)] by (auto simp: P_def less_Suc_eq)
    then show ?thesis by (simp add: a(1))
  qed
  have "holds True (P count) (fold_res (\<lambda>i m. lift_opt (arrive_bucket cp iter i m)) [0..<count] m)"
  proof (rule holds_fold)
    show "P 0 m" using m by (simp add: P_def)
  qed (rule step)
  then have "holds True (P count) (lift_opt (arrivals cp iter m))" by (simp only: arrivals_def l fold_opt_res)
  from holds_total [OF this] show ?thesis by (auto simp: P_def lift_opt_ret_iff)
qed

subsection \<open>Scheduling keeps it\<close>

lemma prover_ok_flag:
  assumes "prover_ok good cp count (t, s)" and "f = pause \<or> f = resume"
  shows "prover_ok good cp count (f t, s)"
proof -
  have "control_step t (f t)" using assms by (auto simp: prover_ok_def intro: control_step.intros)
  then show ?thesis using assms thread_inv_control by (fastforce simp: prover_ok_def thread_defs)
qed

lemma map_prover_inv:
  assumes m: "manager_inv good cp count m" and i: "i < length (mg_provers m)" and f: "f = pause \<or> f = resume"
  shows "manager_inv good cp count (map_prover f i m)" (is "manager_inv _ _ _ ?m")
proof -
  have s: "snd ` set (mg_provers ?m) = snd ` set (mg_provers m)" using map_prover_segments [OF i] by (metis list.set_map)
  have acc: "accounted cp m j p \<Longrightarrow> accounted cp ?m j p" for j p
    unfolding accounted_def map_prover_simps by (metis (no_types, lifting) image_iff s)
  have ok: "\<forall>x\<in>set (mg_provers m). prover_ok good cp count x" using m by (simp add: manager_inv_def)
  obtain t s where ts: "mg_provers m ! i = (t, s)" by fastforce
  have "prover_ok good cp count (t, s)" using ok nth_mem [OF i] by (simp add: ts)
  then have "prover_ok good cp count (apfst f (mg_provers m ! i))" using prover_ok_flag [OF _ f] by (simp add: ts)
  moreover have "set (mg_provers ?m) \<subseteq> insert (apfst f (mg_provers m ! i)) (set (mg_provers m))"
    using set_update_subset_insert by (simp add: map_prover_def)
  ultimately have "\<forall>x\<in>set (mg_provers ?m). prover_ok good cp count x" using ok by blast
  moreover have "bucket_ok cp ?m j" if "j < count" for j
  proof -
    have "bucket_ok cp m j" using m that by (simp add: manager_inv_def)
    then show ?thesis by (rule bucket_ok_mono) (simp_all add: acc)
  qed
  ultimately show ?thesis using m by (simp add: manager_inv_def)
qed

lemma thread_start_ok: "i < count \<Longrightarrow> is_segment cp i p s \<Longrightarrow> prover_ok good cp count (thread_start, s)"
  using thread_inv_start by (auto simp: prover_ok_def) (auto simp: thread_start_def)

lemma spawn_inv:
  assumes m: "manager_inv good cp count m" and c: "candidate_ok m best c"
  shows "manager_inv good cp count (spawn best c m)"
proof (cases c)
  case (Paused i)
  then show ?thesis using map_prover_inv [OF m, of i resume] c by (simp add: spawn_def candidate_ok_def)
next
  case (Pending i)
  have i: "i < count" "i \<le> 14" "mg_pending m ! i \<noteq> []" "best = hd (mg_pending m ! i)" "i < length (mg_pending m)"
    using m c Pending by (auto simp: manager_inv_def candidate_ok_def)
  obtain q n where qn: "q \<le> n" "n * segment_size i \<le> run_limit" "mg_last_appended m ! i = n * segment_size i"
    "mg_pending m ! i = map (seg_of cp i) [q..<n]" "\<forall>p<q. accounted cp m i p"
    using m i by (auto simp: manager_inv_def bucket_ok_def)
  have q: "q < n" using i(3) qn(1,4) by (cases "q < n") auto
  then have u: "[q..<n] = q # [Suc q..<n]" by (simp add: upt_conv_Cons)
  let ?m = "spawn best c m"
  have fields: "mg_pending ?m = (mg_pending m)[i := map (seg_of cp i) [Suc q..<n]]" "best = seg_of cp i q"
    "mg_provers ?m = mg_provers m @ [(thread_start, seg_of cp i q)]"
    using Pending i(4) qn(4) u by (simp_all add: spawn_def)
  have "(q + 1) * segment_size i \<le> n * segment_size i" using q by (intro mult_right_mono) auto
  then have sq: "is_segment cp i q (seg_of cp i q)" using seg_of_is_segment [OF i(2)] qn(2) by (meson order_trans)
  have acc: "accounted cp ?m j p" if "accounted cp m j p \<or> j = i \<and> p = q" for j p
  proof -
    have "set (mg_provers ?m) = insert (thread_start, seg_of cp i q) (set (mg_provers m))" unfolding fields(3) by auto
    then show ?thesis using that sq unfolding accounted_def spawn_simps by fastforce
  qed
  have "\<forall>p<Suc q. accounted cp ?m i p" using qn(5) acc by (auto simp: less_Suc_eq)
  moreover have "mg_pending ?m ! i = map (seg_of cp i) [Suc q..<n]" unfolding fields(1) using i(5) by simp
  moreover have "mg_last_appended ?m ! i = n * segment_size i" using qn(3) by simp
  ultimately have bi: "bucket_ok cp ?m i"
    unfolding bucket_ok_def using qn(2) q by (intro exI [of _ "Suc q"] exI [of _ n]) simp
  have "bucket_ok cp ?m j" if "j < count" for j
  proof (cases "j = i")
    case False
    have "bucket_ok cp m j" using m that by (simp add: manager_inv_def)
    then show ?thesis
    proof (rule bucket_ok_mono)
      show "mg_pending ?m ! j = mg_pending m ! j" unfolding fields(1) using False by simp
    qed (use acc in simp_all)
  qed (use bi in simp)
  moreover have "\<forall>x\<in>set (mg_provers ?m). prover_ok good cp count x"
  proof -
    have "\<forall>x\<in>set (mg_provers m). prover_ok good cp count x" using m by (simp add: manager_inv_def)
    then show ?thesis unfolding fields(3) using thread_start_ok [OF i(1) sq] by simp
  qed
  moreover have "length (mg_pending ?m) = count" unfolding fields(1) using m by (simp add: manager_inv_def)
  ultimately show ?thesis using m by (simp add: manager_inv_def)
qed

lemma sched_move_inv: "sched_move m m' \<Longrightarrow> manager_inv good cp count m \<Longrightarrow> manager_inv good cp count m'"
  using spawn_inv map_prover_inv pause_candidate by (fastforce simp: sched_move_def)

lemma sched_moves_inv: "sched_move\<^sup>*\<^sup>* m m' \<Longrightarrow> manager_inv good cp count m \<Longrightarrow> manager_inv good cp count m'"
  by (induction rule: rtranclp_induct) (auto intro: sched_move_inv)

subsection \<open>A round of the event loop\<close>

lemma advance_fields [simp]:
  "mg_provers (advance small m) = mg_provers m" "mg_done (advance small m) = mg_done m"
  "mg_pending (advance small m) = mg_pending m" "mg_last_appended (advance small m) = mg_last_appended m"
  "mg_max_threads (advance small m) = mg_max_threads m"
  by (simp_all add: advance_def Let_def split: list.splits)

lemma manager_inv_fields:
  assumes "manager_inv good cp count m" and "mg_provers m' = mg_provers m" and "mg_done m' = mg_done m"
    and "mg_pending m' = mg_pending m" and "mg_last_appended m' = mg_last_appended m" and "mg_max_threads m \<le> mg_max_threads m'"
  shows "manager_inv good cp count m'"
  using assms by (auto simp: manager_inv_def bucket_ok_def accounted_def)

lemma collect_inv:
  assumes m: "manager_inv good cp count m"
  shows "\<exists>ps done small. collect_finished (mg_provers m) (mg_done m) False = Some (ps, done, small) \<and>
    manager_inv good cp count (m\<lparr>mg_provers := ps, mg_done := done\<rparr>)"
proof -
  have ok: "done_ok good cp count (mg_done m)" "\<forall>x\<in>set (mg_provers m). prover_ok good cp count x"
    using m by (simp_all add: manager_inv_def)
  obtain ps "done" small where c: "collect_finished (mg_provers m) (mg_done m) False = Some (ps, done, small)"
      "done_ok good cp count done" "\<forall>x\<in>set ps. prover_ok good cp count x" "\<forall>j q. has (mg_done m) j q \<longrightarrow> has done j q"
      "\<forall>x\<in>set (mg_provers m). \<forall>i<count. \<forall>p. is_segment cp i p (snd x) \<longrightarrow> has done i p \<or> (\<exists>y\<in>set ps. is_segment cp i p (snd y))"
    using collect_finished_ok [OF ok, of False] by blast
  let ?m = "m\<lparr>mg_provers := ps, mg_done := done\<rparr>"
  have "accounted cp ?m i p" if "i < count" "accounted cp m i p" for i p
    using that c(4,5) unfolding accounted_def by simp blast
  then have "bucket_ok cp ?m i" if "i < count" for i
  proof -
    have "bucket_ok cp m i" using m that by (simp add: manager_inv_def)
    then show ?thesis by (rule bucket_ok_mono) (use that \<open>\<And>i p. i < count \<Longrightarrow> accounted cp m i p \<Longrightarrow> accounted cp ?m i p\<close> in simp_all)
  qed
  then have "manager_inv good cp count ?m" using m c(2,3) by (simp add: manager_inv_def)
  then show ?thesis using c(1) by blast
qed

lemma sched_moves_last: "sched_move\<^sup>*\<^sup>* m m' \<Longrightarrow> mg_last_appended m' = mg_last_appended m"
  by (induction rule: rtranclp_induct) (auto simp: sched_move_def)

text \<open>A round returns, keeps the invariant, has queued every whole segment below the stored
  iterations, and leaves the best segments running.\<close>

lemma event_step_inv:
  assumes m: "manager_inv good cp count m" and iter: "stored \<le> run_limit"
  shows "\<exists>m'. event_step multi cp iterations stored m = Some m' \<and> manager_inv good cp count m' \<and> well_scheduled m' \<and>
    (\<forall>i<count. stored < mg_last_appended m' ! i + segment_size i)"
proof -
  let ?m = "more_threads multi (m\<lparr>mg_vdf_iteration := iterations\<rparr>)"
  have "manager_inv good cp count ?m"
    by (rule manager_inv_fields [OF m]) (simp_all add: more_threads_def)
  from collect_inv [OF this] obtain ps "done" small where
    c: "collect_finished (mg_provers ?m) (mg_done ?m) False = Some (ps, done, small)"
    and i1: "manager_inv good cp count (?m\<lparr>mg_provers := ps, mg_done := done\<rparr>)" by blast
  let ?b = "advance small (?m\<lparr>mg_provers := ps, mg_done := done\<rparr>)"
  have "manager_inv good cp count ?b" by (rule manager_inv_fields [OF i1]) simp_all
  from arrivals_inv [OF this iter] obtain a where a: "arrivals cp stored ?b = Some a" "manager_inv good cp count a"
    "\<forall>i<count. stored < mg_last_appended a ! i + segment_size i" by blast
  then have thr: "0 < mg_max_threads a" by (simp add: manager_inv_def)
  obtain m' where m': "schedule a (active_provers a) = Some m'" "sched_move\<^sup>*\<^sup>* a m'" "well_scheduled m'"
    using schedule_returns [OF manager_inv_live [OF a(2)] thr] by blast
  have "event_step multi cp iterations stored m = Some m'" using c m'(1) a(1) by (simp add: event_step_def Let_def)
  then show ?thesis using m' sched_moves_inv [OF m'(2) a(2)] a(3) sched_moves_last [OF m'(2)] by auto
qed

text \<open>Where a queued segment is.\<close>

lemma manager_accounts:
  assumes m: "manager_inv good cp count m" and i: "i < count" and p: "(p + 1) * segment_size i \<le> mg_last_appended m ! i"
  shows "accounted cp m i p \<or> seg_of cp i p \<in> set (mg_pending m ! i)"
proof -
  obtain q n where qn: "q \<le> n" "mg_last_appended m ! i = n * segment_size i" "mg_pending m ! i = map (seg_of cp i) [q..<n]"
      "\<forall>p<q. accounted cp m i p"
    using m i by (auto simp: manager_inv_def bucket_ok_def)
  have "p + 1 \<le> n" using p segment_size_pos [of i] unfolding qn(2) by (metis mult_le_cancel2)
  then show ?thesis using qn by (cases "p < q") auto
qed

end
