(* ===== verification/ManagerProof.thy ===== *)
theory ManagerProof
  imports ManagerInv
begin

section \<open>What the prover manager proves\<close>

text \<open>
  The manager as a system: rounds of the event loop, steps of the proving threads and requests
  interleave freely.  From its invariant: finished segments carry right proofs, the
  iterations announced as provable are covered by at most 63 finished segments, and the bytes
  \<open>Prove\<close> returns are accepted by the verifier, under two provisos the code does not enforce.
  The provers must not lag: a form is read before its cell is written again, 20 segments later;
  \<open>vdf.h\<close> only prints a warning.  And the segments \<open>Prove\<close> picks must be finished: it does not
  test \<open>is_empty\<close> as the event loop does, and takes the placeholder of a segment whose
  successor was finished first.
\<close>

subsection \<open>The system\<close>

text \<open>A prover reads exponent \<open>e\<close> of bucket \<open>b\<close> in time: it has been reported, and nothing 20
  segments further has been written.  Without storage workers the callback is as the squaring
  loop leaves it after some pass; with them it is as they left it in some interleaving in which no
  worker lags either.\<close>

definition loop_read ::
  "gcdext \<Rightarrow> (form \<Rightarrow> form option) \<Rightarrow> fast_engine \<Rightarrow> int \<Rightarrow> form \<Rightarrow> nat \<Rightarrow> nat \<Rightarrow> fast_weso \<Rightarrow> bool" where
  "loop_read G red fast D x b e w \<longleftrightarrow>
     (\<exists>segments w0 p s. 0 < segments \<and> segments \<le> 15 \<and> FastAlgorithmCallback segments x False = Some w0 \<and>
        p * (checkpoint_interval + 99) + checkpoint_interval < checkpoint_space * 2 ^ 16 \<and>
        repeated_square G red fast False D p (rs_init x (Fast w0)) = Some s \<and> rs_weso s = Fast w \<and>
        b < fw_segments w \<and> e \<le> rs_reported s \<and> rs_iterations s < (e div power_2 b + 20) * power_2 b)"

definition storage_read ::
  "gcdext \<Rightarrow> (form \<Rightarrow> form option) \<Rightarrow> int \<Rightarrow> form \<Rightarrow> nat \<Rightarrow> nat \<Rightarrow> fast_weso \<Rightarrow> bool" where
  "storage_read G red D x b e w \<longleftrightarrow>
     (\<exists>segments w0 m lag s. 0 < segments \<and> segments \<le> 15 \<and> FastAlgorithmCallback segments x True = Some w0 \<and>
        storage_reachable G red D x w0 m lag s \<and> lag \<le> worker_window \<and> fs_weso s = w \<and>
        b < fw_segments w \<and> e < fs_iter s \<and> m < (e div power_2 b + 20) * power_2 b)"

definition proved_in_time ::
  "gcdext \<Rightarrow> (byte list \<Rightarrow> byte list) \<Rightarrow> (int \<Rightarrow> bool) \<Rightarrow> (form \<Rightarrow> form option) \<Rightarrow> fast_engine \<Rightarrow> int \<Rightarrow> form \<Rightarrow>
   segment \<Rightarrow> form \<Rightarrow> bool" where
  "proved_in_time G H P red fast D x s f \<longleftrightarrow> (\<exists>go W. InterruptableProver G H P pulmark_reduce go W s D = ret f \<and>
     (\<forall>e. unat (seg_start s) \<le> e \<longrightarrow> e < unat (seg_start s) + unat (seg_length s) \<longrightarrow>
        loop_read G red fast D x (fst (GetSegmentBucket s)) e (W e) \<or>
        storage_read G red D x (fst (GetSegmentBucket s)) e (W e)))"

lemma loop_read_snapshot:
  assumes D: "prime_disc D" and G: "gcdext_ok G" and x: "posdef D x" "is_reduced x" and red: "reducer_sound red"
    and fast: "fast_spec D fast" and rd: "loop_read G red fast D x b e w"
  shows "fast_snapshot D x b e w"
proof -
  obtain segments w0 p s where seg: "0 < segments" "segments \<le> 15" and w0: "FastAlgorithmCallback segments x False = Some w0"
    and p: "p * (checkpoint_interval + 99) + checkpoint_interval < checkpoint_space * 2 ^ 16"
    and s: "repeated_square G red fast False D p (rs_init x (Fast w0)) = Some s" and w: "rs_weso s = Fast w"
    and e: "b < fw_segments w" "e \<le> rs_reported s" "rs_iterations s < (e div power_2 b + 20) * power_2 b"
    using rd by (auto simp: loop_read_def)
  have new: "new_callback approx x False (Fast w0)" for approx using seg w0 by (auto simp: new_callback_def)
  have "holds False (loop_inv D x (Fast w0) False) (lift_opt (repeated_square G red fast False D p (rs_init x (Fast w0))))"
    by (rule repeated_square_inv [OF D G x(1) fast red, of False "Fast w0" False "rs_init x (Fast w0)" p, OF _ _
          callback_start [OF D x new] loop_init_bound [OF p]]) simp_all
  then have inv: "loop_inv D x (Fast w0) False s" using s by simp
  then have "rs_reported s \<le> rs_iterations s" "fast_frame w = fast_frame w0"
    using w by (auto simp: loop_inv_def loop_core_def weso_kind_def)
  moreover have "\<not> fw_multi w0" using w0 by (auto simp: FastAlgorithmCallback_def Let_def Option.bind_eq_Some_conv split: if_splits)
  ultimately show ?thesis using loop_fast_snapshot [OF inv w _ e(1) _ e(3)] e(2) by (simp add: fast_frame_def)
qed

lemma storage_read_snapshot:
  assumes D: "good_disc D" and G: "gcdext_ok G" and x: "posdef D x" and red: "reducer_sound red"
    and rd: "storage_read G red D x b e w"
  shows "fast_snapshot D x b e w"
proof -
  obtain segments w0 m lag s where seg: "0 < segments" "segments \<le> 15" and w0: "FastAlgorithmCallback segments x True = Some w0"
    and s: "storage_reachable G red D x w0 m lag s" "lag \<le> worker_window" "fs_weso s = w"
    and e: "b < fw_segments w" "e < fs_iter s" "m < (e div power_2 b + 20) * power_2 b"
    using rd by (auto simp: storage_read_def)
  have inv: "storage_inv D x m s" by (rule storage_reachable_inv [OF s(1) D G x red seg w0 s(2)])
  then have "passed s e" using e(2) by (auto simp: storage_inv_def passed_def)
  from storage_snapshot [OF inv this] e s(3) show ?thesis by blast
qed

text \<open>\<open>cp\<close> is the array of checkpoints as the squaring loop fills it; the event loop reads only
  cells that are filled.\<close>

inductive manager_reachable :: "(segment \<Rightarrow> form \<Rightarrow> bool) \<Rightarrow> (nat \<Rightarrow> form) \<Rightarrow> nat \<Rightarrow> nat \<Rightarrow> manager \<Rightarrow> bool"
  for pr :: "segment \<Rightarrow> form \<Rightarrow> bool" and cp :: "nat \<Rightarrow> form" and count :: nat and threads :: nat where
  start: "manager_reachable pr cp count threads (ProverManager count threads)"
| event: "manager_reachable pr cp count threads m \<Longrightarrow> stored \<le> run_limit \<Longrightarrow>
    event_step multi cp iterations stored m = Some m' \<Longrightarrow> manager_reachable pr cp count threads m'"
| work: "manager_reachable pr cp count threads m \<Longrightarrow> i < length (mg_provers m) \<Longrightarrow> mg_provers m ! i = (t, s) \<Longrightarrow>
    worker_step t t' \<Longrightarrow> (\<And>f. thread_proof t' = Some f \<Longrightarrow> thread_proof t = Some f \<or> pr s f) \<Longrightarrow>
    manager_reachable pr cp count threads (m\<lparr>mg_provers := (mg_provers m)[i := (t', s)]\<rparr>)"
| request: "manager_reachable pr cp count threads m \<Longrightarrow> manager_reachable pr cp count threads (request n m)"

lemma worker_step_control: "worker_step t t' \<Longrightarrow> control t' = control t"
  by (elim worker_stepE) (auto simp: thread_defs)

lemma work_inv:
  assumes m: "manager_inv good cp count m" and i: "i < length (mg_provers m)" and ts: "mg_provers m ! i = (t, s)"
    and st: "worker_step t t'" and f: "\<And>f. thread_proof t' = Some f \<Longrightarrow> thread_proof t = Some f \<or> pr s f"
    and good: "\<And>i p s f. is_segment cp i p s \<Longrightarrow> pr s f \<Longrightarrow> good (s\<lparr>seg_proof := f\<rparr>)"
  shows "manager_inv good cp count (m\<lparr>mg_provers := (mg_provers m)[i := (t', s)]\<rparr>)" (is "manager_inv _ _ _ ?m")
proof -
  have all: "\<forall>x\<in>set (mg_provers m). prover_ok good cp count x" using m by (simp add: manager_inv_def)
  have ok: "prover_ok good cp count (t, s)" using all nth_mem [OF i] by (simp add: ts)
  then obtain j p where jp: "j < count" "is_segment cp j p s" by (auto simp: prover_ok_def)
  have "thread_inv t'" "control t' = Controlling"
    using ok thread_inv_worker [OF st] worker_step_control [OF st] by (simp_all add: prover_ok_def)
  moreover have "good (s\<lparr>seg_proof := g\<rparr>)" if "thread_proof t' = Some g" for g
    using f [OF that] good [OF jp(2)] ok by (auto simp: prover_ok_def)
  ultimately have new: "prover_ok good cp count (t', s)" using jp by (auto simp: prover_ok_def)
  have "\<forall>x\<in>set (mg_provers ?m). prover_ok good cp count x"
    using all new set_update_subset_insert [of "mg_provers m" i "(t', s)"] by fastforce
  moreover have "map snd (mg_provers ?m) = map snd (mg_provers m)" using i ts by (simp add: map_update list_update_same_conv)
  then have "snd ` set (mg_provers ?m) = snd ` set (mg_provers m)" by (metis list.set_map)
  then have acc: "accounted cp m j p \<Longrightarrow> accounted cp ?m j p" for j p
    unfolding accounted_def by (metis (no_types, lifting) image_iff manager.simps(5) manager.surjective manager.update_convs(2))
  have "bucket_ok cp ?m j" if "j < count" for j
  proof -
    have "bucket_ok cp m j" using m that by (simp add: manager_inv_def)
    then show ?thesis by (rule bucket_ok_mono) (simp_all add: acc)
  qed
  ultimately show ?thesis using m by (simp add: manager_inv_def)
qed

lemma manager_reachable_inv:
  assumes "manager_reachable pr cp count threads m" and "count \<le> 15" and "0 < threads"
    and good: "\<And>i p s f. is_segment cp i p s \<Longrightarrow> pr s f \<Longrightarrow> good (s\<lparr>seg_proof := f\<rparr>)"
  shows "manager_inv good cp count m"
  using assms(1)
proof induction
  case start
  show ?case using assms(2,3) by (rule manager_inv_start)
next
  case (event m stored multi iterations m')
  then show ?case using event_step_inv [OF event.IH event(2), of multi iterations] by simp
next
  case (work m i t s t')
  show ?case by (rule work_inv [where pr = pr, OF work.IH work(2-4)]) (use work(5) good in blast)+
next
  case (request m n)
  show ?case by (rule manager_inv_fields [OF request.IH]) (simp_all add: request_def)
qed

subsection \<open>A proving thread proves its segment\<close>

definition checkpoints_ok :: "int \<Rightarrow> form \<Rightarrow> (nat \<Rightarrow> form) \<Rightarrow> bool" where
  "checkpoints_ok D x cp \<longleftrightarrow> (\<forall>c<checkpoint_space. pw D x (2 ^ (c * 2 ^ 16)) (cp c))"

lemma size_div: "p * segment_size i div 2 ^ 16 * 2 ^ 16 = p * segment_size i"
  by (rule dvd_div_mult_self) (simp add: segment_size_def power_add)

lemma checkpoint_at:
  assumes "checkpoints_ok D x cp" and "n * segment_size i \<le> run_limit"
  shows "pw D x (2 ^ (n * segment_size i)) (cp (n * segment_size i div 2 ^ 16))"
proof -
  have "n * segment_size i div 2 ^ 16 < checkpoint_space" by (rule run_limit_index [OF assms(2)])
  from assms(1) [unfolded checkpoints_ok_def, rule_format, OF this] show ?thesis unfolding size_div .
qed

lemma segment_ends:
  assumes D: "good_disc D" and x: "posdef D x" and cp: "checkpoints_ok D x cp" and s: "is_segment cp i p s"
  shows "pw D x (2 ^ (p * segment_size i)) (seg_x s)" and "pw D (seg_x s) (2 ^ seg_len s) (seg_y s)" and "posdef D (seg_x s)"
proof -
  note f = is_segment_fields [OF s]
  have le: "(p + 1) * segment_size i \<le> run_limit" using s by (simp add: is_segment_def)
  then have le': "p * segment_size i \<le> run_limit" by simp
  show a: "pw D x (2 ^ (p * segment_size i)) (seg_x s)" unfolding f(4) by (rule checkpoint_at [OF cp le'])
  have "pw D x (2 ^ ((p + 1) * segment_size i)) (seg_y s)" unfolding f(5) by (rule checkpoint_at [OF cp le])
  then have "pw D x (2 ^ (p * segment_size i + segment_size i)) (seg_y s)" by (simp add: add.commute)
  from pw_shift [OF D x a this] show "pw D (seg_x s) (2 ^ seg_len s) (seg_y s)" by (simp add: seg_len_def f(2))
  show "posdef D (seg_x s)" using a by (simp add: pw_def)
qed

lemma prover_honest:
  assumes D: "good_disc D" and G: "gcdext_ok G" and x: "posdef D x" and cp: "checkpoints_ok D x cp"
    and s: "is_segment cp i p s" and W: "InterruptableProver G H P pulmark_reduce go W s D = ret f"
    and snap: "\<forall>e. p * segment_size i \<le> e \<longrightarrow> e < p * segment_size i + segment_size i \<longrightarrow> fast_snapshot D x i e (W e)"
  shows "honest_segment H P D (s\<lparr>seg_proof := f\<rparr>)"
proof -
  note fs = is_segment_fields [OF s] and ends = segment_ends [OF D x cp s]
  let ?k = "interruptable_k (segment_size i)" and ?l = "interruptable_l (segment_size i)"
  have sz: "segment_size i = 2 ^ (16 + 2 * i)" by (simp add: segment_size_def)
  note kl = interruptable_kl [OF sz]
  have i: "i \<le> 14" using s by (simp add: is_segment_def)
  have gp: "GenerateProof G H P pulmark_reduce go (interruptable_form W (p * segment_size i) i ?k ?l) s D ?k ?l = ret f"
    using W by (simp add: InterruptableProver_def segment_bucket [OF s] fs(1,2) Let_def)
  have st: "stored_powers D (seg_x s) ?k ?l (seg_len s) (interruptable_form W (p * segment_size i) i ?k ?l)"
    unfolding seg_len_def fs(2)
  proof (rule interruptable_stored_powers [OF D x _ _ ends(1) _ kl(1)])
    show "segment_size i = power_2 i" "p * segment_size i mod power_2 i = 0" by (simp_all add: segment_size_def power_2_def)
  qed (use snap in blast)
  have "?k * ?l < 2 ^ 31" using bucket_kl_int [of i] i unfolding kl(1) by simp
  moreover have "segment_size i < 2 ^ 63" using segment_size_14 [OF i] by (rule le_less_trans) simp
  ultimately have fit: "indices_fit ?k ?l (seg_len s)"
    unfolding seg_len_def fs(2) by (intro indices_fitI) (use kl(3,4) in simp_all)
  show ?thesis by (rule proved_segment [OF D G pulmark.reducer_sound_axioms ends(3,2) kl(3,4,2) fit st gp])
qed

lemma in_time_honest:
  assumes D: "prime_disc D" and G: "gcdext_ok G" and x: "posdef D x" "is_reduced x" and red: "reducer_sound red"
    and fast: "fast_spec D fast" and cp: "checkpoints_ok D x cp"
    and s: "is_segment cp i p s" and pr: "proved_in_time G H P red fast D x s f"
  shows "honest_segment H P D (s\<lparr>seg_proof := f\<rparr>)"
proof -
  note good = prime_disc_good [OF D]
  obtain go W where W: "InterruptableProver G H P pulmark_reduce go W s D = ret f"
    and rd: "\<forall>e. p * segment_size i \<le> e \<longrightarrow> e < p * segment_size i + segment_size i \<longrightarrow>
      loop_read G red fast D x i e (W e) \<or> storage_read G red D x i e (W e)"
    using pr by (auto simp: proved_in_time_def segment_bucket [OF s] is_segment_fields(1,2) [OF s])
  show ?thesis
    by (rule prover_honest [OF good G x(1) cp s W])
      (use rd loop_read_snapshot [OF D G x red fast] storage_read_snapshot [OF good G x(1) red] in blast)
qed

text \<open>Every reachable state of the manager satisfies the invariant with right proofs.\<close>

lemma manager_honest:
  assumes "prime_disc D" and "gcdext_ok G" and "posdef D x" and "is_reduced x" and "reducer_sound red" and "fast_spec D fast"
    and "checkpoints_ok D x cp" and pr: "\<forall>s f. pr s f \<longrightarrow> proved_in_time G H P red fast D x s f"
    and "manager_reachable pr cp count threads m" and "count \<le> 15" and "0 < threads"
  shows "manager_inv (honest_segment H P D) cp count m"
  by (rule manager_reachable_inv [OF assms(9-11)]) (use pr in_time_honest [OF assms(1-7)] in blast)

subsection \<open>Chains of finished segments\<close>

fun covers :: "segment list list \<Rightarrow> nat \<Rightarrow> segment list \<Rightarrow> nat \<Rightarrow> bool" where
  "covers done a [] b \<longleftrightarrow> a = b"
| "covers done a (s # ss) b \<longleftrightarrow> (\<exists>i<length done. a mod segment_size i = 0 \<and> a div segment_size i < length (done ! i) \<and>
     s = done ! i ! (a div segment_size i) \<and> covers done (a + segment_size i) ss b)"

lemma covers_append: "covers done a (ss @ ts) c \<longleftrightarrow> (\<exists>b. covers done a ss b \<and> covers done b ts c)"
proof (induction ss arbitrary: a)
  case (Cons s ss)
  have ex: "(\<exists>i<n. Q i \<and> (\<exists>b. X i b \<and> Y b)) \<longleftrightarrow> (\<exists>b. (\<exists>i<n. Q i \<and> X i b) \<and> Y b)" for n :: nat and Q X Y by blast
  show ?case unfolding append_Cons covers.simps Cons.IH
    using ex [of "length done" "\<lambda>i. a mod segment_size i = 0 \<and> a div segment_size i < length (done ! i) \<and> s = done ! i ! (a div segment_size i)"
        "\<lambda>i b. covers done (a + segment_size i) ss b" "\<lambda>b. covers done b ts c"]
    by (simp only: conj_assoc)
qed simp

lemma covers_one:
  assumes "i < length done" and "pos < length (done ! i)"
  shows "covers done (pos * segment_size i) [done ! i ! pos] (Suc pos * segment_size i)"
  using assms by (auto simp: add.commute)

lemma take_segments_covers:
  assumes "i < length done" and "take_segments (segment_size i) n (drop pos (done ! i)) (segs, pos * segment_size i) = (r, b)"
    and "covers done 0 segs (pos * segment_size i)" and "pos * segment_size i \<le> n"
  shows "covers done 0 r b \<and> b mod segment_size i = 0 \<and> b \<le> n"
  using assms(2-4)
proof (induction "drop pos (done ! i)" arbitrary: pos segs)
  case (Cons s ss)
  have l: "pos < length (done ! i)" "s = done ! i ! pos" "ss = drop (Suc pos) (done ! i)"
    using Cons.hyps(2) by (metis drop_all linorder_not_less list.distinct(1), metis nth_via_drop, metis drop_Suc_Cons drop_drop drop0 plus_1_eq_Suc drop_Suc tl_drop list.sel(3))
  show ?case
  proof (cases "pos * segment_size i + segment_size i \<le> n")
    case True
    have "covers done 0 (segs @ [s]) (Suc pos * segment_size i)"
      using Cons.prems(2) covers_one [OF assms(1) l(1)] by (auto simp: covers_append l(2) simp del: covers.simps)
    moreover have "take_segments (segment_size i) n (drop (Suc pos) (done ! i)) (segs @ [s], Suc pos * segment_size i) = (r, b)"
      using Cons.prems(1) True unfolding Cons.hyps(2) [symmetric] by (simp add: l(3) add.commute)
    ultimately show ?thesis using Cons.hyps(1) [OF l(3)] True by (simp add: add.commute)
  next
    case False
    then have "segs = r" "b = pos * segment_size i" using Cons.prems(1) unfolding Cons.hyps(2) [symmetric] by simp_all
    then show ?thesis using Cons.prems by simp
  qed
next
  case Nil
  then have "segs = r" "b = pos * segment_size i" by (simp_all add: Nil.hyps [symmetric])
  then show ?case using Nil.prems by simp
qed

lemma segment_size_mod: "i \<le> j \<Longrightarrow> n mod segment_size j = 0 \<Longrightarrow> n mod segment_size i = 0"
proof -
  assume ij: "i \<le> j" and n: "n mod segment_size j = 0"
  have "segment_size i dvd segment_size j" unfolding segment_size_def using ij by (intro le_imp_power_dvd) simp
  then show "n mod segment_size i = 0" using n by (metis dvd_imp_mod_0 dvd_trans mod_0_imp_dvd)
qed

lemma collect_covers_aux:
  assumes "k \<le> length done" and "covers done 0 (fst r) (snd r)" and "k = 0 \<or> snd r mod segment_size (k - 1) = 0" and "snd r \<le> n"
  shows "covers done 0 (fst (fold (take_bucket n done) (rev [0..<k]) r)) (snd (fold (take_bucket n done) (rev [0..<k]) r)) \<and>
    snd (fold (take_bucket n done) (rev [0..<k]) r) \<le> n \<and>
    (0 < k \<longrightarrow> snd (fold (take_bucket n done) (rev [0..<k]) r) mod 2 ^ 16 = 0)"
  using assms
proof (induction k arbitrary: r)
  case (Suc k)
  obtain segs a where r: "r = (segs, a)" by (cases r)
  let ?pos = "a div segment_size k"
  have a: "a = ?pos * segment_size k" using Suc.prems(3) by (simp add: r mod_0_imp_dvd)
  obtain segs' b where t: "take_bucket n done k r = (segs', b)" by fastforce
  then have "take_segments (segment_size k) n (drop ?pos (done ! k)) (segs, ?pos * segment_size k) = (segs', b)"
    using a by (simp add: take_bucket_def r)
  from take_segments_covers [OF _ this] have c: "covers done 0 segs' b" "b mod segment_size k = 0" "b \<le> n"
    using Suc.prems a by (simp_all add: r)
  have "b mod segment_size (k - 1) = 0" by (rule segment_size_mod [OF _ c(2)]) simp
  then have "covers done 0 (fst (fold (take_bucket n done) (rev [0..<k]) (segs', b)))
      (snd (fold (take_bucket n done) (rev [0..<k]) (segs', b))) \<and> snd (fold (take_bucket n done) (rev [0..<k]) (segs', b)) \<le> n \<and>
      (0 < k \<longrightarrow> snd (fold (take_bucket n done) (rev [0..<k]) (segs', b)) mod 2 ^ 16 = 0)"
    using Suc.IH [of "(segs', b)"] c Suc.prems(1) by simp
  moreover have "b mod 2 ^ 16 = 0" using segment_size_mod [OF _ c(2), of 0] by (simp add: segment_size_def)
  ultimately show ?case using t by (cases "k = 0") (simp_all add: fold_Cons)
qed simp

lemma collect_covers:
  assumes "collect_segments done n = (segs, proved)" and "done \<noteq> []"
  shows "covers done 0 segs proved \<and> proved \<le> n \<and> proved mod 2 ^ 16 = 0"
  using collect_covers_aux [of "length done" "done" "([], 0)" n] assms by (simp add: collect_segments_def)

subsection \<open>The bytes of \<open>Prove\<close>\<close>

lemma covered_chain:
  assumes D: "good_disc D" and x: "posdef D x" and cp: "checkpoints_ok D x cp"
    and d: "done_ok (honest_segment H P D) cp count done" and ne: "\<forall>s\<in>set ss. \<not> seg_empty s"
    and c: "covers done a ss b" and a: "a mod 2 ^ 16 = 0"
  shows "honest_chain H P D (cp (a div 2 ^ 16)) ss (cp (b div 2 ^ 16)) \<and> a + total_len ss = b \<and> b mod 2 ^ 16 = 0"
  using c a ne
proof (induction ss arbitrary: a)
  case Nil
  then show ?case by (simp add: same_class_refl total_len_def)
next
  case (Cons s ss)
  obtain i where i: "i < length done" "a mod segment_size i = 0" "a div segment_size i < length (done ! i)"
      "s = done ! i ! (a div segment_size i)" "covers done (a + segment_size i) ss b"
    using Cons.prems(1) by auto
  let ?p = "a div segment_size i"
  have a: "?p * segment_size i = a" using i(2) by auto
  have "has done i ?p" using i Cons.prems(3) by (simp add: has_def)
  then have s: "is_segment cp i ?p s" "honest_segment H P D s" using d i by (auto simp: done_ok_def)
  note f = is_segment_fields [OF s(1)]
  have e: "a + segment_size i = (?p + 1) * segment_size i" by (simp add: a)
  have "(a + segment_size i) mod 2 ^ 16 = 0" unfolding e
    using segment_size_mod [of 0 i "(?p + 1) * segment_size i"] by (simp add: segment_size_def)
  from Cons.IH [OF i(5) this] Cons.prems(3)
  have IH: "honest_chain H P D (seg_y s) ss (cp (b div 2 ^ 16))" "a + segment_size i + total_len ss = b" "b mod 2 ^ 16 = 0"
    unfolding f(5) e by simp_all
  have "seg_x s = cp (a div 2 ^ 16)" unfolding f(4) a ..
  then show ?case using IH s(2) f(2) by (simp add: same_class_refl total_len_def seg_len_def)
qed

lemma last_segment_honest:
  assumes D: "good_disc D" and G: "gcdext_ok G" and red: "reducer_sound red"
    and c: "posdef D (cp (n div 2 ^ 16))" and r: "last_segment G H P red approx go cp D n = Some (Some (y, rest))" and n: "n < 2 ^ 64"
  shows "honest_chain H P D (cp (n div 2 ^ 16)) rest y \<and> posdef D y \<and> total_len rest = n mod 2 ^ 16 \<and> length rest \<le> 1"
proof -
  define q where "q = n mod 2 ^ 16"
  have q: "q < 2 ^ 16" by (simp add: q_def)
  show ?thesis
proof (cases "q = 0")
  case True
  then have "y = cp (n div 2 ^ 16)" "rest = []"
    using r by (simp_all add: last_segment_def Let_def q_def checkpoint_def Option.bind_eq_Some_conv split: if_splits)
  then show ?thesis using True c by (simp add: same_class_refl total_len_def q_def)
next
  case False
  let ?x = "cp (n div 2 ^ 16)" 
  let ?s = "\<lambda>y p. \<lparr>seg_start = of_nat (n - q), seg_length = of_nat q, seg_x = ?x, seg_y = y, seg_proof = p, seg_empty = False\<rparr>"
  obtain st p where loop: "fold_res (slow_step G red D (iroot4 (- D)) 10 (q div 10 + 100)) [0..<q] (?x, []) = ret (y, st)"
    and p: "OneWesolowskiProver G H P red approx go ((!) st) (?s y zero_form) D = ret p" and rest: "rest = [?s y p]"
    using r False unfolding last_segment_def Let_def q_def [symmetric] if_not_P [OF False]
    by (auto simp: ret_def checkpoint_def Option.bind_eq_Some_conv split: if_splits option.splits sum.splits prod.splits)
  have x: "pw D ?x 1 ?x" using class_pow_1 [OF D c] c by (simp add: pw_def)
  have space: "ceil_div q 10 \<le> q div 10 + 100" by (simp add: ceil_div_def)
  have "holds False (stored_ok D ?x 10 q) (fold_res (slow_step G red D (iroot4 (- D)) 10 (q div 10 + 100)) [0..<q] (?x, []))"
    by (rule slow_loop_ok [OF D G c red _ _ x]) (use space in simp_all)
  then have st: "stored_ok D ?x 10 q (y, st)" using loop by simp
  then have y: "pw D ?x (2 ^ q) y" by (simp add: stored_ok_def)
  have len: "unat (of_nat q :: 64 word) = q" using q by (intro unat_small) simp
  have wp: "weso_parameters approx q = (10, 1)"
    unfolding weso_parameters_def using q by (intro if_not_P) (simp only: not_le)
  have sp: "stored_powers D ?x 10 1 q ((!) st)"
    using st ceil_div_covers [of 10] by (auto simp: stored_powers_def stored_ok_def)
  have gp: "GenerateProof G H P red go ((!) st) (?s y zero_form) D 10 1 = ret p"
    using p by (simp add: OneWesolowskiProver_def len wp)
  have fit: "indices_fit 10 1 q" by (rule indices_fitI) (use q in simp_all)
  have "honest_segment H P D ((?s y zero_form)\<lparr>seg_proof := p\<rparr>)"
    by (rule proved_segment [OF D G red _ _ _ _ _ _ _ gp]) (use c y sp len fit in \<open>simp_all add: seg_len_def\<close>)
  then show ?thesis using y len by (simp add: rest same_class_refl pw_def total_len_def seg_len_def) (simp add: q_def)
qed
qed

lemma honest_chain_trans: "honest_chain H P D x ss z \<Longrightarrow> honest_chain H P D z ts y \<Longrightarrow> honest_chain H P D x (ss @ ts) y"
  by (induction ss arbitrary: x) (auto intro: honest_chain_start same_class_sym)

lemma prove_loop_attempt: "prove_loop n attempts = Some segs \<Longrightarrow> \<exists>d\<in>set attempts. prove_attempt n d = Some segs"
  by (induction attempts) (auto split: option.splits)

lemma floor_16_unique: "b \<le> n \<Longrightarrow> b mod 2 ^ 16 = 0 \<Longrightarrow> floor_16 n \<le> b \<Longrightarrow> b = n div 2 ^ 16 * 2 ^ 16 \<and> b + n mod 2 ^ 16 = n"
proof -
  assume b: "b \<le> n" "b mod 2 ^ 16 = 0" "floor_16 n \<le> b"
  obtain c where c: "b = c * 2 ^ 16" using b(2) by (metis mod_0_imp_dvd dvd_def mult.commute)
  have n: "n = n div 2 ^ 16 * 2 ^ 16 + n mod 2 ^ 16" by simp
  have "c \<le> n div 2 ^ 16" using b(1) div_le_mono [of b n "2 ^ 16"] by (simp add: c)
  moreover have "n div 2 ^ 16 * 2 ^ 16 \<le> c * 2 ^ 16" using b(3) n unfolding floor_16_def c by linarith
  then have "n div 2 ^ 16 \<le> c" by simp
  ultimately have "b = n div 2 ^ 16 * 2 ^ 16" by (simp add: c)
  then show ?thesis using n by simp
qed

text \<open>Every attempt uses the finished segments of a state that satisfies the invariant; the
  segments it picks are finished ones.\<close>

lemma prove_accepted:
  assumes D: "good_disc D" and G: "gcdext_ok G" "gcdext_small G" and ser: "serializable D"
    and red: "reducer_sound red" and x: "posdef D x" "serialize_form x (num_bits D) = Some (xs, x)"
    and cp: "checkpoints_ok D x cp" and n: "n \<le> run_limit"
    and att: "\<forall>d\<in>set attempts. d \<noteq> [] \<and> done_ok (honest_segment H P D) cp (length d) d"
    and ne: "\<forall>segs. prove_loop n attempts = Some segs \<longrightarrow> (\<forall>s\<in>set segs. \<not> seg_empty s)"
    and r: "Prove G H P red approx go cp D n attempts = Some pr" and fin: "pr \<noteq> empty_proof"
  shows "CheckProofOfTimeNWesolowski G H P reduce D xs (proof_y pr @ proof_proof pr)
      (int (length (proof_y pr @ proof_proof pr))) n (int (proof_witness_type pr)) = ret True"
    and "CheckProofOfTimeNWesolowski G H P pulmark_reduce D xs (proof_y pr @ proof_proof pr)
      (int (length (proof_y pr @ proof_proof pr))) n (int (proof_witness_type pr)) \<in> {None, ret True}"
proof -
  obtain y rest segs where l: "last_segment G H P red approx go cp D n = Some (Some (y, rest))"
    and sg: "prove_loop n attempts = Some segs" and blob: "proof_blob H P D y (segs @ rest) = Some pr"
    using r fin by (auto simp: Prove_def Option.bind_eq_Some_conv split: option.splits prod.splits)
  obtain d where d: "d \<noteq> []" "done_ok (honest_segment H P D) cp (length d) d" "prove_attempt n d = Some segs"
    using prove_loop_attempt [OF sg] att by blast
  obtain b where b: "collect_segments d n = (segs, b)" "length segs \<le> 63" "floor_16 n \<le> b"
    using d(3) by (auto simp: prove_attempt_def split: prod.splits if_splits)
  note c = collect_covers [OF b(1) d(1)]
  have "b = n div 2 ^ 16 * 2 ^ 16 \<and> b + n mod 2 ^ 16 = n" by (rule floor_16_unique) (use c b(3) in blast)+
  then have bn: "b = n div 2 ^ 16 * 2 ^ 16" "b + n mod 2 ^ 16 = n" by blast+
  have ch: "honest_chain H P D (cp 0) segs (cp (b div 2 ^ 16))" "total_len segs = b"
    using covered_chain [OF D x(1) cp d(2), of segs 0 b] ne sg c by auto
  have bd: "b div 2 ^ 16 = n div 2 ^ 16" by (simp add: bn(1))
  have "n div 2 ^ 16 < checkpoint_space" by (rule run_limit_index [OF n])
  then have cn: "posdef D (cp (n div 2 ^ 16))" using cp by (auto simp: checkpoints_ok_def pw_def)
  have n64: "n < 2 ^ 64" using n by (simp add: run_limit_value)
  note ls = last_segment_honest [OF D G(1) red cn l n64]
  have "0 < checkpoint_space" by (simp add: checkpoint_space_def)
  then have "pw D x (2 ^ (0 * 2 ^ 16)) (cp 0)" using cp unfolding checkpoints_ok_def by blast
  then have "same_class D x (cp 0)" using class_pow_unique class_pow_1 [OF D x(1)] by (auto simp: pw_def)
  then have "honest_chain H P D x segs (cp (n div 2 ^ 16))" using honest_chain_start ch(1) same_class_sym by (metis bd)
  then have chain: "honest_chain H P D x (segs @ rest) y" using ls honest_chain_trans by blast
  have T: "total_len (segs @ rest) = n" using ch(2) ls bn(2) by (simp add: total_len_def)
  have "length (segs @ rest) \<le> 64" using b(2) ls by simp
  moreover have "segs @ rest \<noteq> []" using blob by (auto simp: proof_blob_def Let_def Option.bind_eq_Some_conv split: if_splits)
  moreover have "proof_witness_type pr = (length (segs @ rest) - 1) mod 256"
    using blob by (auto simp: proof_blob_def Let_def Option.bind_eq_Some_conv split: if_splits)
  ultimately have wt: "int (proof_witness_type pr) = int (length (segs @ rest)) - 1" by (cases "segs @ rest") auto
  have py: "posdef D y" and le: "length (segs @ rest) \<le> 2 ^ 23" using ls b(2) by simp_all
  note acc = honest_blob_accepted [OF D G ser x chain py T blob le, folded wt]
  show "CheckProofOfTimeNWesolowski G H P reduce D xs (proof_y pr @ proof_proof pr)
      (int (length (proof_y pr @ proof_proof pr))) n (int (proof_witness_type pr)) = ret True"
    by (rule acc(1))
  show "CheckProofOfTimeNWesolowski G H P pulmark_reduce D xs (proof_y pr @ proof_proof pr)
      (int (length (proof_y pr @ proof_proof pr))) n (int (proof_witness_type pr)) \<in> {None, ret True}"
    by (rule acc(2))
qed

subsection \<open>How far the finished segments reach\<close>

text \<open>The number the event loop announces is covered by at most 63 finished segments.\<close>

lemma walk_done_covers:
  assumes "i < length done"
  shows "covers done 0 segs (pos * segment_size i) \<Longrightarrow> (\<forall>s\<in>set segs. \<not> seg_empty s) \<Longrightarrow> length segs = b \<Longrightarrow> b < 63 \<Longrightarrow>
    walk_done (segment_size i) (drop pos (done ! i)) (pos * segment_size i, b) = (r, c) \<Longrightarrow>
    c \<le> 63 \<and> (\<exists>segs'. covers done 0 segs' r \<and> (\<forall>s\<in>set segs'. \<not> seg_empty s) \<and> length segs' = c)"
proof (induction "drop pos (done ! i)" arbitrary: pos segs b)
  case Nil
  then show ?case by (auto simp: Nil.hyps [symmetric])
next
  case (Cons s ss)
  have l: "pos < length (done ! i)" "s = done ! i ! pos" "ss = drop (Suc pos) (done ! i)"
    using Cons.hyps(2) by (metis drop_all linorder_not_less list.distinct(1), metis nth_via_drop,
        metis drop_Suc_Cons drop_drop drop0 plus_1_eq_Suc drop_Suc tl_drop list.sel(3))
  note run = Cons.prems(5) [folded Cons.hyps(2)]
  have sz: "pos * segment_size i + segment_size i = Suc pos * segment_size i" by simp
  show ?case
  proof (cases "seg_empty s")
    case True
    then have "r = pos * segment_size i" "c = b" using run by simp_all
    then show ?thesis using Cons.prems by (intro conjI exI [of _ segs]) simp_all
  next
    case False
    have cov: "covers done 0 (segs @ [s]) (Suc pos * segment_size i)"
      using Cons.prems(1) covers_one [OF assms l(1)] unfolding covers_append l(2) by blast
    have ne: "\<forall>s\<in>set (segs @ [s]). \<not> seg_empty s" using Cons.prems(2) False by simp
    show ?thesis
    proof (cases "Suc b = 63")
      case True
      then have "r = Suc pos * segment_size i" "c = Suc b" using run False sz by simp_all
      then show ?thesis using cov ne True Cons.prems(3) by (intro conjI exI [of _ "segs @ [s]"]) simp_all
    next
      case b: False
      have "walk_done (segment_size i) (drop (Suc pos) (done ! i)) (Suc pos * segment_size i, Suc b) = (r, c)"
        using run False b unfolding l(3) sz [symmetric] by simp
      then show ?thesis using Cons.hyps(1) [OF l(3) cov ne _ _] b Cons.prems(3,4) by simp
    qed
  qed
qed

lemma reach_bucket_covers:
  assumes "i < length done" and "\<exists>segs. covers done 0 segs a \<and> (\<forall>s\<in>set segs. \<not> seg_empty s) \<and> length segs = b" and "b \<le> 63"
    and "reach_bucket done i (a, b) = (r, c)"
  shows "c \<le> 63 \<and> (\<exists>segs. covers done 0 segs r \<and> (\<forall>s\<in>set segs. \<not> seg_empty s) \<and> length segs = c)"
proof (cases "b \<ge> 63 \<or> a mod segment_size i \<noteq> 0")
  case True
  then have "r = a" "c = b" using assms(4) by (auto simp: reach_bucket_def Let_def)
  then show ?thesis using assms(2,3) by simp
next
  case False
  then have a: "a div segment_size i * segment_size i = a" and b: "b < 63" by auto
  have "walk_done (segment_size i) (drop (a div segment_size i) (done ! i)) (a div segment_size i * segment_size i, b) = (r, c)"
    using assms(4) False unfolding a by (simp add: reach_bucket_def Let_def)
  then show ?thesis using walk_done_covers [OF assms(1), of _ "a div segment_size i" b r c] assms(2) b unfolding a by blast
qed

lemma max_proving_covers:
  "\<exists>segs. covers done 0 segs (max_proving done) \<and> (\<forall>s\<in>set segs. \<not> seg_empty s) \<and> length segs \<le> 63"
proof -
  define P where "P = (\<lambda>(r, c). c \<le> (63 :: nat) \<and> (\<exists>segs. covers done 0 segs r \<and> (\<forall>s\<in>set segs. \<not> seg_empty s) \<and> length segs = c))"
  have "P (fold (reach_bucket done) (rev [0..<k]) s)" if "P s" "k \<le> length done" for s k
    using that
  proof (induction k arbitrary: s)
    case (Suc k)
    obtain a b where s1: "s = (a, b)" by (cases s)
    obtain r c where s2: "reach_bucket done k (a, b) = (r, c)" by fastforce
    note s = s1 s2
    have "P (a, b)" using Suc.prems by (simp add: s)
    then have "P (r, c)" using reach_bucket_covers [OF _ _ _ s(2)] Suc.prems(2) unfolding P_def case_prod_conv by simp
    then show ?case using Suc.IH [of "(r, c)"] Suc.prems(2) s by simp
  qed simp
  from this [of "(0, 0)" "length done"] have "P (fold (reach_bucket done) (rev [0..<length done]) (0, 0))"
    by (simp add: P_def)
  then show ?thesis by (cases "fold (reach_bucket done) (rev [0..<length done]) (0, 0)") (auto simp: P_def max_proving_def)
qed

text \<open>A larger segment finished before the one in front of it: the event loop falls back to the
  smaller segments, \<open>Prove\<close> takes the placeholder.\<close>

lemma prove_takes_placeholder:
  assumes "\<not> seg_empty a" and "\<not> seg_empty b" and "\<not> seg_empty c" and "\<not> seg_empty d"
  shows "max_proving [[a, b, c, d], [empty_segment, e]] = 2 ^ 18 \<and>
    prove_attempt (2 ^ 18) [[a, b, c, d], [empty_segment, e]] = Some [empty_segment]"
proof -
  have e: "seg_empty empty_segment" by (simp add: empty_segment_def)
  have r: "rev [0..<2] = [1, 0 :: nat]" by (simp add: upt_rec)
  show ?thesis
    using assms e
    by (simp add: max_proving_def prove_attempt_def collect_segments_def r reach_bucket_def take_bucket_def segment_size_def
        floor_16_def)
qed

end
