(* ===== verification/Examples.thy ===== *)
theory Examples
  imports Prelude Forms Lattice FormClass VdfNew Xgcd Nucomp Reducer Bytes Bqfc HashPrime
    ProofCommon Util Verifier Outcome Prover Doubles Provers EndToEnd AggUtil AggVdf Sha256 VdfOriginal
    Callback FastCallback Squaring SquareLoop FastStorage PrimeTest ProofBlob ProverThread Interruptible Timelord
    Manager Scheduling ManagerInv ManagerProof
begin

section \<open>Concrete instances\<close>

text \<open>
  The inputs at which the properties are applied: the discriminant \<open>-23\<close>, of class number 3,
  whose reduced forms are \<open>(1, 1, 6)\<close>, \<open>(2, 1, 3)\<close> and \<open>(2, -1, 3)\<close>, with constant hash functions, a primality
  test that accepts, and engines that leave every squaring to the portable code or report
  corruption.
\<close>

lemma good_disc_m23: "good_disc (- 23)"
proof -
  have "\<bar>g\<bar> = 1" if "g * g dvd - 23" for g :: int
  proof -
    have "g * g \<le> 23" using zdvd_imp_le [of "g * g" 23] that by simp
    then have "\<bar>g\<bar> * \<bar>g\<bar> < 5 * 5" by (simp add: abs_mult_self_eq)
    then have "\<bar>g\<bar> < 5" by (metis abs_ge_zero linorder_not_le mult_mono zero_le_numeral)
    then have "g \<in> {- 4, - 3, - 2, - 1, 0, 1, 2, 3, 4}" by auto
    then show ?thesis using that by auto
  qed
  then show ?thesis by (simp add: good_disc_def)
qed

abbreviation unit_hash :: "byte list \<Rightarrow> byte list" where
  "unit_hash \<equiv> \<lambda>_. replicate 32 0"

abbreviation gen_bytes :: "byte list" where
  "gen_bytes \<equiv> 8 # replicate 99 0"

abbreviation id_bytes :: "byte list" where
  "id_bytes \<equiv> 4 # replicate 99 0"

lemma m23_gen [simp]: "posdef (- 23) (mk_form 2 1 3)"
  by simp

lemma m23_power4: "class_pow (- 23) (mk_form 2 1 3) 4 (mk_form 2 1 3)"
proof -
  have r: "fast_pow_form gcdext_min pulmark_reduce (mk_form 2 1 3) (- 23) 4 2 = ret (mk_form 2 1 3)"
    by code_simp
  show ?thesis
    using pulmark.fast_pow_form_sound [OF good_disc_m23 gcdext_min_ok(1) m23_gen _ r] by simp
qed

abbreviation m23_segment :: segment where
  "m23_segment \<equiv> \<lparr>seg_start = 0, seg_length = 2, seg_x = mk_form 2 1 3, seg_y = mk_form 2 1 3,
     seg_proof = mk_form 1 1 6, seg_empty = False\<rparr>"

abbreviation m23_B :: int where
  "m23_B \<equiv> 2 ^ 263 + 1"

lemma m23_challenge:
  "get_B unit_hash (\<lambda>_. True) (- 23) (mk_form 2 1 3) (mk_form 2 1 3) = Some (m23_B, mk_form 2 1 3, mk_form 2 1 3)"
  by code_simp

lemma m23_stored: "0 < l \<Longrightarrow> stored_powers (- 23) (mk_form 2 1 3) 4 l 2 (\<lambda>_. mk_form 2 1 3)"
proof -
  assume l: "0 < l"
  have "pw (- 23) (mk_form 2 1 3) (2 ^ (4 * l * i)) (mk_form 2 1 3)" if "4 * l * i < 2" for i
  proof -
    have "i = 0" using that l by (cases i) (auto simp: algebra_simps)
    then show ?thesis using class_pow_1 [OF good_disc_m23 m23_gen] by (simp add: pw_def)
  qed
  then show ?thesis by (simp add: stored_powers_def)
qed

lemma m23_cases:
  assumes "0 < p" and "3 * (p * p) \<le> 23" and "\<bar>q\<bar> \<le> p" and "q \<noteq> - p"
  shows "(p, q) \<in> {(1, 0), (1, 1), (2, - 1), (2, 0), (2, 1), (2, 2 :: int)}"
proof -
  have "p < 3" using mult_mono [of 3 p 3 p] assms(2) by linarith
  then have "p = 1 \<or> p = 2" using assms(1) by auto
  then show ?thesis using assms(3,4) by auto
qed

lemma m23_reduced:
  assumes "posdef (- 23) f" and "is_reduced f"
  shows "f = mk_form 1 1 6 \<or> f = mk_form 2 1 3 \<or> f = mk_form 2 (- 1) 3"
proof -
  obtain p q r where f: "f = mk_form p q r" by (cases f) auto
  have a: "0 < p" and D: "q * q - 4 * p * r = - 23" using assms(1) by (simp_all add: f disc_def)
  have "3 * (p * p) \<le> 23" using reduced_a_bound [OF assms] by (simp add: f)
  moreover have "\<bar>q\<bar> \<le> p" "q \<noteq> - p" using assms(2) a by (auto simp: f is_reduced_def)
  ultimately have "(p, q) \<in> {(1, 0), (1, 1), (2, - 1), (2, 0), (2, 1), (2, 2)}" by (rule m23_cases [OF a])
  moreover have "(p, q) \<noteq> (1, 0)" "(p, q) \<noteq> (2, 0)" "(p, q) \<noteq> (2, 2)" using D by (auto, presburger+)
  ultimately have "(p, q) = (1, 1) \<or> (p, q) = (2, - 1) \<or> (p, q) = (2, 1)" by blast
  then show ?thesis using D by (auto simp: f)
qed

lemma m23_serializable: "serializable (- 23)"
proof -
  have "t_bound 1 1 5" "t_bound 2 1 5" "t_bound 2 (- 1) 5" by code_simp+
  moreover have n: "num_bits (- 23) = 5" by code_simp
  ultimately have "t_bound (fa f) (fb f) (num_bits (- 23))" if "posdef (- 23) f" "is_reduced f" for f
    using m23_reduced [OF that] by auto
  then show ?thesis using n by (simp add: serializable_def)
qed

abbreviation one_hash :: "byte list \<Rightarrow> byte list" where
  "one_hash \<equiv> \<lambda>_. replicate 31 0 @ [1]"

lemma m23_evaluations:
  "map_res (\<lambda>c. EvalAggVdf gcdext_min one_hash (\<lambda>_. True) pulmark_reduce (- 23) c 1) [0, 5] =
     ret [(mk_form 2 1 3, 1), (mk_form 2 1 3, 1)]"
  by code_simp

lemma m23_aggregate:
  "AggreateVdfProofs gcdext_min one_hash (\<lambda>_. True) pulmark_reduce (- 23) [0, 5] [mk_form 2 1 3, mk_form 2 1 3] 1 [1, 1] =
     ret (mk_form 1 1 6, 1)"
  by code_simp

lemma prime_disc_m23: "prime_disc (- 23)"
proof -
  have "\<bar>g\<bar> = 1 \<or> \<bar>g\<bar> = 23" if "g dvd 23" for g :: int
  proof -
    have d: "\<bar>g\<bar> dvd 23" using that by simp
    then have "\<bar>g\<bar> \<le> 23" by (rule zdvd_imp_le) simp
    moreover have "0 \<le> \<bar>g\<bar>" by simp
    ultimately have "\<bar>g\<bar> \<in> set [0..23]" by simp
    moreover have "\<forall>h\<in>set [0..23 :: int]. h dvd 23 \<longrightarrow> h = 1 \<or> h = 23" by code_simp
    ultimately show ?thesis using d by blast
  qed
  then show ?thesis by (simp add: prime_disc_def)
qed

abbreviation lazy_engine :: fast_engine where
  "lazy_engine \<equiv> \<lambda>f n b. ([], Some 0, f)"

lemma lazy_engine_ok: "fast_spec D lazy_engine"
  by (simp add: fast_spec_def)

lemma m23_callback: "new_callback (\<lambda>_. (10, 1)) (mk_form 2 1 3) False (Two (TwoWesolowskiCallback (mk_form 2 1 3)))"
  by (simp add: new_callback_def)

lemma m23_squares:
  "orig_square gcdext_min (mk_form 2 1 3) = Some (mk_form 2 (- 1) 3)"
  "orig_square gcdext_min (mk_form 2 (- 1) 3) = Some (mk_form 2 1 3)"
  by code_simp+

lemma m23_run:
  "map_option (\<lambda>s. (rs_f s, rs_iterations s))
     (repeated_square gcdext_min pulmark_reduce lazy_engine False (- 23) (Suc (Suc 0))
        (rs_init (mk_form 2 1 3) (Two (TwoWesolowskiCallback (mk_form 2 1 3))))) = Some (mk_form 2 1 3, 2)"
  by (simp add: square_pass_def square_batch_def notify_def repeated_square_original_def original_step_def m23_squares
      on_iteration_def two_on_iteration_def TwoWesolowskiCallback_def rs_init_def n_weso_step_def two_weso_step_def
      switch_step_def two_constants)

lemma few_passes: "p \<le> 10 \<Longrightarrow> p * (checkpoint_interval + 99) + checkpoint_interval < checkpoint_space * 2 ^ 16"
  by (simp add: checkpoint_interval_def checkpoint_space_def)

abbreviation broken_engine :: fast_engine where
  "broken_engine \<equiv> \<lambda>f n b. (replicate b NL_OTHER, None, f)"

lemma m23_broken:
  "map_option (\<lambda>(k, g, w). (k, g))
     (square_batch gcdext_min (on_iteration pulmark_reduce (- 23)) broken_engine 0 3 (mk_form 2 1 3)
        (Two (TwoWesolowskiCallback (mk_form 2 1 3)))) = Some (3, mk_form 2 (- 1) 3)"
  by code_simp

lemma m23_honest: "honest_segment unit_hash (\<lambda>_. True) (- 23) m23_segment"
  using m23_challenge m23_power4 class_pow_0 [of "mk_form 1 1 6" "- 23"]
  by (auto simp: honest_segment_def seg_len_def)

lemma m23_fit: "0 < k \<Longrightarrow> 0 < l \<Longrightarrow> k * l < 2 ^ 32 \<Longrightarrow> T < 2 ^ 63 \<Longrightarrow> indices_fit k l T"
  by (rule indices_fitI) simp_all

lemma m23_serialized:
  "serialize_form (mk_form 2 1 3) (num_bits (- 23)) = Some (gen_bytes, mk_form 2 1 3)"
  "serialize_form (mk_form 1 1 6) (num_bits (- 23)) = Some (id_bytes, mk_form 1 1 6)"
  by code_simp+

lemma m23_blob:
  "map_option (\<lambda>pr. (proof_y pr, length (proof_proof pr)))
     (proof_blob unit_hash (\<lambda>_. True) (- 23) (mk_form 2 1 3) [m23_segment, m23_segment]) = Some (gen_bytes, 241)"
  using length_to_bytes_B [of m23_B]
  by (simp add: proof_blob_def segment_bytes_def m23_serialized m23_challenge)

lemma m23_square: "pw (- 23) (mk_form 2 1 3) (2 ^ 1) (mk_form 2 (- 1) 3)"
proof -
  have "fast_pow_form gcdext_min pulmark_reduce (mk_form 2 1 3) (- 23) 2 2 = ret (mk_form 2 (- 1) 3)"
    by code_simp
  from pulmark.fast_pow_form_sound [OF good_disc_m23 gcdext_min_ok(1) m23_gen _ this] show ?thesis by (simp add: pw_def)
qed

lemma m23_reduce: "pulmark_reduce (mk_form 2 (- 1) 3) = Some (mk_form 2 (- 1) 3)" "reduce (mk_form 2 (- 1) 3) = Some (mk_form 2 (- 1) 3)"
  by code_simp+

lemma m23_one_run:
  "\<exists>a s u. OneWesolowskiCallback (\<lambda>_. (10, 1)) (mk_form 2 1 3) 1 = Some a \<and>
     repeated_square gcdext_min reduce lazy_engine False (- 23) (Suc 0) (rs_init (mk_form 2 1 3) (One a)) = Some s \<and>
     rs_iterations s = 1 \<and> rs_weso s = One u \<and> ow_result u = mk_form 2 (- 1) 3 \<and> ow_forms u 0 = mk_form 2 1 3"
  by (simp add: OneWesolowskiCallback_def weso_parameters_def put_def square_pass_def square_batch_def notify_def
      repeated_square_original_def original_step_def m23_squares on_iteration_def one_on_iteration_def rs_init_def
      n_weso_step_def two_weso_step_def SetForm_def assign_def set_cell_def m23_reduce checkpoint_interval_def)

lemma m23_one_challenge:
  "get_B unit_hash (\<lambda>_. True) (- 23) (mk_form 2 1 3) (mk_form 2 (- 1) 3) = Some (m23_B, mk_form 2 1 3, mk_form 2 (- 1) 3)"
  by code_simp

lemma m23_serialize:
  assumes "posdef (- 23) f"
  shows "\<exists>s g. serialize_form f (num_bits (- 23)) = Some (s, g)"
proof -
  obtain g where g: "reduce f = Some g" "posdef (- 23) g" "is_reduced g"
    using reduce_returns [OF assms] by auto
  obtain s where "serialize_form g (num_bits (- 23)) = Some (s, g)"
    using serialize_form_round_trip [OF good_disc_m23 gcdext_min_ok g(2,3)] m23_serializable g(2,3)
    unfolding serializable_def by blast
  then show ?thesis using g(1) reduce_id [OF posdefD(1) [OF g(2)] g(3)] by (auto simp: serialize_form_def)
qed

lemma m23_two_run:
  "\<exists>s. repeated_square gcdext_min reduce lazy_engine False (- 23) (Suc 0)
      (rs_init (mk_form 2 1 3) (Two (TwoWesolowskiCallback (mk_form 2 1 3)))) = Some s \<and>
     rs_reported s = 1 \<and> rs_weso s = Two (TwoWesolowskiCallback (mk_form 2 1 3))"
  by (simp add: square_pass_def square_batch_def notify_def repeated_square_original_def original_step_def m23_squares
      on_iteration_def two_on_iteration_def TwoWesolowskiCallback_def rs_init_def n_weso_step_def two_weso_step_def
      switch_step_def two_constants)

lemma m23_two_prover:
  assumes "two_get_form 0 (W 0) = Some (mk_form 2 1 3)" and "(iters, y) = (0, mk_form 2 1 3) \<or> (iters, y) = (1, mk_form 2 (- 1) 3)"
  shows "\<exists>p. TwoWesolowskiProver gcdext_min unit_hash (\<lambda>_. True) reduce (\<lambda>_. True) W (two_segment 0 iters (mk_form 2 1 3) y)
     (- 23) = ret p \<and> posdef (- 23) p"
proof -
  let ?s = "two_segment 0 iters (mk_form 2 1 3) y" and ?f = "two_prover_form W 0 10 1"
  have "?f 0 = mk_form 2 1 3" using assms(1) by (simp add: two_prover_form_def)
  then have "stored_powers (- 23) (mk_form 2 1 3) 10 1 iters ?f"
    using class_pow_1 [OF good_disc_m23 m23_gen] assms(2) by (auto simp: stored_powers_def pw_def)
  moreover have "\<exists>x' y'. get_B unit_hash (\<lambda>_. True) (- 23) (mk_form 2 1 3) y = Some (m23_B, x', y')" "posdef (- 23) y"
    using assms(2) m23_challenge m23_one_challenge by auto
  ultimately have "\<exists>p. GenerateProof gcdext_min unit_hash (\<lambda>_. True) reduce (\<lambda>_. True) ?f ?s (- 23) 10 1 = ret p \<and> posdef (- 23) p"
    using holds_total [OF GenerateProof_correct [OF good_disc_m23 gcdext_min_ok(1) _ _ exact.reducer_sound_axioms,
          of ?s True "\<lambda>_. True" 10 1 unit_hash "\<lambda>_. True" m23_B _ _ ?f]] exact.reducer_total_axioms assms(2)
      m23_fit [of 10 1]
    by (auto simp: two_segment_def)
  then show ?thesis using assms(2) by (auto simp: TwoWesolowskiProver_def two_weso_l_def two_segment_def Let_def)
qed

lemma m23_checkpoints: "checkpoints_ok (- 23) (mk_form 2 1 3) (\<lambda>_. mk_form 2 1 3)"
proof -
  have p: "class_pow (- 23) (mk_form 2 1 3) (4 ^ k) (mk_form 2 1 3)" for k
  proof (induction k)
    case (Suc k)
    then show ?case using class_pow_mult [OF good_disc_m23 m23_gen _ m23_power4, of "4 ^ k"] by (simp add: mult.commute)
  qed (use class_pow_1 [OF good_disc_m23 m23_gen] in simp)
  have "(2 :: nat) ^ (c * 2 ^ 16) = 4 ^ (c * 2 ^ 15)" for c
    using power_mult [of "2 :: nat" 2 "c * 2 ^ 15"] by (simp add: mult.commute)
  then have "pw (- 23) (mk_form 2 1 3) (2 ^ (c * 2 ^ 16)) (mk_form 2 1 3)" for c
    using p [of "c * 2 ^ 15"] by (simp only: pw_def m23_gen)
  then show ?thesis unfolding checkpoints_ok_def by blast
qed

lemma m23_last_loop:
  "fold_res (slow_step gcdext_min reduce (- 23) (iroot4 23) 10 100) [0..<2] (mk_form 2 1 3, []) = ret (mk_form 2 1 3, [mk_form 2 1 3])"
  by code_simp

lemma m23_last_prover:
  "\<exists>p. OneWesolowskiProver gcdext_min unit_hash (\<lambda>_. True) reduce (\<lambda>_. (10, 1)) (\<lambda>_. True) ((!) [mk_form 2 1 3])
     (m23_segment\<lparr>seg_proof := zero_form\<rparr>) (- 23) = ret p \<and> posdef (- 23) p"
proof -
  have "stored_powers (- 23) (mk_form 2 1 3) 10 1 2 ((!) [mk_form 2 1 3])"
    using class_pow_1 [OF good_disc_m23 m23_gen] by (auto simp: stored_powers_def pw_def)
  then show ?thesis
    using holds_total [OF GenerateProof_correct [OF good_disc_m23 gcdext_min_ok(1) _ _ exact.reducer_sound_axioms,
          of "m23_segment\<lparr>seg_proof := zero_form\<rparr>" True "\<lambda>_. True" 10 1 unit_hash "\<lambda>_. True" m23_B _ _ "(!) [mk_form 2 1 3]"]]
      exact.reducer_total_axioms m23_challenge m23_fit [of 10 1]
    by (auto simp: OneWesolowskiProver_def weso_parameters_def)
qed

lemma m23_storage: "\<exists>w. FastAlgorithmCallback 1 (mk_form 2 1 3) True = Some w"
  by (simp add: FastAlgorithmCallback_def put_def kWindowSize_def bucket_size1_def bucket_size2_def)

abbreviation euler_symbol :: "int \<Rightarrow> int \<Rightarrow> int" where
  "euler_symbol \<equiv> \<lambda>a n. if a ^ (nat n div 2) mod n = n - 1 then - 1 else 1"

lemma prime_503: "prime_number 503"
proof -
  have c: "list_all (\<lambda>d. 503 mod d \<noteq> 0) [2..502 :: int]" by code_simp
  have "\<bar>d\<bar> = 1 \<or> \<bar>d\<bar> = 503" if d: "d dvd 503" for d :: int
  proof -
    have "\<bar>d\<bar> \<le> 503" "d \<noteq> 0" using zdvd_imp_le [of "\<bar>d\<bar>" 503] d by auto
    moreover have "\<not> (2 \<le> \<bar>d\<bar> \<and> \<bar>d\<bar> \<le> 502)"
    proof
      assume "2 \<le> \<bar>d\<bar> \<and> \<bar>d\<bar> \<le> 502"
      then have "\<bar>d\<bar> \<in> set [2..502]" by (simp only: set_upto atLeastAtMost_iff)
      then have "503 mod \<bar>d\<bar> \<noteq> 0" using c unfolding list_all_iff by (rule bspec [rotated])
      then show False using d by (simp add: dvd_eq_mod_eq_0 [symmetric])
    qed
    ultimately show ?thesis by linarith
  qed
  then show ?thesis by (simp add: prime_number_def)
qed

lemma table_503: "\<forall>p\<in>set (take (n_pprods 503) pprods). \<not> 503 dvd p"
  by code_simp

lemma euler_503: "legendre_ok euler_symbol 503" "find_pq euler_symbol 503 \<noteq> None"
proof -
  have dvd: "n dvd x + 1" if "x mod n = n - 1" for x n :: int
    using mult_div_mod_eq [of n x] that by (intro dvdI [of _ _ "x div n + 1"]) (simp add: distrib_left)
  show "legendre_ok euler_symbol 503"
    unfolding legendre_ok_def
  proof (intro allI impI)
    fix a :: int
    assume h: "euler_symbol a 503 = - 1"
    have "a ^ (nat 503 div 2) mod 503 = 503 - 1"
    proof (rule ccontr)
      assume n: "a ^ (nat 503 div 2) mod 503 \<noteq> 503 - 1"
      have "euler_symbol a 503 = 1" by (rule if_not_P [OF n])
      from trans [OF this [symmetric] h] show False by simp
    qed
    then show "503 dvd a ^ (nat 503 div 2) + 1" by (rule dvd)
  qed
  have "5 ^ (nat 503 div 2) mod 503 = (503 - 1 :: int)" by code_simp
  then have "euler_symbol 5 503 = - 1" by (rule if_P)
  then show "find_pq euler_symbol 503 \<noteq> None" by (simp only: find_pq_first) simp
qed

end
