(* ===== verification/Spec2Isabelle.thy ===== *)
theory Spec2Isabelle
  imports Prelude Forms Lattice FormClass VdfNew Xgcd Nucomp Reducer Bytes Bqfc HashPrime
    ProofCommon Util Verifier Outcome Prover Doubles Provers EndToEnd AggUtil AggVdf Sha256 VdfOriginal
    Callback FastCallback Squaring SquareLoop FastStorage PrimeTest ProofBlob ProverThread Interruptible Timelord
    Manager Scheduling ManagerInv ManagerProof Examples
begin

text \<open>The verifiable delay function of \<open>src/chiavdf/src\<close>: squaring \<open>x\<close> in the class group of
  a negative discriminant \<open>D\<close> \<open>T\<close> times, and Wesolowski proofs that this has been done.
  A \<^emph>\<open>timelord\<close> squares and proves, a \<^emph>\<open>verifier\<close> checks a proof with two
  exponentiations.  The development follows the program from the forms up to the bytes, and its
  main theorems connect the two ends: what a verifier accepts is a chain of right segments, and
  what any of the provers sends is accepted.

  \<^bold>\<open>The parts, by theory.\<close>
  \<^item> Arithmetic: \<open>Prelude\<close> (conventions, results, GMP's divisions), \<open>Bytes\<close>
    (\<open>mpz_export\<close>, \<open>mpz_import\<close>, roots; \<open>integer_common.h\<close>), \<open>Outcome\<close> (loops
    that may fail, and the calculus \<open>holds\<close> in which partial and total correctness are one
    proof).
  \<^item> The class group: \<open>Forms\<close> and \<open>VdfNew\<close> (\<open>vdf_new.h\<close>), \<open>VdfOriginal\<close>
    (\<open>vdf_original.h\<close> without \<open>multiply\<close>), \<open>Xgcd\<close> and \<open>Nucomp\<close> (\<open>xgcd_partial.c\<close>,
    \<open>nucomp.h\<close>), \<open>Reducer\<close> (\<open>Reducer.h\<close>).  Their abstract specification is in
    \<open>Lattice\<close> and \<open>FormClass\<close>: a form stands for a lattice, a class for a lattice up
    to a complex factor, composition for the product of lattices.  Every operation refines
    this; \<open>class_pow D x n y\<close> says that \<open>y\<close> lies in the class of \<open>x^n\<close>, and
    \<open>pw\<close> adds that \<open>y\<close> is positive definite.
  \<^item> Encodings and hashes: \<open>Bqfc\<close> (compressed forms, \<open>bqfc.c\<close>), \<open>HashPrime\<close> and
    \<open>ProofCommon\<close> (\<open>proof_common.h\<close>, \<open>create_discriminant.h\<close>), \<open>Sha256\<close>
    (\<open>picosha2.h\<close>), \<open>PrimeTest\<close> (\<open>primetest.h\<close>, \<open>pprods.h\<close>), \<open>Util\<close>
    (\<open>util.h\<close>: segments, byte order, proofs).
  \<^item> Verifying: \<open>Verifier\<close> (\<open>verifier.h\<close>).
  \<^item> Proving one segment: \<open>Prover\<close> (\<open>prover_base.hpp\<close>, \<open>prover_parallel.hpp\<close>),
    \<open>Doubles\<close> and \<open>Provers\<close> (\<open>prover_slow.h\<close>, whose loop bound is a quotient of doubles), \<open>Interruptible\<close> (the three prover classes of
    \<open>provers.h\<close>), \<open>ProverThread\<close> (the flags and the two threads of
    \<open>InterruptableProver\<close>).
  \<^item> The timelord: \<open>Callback\<close> and \<open>FastCallback\<close> (\<open>callback.h\<close>: what the
    squaring loop stores, and where), \<open>Squaring\<close> and \<open>SquareLoop\<close> (the loop of
    \<open>vdf.h\<close> and its invariant), \<open>FastStorage\<close> (\<open>fast_storage.h\<close>), \<open>Timelord\<close>
    (\<open>ProveOneWesolowski\<close>, \<open>ProveTwoWeso\<close>), \<open>Manager\<close>, \<open>Scheduling\<close>,
    \<open>ManagerInv\<close> and \<open>ManagerProof\<close> (\<open>ProverManager\<close>: its event loop, its scheduler,
    its invariant and \<open>Prove\<close>), \<open>ProofBlob\<close> (the bytes of an n-Wesolowski proof).
  \<^item> Aggregation: \<open>AggUtil\<close> and \<open>AggVdf\<close> (\<open>aggvdf/\<close>).
  \<^item> \<open>EndToEnd\<close> joins provers and verifier; \<open>Examples\<close> holds the concrete inputs at
    which the theorems are applied; this theory states the properties.

  \<^bold>\<open>How the parts interact.\<close>  The squaring loop hands every squaring to a callback (locale
  \<open>listener\<close>, interpreted for the three callbacks), the callback's arrays are read by the
  provers, whose only assumption on them is \<open>stored_powers\<close>; a reducer is used through the
  locales \<open>reducer_sound\<close> and \<open>reducer_total\<close>, interpreted for \<open>PulmarkReducer\<close> and
  \<open>form::reduce\<close>.  The prover manager queues a segment when the loop has passed it, gives the
  best segments the proving threads, files finished ones by size and position, and \<open>Prove\<close>
  glues them into a proof of any number of iterations.

  \<^bold>\<open>How code becomes definitions.\<close>  A class is a record, a method a function from the state
  to the new state, in the order of the code; an early return, a throw and a failed test are
  branches.  \<open>None\<close> is undefined behaviour, a trap, a failed assertion or an endless loop, so
  a theorem of the form \<open>\<exists>y. f x = Some y\<close> says that the code is safe and returns; a C++
  exception and an early stop are errors of the type \<open>'a res\<close>.  GMP integers are \<open>int\<close>;
  limbs and \<open>int64_t\<close> are integers reduced with \<open>s64\<close>, hashing is over \<open>64 word\<close>; a
  count that does not fit an \<open>int\<close> is \<open>None\<close> (\<open>past_int\<close>).  Sixty-four-bit iteration
  counters are natural numbers where no run reaches their end.  A loop with a bound is a
  \<open>fold\<close> or a recursive function with its measure; a loop that may not end is a
  \<open>partial_function\<close> with a theorem that it does.  No fuel is used, except that the squaring
  loop, which another thread ends, is indexed by its number of passes.  The bound
  \<open>checkpoint_space * 2^16 = 2^34\<close> on the iterations is the size of the array of
  checkpoints; the code does not check its indices, and past it \<open>checkpoint\<close> is \<open>None\<close>.  Where
  a product of machine integers can wrap inside its range of use it does so in the model: the
  product \<open>k * l\<close> of the provers at 32 bits (\<open>wrap32\<close>; zero divides, and is \<open>None\<close>), the position
  \<open>k * (i * l + j + 1)\<close> at 64 (\<open>wrap64\<close>), on which \<open>indices_fit\<close> is the condition that it
  does not; it follows from \<open>k * l < 2^32\<close> and \<open>T < 2^63\<close>, which every prover of the program meets.
  The slow prover is followed up to \<open>2^53\<close> iterations, where its doubles are exact; the limb it
  reads from an empty vector is a parameter, and its theorem takes that storage to be zero.

  Threads are modelled where their order matters: \<open>ProverThread\<close> interleaves a worker and
  its controller at single accesses to a flag, \<open>FastStorage\<close> six workers at single iterations,
  \<open>ManagerProof\<close> rounds of the event loop, worker steps and requests; each has an inductive
  reachability and an invariant.  Two conditions on the order are hypotheses of the theorems,
  because the code does not enforce them: no storage worker lags 19 small segments behind
  another (\<open>worker_window\<close>; the distance is an index of \<open>storage_reachable\<close>), and no prover reads a
  form after its cell has been written again 20 segments later (\<open>proved_in_time\<close>; \<open>vdf.h\<close> prints a
  warning).  Reads of a callback see it between two passes of the squaring loop, or between two steps of
  the storage workers.  Elsewhere the threads work on disjoint data and run one after
  the other.

  \<^bold>\<open>Parameters.\<close>  GMP's \<open>mpz_gcdext\<close> is \<open>G\<close>, of which \<open>gcdext_ok\<close> states the
  Bezout identity and \<open>gcdext_small\<close> the documented size of the cofactor; \<open>mpz_jacobi\<close> is
  \<open>J\<close> with \<open>legendre_ok\<close>; the floating-point \<open>ApproximateParameters\<close> is \<open>approx\<close>; the
  generated squaring engine is \<open>fast\<close> with \<open>fast_spec\<close>.  The hash \<open>H\<close> and the primality
  test \<open>P\<close> are arguments: the theorems hold for every pair that prover and verifier share, and
  the program's own are in \<open>Sha256\<close> and \<open>PrimeTest\<close>.  Discriminants are \<open>good_disc\<close>
  (every form is primitive) or \<open>prime_disc\<close>, as \<open>CreateDiscriminant\<close> makes them, and
  \<open>serializable\<close> (a reduced form fits the buffer of \<open>bqfc.c\<close>).

  \<^bold>\<open>What the lemmas show.\<close>  Refinement of the class group by reduction, NUCOMP, NUDUPL, the
  original implementation and the Lehmer steps, with termination and without undefined
  behaviour; round trips of the encodings; that the digit loops of the provers compute
  \<open>x^(2^T div B)\<close> for every \<open>k\<close> and \<open>l\<close> in the range above; that the verifier's verdict is
  exact and that what it accepts is the chain it has read; that each prover's output is accepted; bounds of every array the callbacks write; the invariants of
  the squaring loop, the storage workers, the prover threads and the manager; that the scheduler
  returns with the best segments running; SHA-256 against FIPS 180-4; that no prime above the
  table is declared composite.  "Accepted" (\<open>settles\<close>) means: with \<open>form::reduce\<close>, which is proved to
  end, the verifier returns true; with \<open>PulmarkReducer\<close>, of which only soundness is proved, it
  returns true if it returns, and never throws.

  \<^bold>\<open>Not modelled.\<close>  The fast squaring engine (\<open>vdf_fast.h\<close>, \<open>gcd_*.h\<close>,
  \<open>gpu_integer*.h\<close>, \<open>threading.h\<close>, \<open>avx512_integer.h\<close>, \<open>double_utility.h\<close>, \<open>asm_*.h\<close>)
  runs machine code that \<open>compile_asm.cpp\<close> generates, in double-precision steps and with two
  threads on shared counters; it is the parameter \<open>fast\<close>, except for the validation
  \<open>square_state_type::assign\<close>.  The drivers of the ASIC under \<open>hw/\<close> are device I/O and
  register tables; \<open>lib/\<close> and \<open>uint128_t/\<close> are third-party code; \<open>refcode/lzcnt.c\<close>,
  the benchmarks and the tests are not part of the program; \<open>vdf_original::multiply\<close> works on members
  the constructor never initialises, and is undefined at every call; \<open>c_bindings\<close>,
  \<open>python_bindings\<close> and \<open>vdf_client.cpp\<close> are glue and sockets.  Strings for printing
  (\<open>to_string\<close>, \<open>BytesToStr\<close>, the splitting functions of \<open>aggutil.h\<close>), console output,
  condition variables (they only decide when a step runs) and memory management are left out.
  \<open>headstart_py\<close> and \<open>loot-box-protocol\<close> are separate programs in Python and Rust.\<close>

section \<open>Properties\<close>

text \<open>C1: what the n-Wesolowski verifier accepts is a chain it has read from the blob: the blob is
  exactly 200 bytes and 141 for each of its \<open>depth\<close> checkpoints long; the checkpoints, read from
  its end backwards, lead one after the other from the input form to the end form in the first
  100 bytes, the last step by the proof in the next 100; each satisfies the equation of its own
  proof and challenge, which is the one derived from its two ends; and the iterations add up to
  the claimed number.\<close>

theorem verifier_soundness:
  assumes "good_disc D" and "gcdext_ok G" and "red = pulmark_reduce \<or> red = reduce"
    and "CheckProofOfTimeNWesolowski G H P red D x_s blob len iters depth = ret True"
  shows "len = 200 + 141 * depth \<and>
    (\<exists>x y pf B segs n. deserialize_form G D x_s 100 = ret x \<and> deserialize_at G D blob 0 = ret y \<and>
      deserialize_at G D blob 100 = ret pf \<and> length segs = nat depth \<and> blob_segments G D blob (len - 141) segs \<and>
      path_iters segs + n = iters \<and> weso_path H P D x (segs @ [(n, B, pf)]) y)"
  using assms(3)
proof
  assume red: "red = pulmark_reduce"
  show ?thesis by (rule pulmark.check_proof_sound [OF assms(1,2) assms(4) [unfolded red]])
next
  assume red: "red = reduce"
  show ?thesis by (rule exact.check_proof_sound [OF assms(1,2) assms(4) [unfolded red]])
qed

theorem verifier_soundness_witness:
  "\<exists>bs s n B pf. length bs = 341 \<and> blob_segments gcdext_min (- 23) bs 200 [s] \<and> fst s + n = 4 \<and>
     weso_path unit_hash (\<lambda>_. True) (- 23) (mk_form 2 1 3) [s, (n, B, pf)] (mk_form 2 1 3)"
proof -
  obtain pr where pr: "proof_blob unit_hash (\<lambda>_. True) (- 23) (mk_form 2 1 3) [m23_segment, m23_segment] = Some pr"
      "proof_y pr = gen_bytes" "length (proof_proof pr) = 241"
    using m23_blob by (auto simp: map_option_eq_Some)
  have chain: "honest_chain unit_hash (\<lambda>_. True) (- 23) (mk_form 2 1 3) [m23_segment, m23_segment] (mk_form 2 1 3)"
    using m23_honest by (simp add: same_class_refl)
  have T: "total_len [m23_segment, m23_segment] = 4" "length [m23_segment, m23_segment] \<le> 2 ^ 23"
    by (simp_all add: total_len_def seg_len_def)
  let ?bs = "gen_bytes @ proof_proof pr"
  have l: "length ?bs = 341" using pr(3) by simp
  have c: "CheckProofOfTimeNWesolowski gcdext_min unit_hash (\<lambda>_. True) reduce (- 23) gen_bytes ?bs 341 4 1 = ret True"
    using honest_blob_accepted(1) [OF good_disc_m23 gcdext_min_ok m23_serializable m23_gen m23_serialized(1) chain m23_gen T(1) pr(1) T(2)] l
    by (simp add: pr(2))
  have b: "deserialize_form gcdext_min (- 23) gen_bytes 100 = ret (mk_form 2 1 3)" by code_simp
  have "deserialize_form gcdext_min (- 23) (gen_bytes @ proof_proof pr) 100 = ret (mk_form 2 1 3)"
    using deserialize_form_extend [where e = "proof_proof pr", OF b] by simp
  then have y: "deserialize_at gcdext_min (- 23) ?bs 0 = ret (mk_form 2 1 3)"
    by (simp add: deserialize_at_def blob_at_def)
  have n: "nat 1 = Suc 0" "(341 :: int) - 141 = 200" by simp_all
  from verifier_soundness [OF good_disc_m23 gcdext_min_ok(1) disjI2 [OF refl] c]
  obtain pf B segs n where v: "length segs = Suc 0" "blob_segments gcdext_min (- 23) ?bs 200 segs" "path_iters segs + n = 4"
      "weso_path unit_hash (\<lambda>_. True) (- 23) (mk_form 2 1 3) (segs @ [(n, B, pf)]) (mk_form 2 1 3)"
    unfolding n b y by auto
  obtain s where s: "segs = [s]" using v(1) by (cases segs) auto
  show ?thesis using v l unfolding s by (intro exI [of _ ?bs] exI [of _ s] exI [of _ n] exI [of _ B] exI [of _ pf]) simp
qed

text \<open>C2: the verdict of \<open>VerifyWesolowskiProof\<close> is exact: whenever it returns, it says
  whether the end form lies in the class the proof, the challenge and the input determine.\<close>

theorem verify_wesolowski_exact:
  assumes "good_disc D" and "gcdext_ok G" and "posdef D x" and "posdef D y" and "posdef D pf"
    and "VerifyWesolowskiProof G H P pulmark_reduce D x y pf n = ret b"
  shows "\<exists>B x' y'. get_B H P D x y = Some (B, x', y') \<and> 2 ^ 263 \<le> B \<and> (b \<longleftrightarrow> weso_equation D x y' pf B n)"
  using assms by (rule pulmark.verify_proof_iff)

theorem verify_wesolowski_exact_witness:
  "\<exists>B x' y'. get_B unit_hash (\<lambda>_. True) (- 23) (mk_form 2 1 3) (mk_form 1 1 6) = Some (B, x', y') \<and> 2 ^ 263 \<le> B \<and>
     (False \<longleftrightarrow> weso_equation (- 23) (mk_form 2 1 3) y' (mk_form 1 1 6) B 2)"
  by (rule verify_wesolowski_exact [OF good_disc_m23 gcdext_min_ok(1)]) (simp, simp, simp, code_simp)

text \<open>C3: an honest proof is never rejected: for \<open>y = x^(2^n)\<close> and the proof
  \<open>x^(2^n div B)\<close> the verifier does not answer false.\<close>

theorem verifier_completeness:
  assumes "good_disc D" and "gcdext_ok G" and "posdef D x" and "posdef D y" and "posdef D pf"
    and "get_B H P D x y = Some (B, x', y')"
    and "class_pow D x (2 ^ n) y" and "class_pow D x (nat (2 ^ n div B)) pf"
  shows "VerifyWesolowskiProof G H P pulmark_reduce D x y pf n \<noteq> ret False"
  by (rule verify_honest [OF pulmark.reducer_sound_axioms assms])

theorem verifier_completeness_witness:
  "VerifyWesolowskiProof gcdext_min unit_hash (\<lambda>_. True) pulmark_reduce (- 23) (mk_form 2 1 3) (mk_form 2 1 3)
     (mk_form 1 1 6) 0 \<noteq> ret False"
proof (rule verifier_completeness [OF good_disc_m23 gcdext_min_ok(1)])
  have x: "posdef (- 23) (mk_form 2 1 3)" by simp
  show "class_pow (- 23) (mk_form 2 1 3) (2 ^ 0) (mk_form 2 1 3)"
    using class_pow_1 [OF good_disc_m23 x] by simp
  show "get_B unit_hash (\<lambda>_. True) (- 23) (mk_form 2 1 3) (mk_form 2 1 3) =
      Some (2 ^ 263 + 1, mk_form 2 1 3, mk_form 2 1 3)"
    by code_simp
  show "class_pow (- 23) (mk_form 2 1 3) (nat (2 ^ 0 div (2 ^ 263 + 1))) (mk_form 1 1 6)"
    using class_pow_0 [of "mk_form 1 1 6" "- 23"] by simp
qed simp_all

text \<open>C4: NUCOMP composes: for every bound \<open>L\<close> it returns a positive definite form of
  the discriminant in the product class.\<close>

theorem nucomp_composes:
  assumes "good_disc D" and "gcdext_ok G" and "posdef D f" and "posdef D g"
  shows "\<exists>r. qfb_nucomp G f g D L = Some r \<and> posdef D r \<and> class_mul D f g r"
  using assms by (rule qfb_nucomp_ok)

theorem nucomp_composes_witness:
  "\<exists>r. qfb_nucomp gcdext_min (mk_form 2 1 3) (mk_form 2 (- 1) 3) (- 23) 2 = Some r \<and> posdef (- 23) r \<and>
     class_mul (- 23) (mk_form 2 1 3) (mk_form 2 (- 1) 3) r"
  by (rule nucomp_composes [OF good_disc_m23 gcdext_min_ok(1)]) simp_all

text \<open>C5: NUDUPL squares: for every bound \<open>L\<close> it returns a positive definite form of the
  discriminant in the square of the class.\<close>

theorem nudupl_squares:
  assumes "good_disc D" and "gcdext_ok G" and "posdef D f"
  shows "\<exists>r. qfb_nudupl G f D L = Some r \<and> posdef D r \<and> class_mul D f f r"
  using assms by (rule qfb_nudupl_ok)

theorem nudupl_squares_witness:
  "\<exists>r. qfb_nudupl gcdext_min (mk_form 2 1 3) (- 23) 2 = Some r \<and> posdef (- 23) r \<and>
     class_mul (- 23) (mk_form 2 1 3) (mk_form 2 1 3) r"
  by (rule nudupl_squares [OF good_disc_m23 gcdext_min_ok(1)]) simp

text \<open>C6: a proof a prover generates with the production reducer is
  \<open>x^(2^T div B)\<close>: the digits of \<open>GetBlock\<close>, the buckets and the two halves of
  the digit add up to the quotient, for every number of iterations and every \<open>k\<close>, \<open>l\<close>, as long
  as the position of a digit, a product of 64 bits in the code, does not wrap.\<close>

theorem generated_proof_power:
  assumes "good_disc D" and "gcdext_ok G" and "posdef D (seg_x segm)" and "posdef D (seg_y segm)"
    and "0 < k" and "0 < l" and "k \<le> 30" and "indices_fit k l (unat (seg_length segm))"
    and "get_B H P D (seg_x segm) (seg_y segm) = Some (B, x', y')"
    and "stored_powers D (seg_x segm) k l (unat (seg_length segm)) getform"
    and "GenerateProof G H P pulmark_reduce go getform segm D k l = ret p"
  shows "posdef D p \<and> weakly_reduced p \<and> class_pow D (seg_x segm) (nat (2 ^ unat (seg_length segm) div B)) p"
  using GenerateProof_correct [where t = False and go = go, OF assms(1-4) pulmark.reducer_sound_axioms _ assms(5-10)] assms(11)
  by simp

theorem generated_proof_power_witness:
  "class_pow (- 23) (mk_form 2 1 3) (nat (2 ^ 2 div m23_B)) (mk_form 1 1 6)"
proof -
  have r: "GenerateProof gcdext_min unit_hash (\<lambda>_. True) pulmark_reduce (\<lambda>_. True) (\<lambda>_. mk_form 2 1 3)
      m23_segment (- 23) 4 1 = ret (mk_form 1 1 6)"
    by code_simp
  show ?thesis
    using generated_proof_power [OF good_disc_m23 gcdext_min_ok(1) _ _ _ _ _ _ _ _ r, where B = m23_B]
      m23_challenge m23_stored m23_fit [of 4 1] by simp
qed

text \<open>C7: with a reducer that returns, and unless it is stopped, proof generation returns: no bucket
  index is out of range, no division is inexact, and every loop ends, for all \<open>k\<close> and \<open>l\<close> whose
  product, of 32 bits in the code, is not zero there; where it wraps to zero the code divides by
  it, and there is no result.\<close>

theorem generated_proof_returns:
  assumes "good_disc D" and "gcdext_ok G" and "posdef D (seg_x segm)" and "posdef D (seg_y segm)"
    and "0 < k" and "0 < l" and "k \<le> 30" and "indices_fit k l (unat (seg_length segm))"
    and "get_B H P D (seg_x segm) (seg_y segm) = Some (B, x', y')"
    and "stored_powers D (seg_x segm) k l (unat (seg_length segm)) getform"
  shows "if k * l mod 2 ^ 32 = 0 then \<forall>p. GenerateProof G H P reduce (\<lambda>_. True) getform segm D k l \<noteq> ret p
    else \<exists>p. GenerateProof G H P reduce (\<lambda>_. True) getform segm D k l = ret p"
proof (cases "k * l mod 2 ^ 32 = 0")
  case True
  then show ?thesis by (auto simp: GenerateProof_def ret_iff wrap32_def)
next
  case False
  then have "\<exists>p. GenerateProof G H P reduce (\<lambda>_. True) getform segm D k l = ret p"
    using holds_total [OF GenerateProof_correct [where t = True and go = "\<lambda>_. True",
        OF assms(1-4) exact.reducer_sound_axioms _ assms(5-10)]] exact.reducer_total_axioms by (auto simp: wrap32_def)
  then show ?thesis unfolding if_not_P [OF False] .
qed

theorem generated_proof_returns_witness:
  "\<exists>p. GenerateProof gcdext_min unit_hash (\<lambda>_. True) reduce (\<lambda>_. True) (\<lambda>_. mk_form 2 1 3) m23_segment (- 23) 4 1
     = ret p"
  using generated_proof_returns [OF good_disc_m23 gcdext_min_ok(1), of m23_segment 4 1 unit_hash "\<lambda>_. True" m23_B]
    m23_challenge m23_stored m23_fit [of 4 1] by simp

text \<open>C8: the parallel prover, whose two threads prove two ranges of digit positions and shift
  the higher one by squarings, computes the same power, whenever each thread is stopped.\<close>

theorem parallel_proof_power:
  assumes "good_disc D" and "gcdext_ok G" and "posdef D (seg_x segm)" and "posdef D (seg_y segm)"
    and "0 < k" and "0 < l" and "k \<le> 30" and "indices_fit k l (unat (seg_length segm))"
    and "get_B H P D (seg_x segm) (seg_y segm) = Some (B, x', y')"
    and "stored_powers D (seg_x segm) k l (unat (seg_length segm)) getform"
    and "ParallelGenerateProof G H P pulmark_reduce go0 go1 go_end getform segm D k l = ret p"
  shows "posdef D p \<and> weakly_reduced p \<and> class_pow D (seg_x segm) (nat (2 ^ unat (seg_length segm) div B)) p"
  using ParallelGenerateProof_correct [where t = False and ?go0.0 = go0 and ?go1.0 = go1 and go_end = go_end,
      OF assms(1-4) pulmark.reducer_sound_axioms _ assms(5-10)] assms(11)
  by simp

theorem parallel_proof_power_witness:
  "class_pow (- 23) (mk_form 2 1 3) (nat (2 ^ 2 div m23_B)) (mk_form 1 1 6)"
proof -
  have r: "ParallelGenerateProof gcdext_min unit_hash (\<lambda>_. True) pulmark_reduce (\<lambda>_. True) (\<lambda>_. True) True
      (\<lambda>_. mk_form 2 1 3) m23_segment (- 23) 4 2 = ret (mk_form 1 1 6)"
    by code_simp
  show ?thesis
    using parallel_proof_power [OF good_disc_m23 gcdext_min_ok(1) _ _ _ _ _ _ _ _ r, where B = m23_B]
      m23_challenge m23_stored m23_fit [of 4 2] by simp
qed

text \<open>C9: what a prover generates for a segment whose end is \<open>x^(2^T)\<close>, the verifier does
  not reject.\<close>

theorem generated_proof_verifies:
  assumes "good_disc D" and "gcdext_ok G" and "posdef D (seg_x segm)" and "posdef D (seg_y segm)"
    and "0 < k" and "0 < l" and "k \<le> 30" and "indices_fit k l (unat (seg_length segm))"
    and "get_B H P D (seg_x segm) (seg_y segm) = Some (B, x', y')"
    and "stored_powers D (seg_x segm) k l (unat (seg_length segm)) getform"
    and "class_pow D (seg_x segm) (2 ^ unat (seg_length segm)) (seg_y segm)"
    and "GenerateProof G H P pulmark_reduce go getform segm D k l = ret p"
  shows "VerifyWesolowskiProof G H P pulmark_reduce D (seg_x segm) (seg_y segm) p (unat (seg_length segm)) \<noteq> ret False"
  using generated_proof_accepted [OF assms(1-4) pulmark.reducer_sound_axioms pulmark.reducer_sound_axioms assms(5-12)] .

theorem generated_proof_verifies_witness:
  "VerifyWesolowskiProof gcdext_min unit_hash (\<lambda>_. True) pulmark_reduce (- 23) (mk_form 2 1 3) (mk_form 2 1 3)
     (mk_form 1 1 6) 2 \<noteq> ret False"
proof -
  have r: "GenerateProof gcdext_min unit_hash (\<lambda>_. True) pulmark_reduce (\<lambda>_. True) (\<lambda>_. mk_form 2 1 3)
      m23_segment (- 23) 4 1 = ret (mk_form 1 1 6)"
    by code_simp
  show ?thesis
    using generated_proof_verifies [OF good_disc_m23 gcdext_min_ok(1) _ _ _ _ _ _ _ _ _ r, where B = m23_B]
      m23_challenge m23_stored m23_power4 m23_fit [of 4 1] by simp
qed

text \<open>C10: end to end: the verifier accepts the bytes of the slow prover, end form and proof, sent with the
  serialized input.  With the gcd-free reducer it returns true; with the production reducer,
  whose loop is not known to end, it does not answer false and does not throw.  The digit the prover
  never writes when its exponent is zero is taken from zeroed storage, the only case in which
  it is defined.\<close>

theorem slow_prover_end_to_end:
  assumes "good_disc D" and "gcdext_ok G" and "gcdext_small G" and "serializable D"
    and "posdef D x" and "is_reduced x" and "snd (approx T) \<le> 30"
    and "ProveSlow G H P pulmark_reduce (Some 0) approx D x T = ret out"
    and "serialize_form x (num_bits D) = Some (xs, x)"
  shows "CheckProofOfTimeNWesolowski G H P reduce D xs out 200 T 0 = ret True \<and>
    CheckProofOfTimeNWesolowski G H P pulmark_reduce D xs out 200 T 0 \<in> {None, ret True}"
proof
  note acc = slow_proof_settles [where T = T and approx = approx, OF assms(1-6) pulmark.reducer_sound_axioms _ _ assms(7-9)]
  show "CheckProofOfTimeNWesolowski G H P reduce D xs out 200 T 0 = ret True"
    using settles_total [OF acc [OF exact.reducer_sound_axioms exact.reducer_total_axioms]] by auto
  show "CheckProofOfTimeNWesolowski G H P pulmark_reduce D xs out 200 T 0 \<in> {None, ret True}"
    using settles_partial [OF acc [OF pulmark.reducer_sound_axioms, of False]] by auto
qed

theorem slow_prover_end_to_end_witness:
  "CheckProofOfTimeNWesolowski gcdext_min unit_hash (\<lambda>_. True) reduce (- 23) gen_bytes (gen_bytes @ id_bytes) 200 8 0
     = ret True"
proof -
  have r: "ProveSlow gcdext_min unit_hash (\<lambda>_. True) pulmark_reduce (Some 0) (\<lambda>_. (1, 4)) (- 23) (mk_form 2 1 3) 8
      = ret (gen_bytes @ id_bytes)"
    by code_simp
  have s: "serialize_form (mk_form 2 1 3) (num_bits (- 23)) = Some (gen_bytes, mk_form 2 1 3)"
    by code_simp
  show ?thesis
    using slow_prover_end_to_end [OF good_disc_m23 gcdext_min_ok m23_serializable m23_gen _ _ r s] by (simp add: is_reduced_def)
qed

text \<open>C11: end to end for the aggregated scheme: evaluations of one discriminant, aggregated by
  \<open>AggreateVdfProofs\<close> with the counters the evaluations returned, are accepted by
  \<open>VerifyAggProof\<close> for every positive number of threads; with the gcd-free reduction the
  verifier returns and says true.\<close>

theorem aggregated_proof_accepted:
  assumes "good_disc D" and "D mod 4 = 1" and "gcdext_ok G" and "0 < nthreads" and "(nthreads - 1) * length cs < 2 ^ 31"
    and "map_res (\<lambda>c. EvalAggVdf G H P pulmark_reduce D c n) cs = ret evs"
    and "AggreateVdfProofs G H P pulmark_reduce D cs (map fst evs) n (map (\<lambda>e. int (snd e)) evs) = ret (pf, bi)"
  shows "VerifyAggProof G H P reduce D cs (map fst evs) pf n nthreads (map (\<lambda>e. int (snd e)) evs) (int bi) = ret True
    \<and> VerifyAggProof G H P pulmark_reduce D cs (map fst evs) pf n nthreads (map (\<lambda>e. int (snd e)) evs) (int bi)
      \<noteq> ret False"
proof
  show "VerifyAggProof G H P reduce D cs (map fst evs) pf n nthreads (map (\<lambda>e. int (snd e)) evs) (int bi) = ret True"
  proof -
    obtain b where "VerifyAggProof G H P reduce D cs (map fst evs) pf n nthreads (map (\<lambda>e. int (snd e)) evs) (int bi) = ret b"
        "b"
      using holds_total [OF agg_end_to_end_holds [OF assms(1-3) pulmark.reducer_sound_axioms exact.reducer_sound_axioms
          exact.reducer_total_axioms assms(4,5,6,7)]] by (elim exE conjE)
    then show ?thesis by (simp only: )
  qed
  have "holds False (\<lambda>b. b)
      (VerifyAggProof G H P pulmark_reduce D cs (map fst evs) pf n nthreads (map (\<lambda>e. int (snd e)) evs) (int bi))"
    by (rule agg_end_to_end_holds [OF assms(1-3) pulmark.reducer_sound_axioms pulmark.reducer_sound_axioms _ assms(4) _
        assms(6,7)]) simp_all
  then show "VerifyAggProof G H P pulmark_reduce D cs (map fst evs) pf n nthreads (map (\<lambda>e. int (snd e)) evs) (int bi)
      \<noteq> ret False"
    by (metis holds_ret)
qed

theorem aggregated_proof_accepted_witness:
  "VerifyAggProof gcdext_min one_hash (\<lambda>_. True) reduce (- 23) [0, 5] [mk_form 2 1 3, mk_form 2 1 3] (mk_form 1 1 6) 1 2
     [1, 1] 1 = ret True"
  using aggregated_proof_accepted [OF good_disc_m23 _ gcdext_min_ok(1) _ _ m23_evaluations, of 2 "mk_form 1 1 6" 1]
    m23_aggregate by simp

text \<open>C12: the verdict on an aggregated proof is exact, and independent of how the proofs are
  divided among threads: whenever it returns, it says whether the Wesolowski equation holds
  for the products of all the bases and of all the results, each raised to its own coefficient.\<close>

theorem aggregated_verdict_exact:
  assumes "good_disc D" and "gcdext_ok G" and "0 < nthreads" and "posdef D pf" and "\<forall>y\<in>set ys. posdef D y"
    and "VerifyAggProof G H P pulmark_reduce D cs ys pf n nthreads as bi = ret b"
  shows "\<exists>gs s B X Y. map_res (base_at H P D cs as) [0..<length cs] = ret gs \<and>
      (\<exists>gs' ys'. agg_seed (num_bits D) gs ys = Some (s, gs', ys')) \<and> HashPrimeFast H P s 264 [263] bi = Some B \<and>
      class_multi D (agg_terms H s gs [0..<length cs]) X \<and> class_multi D (agg_terms H s ys [0..<length cs]) Y \<and>
      (b \<longleftrightarrow> weso_equation D X Y pf B n)"
  using verify_agg_iff [OF assms(1,2) pulmark.reducer_sound_axioms assms(3-6)] .

theorem aggregated_verdict_exact_witness:
  "\<exists>gs s B X Y. map_res (base_at one_hash (\<lambda>_. True) (- 23) [0, 5] [1, 1]) [0..<2] = ret gs \<and>
      HashPrimeFast one_hash (\<lambda>_. True) s 264 [263] 1 = Some B \<and>
      class_multi (- 23) (agg_terms one_hash s gs [0..<2]) X \<and>
      class_multi (- 23) (agg_terms one_hash s [mk_form 2 1 3, mk_form 2 (- 1) 3] [0..<2]) Y \<and>
      \<not> weso_equation (- 23) X Y (mk_form 1 1 6) B 1"
proof -
  have r: "VerifyAggProof gcdext_min one_hash (\<lambda>_. True) pulmark_reduce (- 23) [0, 5] [mk_form 2 1 3, mk_form 2 (- 1) 3]
      (mk_form 1 1 6) 1 2 [1, 1] 1 = ret False"
    by code_simp
  have p: "posdef (- 23) (mk_form 1 1 6)" "\<forall>y\<in>set [mk_form 2 1 3, mk_form 2 (- 1) 3]. posdef (- 23) y" by simp_all
  have l: "length [0 :: int, 5] = 2" by simp
  show ?thesis
    using aggregated_verdict_exact [OF good_disc_m23 gcdext_min_ok(1) zero_less_numeral p r] unfolding l by blast
qed

text \<open>C13: the vendored SHA-256 equals the algorithm of FIPS 180-4 on 32-bit words, although it
  keeps 32-bit values in words of 64 bits and masks them, and counts the length in base \<open>2^16\<close>.\<close>

theorem sha256_is_fips:
  assumes "8 * length msg < 2 ^ 64"
  shows "hash256 msg = fips_sha256 msg"
  using assms by (rule hash256_fips_aux)

theorem sha256_is_fips_witness: "hash256 [97, 98, 99] = fips_sha256 [97, 98, 99]"
  by (rule sha256_is_fips) simp

text \<open>C14: feeding the message in chunks of any positive size gives the hash of the whole message.\<close>

theorem sha256_streaming:
  assumes "8 * length msg < 2 ^ 64" and "0 < n"
  shows "hash256_stream n msg = Some (hash256 msg)"
  using assms by (rule hash256_stream_aux)

theorem sha256_streaming_witness: "hash256_stream 2 [97, 98, 99] = Some (hash256 [97, 98, 99])"
  by (rule sha256_streaming) simp_all

text \<open>C15: the bytes of a form read back as the form: whatever representative of its class is
  serialized, the result has 100 bytes, and \<open>DeserializeForm\<close> reads from them the reduced form of
  the class, the one the serializer leaves behind.\<close>

theorem form_bytes_round_trip:
  assumes "good_disc D" and "gcdext_ok G" and "gcdext_small G" and "serializable D"
    and "posdef D f" and "serialize_form f (num_bits D) = Some (s, g)"
  shows "length s = 100 \<and> deserialize_form G D s 100 = ret g \<and> posdef D g \<and> is_reduced g \<and> same_class D f g"
  using assms by (rule serialize_form_reads_back)

theorem form_bytes_round_trip_witness:
  "\<exists>s. deserialize_form gcdext_min (- 23) s 100 = ret (mk_form 2 1 3)"
proof -
  have s: "map_option snd (serialize_form (mk_form 3 (- 1) 2) (num_bits (- 23))) = Some (mk_form 2 1 3)" by code_simp
  then obtain s where "serialize_form (mk_form 3 (- 1) 2) (num_bits (- 23)) = Some (s, mk_form 2 1 3)"
    by (auto simp: map_option_eq_Some)
  from form_bytes_round_trip [OF good_disc_m23 gcdext_min_ok m23_serializable _ this] show ?thesis by auto
qed

text \<open>C16: hashing into the class group yields a reduced positive definite form of the
  discriminant, never an error, and the iteration count it returns makes \<open>H_GFast\<close>
  recompute exactly that form.\<close>

theorem hash_to_group_recomputed:
  assumes "H_G H P chal D = Some r" and "D < 0" and "D mod 4 = 1"
  shows "\<exists>f n. r = Inr (f, n) \<and> posdef D f \<and> is_reduced f \<and> 0 < n \<and> H_GFast H P chal D (int n) = ret f"
  using assms by (rule H_G_result)

theorem hash_to_group_recomputed_witness:
  "H_GFast one_hash (\<lambda>_. True) 5 (- 23) 1 = ret (mk_form 2 (- 1) 3)"
proof -
  have r: "H_G one_hash (\<lambda>_. True) 5 (- 23) = Some (Inr (mk_form 2 (- 1) 3, 1))" by code_simp
  show ?thesis using hash_to_group_recomputed [OF r] by auto
qed

text \<open>C17: a counter that points at a candidate which is prime while the discriminant is not a
  residue makes \<open>H_GFast\<close> loop: a verifier that is given such a counter never answers.\<close>

theorem hash_to_group_stuck:
  assumes "H_G_candidate H s = Some (a, s')" and "P a" and "H_G_root D a = Some None"
  shows "H_GFast_loop H P D (int (Suc ii)) ii s = None"
  using assms by (rule H_GFast_stuck)

theorem hash_to_group_stuck_witness: "H_GFast_loop unit_hash (\<lambda>_. True) (- 31) 1 0 [0] = None"
proof -
  have c: "H_G_candidate unit_hash [0] = Some (3, [1])" by code_simp
  have r: "H_G_root (- 31) 3 = Some None" by code_simp
  show ?thesis using hash_to_group_stuck [where P = "\<lambda>_. True" and ii = 0, OF c _ r] by simp
qed

text \<open>C18: hashing to a prime with the iteration count, hashing to a prime, and skipping to the
  count all give the same prime.\<close>

theorem hash_prime_skip:
  assumes "HashPrimeWithIteration H P seed len msk = Some (p, n)"
  shows "HashPrime H P seed len msk = Some p \<and> HashPrimeFast H P seed len msk (int n) = Some p \<and> 0 < n"
  using assms by (rule HashPrimeWithIteration_result)

theorem hash_prime_skip_witness:
  "HashPrimeFast one_hash (\<lambda>p. p mod 2 = 1) [1, 2] 256 [255] 1 = HashPrime one_hash (\<lambda>p. p mod 2 = 1) [1, 2] 256 [255]"
proof -
  have r: "HashPrimeWithIteration one_hash (\<lambda>p. p mod 2 = 1) [1, 2] 256 [255] = Some (2 ^ 255 + 1, 1)" by code_simp
  show ?thesis using hash_prime_skip [OF r] by simp
qed

text \<open>C19: the aggregator's long division computes \<open>g^(2^T div B)\<close> without ever forming
  \<open>2^T\<close>, and returns.\<close>

theorem quotient_power:
  assumes "good_disc D" and "gcdext_ok G" and "posdef D g" and "1 < B" and "T < 2 ^ 31"
  shows "(\<exists>p. PowFormWithQuotient G reduce g D T B L = ret p \<and> posdef D p \<and> class_pow D g (nat (2 ^ T div B)) p) \<and>
    (\<forall>p. PowFormWithQuotient G pulmark_reduce g D T B L = ret p \<longrightarrow> posdef D p \<and> class_pow D g (nat (2 ^ T div B)) p)"
proof (intro conjI allI impI)
  show "\<exists>p. PowFormWithQuotient G reduce g D T B L = ret p \<and> posdef D p \<and> class_pow D g (nat (2 ^ T div B)) p"
    using holds_total [OF PowFormWithQuotient_holds [OF assms(1-3) exact.reducer_sound_axioms
        exact.reducer_total_axioms assms(4,5)]] by (auto simp: pw_def)
  fix p
  assume "PowFormWithQuotient G pulmark_reduce g D T B L = ret p"
  then show "posdef D p" "class_pow D g (nat (2 ^ T div B)) p"
    using PowFormWithQuotient_holds [OF assms(1-3) pulmark.reducer_sound_axioms _ assms(4,5), of False L]
    by (auto simp: pw_def)
qed

theorem quotient_power_witness:
  "\<exists>p. PowFormWithQuotient gcdext_min reduce (mk_form 2 1 3) (- 23) 5 3 2 = ret p \<and> posdef (- 23) p \<and>
     class_pow (- 23) (mk_form 2 1 3) 10 p"
  using quotient_power [OF good_disc_m23 gcdext_min_ok(1) m23_gen, of 3 5 2] by simp

text \<open>C20: the two's complement bytes of an integer, negative ones included, have the asked length,
  read back as the integer modulo \<open>256^n\<close>, and, when it fits, as the integer itself with the
  top bit for the sign; from \<open>2^31\<close> bytes on the counter of the loop overflows.\<close>

theorem twos_complement_bytes:
  "case ConvertIntegerToBytes2 x n of
     None \<Rightarrow> 2 ^ 31 \<le> n
   | Some bs \<Rightarrow> n < 2 ^ 31 \<and> length bs = n \<and> integer_of_bytes bs = x mod 256 ^ n \<and>
       (- (256 ^ n) \<le> 2 * x \<and> 2 * x < 256 ^ n \<longrightarrow>
        x = (if 2 * integer_of_bytes bs < 256 ^ n then integer_of_bytes bs else integer_of_bytes bs - 256 ^ n))"
proof (cases "ConvertIntegerToBytes2 x n")
  case None
  then show ?thesis using ConvertIntegerToBytes2_returns [of x n] by simp
next
  case (Some bs)
  note v = ConvertIntegerToBytes2_value [OF Some]
  have "x mod 256 ^ n = (if x < 0 then x + 256 ^ n else x)" if "- (256 ^ n) \<le> 2 * x" "2 * x < 256 ^ n"
  proof (cases "x < 0")
    case True
    have "(x + 256 ^ n) mod 256 ^ n = x + 256 ^ n" by (rule mod_pos_pos_trivial) (use that True in linarith)+
    then show ?thesis using True by simp
  next
    case False
    have "x mod 256 ^ n = x" by (rule mod_pos_pos_trivial) (use that False in linarith)+
    then show ?thesis using False by simp
  qed
  then show ?thesis using v by (auto simp: Some)
qed

theorem twos_complement_bytes_witness:
  "\<exists>bs. ConvertIntegerToBytes2 (- 3) 2 = Some bs \<and> length bs = 2 \<and> integer_of_bytes bs = 65533"
  using twos_complement_bytes [where x = "- 3" and n = 2] by (auto split: option.splits)

text \<open>C21: the reduction and the squaring of the original implementation, written over member
  temporaries, compute the same forms as \<open>vdf_new.h\<close>, failures included.\<close>

theorem original_reduce_square:
  "orig_reduce f = reduce f \<and> orig_square G f = square G f"
  using orig_reduce_eq orig_square_eq by blast

text \<open>C22: the original repeated squaring, for a discriminant without proper divisors, always
  returns the reduced form of \<open>x^(2^n)\<close>.\<close>

theorem original_repeated_square:
  assumes "prime_disc D" and "gcdext_ok G" and "posdef D f" and "is_reduced f"
  shows "\<exists>r. orig_repeated_square G f n = Some r \<and> posdef D r \<and> is_reduced r \<and> class_pow D f (2 ^ n) r"
  using assms by (rule orig_repeated_square_power)

theorem original_repeated_square_witness:
  "\<exists>r. orig_repeated_square gcdext_min (mk_form 2 1 3) 5 = Some r \<and> posdef (- 23) r \<and> is_reduced r \<and>
     class_pow (- 23) (mk_form 2 1 3) (2 ^ 5) r"
  by (rule original_repeated_square [OF prime_disc_m23 gcdext_min_ok(1) m23_gen]) (simp add: is_reduced_def)

text \<open>C23: the squaring loop, for any of the three callbacks and any engine that either reports
  what it squared or reports corruption: after any number of passes the form is
  \<open>x^(2^n)\<close> for the \<open>n\<close> squarings counted, the callback holds the powers it promises about
  them, and every checkpoint handed to the storage workers is the power of its iteration.\<close>

theorem squaring_loop_invariant:
  assumes "prime_disc D" and "gcdext_ok G" and "posdef D x" and "is_reduced x" and "fast_spec D fast"
    and "new_callback approx x st w"
    and "p * (checkpoint_interval + 99) + checkpoint_interval < checkpoint_space * 2 ^ 16"
    and "repeated_square G pulmark_reduce fast st D p (rs_init x w) = Some s"
  shows "pw D x (2 ^ rs_iterations s) (rs_f s) \<and> weso_ok D x (rs_iterations s) (rs_iterations s) (rs_weso s) \<and>
    rs_reported s \<le> rs_iterations s \<and> (\<forall>(y, c)\<in>set (rs_submitted s). c mod 2 ^ 15 = 0 \<and> pw D x (2 ^ c) y)"
  using repeated_square_inv [OF assms(1-3,5) pulmark.reducer_sound_axioms, of False
      w st "rs_init x w" p, OF _ _ callback_start [OF assms(1,3,4,6)] loop_init_bound [OF assms(7)]] assms(8)
  by (simp add: loop_inv_def loop_core_def)

theorem squaring_loop_invariant_witness: "pw (- 23) (mk_form 2 1 3) (2 ^ 2) (mk_form 2 1 3)"
proof -
  obtain s where s: "repeated_square gcdext_min pulmark_reduce lazy_engine False (- 23) (Suc (Suc 0))
      (rs_init (mk_form 2 1 3) (Two (TwoWesolowskiCallback (mk_form 2 1 3)))) = Some s"
    and f: "rs_f s = mk_form 2 1 3" "rs_iterations s = 2"
    using m23_run by (auto simp: map_option_eq_Some)
  have r: "is_reduced (mk_form 2 1 3)" by (simp add: is_reduced_def)
  show ?thesis
    using squaring_loop_invariant [OF prime_disc_m23 gcdext_min_ok(1) m23_gen r lazy_engine_ok m23_callback
        few_passes s] by (simp add: f)
qed

text \<open>C24: with a reducer that returns and an engine that reports no corruption the loop never
  fails: no write leaves an array, no position overflows an \<open>int\<close>, and no state of the engine
  is divided by zero, up to the end of the array of checkpoints.\<close>

theorem squaring_loop_returns:
  assumes "prime_disc D" and "gcdext_ok G" and "posdef D x" and "is_reduced x" and "fast_spec D fast"
    and "new_callback approx x st w" and "\<forall>f n b. fst (snd (fast f n b)) \<noteq> None"
    and "p * (checkpoint_interval + 99) + checkpoint_interval < checkpoint_space * 2 ^ 16"
  shows "\<exists>s. repeated_square G reduce fast st D p (rs_init x w) = Some s"
  using holds_total [OF repeated_square_inv [OF assms(1-3,5) exact.reducer_sound_axioms exact.reducer_total_axioms
      assms(7) callback_start [OF assms(1,3,4,6)] loop_init_bound [OF assms(8)]]]
  by (auto simp: lift_opt_ret_iff)

theorem squaring_loop_returns_witness:
  "\<exists>s. repeated_square gcdext_min reduce lazy_engine False (- 23) 10
      (rs_init (mk_form 2 1 3) (Two (TwoWesolowskiCallback (mk_form 2 1 3)))) = Some s"
  by (rule squaring_loop_returns [OF prime_disc_m23 gcdext_min_ok(1) m23_gen _ lazy_engine_ok m23_callback _ few_passes])
    (simp_all add: is_reduced_def)

text \<open>C25: a batch the engine reports as corrupted is done again: whatever the engine has told
  the callback, afterwards the form and the stored powers are right for the whole batch.\<close>

theorem corrupted_batch_redone:
  assumes "prime_disc D" and "gcdext_ok G" and "posdef D x" and "fast_spec D fast" and "fast f n b = (ds, None, f')"
    and "weso_ok D x n n w" and "pw D x (2 ^ n) f" and "fa f < - D"
    and "\<forall>i<b. weso_room w (n + i)" and "0 < b"
    and "square_batch G (on_iteration pulmark_reduce D) fast n b f w = Some (k, g, w')"
  shows "k = b \<and> pw D x (2 ^ (n + b)) g \<and> weso_ok D x (n + b) (n + b) w'"
  using corrupted_batch [OF assms(1-4) pulmark.reducer_sound_axioms assms(5-11)] .

theorem corrupted_batch_redone_witness: "pw (- 23) (mk_form 2 1 3) (2 ^ 3) (mk_form 2 (- 1) 3)"
proof -
  obtain w' where r: "square_batch gcdext_min (on_iteration pulmark_reduce (- 23)) broken_engine 0 3 (mk_form 2 1 3)
        (Two (TwoWesolowskiCallback (mk_form 2 1 3))) = Some (3, mk_form 2 (- 1) 3, w')"
    using m23_broken by (auto simp: map_option_eq_Some)
  have spec: "fast_spec (- 23) broken_engine" by (simp add: fast_spec_def)
  have ok: "weso_ok (- 23) (mk_form 2 1 3) 0 0 (Two (TwoWesolowskiCallback (mk_form 2 1 3)))"
    using two_start [OF good_disc_m23 m23_gen] by simp
  have p: "pw (- 23) (mk_form 2 1 3) (2 ^ 0) (mk_form 2 1 3)"
    using class_pow_1 [OF good_disc_m23 m23_gen] by (simp add: pw_def)
  have room: "\<forall>i<3. weso_room (Two (TwoWesolowskiCallback (mk_form 2 1 3))) (0 + i)"
    by (simp add: weso_room_def two_room_def two_slot_def TwoWesolowskiCallback_def two_constants)
  show ?thesis
    using corrupted_batch_redone [OF prime_disc_m23 gcdext_min_ok(1) m23_gen spec refl ok p _ room _ r] by simp
qed

text \<open>C26: every event of a batch of the 2-Wesolowski loop is stored inside its array, before and
  after the switch to the larger step, although the array has no slack for the rounding.\<close>

theorem two_weso_in_bounds:
  assumes "prime_disc D" and "gcdext_ok G" and "posdef D x" and "is_reduced x" and "fast_spec D fast"
    and "p * (checkpoint_interval + 99) + checkpoint_interval < checkpoint_space * 2 ^ 16"
    and "repeated_square G pulmark_reduce fast False D p (rs_init x (Two (TwoWesolowskiCallback x))) = Some s"
    and "\<not> rs_done s" and "rs_weso s = Two u" and "i < checkpoint_interval"
  shows "\<exists>pos<two_space. two_position (Suc (rs_iterations s + i)) u = Some pos"
proof -
  have new: "new_callback approx x False (Two (TwoWesolowskiCallback x))" for approx by (simp add: new_callback_def)
  have "loop_inv D x (Two (TwoWesolowskiCallback x)) False s"
    using repeated_square_inv [OF assms(1-3,5) pulmark.reducer_sound_axioms, of False "Two (TwoWesolowskiCallback x)" False
        "rs_init x (Two (TwoWesolowskiCallback x))" p, OF _ _ callback_start [OF assms(1,3,4) new] loop_init_bound [OF assms(6)]]
      assms(7) by simp
  then show ?thesis using assms(8-10) by (rule two_batch_cells)
qed

theorem two_weso_in_bounds_witness:
  "\<exists>pos<two_space. two_position 10000 (TwoWesolowskiCallback (mk_form 2 1 3)) = Some pos"
proof -
  let ?w = "Two (TwoWesolowskiCallback (mk_form 2 1 3))"
  have r: "repeated_square gcdext_min pulmark_reduce lazy_engine False (- 23) 0 (rs_init (mk_form 2 1 3) ?w) =
      Some (rs_init (mk_form 2 1 3) ?w)" by simp
  have red: "is_reduced (mk_form 2 1 3)" by (simp add: is_reduced_def)
  show ?thesis
    using two_weso_in_bounds [OF prime_disc_m23 gcdext_min_ok(1) m23_gen red lazy_engine_ok few_passes r, where i = 9999]
    by (simp add: rs_init_def checkpoint_interval_def del: two_position_def)
qed

text \<open>C27: the positions of the n-Wesolowski callback: every exponent of every bucket has a cell
  inside the array, which no \<open>int\<close> computation overflows, and two exponents that are both
  stored share a cell only when they belong to one bucket and lie 20 segments or more apart.\<close>

theorem segment_cells:
  assumes "0 < segments" and "segments \<le> 15" and "posdef D x" and "good_disc D"
    and "FastAlgorithmCallback segments x multi = Some s" and "b < segments" and "c < segments"
  shows "\<exists>p<fw_space s. fast_position e b s = Some p \<and>
    (\<forall>f. fast_position f c s = Some p \<longrightarrow> (e mod power_2 b) mod bucket_kl b = 0 \<longrightarrow> (f mod power_2 c) mod bucket_kl c = 0 \<longrightarrow>
       e \<le> f \<longrightarrow> b = c \<and> (e = f \<or> (e div power_2 b + 20) * power_2 b \<le> f))"
proof -
  have s: "fast_shape s" "fw_segments s = segments"
    using fast_initial [OF assms(4,3,1,2,5)] by (simp_all add: fast_ok_def)
  have e: "fast_position e b s = Some (slot b e) \<and> slot b e < fw_space s"
    using fast_position_slot [OF s(1)] assms(6) by (simp add: s)
  have f: "fast_position f c s = Some (slot c f)" for f using fast_position_slot [OF s(1)] assms(7) by (simp add: s)
  show ?thesis
    using e f slot_window [of b e] by (metis linorder_not_less on_grid_def option.inject slot_bucket)
qed

theorem segment_cells_witness:
  "\<exists>s p. FastAlgorithmCallback 1 (mk_form 2 1 3) False = Some s \<and> p < fw_space s \<and> fast_position 65546 0 s = Some p"
proof -
  obtain s where s: "FastAlgorithmCallback 1 (mk_form 2 1 3) False = Some s"
    by (simp add: FastAlgorithmCallback_def kWindowSize_def bucket_size1_def bucket_size2_def put_def)
  show ?thesis using segment_cells [OF _ _ m23_gen good_disc_m23 s, of 0 0 65546] s by auto
qed

text \<open>C28: what \<open>assign\<close> lets through is typed: without the corruption flag it yields the
  coefficients of the engine exactly when they extend to a positive definite form of the
  discriminant, and that form is what it writes; everything else is refused.\<close>

theorem assign_validates:
  assumes "D < 0" and "sq_a s \<noteq> 0"
  shows "\<exists>r. assign D s = Some r \<and>
    (case r of
       Some (f, n) \<Rightarrow> \<not> sq_corruption s \<and> fa f = sq_a s \<and> fb f = sq_b s \<and> n = sq_iterations s \<and> posdef D f
     | None \<Rightarrow> sq_corruption s \<or> \<not> (\<exists>c. posdef D (mk_form (sq_a s) (sq_b s) c)))"
  using assms by (rule assign_exact)

theorem assign_validates_witness:
  "assign (- 23) \<lparr>sq_a = 2, sq_b = 1, sq_corruption = False, sq_iterations = 7\<rparr> = Some (Some (mk_form 2 1 3, 7)) \<and>
   \<not> (\<exists>c. posdef (- 23) (mk_form 2 2 c))"
proof -
  have "assign (- 23) \<lparr>sq_a = 2, sq_b = 2, sq_corruption = False, sq_iterations = 7\<rparr> = Some None" by code_simp
  then have "\<not> (\<exists>c. posdef (- 23) (mk_form 2 2 c))"
    using assign_validates [of "- 23" "\<lparr>sq_a = 2, sq_b = 2, sq_corruption = False, sq_iterations = 7\<rparr>"]
    by (simp del: posdef_def)
  moreover have "assign (- 23) \<lparr>sq_a = 2, sq_b = 1, sq_corruption = False, sq_iterations = 7\<rparr> = Some (Some (mk_form 2 1 3, 7))"
    by code_simp
  ultimately show ?thesis by blast
qed

text \<open>C29: an honest n-Wesolowski proof is accepted: for a chain of segments, each starting
  in the class where the one before ends, \<open>CheckProofOfTimeNWesolowski\<close> reads from the bytes the
  timelord writes the forms, the iterations and the challenges it wants, whatever form
  represents each class.  With the gcd-free reducer the answer is true; with the production
  reducer, whose loop is not known to end, no answer is false and nothing is thrown.\<close>

theorem honest_blob_verifies:
  assumes "good_disc D" and "gcdext_ok G" and "gcdext_small G" and "serializable D"
    and "posdef D x" and "serialize_form x (num_bits D) = Some (xs, x)"
    and "honest_chain H P D x segs y" and "posdef D y" and "total_len segs = T"
    and "proof_blob H P D y segs = Some pr" and "length segs \<le> 2 ^ 23"
  shows "CheckProofOfTimeNWesolowski G H P reduce D xs (proof_y pr @ proof_proof pr)
      (int (length (proof_y pr @ proof_proof pr))) T (int (length segs) - 1) = ret True \<and>
    CheckProofOfTimeNWesolowski G H P pulmark_reduce D xs (proof_y pr @ proof_proof pr)
      (int (length (proof_y pr @ proof_proof pr))) T (int (length segs) - 1) \<in> {None, ret True}"
  using honest_blob_accepted [OF assms] by blast

theorem honest_blob_verifies_witness:
  "\<exists>bs. length bs = 341 \<and>
     CheckProofOfTimeNWesolowski gcdext_min unit_hash (\<lambda>_. True) reduce (- 23) gen_bytes bs 341 4 1 = ret True"
proof -
  obtain pr where pr: "proof_blob unit_hash (\<lambda>_. True) (- 23) (mk_form 2 1 3) [m23_segment, m23_segment] = Some pr"
      "proof_y pr = gen_bytes" "length (proof_proof pr) = 241"
    using m23_blob by (auto simp: map_option_eq_Some)
  have chain: "honest_chain unit_hash (\<lambda>_. True) (- 23) (mk_form 2 1 3) [m23_segment, m23_segment] (mk_form 2 1 3)"
    using m23_honest by (simp add: same_class_refl)
  have T: "total_len [m23_segment, m23_segment] = 4" by (simp add: total_len_def seg_len_def)
  show ?thesis
    using honest_blob_verifies [OF good_disc_m23 gcdext_min_ok m23_serializable m23_gen m23_serialized(1) chain m23_gen T pr(1)] pr(2,3)
    by (intro exI [of _ "proof_y pr @ proof_proof pr"]) simp
qed

text \<open>C30: end to end for one segment: the squaring loop with the 1-Wesolowski callback, run until
  it has passed the wanted number of squarings, then \<open>ProveOneWesolowski\<close> on what the callback
  stored.  The verifier accepts the bytes: with the gcd-free reducer it returns true, with the
  production reducer no answer is false and nothing is thrown.\<close>

theorem one_weso_end_to_end:
  assumes "prime_disc D" and "gcdext_ok G" and "gcdext_small G" and "serializable D" and "red = pulmark_reduce \<or> red = reduce"
    and "posdef D x" and "is_reduced x" and "serialize_form x (num_bits D) = Some (xs, x)"
    and "fast_spec D fast" and "weso_approx_ok approx" and "OneWesolowskiCallback approx x (unat iters) = Some a"
    and "p * (checkpoint_interval + 99) + checkpoint_interval < checkpoint_space * 2 ^ 16"
    and "repeated_square G red fast st D p (rs_init x (One a)) = Some s" and "\<not> st"
    and "iters \<noteq> 0" and "unat iters \<le> rs_iterations s" and "rs_weso s = One u"
    and "ProveOneWesolowski G H P red approx go False iters D x u = Some pr"
  shows "CheckProofOfTimeNWesolowski G H P reduce D xs (proof_y pr @ proof_proof pr)
      (int (length (proof_y pr @ proof_proof pr))) (unat iters) (int (proof_witness_type pr)) = ret True \<and>
    CheckProofOfTimeNWesolowski G H P pulmark_reduce D xs (proof_y pr @ proof_proof pr)
      (int (length (proof_y pr @ proof_proof pr))) (unat iters) (int (proof_witness_type pr)) \<in> {None, ret True}"
proof -
  have red: "reducer_sound red"
    using assms(5) pulmark.reducer_sound_axioms exact.reducer_sound_axioms by blast
  have new: "new_callback approx x st (One a)" using assms(11,14) by (auto simp: new_callback_def)
  have "holds False (\<lambda>s. loop_inv D x (One a) st s \<and> rs_iterations s < checkpoint_space * 2 ^ 16)
      (lift_opt (repeated_square G red fast st D p (rs_init x (One a))))"
    by (rule repeated_square_within [OF assms(1,2,6,9) red, of False "One a" st "rs_init x (One a)" p, OF _ _ callback_start [OF assms(1,6,7) new] loop_init_bound [OF assms(12)]])
      simp_all
  then have inv: "loop_inv D x (One a) st s" and "rs_iterations s < checkpoint_space * 2 ^ 16" using assms(13) by simp_all
  then have le: "unat iters < 2 ^ 63" using assms(16) by (simp add: checkpoint_space_def)
  from loop_one_ok [OF inv assms(11)] assms(17)
  have ok: "one_ok D x (rs_iterations s) (rs_iterations s) u" "ow_wanted u = unat iters"
    "ow_kl u = (let (k, l) = weso_parameters approx (unat iters) in (k * l) mod 2 ^ 32)" by auto
  note acc = prove_one_accepted [OF red prime_disc_good [OF assms(1)] assms(2-4,6,8) ok(1,2) assms(16,15) le assms(10) ok(3) assms(18)]
  show ?thesis using acc by blast
qed


theorem one_weso_end_to_end_witness:
  "\<exists>s. CheckProofOfTimeNWesolowski gcdext_min unit_hash (\<lambda>_. True) reduce (- 23) gen_bytes s (int (length s)) 1 0 = ret True"
proof -
  obtain a s u where a: "OneWesolowskiCallback (\<lambda>_. (10, 1)) (mk_form 2 1 3) (unat (1 :: 64 word)) = Some a"
    and s: "repeated_square gcdext_min reduce lazy_engine False (- 23) (Suc 0) (rs_init (mk_form 2 1 3) (One a)) = Some s"
    and u: "rs_iterations s = 1" "rs_weso s = One u" "ow_result u = mk_form 2 (- 1) 3" "ow_forms u 0 = mk_form 2 1 3"
    using m23_one_run by auto
  let ?s = "\<lparr>seg_start = 0, seg_length = 1, seg_x = mk_form 2 1 3, seg_y = mk_form 2 (- 1) 3, seg_proof = zero_form,
      seg_empty = False\<rparr>"
  have "stored_powers (- 23) (mk_form 2 1 3) 10 1 1 (ow_forms u)"
    using u(4) class_pow_1 [OF good_disc_m23 m23_gen] by (auto simp: stored_powers_def pw_def)
  then obtain p where p: "GenerateProof gcdext_min unit_hash (\<lambda>_. True) reduce (\<lambda>_. True) (ow_forms u) ?s (- 23) 10 1 = ret p"
      and "posdef (- 23) p"
    using holds_total [OF GenerateProof_correct [OF good_disc_m23 gcdext_min_ok(1) _ _ exact.reducer_sound_axioms,
          of ?s True "\<lambda>_. True" 10 1 unit_hash "\<lambda>_. True" m23_B _ _ "ow_forms u"]] exact.reducer_total_axioms m23_one_challenge m23_fit [of 10 1] by auto
  then obtain y y' q q' where yq: "serialize_form (mk_form 2 (- 1) 3) (num_bits (- 23)) = Some (y, y')"
      "serialize_form p (num_bits (- 23)) = Some (q, q')"
    using m23_serialize [of "mk_form 2 (- 1) 3"] m23_serialize [of p] by auto
  let ?pr = "\<lparr>proof_y = y, proof_proof = q, proof_witness_type = 0\<rparr>"
  have pr: "ProveOneWesolowski gcdext_min unit_hash (\<lambda>_. True) reduce (\<lambda>_. (10, 1)) (\<lambda>_. True) False 1 (- 23) (mk_form 2 1 3) u
      = Some ?pr"
    using p yq by (simp add: ProveOneWesolowski_def OneWesolowskiProver_def weso_parameters_def u(3) wait_finished_def ret_def)
  have ap: "weso_approx_ok (\<lambda>_. (10, 1))" by (simp add: weso_approx_ok_def)
  have "CheckProofOfTimeNWesolowski gcdext_min unit_hash (\<lambda>_. True) reduce (- 23) gen_bytes (proof_y ?pr @ proof_proof ?pr)
      (int (length (proof_y ?pr @ proof_proof ?pr))) (unat (1 :: 64 word)) (int (proof_witness_type ?pr)) = ret True"
    by (rule conjunct1 [OF one_weso_end_to_end [OF prime_disc_m23 gcdext_min_ok m23_serializable disjI2 [OF refl] m23_gen _ m23_serialized(1)
        lazy_engine_ok ap a few_passes s _ _ _ u(2) pr]]) (use u(1) in \<open>simp_all add: is_reduced_def\<close>)
  then show ?thesis by (intro exI [of _ "y @ q"]) simp
qed

text \<open>C31: end to end for the nested scheme: the prover of depth 2 reads the array of the
  2-Wesolowski callback while the squaring loop goes on; the state it reads an exponent from
  is the callback after any pass of the loop whose reported iterations have reached the
  exponent.  The verifier accepts the three proofs: with the gcd-free reducer it returns true,
  with the production reducer no answer is false and nothing is thrown.\<close>

theorem two_weso_end_to_end:
  assumes "prime_disc D" and "gcdext_ok G" and "gcdext_small G" and "serializable D" and "red = pulmark_reduce \<or> red = reduce"
    and "posdef D x" and "is_reduced x" and "serialize_form x (num_bits D) = Some (xs, x)" and "fast_spec D fast"
    and "\<forall>e\<le>N. \<exists>p s. p * (checkpoint_interval + 99) + checkpoint_interval < checkpoint_space * 2 ^ 16 \<and>
      repeated_square G red fast False D p (rs_init x (Two (TwoWesolowskiCallback x))) = Some s \<and>
      e \<le> rs_reported s \<and> rs_weso s = Two (W e)"
    and "N < 2 ^ 63" and "\<forall>d i. \<not> stop d i" and "ProveTwoWeso G H P red stop go D 2 x N 0 W = Some pr"
  shows "CheckProofOfTimeNWesolowski G H P reduce D xs (proof_y pr @ proof_proof pr)
      (int (length (proof_y pr @ proof_proof pr))) N (int (proof_witness_type pr)) = ret True \<and>
    CheckProofOfTimeNWesolowski G H P pulmark_reduce D xs (proof_y pr @ proof_proof pr)
      (int (length (proof_y pr @ proof_proof pr))) N (int (proof_witness_type pr)) \<in> {None, ret True}"
proof -
  have red: "reducer_sound red"
    using assms(5) pulmark.reducer_sound_axioms exact.reducer_sound_axioms by blast
  let ?w = "Two (TwoWesolowskiCallback x)"
  have new: "new_callback (\<lambda>_. (10, 1)) x False ?w" by (simp add: new_callback_def)
  have "two_snapshot D x e (W e)" if "e \<le> N" for e
  proof -
    obtain p s where p: "p * (checkpoint_interval + 99) + checkpoint_interval < checkpoint_space * 2 ^ 16"
      and s: "repeated_square G red fast False D p (rs_init x ?w) = Some s"
      and e: "e \<le> rs_reported s" "rs_weso s = Two (W e)" using assms(10) \<open>e \<le> N\<close> by blast
    have "holds False (loop_inv D x ?w False) (lift_opt (repeated_square G red fast False D p (rs_init x ?w)))"
      by (rule repeated_square_inv [OF assms(1,2,6,9) red, of False ?w False "rs_init x ?w" p, OF _ _
            callback_start [OF assms(1,6,7) new] loop_init_bound [OF p]]) simp_all
    then have inv: "loop_inv D x ?w False s" using s by simp
    then have "rs_reported s \<le> rs_iterations s" by (simp add: loop_inv_def loop_core_def)
    then show ?thesis using loop_two_snapshot [OF inv e(2), of e] e(1) by simp
  qed
  then show ?thesis
    using two_weso_accepted [OF assms(1-4) red assms(6,8,12) _ assms(11,13)] by blast
qed

theorem two_weso_end_to_end_witness:
  "\<exists>s. CheckProofOfTimeNWesolowski gcdext_min unit_hash (\<lambda>_. True) reduce (- 23) gen_bytes s (int (length s)) 1 2 = ret True"
proof -
  let ?x = "mk_form 2 1 3" and ?y = "mk_form 2 (- 1) 3" and ?W = "\<lambda>_. TwoWesolowskiCallback (mk_form 2 1 3)"
  have g: "two_get_form 0 (?W 0) = Some ?x"
    by (simp add: two_get_form_def two_position_def TwoWesolowskiCallback_def two_space_def kSwitchIters_def kMaxItersAllowed_def)
  obtain p where p: "TwoWesolowskiProver gcdext_min unit_hash (\<lambda>_. True) reduce (\<lambda>_. True) ?W (two_segment 0 0 ?x ?x) (- 23) = ret p"
      "posdef (- 23) p" using m23_two_prover [OF g, of 0 ?x] by auto
  obtain r where r: "TwoWesolowskiProver gcdext_min unit_hash (\<lambda>_. True) reduce (\<lambda>_. True) ?W (two_segment 0 1 ?x ?y) (- 23) = ret r"
      "posdef (- 23) r" using m23_two_prover [OF g, of 1 ?y] by auto
  obtain q q' y y' z z' where q: "serialize_form p (num_bits (- 23)) = Some (q, q')" "serialize_form ?y (num_bits (- 23)) = Some (y, y')"
      "serialize_form r (num_bits (- 23)) = Some (z, z')"
    using m23_serialize [OF p(2)] m23_serialize [OF r(2)] m23_serialize [of ?y] by auto
  obtain pr where pr: "ProveTwoWeso gcdext_min unit_hash (\<lambda>_. True) reduce (\<lambda>_ _. False) (\<lambda>_ _. True) (- 23) (Suc (Suc 0)) ?x 1 0 ?W = Some pr"
      "proof_witness_type pr = 2"
    using p(1) r(1) q g m23_challenge
    by (simp add: ProveTwoWeso_last_def Let_def wait_finished_def ret_def repeated_square_original_def
        original_step_def m23_squares)
  have W: "\<forall>e\<le>1. \<exists>p s. p * (checkpoint_interval + 99) + checkpoint_interval < checkpoint_space * 2 ^ 16 \<and>
      repeated_square gcdext_min reduce lazy_engine False (- 23) p (rs_init ?x (Two (TwoWesolowskiCallback ?x))) = Some s \<and>
      e \<le> rs_reported s \<and> rs_weso s = Two (?W e)"
    using m23_two_run few_passes [of "Suc 0"] by (metis One_nat_def Suc_le_mono le0 numeral_le_iff one_le_numeral)
  have "CheckProofOfTimeNWesolowski gcdext_min unit_hash (\<lambda>_. True) reduce (- 23) gen_bytes (proof_y pr @ proof_proof pr)
      (int (length (proof_y pr @ proof_proof pr))) 1 (int (proof_witness_type pr)) = ret True"
    by (rule conjunct1 [OF two_weso_end_to_end [OF prime_disc_m23 gcdext_min_ok m23_serializable disjI2 [OF refl] m23_gen _ m23_serialized(1)
        lazy_engine_ok W _ _ pr(1) [folded numeral_2_eq_2]]]) (simp_all add: is_reduced_def)
  then show ?thesis using pr(2) by (intro exI [of _ "proof_y pr @ proof_proof pr"]) simp
qed

text \<open>C32: end to end for the prover manager: finished segments of reachable states of the manager
  (rounds of the event loop, steps of the proving threads and requests in any order), glued by
  \<open>Prove\<close> with the recomputed rest, are accepted by the verifier, on two conditions the code does
  not enforce.  No prover lags: each form it reads has been reported, and is read before its
  cell is written again 20 segments later, from the callback as the squaring loop or the storage
  workers left it; \<open>vdf.h\<close> only warns of a possible proof corruption.  And every segment
  \<open>Prove\<close> takes is a finished one.\<close>

theorem prove_end_to_end:
  assumes "prime_disc D" and "gcdext_ok G" and "gcdext_small G" and "serializable D" and "red = pulmark_reduce \<or> red = reduce"
    and "posdef D x" and "is_reduced x" and "serialize_form x (num_bits D) = Some (xs, x)" and "fast_spec D fast"
    and "checkpoints_ok D x cp" and "n \<le> run_limit" and "0 < count" and "count \<le> 15" and "0 < threads"
    and "\<forall>s f. pr s f \<longrightarrow> proved_in_time G H P red fast D x s f"
    and "\<forall>ds\<in>set attempts. \<exists>m. manager_reachable pr cp count threads m \<and> ds = mg_done m"
    and "\<forall>segs. prove_loop n attempts = Some segs \<longrightarrow> (\<forall>s\<in>set segs. \<not> seg_empty s)"
    and "Prove G H P red approx go cp D n attempts = Some out" and "out \<noteq> empty_proof"
  shows "CheckProofOfTimeNWesolowski G H P reduce D xs (proof_y out @ proof_proof out)
      (int (length (proof_y out @ proof_proof out))) n (int (proof_witness_type out)) = ret True \<and>
    CheckProofOfTimeNWesolowski G H P pulmark_reduce D xs (proof_y out @ proof_proof out)
      (int (length (proof_y out @ proof_proof out))) n (int (proof_witness_type out)) \<in> {None, ret True}"
proof -
  have red: "reducer_sound red"
    using assms(5) pulmark.reducer_sound_axioms exact.reducer_sound_axioms by blast
  have "ds \<noteq> [] \<and> done_ok (honest_segment H P D) cp (length ds) ds" if "ds \<in> set attempts" for ds
  proof -
    obtain m where m: "manager_reachable pr cp count threads m" "ds = mg_done m"
      using assms(16) \<open>ds \<in> set attempts\<close> by blast
    have "manager_inv (honest_segment H P D) cp count m"
      by (rule manager_honest [OF assms(1,2,6,7) red assms(9,10,15) m(1) assms(13,14)])
    then show ?thesis using m(2) assms(12) by (auto simp: manager_inv_def done_ok_def)
  qed
  then show ?thesis
    using prove_accepted [OF prime_disc_good [OF assms(1)] assms(2-4) red assms(6,8,10,11) _ assms(17-19)] by blast
qed

theorem prove_end_to_end_witness:
  "\<exists>s. CheckProofOfTimeNWesolowski gcdext_min unit_hash (\<lambda>_. True) reduce (- 23) gen_bytes s (int (length s)) 2 0 = ret True"
proof -
  let ?cp = "\<lambda>_ :: nat. mk_form 2 1 3"
  obtain p where p: "OneWesolowskiProver gcdext_min unit_hash (\<lambda>_. True) reduce (\<lambda>_. (10, 1)) (\<lambda>_. True) ((!) [mk_form 2 1 3])
     (m23_segment\<lparr>seg_proof := zero_form\<rparr>) (- 23) = ret p" "posdef (- 23) p"
    using m23_last_prover by blast
  have l: "last_segment gcdext_min unit_hash (\<lambda>_. True) reduce (\<lambda>_. (10, 1)) (\<lambda>_. True) ?cp (- 23) 2 =
      Some (Some (mk_form 2 1 3, [m23_segment\<lparr>seg_proof := p\<rparr>]))"
    using m23_last_loop p(1) by (simp add: last_segment_def checkpoint_def checkpoint_space_def ret_def)
  have a: "prove_loop 2 [mg_done (ProverManager 1 1)] = Some []"
    by (simp add: prove_attempt_def collect_segments_def take_bucket_def ProverManager_def floor_16_def)
  obtain q q' where q: "serialize_form p (num_bits (- 23)) = Some (q, q')" using m23_serialize [OF p(2)] by (elim exE)
  have pr: "Prove gcdext_min unit_hash (\<lambda>_. True) reduce (\<lambda>_. (10, 1)) (\<lambda>_. True) ?cp (- 23) 2 [mg_done (ProverManager 1 1)] =
      Some \<lparr>proof_y = gen_bytes, proof_proof = q, proof_witness_type = 0\<rparr>"
    using l a q m23_serialized(1) by (simp add: Prove_def proof_blob_def)
  let ?pr = "proved_in_time gcdext_min unit_hash (\<lambda>_. True) reduce lazy_engine (- 23) (mk_form 2 1 3)"
  have m: "\<forall>ds\<in>set [mg_done (ProverManager 1 1)]. \<exists>m. manager_reachable ?pr ?cp 1 1 m \<and> ds = mg_done m"
    using manager_reachable.start by fastforce
  have t: "\<forall>s f. ?pr s f \<longrightarrow> ?pr s f" by blast
  have "CheckProofOfTimeNWesolowski gcdext_min unit_hash (\<lambda>_. True) reduce (- 23) gen_bytes (gen_bytes @ q)
      (int (length (gen_bytes @ q))) 2 0 = ret True"
    using prove_end_to_end [OF prime_disc_m23 gcdext_min_ok m23_serializable disjI2 [OF refl] m23_gen _ m23_serialized(1)
        lazy_engine_ok m23_checkpoints _ _ _ _ t m _ pr] a
    by (simp add: run_limit_value empty_proof_def is_reduced_def del: prove_loop.simps)
  then show ?thesis by (rule exI)
qed

text \<open>C33: no segment is lost: after a round of the event loop every whole segment below the stored
  iterations is finished with a right proof, or has a prover, or is queued with its two
  checkpoints.  That the proofs are right rests on a condition the code does not enforce: no
  prover lags, each form it reads is read before its cell is written again, 20 segments later;
  \<open>vdf.h\<close> only warns of a possible proof corruption.\<close>

theorem no_segment_lost:
  assumes "prime_disc D" and "gcdext_ok G" and "posdef D x" and "is_reduced x" and "red = pulmark_reduce \<or> red = reduce"
    and "fast_spec D fast" and "checkpoints_ok D x cp"
    and "\<forall>s f. pr s f \<longrightarrow> proved_in_time G H P red fast D x s f"
    and "manager_reachable pr cp count threads m" and "count \<le> 15" and "0 < threads"
    and "stored \<le> run_limit" and "event_step multi cp iterations stored m = Some m'"
    and "i < count" and "(p + 1) * segment_size i \<le> stored"
  shows "(p < length (mg_done m' ! i) \<and> \<not> seg_empty (mg_done m' ! i ! p) \<and> is_segment cp i p (mg_done m' ! i ! p) \<and>
      honest_segment H P D (mg_done m' ! i ! p)) \<or>
    (\<exists>t s. (t, s) \<in> set (mg_provers m') \<and> is_segment cp i p s) \<or> seg_of cp i p \<in> set (mg_pending m' ! i)"
proof -
  have red: "reducer_sound red"
    using assms(5) pulmark.reducer_sound_axioms exact.reducer_sound_axioms by blast
  have m: "manager_inv (honest_segment H P D) cp count m"
    by (rule manager_honest [OF assms(1-4) red assms(6-11)])
  from event_step_inv [OF m assms(12), of multi iterations] assms(13)
  have m': "manager_inv (honest_segment H P D) cp count m'" and reach: "\<forall>i<count. stored < mg_last_appended m' ! i + segment_size i"
    by simp_all
  obtain n where n: "mg_last_appended m' ! i = n * segment_size i"
    using m' assms(14) by (auto simp: manager_inv_def bucket_ok_def)
  have "stored < n * segment_size i + segment_size i" using reach assms(14) unfolding n [symmetric] by blast
  then have "(p + 1) * segment_size i < (n + 1) * segment_size i" using assms(15) unfolding add_mult_distrib by linarith
  then have "p + 1 < n + 1" using segment_size_pos [of i] by (metis mult_less_cancel2)
  then have "(p + 1) * segment_size i \<le> n * segment_size i" by (intro mult_right_mono) simp_all
  then have "accounted cp m' i p \<or> seg_of cp i p \<in> set (mg_pending m' ! i)"
    using manager_accounts [OF m' assms(14)] n by simp
  then show ?thesis
    using m' assms(14) unfolding accounted_def manager_inv_def done_ok_def has_def by fastforce
qed

theorem no_segment_lost_witness:
  "\<exists>m'. event_step False (\<lambda>_. mk_form 2 1 3) 65536 65536 (ProverManager 1 1) = Some m' \<and>
     ((\<exists>s. s \<in> set (mg_done m' ! 0)) \<or> mg_provers m' \<noteq> [] \<or> mg_pending m' ! 0 \<noteq> [])"
proof -
  let ?pr = "proved_in_time gcdext_min unit_hash (\<lambda>_. True) reduce lazy_engine (- 23) (mk_form 2 1 3)"
  have inv: "manager_inv (honest_segment unit_hash (\<lambda>_. True) (- 23)) (\<lambda>_. mk_form 2 1 3) 1 (ProverManager 1 1)"
    by (rule manager_inv_start) simp_all
  have lim: "(65536 :: nat) \<le> run_limit" by (simp add: run_limit_value)
  obtain m' where m': "event_step False (\<lambda>_. mk_form 2 1 3) 65536 65536 (ProverManager 1 1) = Some m'"
    using event_step_inv [OF inv lim] by blast
  have t: "\<forall>s f. ?pr s f \<longrightarrow> ?pr s f" by blast
  have r: "is_reduced (mk_form 2 1 3)" by (simp add: is_reduced_def)
  show ?thesis
    using no_segment_lost [OF prime_disc_m23 gcdext_min_ok(1) m23_gen r disjI2 [OF refl] lazy_engine_ok m23_checkpoints t
        manager_reachable.start _ _ lim m', of 0 0] m' by (fastforce simp: segment_size_def)
qed

text \<open>C34: in every reachable state a round of the event loop returns, and afterwards the best
  segments run: nothing waits, or all threads are taken and no running segment is worse than a
  paused or queued one.\<close>

theorem scheduler_picks_best:
  assumes "manager_reachable pr cp count threads m" and "count \<le> 15" and "0 < threads" and "stored \<le> run_limit"
  shows "\<exists>m'. event_step multi cp iterations stored m = Some m' \<and>
    (waiting m' = {} \<or>
     mg_max_threads m' \<le> active_provers m' \<and> (\<forall>r\<in>running m'. \<forall>s\<in>waiting m'. \<not> IsWorseThan r s))"
proof -
  have "manager_inv (\<lambda>_. True) cp count m" by (rule manager_reachable_inv [OF assms(1-3)]) simp
  from event_step_inv [OF this assms(4), of multi iterations] show ?thesis by (auto simp: well_scheduled_def)
qed

theorem scheduler_picks_best_witness:
  "\<exists>m'. event_step False (\<lambda>_. mk_form 2 1 3) 200000 200000 (ProverManager 2 1) = Some m'"
  using scheduler_picks_best [OF manager_reachable.start [where count = 2 and threads = 1], of 200000]
  by (fastforce simp: run_limit_value)

text \<open>C35: the iterations the event loop announces as provable are covered exactly by at most 63
  adjacent finished segments.\<close>

theorem max_proving_covered:
  "\<exists>segs. covers ds 0 segs (max_proving ds) \<and> list_all (\<lambda>s. \<not> seg_empty s) segs \<and> length segs \<le> 63"
  using max_proving_covers [of ds] by (simp add: list_all_iff)

text \<open>C36: \<open>Prove\<close> does not share the test of the event loop for placeholders: when the second
  large segment is finished before the first, the event loop counts the four small ones, and
  \<open>Prove\<close> takes the placeholder.\<close>

theorem prove_uses_unfinished:
  assumes "\<forall>s\<in>set small. \<not> seg_empty s" and "length small = 4"
  shows "max_proving [small, [empty_segment, e]] = 2 ^ 18 \<and>
    prove_attempt (2 ^ 18) [small, [empty_segment, e]] = Some [empty_segment]"
proof -
  obtain a b c d where "small = [a, b, c, d]"
    using assms(2) by (auto simp: numeral_eq_Suc length_Suc_conv)
  then show ?thesis using prove_takes_placeholder [of a b c d e] assms(1) by simp
qed

theorem prove_uses_unfinished_witness:
  "prove_attempt (2 ^ 18) [replicate 4 m23_segment, [empty_segment, m23_segment]] = Some [empty_segment]"
  using prove_uses_unfinished [of "replicate 4 m23_segment" m23_segment] by simp

text \<open>C37: until a prover is stopped its flags tell the truth under every interleaving: a finished
  one has a proof, the event is raised only by a finished one, and a fully finished one has
  left, so that the event loop may erase it.  Only a thread whose identity form threw leaves
  without being fully finished: it is not finished either, has no proof, and no flag of it will
  change by itself.\<close>

theorem thread_flags_truthful:
  assumes "thread_reachable s" and "control s = Controlling"
  shows "(is_finished s \<longrightarrow> thread_proof s \<noteq> None) \<and> (new_event s \<longrightarrow> is_finished s) \<and>
    (is_fully_finished s \<longrightarrow> worker s = Exited \<and> is_finished s) \<and>
    (worker s = Exited \<and> \<not> is_fully_finished s \<longrightarrow>
       \<not> is_finished s \<and> thread_proof s = None \<and> \<not> new_event s \<and> (\<nexists>s'. worker_step s s'))"
proof -
  have inv: "thread_inv s" by (rule thread_reachable_inv [OF assms(1)])
  have "\<nexists>s'. worker_step s s'" if "worker s = Exited" using that by (auto elim: worker_stepE)
  then show ?thesis using inv assms(2) by (auto simp: thread_inv_def)
qed

theorem thread_flags_truthful_witness:
  "thread_proof (fully_flag (signal_event (finish_flag (store_proof zero_form (thread_start\<lparr>worker := Working\<rparr>))))) \<noteq> None"
proof -
  let ?s = "thread_start\<lparr>worker := Working\<rparr>"
  let ?a = "store_proof zero_form ?s" and ?b = "finish_flag (store_proof zero_form ?s)"
  have "thread_reachable ?s" by (rule thread_reachable.work [OF thread_reachable.start identity_ready]) (simp add: thread_defs)
  then have "thread_reachable ?a" by (rule thread_reachable.work [OF _ computed]) (simp add: thread_defs)
  then have "thread_reachable ?b" by (rule thread_reachable.work [OF _ finish]) (simp add: thread_defs)
  then have "thread_reachable (signal_event ?b)" by (rule thread_reachable.work [OF _ signal]) (simp add: thread_defs)
  then have "thread_reachable (fully_flag (signal_event ?b))" by (rule thread_reachable.work [OF _ fully]) (simp add: thread_defs)
  from thread_flags_truthful [OF this] show ?thesis by (simp add: thread_defs)
qed

text \<open>C38: once \<open>stop\<close> has released the mutex the proving thread cannot wait any more, and leaves
  after at most five steps, so the join returns.\<close>

theorem thread_stops:
  assumes "thread_reachable s" and "control s = Joining"
  shows "(worker s \<noteq> Exited \<longrightarrow> (\<exists>s'. worker_step s s')) \<and> (\<forall>n s'. (worker_step ^^ n) s s' \<longrightarrow> n \<le> 5)"
proof -
  have inv: "thread_inv s" by (rule thread_reachable_inv [OF assms(1)])
  have "n \<le> 5" if "(worker_step ^^ n) s s'" for n s'
    using worker_steps_stopped [OF that inv assms(2)] worker_rank_5 [of "worker s"] by simp
  then show ?thesis using worker_step_enabled [OF inv assms(2)] by blast
qed

theorem thread_stops_witness:
  "\<exists>s'. worker_step (stop_fully (stop_finished (pause (check_finished (thread_start\<lparr>worker := Working\<rparr>))))) s'"
proof -
  let ?s = "thread_start\<lparr>worker := Working\<rparr>"
  let ?a = "check_finished ?s" and ?b = "pause (check_finished ?s)"
  have "thread_reachable ?s" by (rule thread_reachable.work [OF thread_reachable.start identity_ready]) (simp add: thread_defs)
  then have "thread_reachable ?a" by (rule thread_reachable.work [OF _ extra_step]) (simp add: thread_defs)
  then have "thread_reachable ?b" by (rule thread_reachable.command [OF _ control_step.pause]) (simp add: thread_defs)
  then have "thread_reachable (stop_finished ?b)" by (rule thread_reachable.command [OF _ stop1]) (simp add: thread_defs)
  then have "thread_reachable (stop_fully (stop_finished ?b))" by (rule thread_reachable.command [OF _ stop2]) (simp add: thread_defs)
  from thread_stops [OF this] show ?thesis by (simp add: thread_defs)
qed

text \<open>C39: the storage workers, as long as none of them lags: in every reachable state, in whatever order
  six workers, the squaring loop and the event loop have taken their steps, if no worker has ever stored
  a form 19 small segments behind the furthest one, a form that has been stored and whose cell is not
  yet reused is read as the power it stands for; and all forms below the iteration
  \<open>GetFinishedSegment\<close> reports have been stored.  The code does not enforce the condition.\<close>

theorem stored_forms_readable:
  assumes "good_disc D" and "gcdext_ok G" and "posdef D x" and "red = pulmark_reduce \<or> red = reduce"
    and "0 < segments" and "segments \<le> 15" and "FastAlgorithmCallback segments x True = Some w0"
    and "storage_reachable G red D x w0 m lag s" and "lag \<le> worker_window"
    and "passed s e \<or> (\<exists>n s'. GetFinishedSegment s = Some (n, s') \<and> e < n)"
    and "on_grid b e" and "b < fw_segments (fs_weso s)" and "m < (e div power_2 b + 20) * power_2 b"
  shows "\<exists>f. fast_get_form e b (fs_weso s) = Some f \<and> pw D x (2 ^ e) f"
proof -
  have red: "reducer_sound red"
    using assms(4) pulmark.reducer_sound_axioms exact.reducer_sound_axioms by blast
  have inv: "storage_inv D x m s"
    by (rule storage_reachable_inv [OF assms(8,1-3) red assms(5-7,9)])
  then have "passed s e" using assms(10) storage_collect by blast
  then show ?thesis by (rule passed_readable [OF inv _ assms(11-13)])
qed

theorem stored_forms_readable_witness:
  "\<exists>m s f. storage_reachable gcdext_min reduce (- 23) (mk_form 2 1 3) (the (FastAlgorithmCallback 1 (mk_form 2 1 3) True)) m 0 s \<and>
     fast_get_form 0 0 (fs_weso s) = Some f \<and> class_pow (- 23) (mk_form 2 1 3) 1 f"
proof -
  let ?x = "mk_form 2 1 3"
  obtain w0 where w0: "FastAlgorithmCallback 1 ?x True = Some w0" using m23_storage by blast
  let ?r = "storage_reachable gcdext_min reduce (- 23) ?x w0"
  let ?s1 = "(SubmitCheckpoint ?x 0 (FastStorage_init w0))\<lparr>fs_pending := [], fs_workers := [(0, 0, ?x)]\<rparr>"
  have p: "pw (- 23) ?x (2 ^ 0) ?x" using class_pow_1 [OF good_disc_m23 m23_gen] by (simp add: pw_def)
  have "?r 0 0 (SubmitCheckpoint ?x 0 (FastStorage_init w0))"
    by (rule storage_reachable.submit [OF storage_reachable.start _ p]) simp
  then have r1: "?r 0 0 ?s1"
    by (rule storage_reachable.take) (simp_all add: FastStorage_init_def SubmitCheckpoint_def take_pending_def intermediates_threads_def)
  have sh: "fast_shape w0" "fw_segments w0 = 1"
    using fast_initial [OF good_disc_m23 m23_gen _ _ w0] by (simp_all add: fast_ok_def)
  obtain y w where st: "inner_step gcdext_min reduce (- 23) (\<lambda>_ _. False) 0 (?x, w0) = ret (y, w)" "same_frame w0 w"
    using holds_total [OF inner_step_ok [OF good_disc_m23 gcdext_min_ok(1) m23_gen exact.reducer_sound_axioms _ sh(1) _ _ _ _ p,
        where t = True and S = "\<lambda>_. False" and m = 0 and stop = "\<lambda>_ _. False"]] exact.reducer_total_axioms by (auto simp: forms_in_def)
  have r2: "?r (max 0 0) (max 0 (0 - 0)) (?s1\<lparr>fs_weso := w, fs_workers := (fs_workers ?s1)[0 := (0, Suc 0, y)]\<rparr>)"
    by (rule storage_reachable.work [OF r1]) (use st(1) in \<open>simp_all add: FastStorage_init_def SubmitCheckpoint_def\<close>)
  let ?s2 = "?s1\<lparr>fs_weso := w, fs_workers := (fs_workers ?s1)[0 := (0, Suc 0, y)]\<rparr>"
  have "passed ?s2 0" by (simp add: passed_def)
  moreover have "on_grid 0 0" by (simp add: on_grid_def)
  moreover have "0 < fw_segments (fs_weso ?s2)" using st(2) sh(2) by (simp add: same_frame_def)
  ultimately obtain f where "fast_get_form 0 0 (fs_weso ?s2) = Some f" "pw (- 23) ?x (2 ^ 0) f"
    using stored_forms_readable [OF good_disc_m23 gcdext_min_ok(1) m23_gen disjI2 [OF refl] _ _ w0 r2, of 0 0]
    by (auto simp del: fast_storage.simps)
  then show ?thesis using r2 w0 by (intro exI conjI) (auto simp: pw_def)
qed

text \<open>C40: the primality test behind every challenge never declares a prime above 500 composite,
  if the table of small primes does not contain it and the search for Lucas parameters
  succeeds: the Miller-Rabin round to base 2 and the Lucas-V round both accept it, the latter
  because the doubling of \<open>find_lucas_v\<close> computes \<open>V_(n+1)\<close>, which is \<open>2Q\<close> modulo \<open>n\<close>.\<close>

theorem prime_not_rejected:
  assumes "prime_number n" and "500 < n" and "\<forall>p\<in>set (take (n_pprods n) pprods). \<not> n dvd p"
    and "legendre_ok J n" and "find_pq J n \<noteq> None"
  shows "is_prime_bpsw J n = Some 2 \<and> miller_rabin n 2 = Some True \<and> is_vprp J n"
proof -
  have r: "is_prime_bpsw J n = Some 2" by (rule is_prime_bpsw_prime [OF assms])
  then have "miller_rabin n 2 = Some True" "is_vprp J n"
    by (auto simp: is_prime_bpsw_def Option.bind_eq_Some_conv split: if_splits)
  then show ?thesis using r by simp
qed

theorem prime_not_rejected_witness: "is_prime_bpsw euler_symbol 503 = Some 2"
  using prime_not_rejected [OF prime_503 _ table_503 euler_503] by simp

end
